(* ===== verification/Prelude.thy ===== *)
theory Prelude
  imports Main "HOL-Library.Word"
begin

text \<open>
  Shared vocabulary of the development: the machine-integer types of
  \<^verbatim>\<open>common/src/types/primitive_types.hpp\<close>, the array type that stands for
  \<^verbatim>\<open>HugeArray\<close> and for the plain C arrays, the rule collections of the component
  theories, and the word and list lemmas more than one component uses.
\<close>

unbundle bit_operations_syntax

section \<open>Machine integers and arrays\<close>

type_synonym u8 = "8 word"
type_synonym u16 = "16 word"
type_synonym u32 = "32 word"
type_synonym u64 = "64 word"

text \<open>
  An array is a total function of its index. HugeArray memory is zero-filled by
  \<^verbatim>\<open>allocHuge\<close> (\<^verbatim>\<open>warmMemory(ptr, size, true)\<close> calls memset), so the initial array
  is constant. Reads and writes outside the declared capacity are undefined behaviour in
  C++; the components prove that they never happen instead of giving them a value.
\<close>

type_synonym ('i, 'a) array = "'i \<Rightarrow> 'a"

named_theorems unat_norm \<open>rewrite word facts to facts about unat\<close>
named_theorems inv_intros \<open>introduction rules for component invariants\<close>
named_theorems op_defs \<open>definitions of the modelled operations\<close>

section \<open>Words\<close>

lemma unat_less_trans32: "(a::u32) < b \<Longrightarrow> unat a < unat b"
  by (simp add: word_less_nat_alt)

lemma unat_Suc_less:
  fixes a b :: "'a::len word"
  assumes "a < b"
  shows "unat (a + 1) = Suc (unat a)"
proof -
  have "unat a < unat b" using assms by (simp add: word_less_nat_alt)
  then have "unat a + 1 < 2 ^ LENGTH('a)"
    using unsigned_less[of b, where 'a = nat] by linarith
  then show ?thesis by (simp add: unat_word_ariths)
qed

lemma unat_pred_pos:
  fixes a :: "'a::len word"
  assumes "0 < a"
  shows "unat (a - 1) = unat a - 1"
proof -
  have "(1 :: 'a word) \<le> a"
    using assms word_le_sub1 by (metis inc_le add_0)
  then show ?thesis
    by (metis unat_sub unsigned_1)
qed

lemma unat_min [unat_norm]: "unat (min a b) = min (unat a) (unat (b :: 'a::len word))"
  by (simp add: min_def word_le_nat_alt)

lemma unat_max [unat_norm]: "unat (max a b) = max (unat a) (unat (b :: 'a::len word))"
  by (simp add: max_def word_le_nat_alt)

lemma word_gt_0_unat: "(0 :: 'a::len word) < a \<longleftrightarrow> 0 < unat a"
  by (simp add: word_less_nat_alt)

lemma unat_ucast_up_u64 [simp]: "unat (ucast (x :: u32) :: u64) = unat x"
  by (simp add: unsigned_ucast_eq take_bit_nat_eq_self_iff)
     (rule order.strict_trans [OF unsigned_less], simp)

lemma ucast_u64_zero_iff [simp]: "(ucast (x :: u32) :: u64) = 0 \<longleftrightarrow> x = 0"
  by (metis unat_0 unat_eq_zero unat_ucast_up_u64)

section \<open>Lists\<close>

lemma sum_list_le_length_mult:
  fixes f :: "'a \<Rightarrow> nat"
  assumes "\<And>x. x \<in> set xs \<Longrightarrow> f x \<le> c"
  shows "sum_list (map f xs) \<le> length xs * c"
  using assms by (induction xs) (auto simp: add_le_mono)

lemma distinct_length_le_card:
  assumes "distinct xs" and "set xs \<subseteq> A" and "finite A"
  shows "length xs \<le> card A"
  using assms by (metis card_mono distinct_card)

lemma find_upt_Some:
  "find P [i..<j] = Some k \<longleftrightarrow> i \<le> k \<and> k < j \<and> P k \<and> (\<forall>m. i \<le> m \<longrightarrow> m < k \<longrightarrow> \<not> P m)"
  (is "?l \<longleftrightarrow> ?r")
proof
  assume ?l
  then obtain n where "n < length [i..<j]" "k = [i..<j] ! n" "P k"
    "\<forall>m<n. \<not> P ([i..<j] ! m)"
    by (auto simp: find_Some_iff)
  then show ?r
    by (auto, metis add_diff_inverse_nat less_diff_conv less_trans linorder_not_less nat_add_left_cancel_less nth_upt add.commute)
next
  assume ?r
  then show ?l
    by (auto simp: find_Some_iff intro!: exI[of _ "k - i"])
qed

lemma find_upt_None: "find P [i..<j] = None \<longleftrightarrow> (\<forall>k. i \<le> k \<longrightarrow> k < j \<longrightarrow> \<not> P k)"
  by (auto simp: find_None_iff)

end
