(* ===== verification/Slot_Id.thy ===== *)
theory Slot_Id
  imports Prelude
begin

text \<open>
  The versioned handle \<^verbatim>\<open>SlotId<MaxCapacity>\<close> of \<^verbatim>\<open>common/src/id/slot_id.hpp\<close>: an index in
  the low \<^verbatim>\<open>IndexBits\<close> bits of a 32-bit word and a generation counter in the rest.
  The template parameter is the first argument of every definition. The theory shows that
  index and generation are independent fields, that \<^verbatim>\<open>nextGen\<close> keeps the index and never
  yields the invalid generation 0, and how long a stale handle stays distinguishable.
\<close>

section \<open>Definitions\<close>

text \<open>\<^verbatim>\<open>__builtin_clz\<close> on an argument that is not 0 (on 0 the C++ builtin is undefined).\<close>

definition clz :: "'a::len word \<Rightarrow> nat" where
  "clz w = (case find (bit w) (rev [0..<LENGTH('a)]) of
              Some i \<Rightarrow> LENGTH('a) - 1 - i | None \<Rightarrow> LENGTH('a))"

definition bitWidth :: "u32 \<Rightarrow> nat" where
  "bitWidth x = (if x = 0 then 0 else 32 - clz (x - 1))"

definition MAX_SYSTEM_ORDERS :: u32 where "MAX_SYSTEM_ORDERS = push_bit 24 1"
definition MAX_BOOK_ORDERS :: u32 where "MAX_BOOK_ORDERS = push_bit 17 1"
definition MAX_TICKS :: u32 where "MAX_TICKS = push_bit 13 1"

definition IndexBits :: "u32 \<Rightarrow> nat" where
  "IndexBits MaxCapacity = bitWidth MaxCapacity"

definition GenBits :: "u32 \<Rightarrow> nat" where
  "GenBits MaxCapacity = 32 - IndexBits MaxCapacity"

definition INDEX_MASK :: "u32 \<Rightarrow> u32" where
  "INDEX_MASK MaxCapacity = push_bit (IndexBits MaxCapacity) 1 - 1"

definition GEN_MASK :: "u32 \<Rightarrow> u32" where
  "GEN_MASK MaxCapacity = push_bit (GenBits MaxCapacity) 1 - 1"

type_synonym SlotId = u32

definition slot_make :: "u32 \<Rightarrow> u32 \<Rightarrow> u32 \<Rightarrow> SlotId" where
  "slot_make cap index gen =
     push_bit (IndexBits cap) (gen AND GEN_MASK cap) OR (index AND INDEX_MASK cap)"

definition slot_index :: "u32 \<Rightarrow> SlotId \<Rightarrow> u32" where
  "slot_index cap value = value AND INDEX_MASK cap"

definition slot_gen :: "u32 \<Rightarrow> SlotId \<Rightarrow> u32" where
  "slot_gen cap value = drop_bit (IndexBits cap) value AND GEN_MASK cap"

definition slot_isValid :: "u32 \<Rightarrow> SlotId \<Rightarrow> bool" where
  "slot_isValid cap value \<longleftrightarrow> slot_gen cap value \<noteq> 0"

definition nextGen :: "u32 \<Rightarrow> SlotId \<Rightarrow> SlotId" where
  "nextGen cap value =
     (let g = (slot_gen cap value + 1) AND GEN_MASK cap;
          g = (if g = 0 then 1 else g)
      in (value AND INDEX_MASK cap) OR push_bit (IndexBits cap) g)"

text \<open>The two instances of \<^verbatim>\<open>server/src/schema.hpp\<close>.\<close>

abbreviation SystemOrderId_cap :: u32 where "SystemOrderId_cap \<equiv> MAX_SYSTEM_ORDERS"
abbreviation BookOrderId_cap :: u32 where "BookOrderId_cap \<equiv> MAX_BOOK_ORDERS"

text \<open>The \<^verbatim>\<open>static_assert\<close>s of the class: at least one index bit and one generation bit.\<close>

definition slot_cap_ok :: "u32 \<Rightarrow> bool" where
  "slot_cap_ok cap \<longleftrightarrow> 0 < IndexBits cap \<and> IndexBits cap < 32 \<and> 1 \<le> GenBits cap"

lemma IndexBits_system: "IndexBits MAX_SYSTEM_ORDERS = 24"
  by code_simp

lemma IndexBits_book: "IndexBits MAX_BOOK_ORDERS = 17"
  by code_simp

lemma slot_cap_ok_system [simp]: "slot_cap_ok MAX_SYSTEM_ORDERS"
  by (simp add: slot_cap_ok_def IndexBits_system GenBits_def)

lemma slot_cap_ok_book [simp]: "slot_cap_ok MAX_BOOK_ORDERS"
  by (simp add: slot_cap_ok_def IndexBits_book GenBits_def)

section \<open>Fields\<close>

lemma INDEX_MASK_mask: "INDEX_MASK cap = mask (IndexBits cap)"
  by (simp add: INDEX_MASK_def mask_eq_decr_exp push_bit_eq_mult)

lemma GEN_MASK_mask: "GEN_MASK cap = mask (GenBits cap)"
  by (simp add: GEN_MASK_def mask_eq_decr_exp push_bit_eq_mult)

lemma unat_mask32: "n \<le> 32 \<Longrightarrow> unat (mask n :: u32) = 2 ^ n - 1"
proof -
  assume "n \<le> 32"
  have "unat (mask n :: u32) = take_bit n (mask 32)"
    by (simp only: take_bit_minus_one_eq_mask [symmetric] unsigned_take_bit_eq
        unsigned_minus_1_eq_mask) simp
  also have "\<dots> = (2::nat) ^ n - 1"
    using \<open>n \<le> 32\<close> by (simp only: take_bit_of_mask) (simp add: min_def mask_eq_exp_minus_1)
  finally show ?thesis .
qed

lemma slot_index_take_bit: "slot_index cap v = take_bit (IndexBits cap) v"
  by (simp add: slot_index_def INDEX_MASK_mask take_bit_eq_mask)

lemma slot_gen_drop_bit:
  assumes "slot_cap_ok cap"
  shows "slot_gen cap v = drop_bit (IndexBits cap) v"
proof (rule bit_word_eqI)
  fix n assume "n < LENGTH(32)"
  show "bit (slot_gen cap v) n \<longleftrightarrow> bit (drop_bit (IndexBits cap) v) n"
    using bit_imp_le_length[of v "IndexBits cap + n"]
    by (auto simp: slot_gen_def GEN_MASK_mask bit_simps GenBits_def)
qed

lemma unat_slot_index: "unat (slot_index cap v) = unat v mod 2 ^ IndexBits cap"
  by (simp add: slot_index_take_bit unsigned_take_bit_eq flip: take_bit_eq_mod)

lemma unat_slot_gen: "slot_cap_ok cap \<Longrightarrow> unat (slot_gen cap v) = unat v div 2 ^ IndexBits cap"
  by (simp add: slot_gen_drop_bit unat_drop_bit_eq flip: drop_bit_eq_div)

lemma slot_index_le_mask: "slot_index cap v \<le> INDEX_MASK cap"
  by (simp add: slot_index_def word_and_le1)

lemma slot_gen_le_mask: "slot_gen cap v \<le> GEN_MASK cap"
  by (simp add: slot_gen_def word_and_le1)

lemma slot_eqI:
  assumes "slot_cap_ok cap" "slot_index cap a = slot_index cap b" "slot_gen cap a = slot_gen cap b"
  shows "a = b"
proof -
  have "unat a = unat b"
    by (metis assms div_mult_mod_eq unat_slot_gen unat_slot_index)
  then show ?thesis by (simp add: word_unat_eq_iff)
qed

lemma slot_index_compose:
  "slot_index cap ((i AND INDEX_MASK cap) OR push_bit (IndexBits cap) g) = i AND INDEX_MASK cap"
  by (rule bit_word_eqI) (auto simp: slot_index_def INDEX_MASK_mask bit_simps)

lemma le_GEN_MASK_and: "g \<le> GEN_MASK cap \<Longrightarrow> g AND GEN_MASK cap = g"
proof -
  assume "g \<le> GEN_MASK cap"
  then have "unat g \<le> unat (mask (GenBits cap) :: u32)"
    by (simp add: GEN_MASK_mask word_le_nat_alt)
  also have "\<dots> = 2 ^ GenBits cap - 1"
    by (rule unat_mask32) (simp add: GenBits_def)
  finally have "take_bit (GenBits cap) (unat g) = unat g"
    by (simp add: take_bit_nat_eq_self_iff) (metis Suc_pred le_imp_less_Suc zero_less_numeral zero_less_power)
  then show ?thesis
    by (simp add: GEN_MASK_mask word_unat_eq_iff unsigned_take_bit_eq flip: take_bit_eq_mask)
qed

lemma slot_gen_compose:
  assumes "slot_cap_ok cap" "g \<le> GEN_MASK cap"
  shows "slot_gen cap ((i AND INDEX_MASK cap) OR push_bit (IndexBits cap) g) = g"
proof -
  have "slot_gen cap ((i AND INDEX_MASK cap) OR push_bit (IndexBits cap) g) = g AND GEN_MASK cap"
    by (rule bit_word_eqI)
       (auto simp: slot_gen_def INDEX_MASK_mask GEN_MASK_mask bit_simps GenBits_def)
  then show ?thesis using le_GEN_MASK_and[OF assms(2)] by simp
qed

lemma le_INDEX_MASK_and: "i \<le> INDEX_MASK cap \<Longrightarrow> IndexBits cap \<le> 32 \<Longrightarrow> i AND INDEX_MASK cap = i"
proof -
  assume "i \<le> INDEX_MASK cap" and ib: "IndexBits cap \<le> 32"
  then have "unat i \<le> unat (mask (IndexBits cap) :: u32)"
    by (simp add: INDEX_MASK_mask word_le_nat_alt)
  also have "\<dots> = 2 ^ IndexBits cap - 1"
    by (rule unat_mask32 [OF ib])
  finally have "take_bit (IndexBits cap) (unat i) = unat i"
    by (simp add: take_bit_nat_eq_self_iff) (metis Suc_pred le_imp_less_Suc zero_less_numeral zero_less_power)
  then show ?thesis
    by (simp add: INDEX_MASK_mask word_unat_eq_iff unsigned_take_bit_eq flip: take_bit_eq_mask)
qed

section \<open>Constructors and the generation step\<close>

lemma slot_make_fields:
  assumes "slot_cap_ok cap" "i \<le> INDEX_MASK cap" "g \<le> GEN_MASK cap"
  shows "slot_index cap (slot_make cap i g) = i" "slot_gen cap (slot_make cap i g) = g"
  using assms slot_index_compose[of cap i g] slot_gen_compose[of cap g i]
  by (simp_all add: slot_make_def le_GEN_MASK_and or.commute le_INDEX_MASK_and slot_cap_ok_def)

lemma slot_make_index_gen: "slot_cap_ok cap \<Longrightarrow> slot_make cap (slot_index cap v) (slot_gen cap v) = v"
  by (rule slot_eqI [where cap = cap])
     (simp_all add: slot_make_fields slot_index_le_mask slot_gen_le_mask)

lemma slot_index_nextGen [simp]: "slot_index cap (nextGen cap v) = slot_index cap v"
  by (simp add: nextGen_def Let_def slot_index_compose) (simp add: slot_index_def)

lemma unat_GEN_MASK: "unat (GEN_MASK cap) = 2 ^ GenBits cap - 1"
  unfolding GEN_MASK_mask by (rule unat_mask32) (simp add: GenBits_def)

lemma one_le_GEN_MASK: "slot_cap_ok cap \<Longrightarrow> 1 \<le> GEN_MASK cap"
proof -
  assume "slot_cap_ok cap"
  then have "(2::nat) ^ 1 \<le> 2 ^ GenBits cap"
    by (intro power_increasing) (auto simp: slot_cap_ok_def)
  then show ?thesis
    by (simp add: word_le_nat_alt unat_GEN_MASK)
qed

lemma slot_gen_nextGen:
  assumes "slot_cap_ok cap"
  shows "slot_gen cap (nextGen cap v) =
    (if (slot_gen cap v + 1) AND GEN_MASK cap = 0 then 1 else (slot_gen cap v + 1) AND GEN_MASK cap)"
  using assms one_le_GEN_MASK[OF assms]
  by (simp add: nextGen_def Let_def slot_gen_compose word_and_le1)

lemma slot_isValid_nextGen [simp]: "slot_cap_ok cap \<Longrightarrow> slot_isValid cap (nextGen cap v)"
  by (simp add: slot_isValid_def slot_gen_nextGen)

section \<open>Reuse of a handle\<close>

lemma unat_slot_gen_nextGen:
  assumes ok: "slot_cap_ok cap" and v: "slot_isValid cap v"
  shows "unat (slot_gen cap (nextGen cap v)) = unat (slot_gen cap v) mod (2 ^ GenBits cap - 1) + 1"
proof -
  let ?g = "slot_gen cap v" and ?N = "2 ^ GenBits cap :: nat"
  have le: "unat ?g \<le> ?N - 1"
    using slot_gen_le_mask[of cap v] by (simp add: word_le_nat_alt unat_GEN_MASK)
  have N: "2 \<le> ?N" "?N \<le> 2 ^ 31"
    using ok one_le_GEN_MASK[OF ok] power_increasing[of "GenBits cap" 31 "2 :: nat"]
    by (auto simp: word_le_nat_alt unat_GEN_MASK slot_cap_ok_def GenBits_def)
  have "unat (?g + 1) = unat ?g + 1"
    using le N by (subst unat_plus_if_size) (simp add: word_size)
  then have nxt: "unat ((?g + 1) AND GEN_MASK cap) = (unat ?g + 1) mod ?N"
    by (simp add: GEN_MASK_mask unsigned_take_bit_eq take_bit_eq_mod flip: take_bit_eq_mask)
       (simp flip: take_bit_eq_mod add: unsigned_take_bit_eq)?
  show ?thesis
  proof (cases "unat ?g = ?N - 1")
    case True
    then have "unat ((?g + 1) AND GEN_MASK cap) = 0" using nxt N by simp
    then have "(?g + 1) AND GEN_MASK cap = 0" by (simp add: unat_0_iff)
    then show ?thesis using ok True by (simp add: slot_gen_nextGen)
  next
    case False
    with le N have lt: "unat ?g + 1 < ?N" by simp
    then have "unat ((?g + 1) AND GEN_MASK cap) = unat ?g + 1" using nxt by simp
    then have "unat (slot_gen cap (nextGen cap v)) = unat ?g + 1"
      using ok by (auto simp: slot_gen_nextGen unat_0_iff)
    then show ?thesis using lt by simp
  qed
qed

lemma iterate_nextGen:
  assumes ok: "slot_cap_ok cap" and v: "slot_isValid cap v"
  shows "slot_isValid cap ((nextGen cap ^^ k) v) \<and> slot_index cap ((nextGen cap ^^ k) v) = slot_index cap v \<and>
    unat (slot_gen cap ((nextGen cap ^^ k) v)) =
      (unat (slot_gen cap v) - 1 + k) mod (2 ^ GenBits cap - 1) + 1"
proof (induction k)
  case 0
  have "0 < unat (slot_gen cap v)" using v by (simp add: slot_isValid_def unat_gt_0)
  moreover have "unat (slot_gen cap v) \<le> 2 ^ GenBits cap - 1"
    using slot_gen_le_mask[of cap v] by (simp add: word_le_nat_alt unat_GEN_MASK)
  ultimately show ?case using v by simp
next
  case (Suc k)
  then show ?case
    using ok by (simp add: unat_slot_gen_nextGen mod_Suc_eq add.commute)
qed

text \<open>C11. The ABA window of a handle: advancing a valid handle \<open>k\<close> times gives the same
  32-bit value exactly when \<open>k\<close> is a multiple of the number of non-zero generations. A
  stale handle is therefore told apart from every later owner of its slot for
  \<open>2 ^ GenBits - 2\<close> reuses, and is indistinguishable at the next one.\<close>

theorem nextGen_cycle:
  assumes "slot_cap_ok cap" and "slot_isValid cap v"
  shows "(nextGen cap ^^ k) v = v \<longleftrightarrow> (2 ^ GenBits cap - 1) dvd k"
proof -
  let ?G = "2 ^ GenBits cap - 1 :: nat" and ?g = "unat (slot_gen cap v)"
  note it = iterate_nextGen[OF assms, of k]
  have pos: "0 < ?g" using assms by (simp add: slot_isValid_def unat_gt_0)
  have le: "?g \<le> ?G"
    using slot_gen_le_mask[of cap v] by (simp add: word_le_nat_alt unat_GEN_MASK)
  have lt: "?g - 1 < ?G" using pos le by linarith
  have "(nextGen cap ^^ k) v = v \<longleftrightarrow> unat (slot_gen cap ((nextGen cap ^^ k) v)) = ?g"
    using it slot_eqI[OF assms(1), of "(nextGen cap ^^ k) v" v] by (metis word_unat_eq_iff)
  also have "\<dots> \<longleftrightarrow> (?g - 1 + k) mod ?G = ?g - 1"
    using it pos by auto
  also have "\<dots> \<longleftrightarrow> ?G dvd k"
    using lt mod_eq_dvd_iff_nat[of "?g - 1" "?g - 1 + k" ?G] by simp
  finally show ?thesis .
qed

theorem nextGen_cycle_witness:
  "(nextGen MAX_SYSTEM_ORDERS ^^ 255) (slot_make MAX_SYSTEM_ORDERS 7 1) = slot_make MAX_SYSTEM_ORDERS 7 1 \<and>
   (nextGen MAX_SYSTEM_ORDERS ^^ 254) (slot_make MAX_SYSTEM_ORDERS 7 1) \<noteq> slot_make MAX_SYSTEM_ORDERS 7 1"
proof -
  have v: "slot_isValid MAX_SYSTEM_ORDERS (slot_make MAX_SYSTEM_ORDERS 7 1)" by code_simp
  have g: "GenBits MAX_SYSTEM_ORDERS = 8" by code_simp
  show ?thesis
    using nextGen_cycle[OF slot_cap_ok_system v, of 255] nextGen_cycle[OF slot_cap_ok_system v, of 254]
    by (simp add: g)
qed

end
