(* ===== verification/Domain_Types.thy ===== *)
theory Domain_Types
  imports Slot_Id
begin

text \<open>
  The message and event types the components exchange:
  \<^verbatim>\<open>common/src/types/{primitive_types,domain_types,ticker,status_code,io_result,internal_error}.hpp\<close>,
  \<^verbatim>\<open>common/src/transport/connection_status.hpp\<close>, \<^verbatim>\<open>server/src/domain\<close>,
  \<^verbatim>\<open>server/src/gateway/internal_order*.hpp\<close> and \<^verbatim>\<open>server/src/events.hpp\<close>.
  Enum constructors carry a prefix where two C++ enums share a member name.
\<close>

section \<open>Primitive types and composite keys\<close>

type_synonym Timestamp = u64
type_synonym ConnectionId = u64
type_synonym Token = u64
type_synonym CoreId = u16
type_synonym ThreadId = u16
type_synonym OrderId = u32
type_synonym ClientId = u32
type_synonym Quantity = u32
type_synonym Price = u32
type_synonym SystemOrderId = SlotId
type_synonym BookOrderId = SlotId

definition composeKey :: "u32 \<Rightarrow> u32 \<Rightarrow> u64" where
  "composeKey left right = push_bit 32 (ucast left) OR ucast right"

definition decomposeKey :: "u64 \<Rightarrow> u32 \<times> u32" where
  "decomposeKey key = (ucast (drop_bit 32 key), ucast key)"

section \<open>Tickers\<close>

text \<open>\<^verbatim>\<open>std::array<char, 4>\<close>.\<close>

datatype Ticker = Ticker char char char char

definition TICKER_SIZE :: nat where "TICKER_SIZE = 4"

definition char_at :: "string \<Rightarrow> nat \<Rightarrow> char" where
  "char_at str i = (if i < min (length str) TICKER_SIZE then str ! i else CHR 0x00)"

definition makeTicker :: "string \<Rightarrow> Ticker" where
  "makeTicker str = Ticker (char_at str 0) (char_at str 1) (char_at str 2) (char_at str 3)"

fun ticker_toString :: "Ticker \<Rightarrow> string" where
  "ticker_toString (Ticker a b c d) = [a, b, c, d]"

fun ticker_val :: "Ticker \<Rightarrow> u32" where
  "ticker_val (Ticker a b c d) =
     of_nat (of_char a + 256 * (of_char b + 256 * (of_char c + 256 * of_char d)))"

text \<open>The hash on a little-endian machine: the 32-bit product, widened to \<^verbatim>\<open>size_t\<close>.\<close>

definition TickerHash :: "Ticker \<Rightarrow> u64" where
  "TickerHash t = ucast (ticker_val t * (2654435761 :: u32))"

section \<open>Client messages\<close>

datatype OrderAction = Dummy | Buy | Sell | Modify | Cancel

datatype OrderState = Accepted | Rejected | Cancelled | Partial | Full

record LoginRequest =
  lr_name :: string
  lr_password :: string

record TokenBindRequest =
  tb_token :: Token

record LoginResponse =
  lp_token :: Token
  lp_ok :: bool
  lp_error :: string

record Order =
  o_id :: OrderId
  o_ticker :: Ticker
  o_quantity :: Quantity
  o_price :: Price
  o_action :: OrderAction

record OrderStatus =
  os_orderId :: OrderId
  os_systemOrderId :: OrderId
  os_quantity :: Quantity
  os_fillPrice :: Price
  os_state :: OrderState

record TickerPrice =
  tp_ticker :: Ticker
  tp_price :: Price

fun OrderState_toString :: "OrderState \<Rightarrow> string" where
  "OrderState_toString Accepted = ''Accepted''"
| "OrderState_toString Rejected = ''Rejected''"
| "OrderState_toString Cancelled = ''Cancelled''"
| "OrderState_toString Partial = ''Partial''"
| "OrderState_toString Full = ''Full''"

fun OrderAction_toString :: "OrderAction \<Rightarrow> string" where
  "OrderAction_toString Dummy = ''Dummy''"
| "OrderAction_toString Buy = ''Buy''"
| "OrderAction_toString Sell = ''Sell''"
| "OrderAction_toString Modify = ''Modify''"
| "OrderAction_toString Cancel = ''Cancel''"

section \<open>Status and error values\<close>

datatype StatusCode = SC_Ok | SC_Error | SC_DbError | SC_AuthUserNotFound | SC_AuthInvalidPassword

fun StatusCode_toString :: "StatusCode \<Rightarrow> string" where
  "StatusCode_toString SC_Ok = ''Ok''"
| "StatusCode_toString SC_Error = ''Error''"
| "StatusCode_toString SC_DbError = ''DbError''"
| "StatusCode_toString SC_AuthUserNotFound = ''AuthUserNotFound''"
| "StatusCode_toString SC_AuthInvalidPassword = ''AuthInvalidPassword''"

datatype IoStatus = Io_Ok | Io_WouldBlock | Io_Closed | Io_Error

record IoResult =
  io_bytes :: u32
  io_code :: IoStatus

definition io_ok :: "IoResult \<Rightarrow> bool" where
  "io_ok r \<longleftrightarrow> io_code r = Io_Ok"

record InternalError =
  ie_code :: StatusCode
  ie_what :: string

datatype ConnectionStatus = Disconnected | Connected | ConnError

record ConnectionStatusEvent =
  cse_connectionId :: ConnectionId
  cse_status :: ConnectionStatus

record ChannelStatusEvent =
  chse_clientId :: "ClientId option"
  chse_event :: ConnectionStatusEvent

section \<open>Server messages\<close>

record ServerOrder =
  so_clientId :: ClientId
  so_order :: Order

record ServerOrderStatus =
  sos_clientId :: ClientId
  sos_orderStatus :: OrderStatus

record ServerLoginRequest =
  slr_connectionId :: ConnectionId
  slr_request :: LoginRequest

record ServerTokenBindRequest =
  stb_connectionId :: ConnectionId
  stb_request :: TokenBindRequest

record ServerLoginResponse =
  slp_connectionId :: ConnectionId
  slp_clientId :: ClientId
  slp_ok :: bool
  slp_error :: string

record InternalOrder =
  io_id :: SystemOrderId
  io_bookOId :: BookOrderId
  io_quantity :: Quantity
  io_price :: Price

definition partialFill :: "Quantity \<Rightarrow> InternalOrder \<Rightarrow> InternalOrder" where
  "partialFill fill ord =
     ord\<lparr>io_quantity := (if io_quantity ord < fill then 0 else io_quantity ord - fill)\<rparr>"

definition isFilled :: "InternalOrder \<Rightarrow> bool" where
  "isFilled ord \<longleftrightarrow> io_quantity ord = 0"

text \<open>
  \<^verbatim>\<open>InternalOrderEvent\<close>; its mutable pointer \<^verbatim>\<open>data\<close> is set by the coordinator to the
  ticker's entry, which the model looks up by the ticker when the event is matched.
\<close>

record InternalOrderEvent =
  ioe_order :: InternalOrder
  ioe_ticker :: Ticker
  ioe_action :: OrderAction

record InternalOrderStatus =
  st_id :: SystemOrderId
  st_bookOId :: BookOrderId
  st_fillQty :: Quantity
  st_fillPrice :: Price
  st_state :: OrderState

section \<open>Lemmas\<close>

lemma decompose_composeKey: "decomposeKey (composeKey l r) = (l, r)"
proof -
  have "ucast (drop_bit 32 (push_bit 32 (ucast l) OR ucast r :: u64)) = l"
  proof (rule bit_word_eqI)
    fix n assume "n < LENGTH(32)"
    then show "bit (ucast (drop_bit 32 (push_bit 32 (ucast l) OR ucast r :: u64)) :: u32) n \<longleftrightarrow> bit l n"
      using bit_imp_le_length[of r "32 + n"] by (auto simp: bit_simps)
  qed
  moreover have "ucast (push_bit 32 (ucast l) OR ucast r :: u64) = r"
    by (rule bit_word_eqI) (auto simp: bit_simps)
  ultimately show ?thesis by (simp add: composeKey_def decomposeKey_def)
qed

lemma compose_decomposeKey: "(case decomposeKey k of (l, r) \<Rightarrow> composeKey l r) = k"
  by (rule bit_word_eqI) (auto simp: composeKey_def decomposeKey_def bit_simps)

lemma of_char_base256:
  fixes a b :: char and x y :: nat
  assumes "of_char a + 256 * x = of_char b + 256 * y"
  shows "a = b \<and> x = y"
proof -
  have "(of_char a + 256 * x) mod 256 = (of_char b + 256 * y) mod 256" using assms by simp
  then have "(of_char a :: nat) = of_char b" by simp
  then show ?thesis using assms by (simp add: of_char_eq_iff)
qed

lemma of_char_le_255: "(of_char c :: nat) \<le> 255"
  using of_char_mod_256[of c, where 'a = nat] mod_less_divisor[of 256 "of_char c :: nat"] by linarith

lemma inj_ticker_val: "inj ticker_val"
proof (rule injI)
  fix s t :: Ticker
  assume eq: "ticker_val s = ticker_val t"
  obtain a b c d where s: "s = Ticker a b c d" by (cases s)
  obtain a' b' c' d' where t: "t = Ticker a' b' c' d'" by (cases t)
  let ?v = "\<lambda>a b c d. of_char a + 256 * (of_char b + 256 * (of_char c + 256 * of_char d)) :: nat"
  have step: "of_char a + 256 * x \<le> 256 * n + 255" if "x \<le> n" for a and x n :: nat
    using of_char_le_255[of a] that by linarith
  have lt: "?v a b c d < 4294967296" for a b c d
    using step[OF step[OF step[OF of_char_le_255]], of a b c d] by simp
  have "unat (of_nat (?v a b c d) :: u32) = unat (of_nat (?v a' b' c' d') :: u32)"
    using eq unfolding s t by (simp only: ticker_val.simps)
  then have "?v a b c d = ?v a' b' c' d'"
    using lt[of a b c d] lt[of a' b' c' d'] by (simp only: unat_of_nat) simp
  then show "s = t"
    unfolding s t by (metis of_char_base256 of_char_eq_iff)
qed

text \<open>The ticker hash is a perfect hash: the multiplier is odd, so the 32-bit product is a
  bijection and distinct tickers never collide in the market-data map before bucketing.\<close>

theorem TickerHash_injective: "inj TickerHash"
proof (rule injI)
  fix s t :: Ticker
  assume "TickerHash s = TickerHash t"
  then have eq: "ticker_val s * (2654435761 :: u32) = ticker_val t * 2654435761"
    by (metis TickerHash_def unat_ucast_up_u64 word_unat_eq_iff)
  have inv: "(2654435761 :: u32) * 244002641 = 1" by simp
  have "ticker_val s * 2654435761 * 244002641 = ticker_val t * 2654435761 * (244002641 :: u32)"
    using eq by simp
  then have "ticker_val s = ticker_val t"
    by (simp only: mult.assoc inv) simp
  then show "s = t" using inj_ticker_val by (auto dest: injD)
qed

end
