(* ===== verification/Price_Level_Book.thy ===== *)
theory Price_Level_Book
  imports Domain_Types
begin

text \<open>
  The order book of \<^verbatim>\<open>server/src/execution/orderbook/price_level_order_book.hpp\<close>, operation
  by operation: a pool of doubly linked nodes, one level of bids and asks per price, a bit
  per non-empty level with the cached best prices, and a stack of recycled book ids.
  A method that mutates the book returns the new book; the messages it posts to its
  consumer are returned in order. The two loops of \<^verbatim>\<open>match\<close> are
  \<^theory_text>\<open>partial_function (option)\<close>: \<open>None\<close> is a loop that never ends, which a corrupted
  list can cause and a well-formed book never does (theory \<open>Price_Level_Match\<close>).
\<close>

section \<open>State\<close>

datatype Side = SideBuy | SideSell

record Node =
  nd_next :: u32
  nd_prev :: u32
  nd_price :: u32
  nd_qty :: u32
  nd_localId :: BookOrderId
  nd_systemId :: SystemOrderId
  nd_side :: Side

record PriceLevelSide =
  pl_volume :: u64
  pl_head :: u32
  pl_tail :: u32

record PriceLevel =
  lv_bid :: PriceLevelSide
  lv_ask :: PriceLevelSide

record PriceLevelOrderBook =
  nodePool :: "(u32, Node) array"
  levels :: "(u32, PriceLevel) array"
  bidMask :: "(nat, u64) array"
  askMask :: "(nat, u64) array"
  freeStack :: "(u32, BookOrderId) array"
  freeTop :: u32
  nextAvailableIdx :: u32
  minAsk :: Price
  maxBid :: Price

text \<open>What the book posts to its consumer.\<close>

datatype BookMsg = PostStatus InternalOrderStatus | PostError InternalError

definition MASK_SIZE :: nat where
  "MASK_SIZE = unat MAX_TICKS div 64 + 1"

definition zero_node :: Node where
  "zero_node = \<lparr>nd_next = 0, nd_prev = 0, nd_price = 0, nd_qty = 0, nd_localId = 0,
     nd_systemId = 0, nd_side = SideBuy\<rparr>"

definition zero_level :: PriceLevel where
  "zero_level = \<lparr>lv_bid = \<lparr>pl_volume = 0, pl_head = 0, pl_tail = 0\<rparr>,
     lv_ask = \<lparr>pl_volume = 0, pl_head = 0, pl_tail = 0\<rparr>\<rparr>"

definition empty_book :: PriceLevelOrderBook where
  "empty_book = \<lparr>nodePool = (\<lambda>_. zero_node), levels = (\<lambda>_. zero_level),
     bidMask = (\<lambda>_. 0), askMask = (\<lambda>_. 0), freeStack = (\<lambda>_. 0), freeTop = 0,
     nextAvailableIdx = 1, minAsk = MAX_TICKS, maxBid = 0\<rparr>"

definition book_clear :: "PriceLevelOrderBook \<Rightarrow> PriceLevelOrderBook" where
  "book_clear b = b\<lparr>bidMask := (\<lambda>_. 0), askMask := (\<lambda>_. 0), freeTop := 0,
     nextAvailableIdx := 1, minAsk := MAX_TICKS, maxBid := 0,
     levels := (\<lambda>_. zero_level), nodePool := (\<lambda>_. zero_node)\<rparr>"

section \<open>References into the book\<close>

definition level_side :: "PriceLevelOrderBook \<Rightarrow> Side \<Rightarrow> u32 \<Rightarrow> PriceLevelSide" where
  "level_side b sd p = (case sd of SideBuy \<Rightarrow> lv_bid (levels b p) | SideSell \<Rightarrow> lv_ask (levels b p))"

definition upd_level ::
  "Side \<Rightarrow> u32 \<Rightarrow> (PriceLevelSide \<Rightarrow> PriceLevelSide) \<Rightarrow> PriceLevelOrderBook \<Rightarrow> PriceLevelOrderBook" where
  "upd_level sd p f b = b\<lparr>levels := (levels b)(p :=
     (case sd of SideBuy \<Rightarrow> (levels b p)\<lparr>lv_bid := f (lv_bid (levels b p))\<rparr>
               | SideSell \<Rightarrow> (levels b p)\<lparr>lv_ask := f (lv_ask (levels b p))\<rparr>))\<rparr>"

definition upd_node :: "u32 \<Rightarrow> (Node \<Rightarrow> Node) \<Rightarrow> PriceLevelOrderBook \<Rightarrow> PriceLevelOrderBook" where
  "upd_node i f b = b\<lparr>nodePool := (nodePool b)(i := f (nodePool b i))\<rparr>"

section \<open>Best price discovery\<close>

text \<open>\<^verbatim>\<open>__builtin_ctzll\<close> on an argument that is not 0.\<close>

definition ctz :: "'a::len word \<Rightarrow> nat" where
  "ctz w = (case find (bit w) [0..<LENGTH('a)] of Some i \<Rightarrow> i | None \<Rightarrow> LENGTH('a))"

definition low_price :: "nat \<Rightarrow> u64 \<Rightarrow> Price" where
  "low_price i w = push_bit 6 (of_nat i) + of_nat (ctz w)"

definition high_price :: "nat \<Rightarrow> u64 \<Rightarrow> Price" where
  "high_price i w = push_bit 6 (of_nat i) + of_nat (63 - clz w)"

fun findNewMaxBid_from :: "(nat, u64) array \<Rightarrow> nat \<Rightarrow> Price" where
  "findNewMaxBid_from m 0 = (if m 0 \<noteq> 0 then high_price 0 (m 0) else 0)"
| "findNewMaxBid_from m (Suc i) =
     (if m (Suc i) \<noteq> 0 then high_price (Suc i) (m (Suc i)) else findNewMaxBid_from m i)"

definition findNewMaxBid :: "nat \<Rightarrow> PriceLevelOrderBook \<Rightarrow> PriceLevelOrderBook" where
  "findNewMaxBid startWord b = b\<lparr>maxBid := findNewMaxBid_from (bidMask b) startWord\<rparr>"

function findNewMinAsk_from :: "(nat, u64) array \<Rightarrow> nat \<Rightarrow> Price" where
  "findNewMinAsk_from m i =
     (if i < MASK_SIZE then
        if m i \<noteq> 0 then low_price i (m i) else findNewMinAsk_from m (Suc i)
      else MAX_TICKS)"
  by pat_completeness auto
termination
  by (relation "measure (\<lambda>(m, i). MASK_SIZE - i)") auto

definition findNewMinAsk :: "nat \<Rightarrow> PriceLevelOrderBook \<Rightarrow> PriceLevelOrderBook" where
  "findNewMinAsk startWord b = b\<lparr>minAsk := findNewMinAsk_from (askMask b) startWord\<rparr>"

definition updateOccupancy :: "Side \<Rightarrow> u32 \<Rightarrow> bool \<Rightarrow> PriceLevelOrderBook \<Rightarrow> PriceLevelOrderBook" where
  "updateOccupancy side priceIdx active b =
     (let wordIdx = unat (drop_bit 6 priceIdx);
          bt = push_bit (unat (priceIdx AND 63)) (1 :: u64);
          volume = pl_volume (level_side b side priceIdx)
      in if active then
           (case side of
              SideBuy \<Rightarrow> b\<lparr>bidMask := (bidMask b)(wordIdx := bidMask b wordIdx OR bt),
                           maxBid := max (maxBid b) priceIdx\<rparr>
            | SideSell \<Rightarrow> b\<lparr>askMask := (askMask b)(wordIdx := askMask b wordIdx OR bt),
                            minAsk := min (minAsk b) priceIdx\<rparr>)
         else
           (let b1 = (if volume = 0 then
                        (case side of
                           SideBuy \<Rightarrow> b\<lparr>bidMask := (bidMask b)(wordIdx := bidMask b wordIdx AND NOT bt)\<rparr>
                         | SideSell \<Rightarrow> b\<lparr>askMask := (askMask b)(wordIdx := askMask b wordIdx AND NOT bt)\<rparr>)
                      else b)
            in if side = SideBuy \<and> priceIdx = maxBid b1 then findNewMaxBid wordIdx b1
               else if side = SideSell \<and> priceIdx = minAsk b1 then findNewMinAsk wordIdx b1
               else b1))"

function getBestAsk_from :: "PriceLevelOrderBook \<Rightarrow> Price \<Rightarrow> nat \<Rightarrow> nat \<Rightarrow> Price option" where
  "getBestAsk_from b limitPrice i maxWord =
     (if i \<le> maxWord then
        if askMask b i \<noteq> 0 then
          let p = low_price i (askMask b i)
          in if p \<le> limitPrice \<and> pl_head (lv_ask (levels b p)) \<noteq> 0 then Some p else None
        else getBestAsk_from b limitPrice (Suc i) maxWord
      else None)"
  by pat_completeness auto
termination
  by (relation "measure (\<lambda>(b, l, i, m). Suc m - i)") auto

definition getBestAsk :: "PriceLevelOrderBook \<Rightarrow> Price \<Rightarrow> Price option" where
  "getBestAsk b limitPrice =
     getBestAsk_from b limitPrice (unat (drop_bit 6 (minAsk b))) (unat (drop_bit 6 limitPrice))"

fun getBestBid_from :: "PriceLevelOrderBook \<Rightarrow> Price \<Rightarrow> nat \<Rightarrow> nat \<Rightarrow> Price option" where
  "getBestBid_from b limitPrice i minWord =
     (if minWord \<le> i then
        if bidMask b i \<noteq> 0 then
          let p = high_price i (bidMask b i)
          in if limitPrice \<le> p \<and> pl_head (lv_bid (levels b p)) \<noteq> 0 then Some p else None
        else (case i of 0 \<Rightarrow> None | Suc j \<Rightarrow> getBestBid_from b limitPrice j minWord)
      else None)"

definition getBestBid :: "PriceLevelOrderBook \<Rightarrow> Price \<Rightarrow> Price option" where
  "getBestBid b limitPrice =
     getBestBid_from b limitPrice (unat (drop_bit 6 (maxBid b))) (unat (drop_bit 6 limitPrice))"

declare findNewMinAsk_from.simps [simp del] getBestAsk_from.simps [simp del]
  getBestBid_from.simps [simp del]

section \<open>Book ids\<close>

definition acquireId :: "PriceLevelOrderBook \<Rightarrow> BookOrderId \<times> PriceLevelOrderBook" where
  "acquireId b =
     (if freeTop b > 0 then
        let t = freeTop b - 1 in (freeStack b t, b\<lparr>freeTop := t\<rparr>)
      else if nextAvailableIdx b \<ge> MAX_BOOK_ORDERS then (0, b)
      else (slot_make BookOrderId_cap (nextAvailableIdx b) 1,
            b\<lparr>nextAvailableIdx := nextAvailableIdx b + 1\<rparr>))"

definition releaseId :: "BookOrderId \<Rightarrow> PriceLevelOrderBook \<Rightarrow> PriceLevelOrderBook" where
  "releaseId idx b =
     b\<lparr>freeStack := (freeStack b)(freeTop b := nextGen BookOrderId_cap idx), freeTop := freeTop b + 1\<rparr>"

definition getSide :: "OrderAction \<Rightarrow> Side" where
  "getSide action = (if action = Buy then SideBuy else SideSell)"

fun opposite :: "Side \<Rightarrow> Side" where
  "opposite SideBuy = SideSell"
| "opposite SideSell = SideBuy"

section \<open>Matching\<close>

text \<open>One round of the inner loop of \<^verbatim>\<open>match\<close> over the orders of one level.\<close>

definition fill_head :: "Side \<Rightarrow> Price \<Rightarrow> u32 \<Rightarrow> PriceLevelOrderBook \<Rightarrow> u32 \<times> PriceLevelOrderBook" where
  "fill_head levelSide bestPrice remainingQty b =
     (let h = pl_head (level_side b levelSide bestPrice);
          fillQty = min remainingQty (nd_qty (nodePool b h));
          b = upd_node h (\<lambda>n. n\<lparr>nd_qty := nd_qty n - fillQty\<rparr>) b;
          b = upd_level levelSide bestPrice (\<lambda>l. l\<lparr>pl_volume := pl_volume l - ucast fillQty\<rparr>) b;
          b = (if nd_qty (nodePool b h) = 0 then
                 let nx = nd_next (nodePool b h);
                     b = upd_level levelSide bestPrice (\<lambda>l. l\<lparr>pl_head := nx\<rparr>) b;
                     b = (if nx \<noteq> 0 then upd_node nx (\<lambda>n. n\<lparr>nd_prev := 0\<rparr>) b
                          else updateOccupancy (nd_side (nodePool b h)) bestPrice False
                                 (upd_level levelSide bestPrice (\<lambda>l. l\<lparr>pl_tail := 0\<rparr>) b))
                 in releaseId (nd_localId (nodePool b h)) b
               else b)
      in (remainingQty - fillQty, b))"

partial_function (option) match_level ::
  "Side \<Rightarrow> Price \<Rightarrow> u32 \<Rightarrow> PriceLevelOrderBook \<Rightarrow> (u32 \<times> PriceLevelOrderBook) option" where
  "match_level levelSide bestPrice remainingQty b =
     (if pl_head (level_side b levelSide bestPrice) \<noteq> 0 \<and> remainingQty > 0 then
        (let rb = fill_head levelSide bestPrice remainingQty b
         in match_level levelSide bestPrice (fst rb) (snd rb))
      else Some (remainingQty, b))"

partial_function (option) match_loop ::
  "Price \<Rightarrow> Side \<Rightarrow> u32 \<Rightarrow> PriceLevelOrderBook \<Rightarrow> (u32 \<times> PriceLevelOrderBook) option" where
  "match_loop price side remainingQty b =
     (if remainingQty > 0 then
        if (case side of SideBuy \<Rightarrow> minAsk b > price | SideSell \<Rightarrow> maxBid b < price) then
          Some (remainingQty, b)
        else
          (case (case side of SideBuy \<Rightarrow> getBestAsk b price | SideSell \<Rightarrow> getBestBid b price) of
             None \<Rightarrow> Some (remainingQty, b)
           | Some bestPrice \<Rightarrow>
               if pl_head (level_side b (opposite side) bestPrice) = 0 then
                 match_loop price side remainingQty (updateOccupancy (opposite side) bestPrice False b)
               else
                 Option.bind (match_level (opposite side) bestPrice remainingQty b)
                   (\<lambda>rb. match_loop price side (fst rb) (snd rb)))
      else Some (remainingQty, b))"

declare match_level.simps [code]
declare match_loop.simps [code]

definition book_match ::
  "InternalOrder \<Rightarrow> Side \<Rightarrow> PriceLevelOrderBook \<Rightarrow> (u32 \<times> PriceLevelOrderBook) option" where
  "book_match ord side b = match_loop (io_price ord) side (io_quantity ord) b"

definition restOrder ::
  "InternalOrder \<Rightarrow> Side \<Rightarrow> u32 \<Rightarrow> PriceLevelOrderBook \<Rightarrow> PriceLevelOrderBook \<times> BookMsg list" where
  "restOrder ord side qty b =
     (case acquireId b of (localId, b) \<Rightarrow>
        if \<not> slot_isValid BookOrderId_cap localId then
          (b, [PostError \<lparr>ie_code = SC_Error, ie_what = ''OrderBook is full''\<rparr>])
        else
          let idx = slot_index BookOrderId_cap localId;
              b = upd_node idx (\<lambda>n. n\<lparr>nd_localId := localId, nd_systemId := io_id ord,
                    nd_price := io_price ord, nd_qty := qty, nd_side := side, nd_next := 0\<rparr>) b;
              tail = pl_tail (level_side b side (io_price ord));
              b = upd_node idx (\<lambda>n. n\<lparr>nd_prev := tail\<rparr>) b;
              b = (if tail \<noteq> 0 then upd_node tail (\<lambda>n. n\<lparr>nd_next := idx\<rparr>) b
                   else updateOccupancy side (io_price ord) True
                          (upd_level side (io_price ord) (\<lambda>l. l\<lparr>pl_head := idx\<rparr>) b));
              b = upd_level side (io_price ord)
                    (\<lambda>l. l\<lparr>pl_tail := idx, pl_volume := pl_volume l + ucast qty\<rparr>) b;
              fillTtl = io_quantity ord - qty;
              state = (if fillTtl = 0 then Accepted else Partial)
          in (b, [PostStatus \<lparr>st_id = io_id ord, st_bookOId = localId, st_fillQty = fillTtl,
                    st_fillPrice = io_price ord, st_state = state\<rparr>]))"

definition book_cancelOrder ::
  "InternalOrderEvent \<Rightarrow> PriceLevelOrderBook \<Rightarrow> PriceLevelOrderBook \<times> BookMsg list" where
  "book_cancelOrder ioe b =
     (let ord = ioe_order ioe;
          idx = slot_index BookOrderId_cap (io_bookOId ord);
          node = nodePool b idx
      in if nd_localId node \<noteq> io_bookOId ord then
           (b, [PostStatus \<lparr>st_id = io_id ord, st_bookOId = io_bookOId ord, st_fillQty = 0,
                  st_fillPrice = 0, st_state = Rejected\<rparr>])
         else
           let p = nd_price node; sd = nd_side node;
               b = (if nd_prev node \<noteq> 0 then upd_node (nd_prev node) (\<lambda>n. n\<lparr>nd_next := nd_next node\<rparr>) b
                    else upd_level sd p (\<lambda>l. l\<lparr>pl_head := nd_next node\<rparr>) b);
               node = nodePool b idx;
               b = (if nd_next node \<noteq> 0 then upd_node (nd_next node) (\<lambda>n. n\<lparr>nd_prev := nd_prev node\<rparr>) b
                    else upd_level sd p (\<lambda>l. l\<lparr>pl_tail := nd_prev node\<rparr>) b);
               node = nodePool b idx;
               b = upd_level sd p (\<lambda>l. l\<lparr>pl_volume := pl_volume l - ucast (nd_qty node)\<rparr>) b;
               b = (if pl_volume (level_side b sd p) = 0
                    then updateOccupancy (nd_side node) (nd_price node) False b else b)
           in (releaseId (nd_localId (nodePool b idx)) b,
               [PostStatus \<lparr>st_id = io_id ord, st_bookOId = io_bookOId ord, st_fillQty = 0,
                  st_fillPrice = 0, st_state = Cancelled\<rparr>]))"

text \<open>
  \<^verbatim>\<open>add\<close>: the flag it returns, the book and what it posts. An order whose price is out of
  bounds is dropped with \<open>False\<close> and no message.
\<close>

definition book_add ::
  "InternalOrderEvent \<Rightarrow> PriceLevelOrderBook \<Rightarrow> (bool \<times> PriceLevelOrderBook \<times> BookMsg list) option" where
  "book_add ioe b =
     (if ioe_action ioe = Cancel then
        (case book_cancelOrder ioe b of (b', ms) \<Rightarrow> Some (True, b', ms))
      else
        let ord = ioe_order ioe; side = getSide (ioe_action ioe)
        in if io_price ord \<ge> MAX_TICKS then Some (False, b, [])
           else
             (case book_match ord side b of
                None \<Rightarrow> None
              | Some (remainingQty, b') \<Rightarrow>
                  if remainingQty > 0 then
                    (case restOrder ord side remainingQty b' of (b'', ms) \<Rightarrow> Some (True, b'', ms))
                  else
                    Some (True, b', [PostStatus \<lparr>st_id = io_id ord, st_bookOId = 0,
                      st_fillQty = io_quantity ord, st_fillPrice = io_price ord, st_state = Full\<rparr>])))"

definition book_sendAck :: "InternalOrderEvent \<Rightarrow> BookMsg list" where
  "book_sendAck ioe = [PostStatus \<lparr>st_id = io_id (ioe_order ioe), st_bookOId = 0, st_fillQty = 0,
     st_fillPrice = 0, st_state = Accepted\<rparr>]"

text \<open>A sequence of events, one after the other, and what was posted in all.\<close>

fun book_run ::
  "InternalOrderEvent list \<Rightarrow> PriceLevelOrderBook \<Rightarrow> (PriceLevelOrderBook \<times> BookMsg list) option" where
  "book_run [] b = Some (b, [])"
| "book_run (e # es) b =
     (case book_add e b of
        None \<Rightarrow> None
      | Some (_, b', ms) \<Rightarrow>
          (case book_run es b' of None \<Rightarrow> None | Some (b'', ms') \<Rightarrow> Some (b'', ms @ ms')))"

end
