(* ===== verification/Price_Masks.thy ===== *)
theory Price_Masks
  imports Price_Level_Book
begin

text \<open>
  The occupancy bit masks of the book: which price a mask bit stands for, what setting and
  clearing a bit does, and that the four word-by-word scans find the lowest or highest
  price whose bit is set.
\<close>

definition occ :: "(nat, u64) array \<Rightarrow> nat \<Rightarrow> bool" where
  "occ m n \<longleftrightarrow> bit (m (n div 64)) (n mod 64)"

section \<open>Counting zeros\<close>

lemma ctz_props:
  fixes w :: u64
  assumes "w \<noteq> 0"
  shows "ctz w < 64" "bit w (ctz w)" "\<And>k. k < ctz w \<Longrightarrow> \<not> bit w k"
proof -
  obtain j where "j < 64" "bit w j"
    using assms bit_imp_le_length[of w] by (force simp: bit_eq_iff)
  then obtain k where k: "find (bit w) [0..<64] = Some k"
    by (cases "find (bit w) [0..<64]") (auto simp: find_upt_None)
  then have "ctz w = k" by (simp add: ctz_def)
  then show "ctz w < 64" "bit w (ctz w)" "\<And>k. k < ctz w \<Longrightarrow> \<not> bit w k"
    using k by (auto simp: find_upt_Some)
qed

lemma find_rev_upt_Some:
  "find P (rev [0..<n]) = Some k \<Longrightarrow> k < n \<and> P k \<and> (\<forall>m. k < m \<longrightarrow> m < n \<longrightarrow> \<not> P m)"
  by (induction n) (auto simp: less_Suc_eq split: if_splits)

lemma clz_props:
  fixes w :: u64
  assumes "w \<noteq> 0"
  shows "bit w (63 - clz w)" "\<And>k. 63 - clz w < k \<Longrightarrow> \<not> bit w k"
proof -
  obtain j where "j < 64" "bit w j"
    using assms bit_imp_le_length[of w] by (force simp: bit_eq_iff)
  then obtain k where k: "find (bit w) (rev [0..<64]) = Some k"
    by (cases "find (bit w) (rev [0..<64])") (auto simp: find_None_iff)
  then have "63 - clz w = k" and "k < 64 \<and> bit w k \<and> (\<forall>m. k < m \<longrightarrow> m < 64 \<longrightarrow> \<not> bit w m)"
    using find_rev_upt_Some[OF k] by (auto simp: clz_def)
  then show "bit w (63 - clz w)" "\<And>k. 63 - clz w < k \<Longrightarrow> \<not> bit w k"
    using bit_imp_le_length[of w] by auto
qed

section \<open>Prices of mask bits\<close>

lemma drop6: "unat (drop_bit 6 (p :: u32)) = unat p div 64"
  by (simp add: unat_drop_bit_eq flip: drop_bit_eq_div) (simp add: drop_bit_eq_div)

lemma and63: "unat ((p :: u32) AND 63) = unat p mod 64"
proof -
  have "p AND 63 = take_bit 6 p"
    by (simp only: take_bit_eq_mask) (simp add: mask_eq_exp_minus_1)
  then show ?thesis
    by (simp only: unsigned_take_bit_eq) (simp add: take_bit_eq_mod)
qed

lemma MAX_TICKS_val: "MAX_TICKS = 8192" "unat MAX_TICKS = 8192"
  by (simp_all add: MAX_TICKS_def push_bit_eq_mult)

lemma MASK_SIZE_val: "MASK_SIZE = 129"
  by (simp add: MASK_SIZE_def MAX_TICKS_val)

lemma unat_word_price:
  assumes "i \<le> 200" "j < 64"
  shows "unat (push_bit 6 (of_nat i) + of_nat j :: u32) = 64 * i + j"
proof -
  have "push_bit 6 (of_nat i) + of_nat j = (of_nat (64 * i + j) :: u32)"
    by (simp add: push_bit_eq_mult)
  then show ?thesis
    using assms by (simp only: unat_of_nat) simp
qed

lemma unat_low_price: "i \<le> 200 \<Longrightarrow> w \<noteq> 0 \<Longrightarrow> unat (low_price i w) = 64 * i + ctz w"
  unfolding low_price_def by (rule unat_word_price) (auto intro: ctz_props)

lemma unat_high_price: "i \<le> 200 \<Longrightarrow> w \<noteq> 0 \<Longrightarrow> unat (high_price i w) = 64 * i + (63 - clz w)"
  unfolding high_price_def by (rule unat_word_price) auto

lemma div64_eq_iff: "k div 64 = i \<longleftrightarrow> 64 * i \<le> k \<and> k < 64 * i + (64 :: nat)"
  using div_mult_mod_eq[of k 64] mod_less_divisor[of 64 k]
  by (auto simp: mult.commute)

lemma word_above: "64 * i \<le> k \<Longrightarrow> k div 64 \<noteq> i \<Longrightarrow> 64 * Suc i \<le> (k :: nat)"
  by (simp add: div64_eq_iff)

lemma word_below: "k < 64 * Suc i + 64 \<Longrightarrow> k div 64 \<noteq> Suc i \<Longrightarrow> k < 64 * i + (64 :: nat)"
  by (simp add: div64_eq_iff)

lemma occ_word: "occ m n \<Longrightarrow> m (n div 64) \<noteq> 0"
  by (auto simp: occ_def)

lemma low_price_least:
  assumes "i \<le> 200" "m i \<noteq> 0"
  shows "occ m (unat (low_price i (m i)))"
    and "unat (low_price i (m i)) div 64 = i"
    and "64 * i \<le> n \<Longrightarrow> occ m n \<Longrightarrow> unat (low_price i (m i)) \<le> n"
proof -
  note c = ctz_props[OF assms(2)]
  show "occ m (unat (low_price i (m i)))" and d: "unat (low_price i (m i)) div 64 = i"
    using assms c by (simp_all add: unat_low_price occ_def)
  assume n: "64 * i \<le> n" "occ m n"
  show "unat (low_price i (m i)) \<le> n"
  proof (cases "n div 64 = i")
    case True
    then have "\<not> n mod 64 < ctz (m i)" using n c by (auto simp: occ_def)
    moreover have "n = 64 * i + n mod 64" using True by (metis div_mult_mod_eq mult.commute)
    ultimately show ?thesis using assms by (simp add: unat_low_price)
  next
    case False
    with n have "i < n div 64" by (simp add: div_le_mono less_eq_div_iff_mult_less_eq order_less_le mult.commute)
    then have "64 * i + 64 \<le> n" by (metis Suc_leI less_eq_div_iff_mult_less_eq mult.commute mult_Suc zero_less_numeral add.commute)
    then show ?thesis using assms c by (simp add: unat_low_price)
  qed
qed

lemma high_price_greatest:
  assumes "i \<le> 200" "m i \<noteq> 0"
  shows "occ m (unat (high_price i (m i)))"
    and "unat (high_price i (m i)) div 64 = i"
    and "n < 64 * i + 64 \<Longrightarrow> occ m n \<Longrightarrow> n \<le> unat (high_price i (m i))"
proof -
  note c = clz_props[OF assms(2)]
  show "occ m (unat (high_price i (m i)))" and d: "unat (high_price i (m i)) div 64 = i"
    using assms c by (simp_all add: unat_high_price occ_def)
  assume n: "n < 64 * i + 64" "occ m n"
  show "n \<le> unat (high_price i (m i))"
  proof (cases "n div 64 = i")
    case True
    then have "\<not> 63 - clz (m i) < n mod 64" using n c by (auto simp: occ_def)
    moreover have "n = 64 * i + n mod 64" using True by (metis div_mult_mod_eq mult.commute)
    ultimately show ?thesis using assms by (simp add: unat_high_price)
  next
    case False
    with n have "n div 64 < i" by auto
    then have "n < 64 * i" by (metis less_mult_imp_div_less mult.commute div_less_iff_less_mult zero_less_numeral)
    then show ?thesis using assms c by (simp add: unat_high_price)
  qed
qed

section \<open>Setting and clearing a bit\<close>

lemma occ_set:
  fixes p :: u32
  shows "occ (m(unat (drop_bit 6 p) := m (unat (drop_bit 6 p)) OR push_bit (unat (p AND 63)) 1)) n
     \<longleftrightarrow> n = unat p \<or> occ m n"
proof -
  have "n div 64 = unat p div 64 \<Longrightarrow> n mod 64 = unat p mod 64 \<longleftrightarrow> n = unat p"
    by (metis div_mult_mod_eq)
  then show ?thesis
    by (auto simp: occ_def drop6 and63 bit_simps)
qed

lemma occ_clear:
  fixes p :: u32
  shows "occ (m(unat (drop_bit 6 p) := m (unat (drop_bit 6 p)) AND NOT (push_bit (unat (p AND 63)) 1))) n
     \<longleftrightarrow> n \<noteq> unat p \<and> occ m n"
proof -
  have "n div 64 = unat p div 64 \<Longrightarrow> n mod 64 = unat p mod 64 \<longleftrightarrow> n = unat p"
    by (metis div_mult_mod_eq)
  then show ?thesis
    by (auto simp: occ_def drop6 and63 bit_simps)
qed

section \<open>The scans\<close>

lemma findNewMinAsk_from_least:
  assumes "64 * i \<le> n" "n < 64 * MASK_SIZE" "occ m n"
  shows "occ m (unat (findNewMinAsk_from m i)) \<and>
    64 * i \<le> unat (findNewMinAsk_from m i) \<and>
    (\<forall>k. 64 * i \<le> k \<longrightarrow> occ m k \<longrightarrow> unat (findNewMinAsk_from m i) \<le> k)"
  using assms
proof (induction m i rule: findNewMinAsk_from.induct)
  case (1 m i)
  have i: "i < MASK_SIZE" using "1.prems" by linarith
  then have i200: "i \<le> 200" by (simp add: MASK_SIZE_val)
  show ?case
  proof (cases "m i = 0")
    case True
    have skip: "occ m k \<Longrightarrow> 64 * i \<le> k \<Longrightarrow> 64 * Suc i \<le> k" for k
      using True occ_word[of m k] word_above[of i k] by metis
    from "1.prems" skip have "64 * Suc i \<le> n" by blast
    from "1.IH"[OF i _ this "1.prems"(2,3)] True skip i show ?thesis
      by (auto simp: findNewMinAsk_from.simps[of m i])
  next
    case False
    with i i200 low_price_least[of i m] show ?thesis
      by (auto simp: findNewMinAsk_from.simps[of m i] unat_low_price)
  qed
qed

lemma findNewMinAsk_from_none:
  assumes "\<And>n. 64 * i \<le> n \<Longrightarrow> n < 64 * MASK_SIZE \<Longrightarrow> \<not> occ m n"
  shows "findNewMinAsk_from m i = MAX_TICKS"
  using assms
proof (induction m i rule: findNewMinAsk_from.induct)
  case (1 m i)
  show ?case
  proof (cases "i < MASK_SIZE")
    case True
    then have i200: "i \<le> 200" by (simp add: MASK_SIZE_val)
    have z: "m i = 0"
    proof (rule ccontr)
      assume nz: "m i \<noteq> 0"
      have "unat (low_price i (m i)) < 64 * MASK_SIZE"
        using True ctz_props(1)[OF nz] i200 nz by (simp add: unat_low_price)
      with "1.prems"[of "unat (low_price i (m i))"] low_price_least(1)[of i m] nz i200
      show False by (simp add: unat_low_price)
    qed
    have "findNewMinAsk_from m (Suc i) = MAX_TICKS"
      using True z "1.prems" by (intro "1.IH") auto
    with True z show ?thesis by (simp add: findNewMinAsk_from.simps[of m i])
  qed (simp add: findNewMinAsk_from.simps[of m i])
qed

lemma findNewMaxBid_from_greatest:
  assumes "n < 64 * i + 64" "occ m n" "i \<le> 200"
  shows "occ m (unat (findNewMaxBid_from m i)) \<and> unat (findNewMaxBid_from m i) < 64 * i + 64 \<and>
    (\<forall>k. k < 64 * i + 64 \<longrightarrow> occ m k \<longrightarrow> k \<le> unat (findNewMaxBid_from m i))"
  using assms
proof (induction m i rule: findNewMaxBid_from.induct)
  case (1 m)
  then have "m 0 \<noteq> 0" using occ_word[of m n] by simp
  with high_price_greatest[of 0 m] show ?case by (auto simp: unat_high_price)
next
  case (2 m i)
  show ?case
  proof (cases "m (Suc i) = 0")
    case True
    have skip: "occ m k \<Longrightarrow> k < 64 * Suc i + 64 \<Longrightarrow> k < 64 * i + 64" for k
      using True occ_word[of m k] word_below[of k i] by metis
    with 2 True show ?thesis by fastforce
  next
    case False
    with high_price_greatest[of "Suc i" m] 2 show ?thesis by (auto simp: unat_high_price)
  qed
qed

lemma findNewMaxBid_from_none:
  assumes "\<And>n. n < 64 * i + 64 \<Longrightarrow> \<not> occ m n" "i \<le> 200"
  shows "findNewMaxBid_from m i = 0"
  using assms
proof (induction m i rule: findNewMaxBid_from.induct)
  case (1 m)
  then have "m 0 = 0"
    using high_price_greatest(1)[of 0 m] by (cases "m 0 = 0") (auto simp: unat_high_price)
  then show ?case by simp
next
  case (2 m i)
  then have "m (Suc i) = 0"
    using high_price_greatest(1)[of "Suc i" m] by (cases "m (Suc i) = 0") (auto simp: unat_high_price)
  with 2 show ?case by simp
qed

lemma findNewMinAsk_best:
  assumes "\<And>n. occ m n \<Longrightarrow> n < unat MAX_TICKS" "\<And>n. occ m n \<Longrightarrow> 64 * i \<le> n"
  shows "(\<forall>n. occ m n \<longrightarrow> unat (findNewMinAsk_from m i) \<le> n) \<and>
    (findNewMinAsk_from m i = MAX_TICKS \<or> occ m (unat (findNewMinAsk_from m i)))"
proof (cases "\<exists>n. occ m n")
  case True
  then obtain n where n: "occ m n" by blast
  then have "n < 64 * MASK_SIZE" using assms(1)[of n] by (simp add: MAX_TICKS_val MASK_SIZE_val)
  from findNewMinAsk_from_least[OF assms(2)[OF n] this n] assms(2) show ?thesis by blast
next
  case False
  then show ?thesis using findNewMinAsk_from_none[of i m] by blast
qed

lemma findNewMaxBid_best:
  assumes "\<And>n. occ m n \<Longrightarrow> n < 64 * i + 64" "i \<le> 200"
  shows "(\<forall>n. occ m n \<longrightarrow> n \<le> unat (findNewMaxBid_from m i)) \<and>
    (findNewMaxBid_from m i = 0 \<or> occ m (unat (findNewMaxBid_from m i)))"
proof (cases "\<exists>n. occ m n")
  case True
  then obtain n where n: "occ m n" by blast
  from findNewMaxBid_from_greatest[OF assms(1)[OF n] n assms(2)] assms(1) show ?thesis by blast
next
  case False
  then show ?thesis using findNewMaxBid_from_none[of i m] assms(2) by blast
qed

end
