(* ===== verification/Node_List.thy ===== *)
theory Node_List
  imports Price_Level_Book
begin

text \<open>
  Doubly linked segments of the node pool. \<open>dseg nd p h xs e\<close> says that starting at index
  \<open>h\<close> the \<open>nd_next\<close> links visit exactly the non-zero indices \<open>xs\<close> and arrive at \<open>e\<close>, and that
  the \<open>nd_prev\<close> links lead back, the first of them to \<open>p\<close>. The lemmas say what the pointer
  updates of the book do to a segment: unlinking the head, appending a tail, and cutting a
  node out of the middle.
\<close>

fun dseg :: "(u32, Node) array \<Rightarrow> u32 \<Rightarrow> u32 \<Rightarrow> u32 list \<Rightarrow> u32 \<Rightarrow> bool" where
  "dseg nd p h [] e \<longleftrightarrow> h = e"
| "dseg nd p h (x # xs) e \<longleftrightarrow>
     h = x \<and> x \<noteq> 0 \<and> nd_prev (nd x) = p \<and> dseg nd x (nd_next (nd x)) xs e"

definition last0 :: "u32 \<Rightarrow> u32 list \<Rightarrow> u32" where
  "last0 d xs = (if xs = [] then d else last xs)"

definition hd0 :: "u32 \<Rightarrow> u32 list \<Rightarrow> u32" where
  "hd0 d xs = (if xs = [] then d else hd xs)"

lemma last0_simps [simp]:
  "last0 d [] = d" "last0 d (x # xs) = last0 x xs" "last0 d (xs @ [x]) = x"
  "last0 d (xs @ ys) = last0 (last0 d xs) ys"
  by (auto simp: last0_def)

lemma hd0_simps [simp]: "hd0 d [] = d" "hd0 d (x # xs) = x"
  by (auto simp: hd0_def)

lemma dseg_append:
  "dseg nd p h (xs @ ys) e \<longleftrightarrow>
     dseg nd p h xs (hd0 e ys) \<and> dseg nd (last0 p xs) (hd0 e ys) ys e"
  by (induction xs arbitrary: p h; cases ys) auto

lemma dseg_hd: "dseg nd p h xs e \<Longrightarrow> h = hd0 e xs"
  by (cases xs) auto

lemma dseg_nonzero: "dseg nd p h xs e \<Longrightarrow> 0 \<notin> set xs"
  by (induction xs arbitrary: p h) auto

lemma dseg_Nil_iff: "dseg nd p h xs 0 \<Longrightarrow> h = 0 \<longleftrightarrow> xs = []"
  by (cases xs) auto

lemma dseg_frame:
  assumes "dseg nd p h xs e"
    and "\<And>x. x \<in> set xs \<Longrightarrow> nd_next (nd' x) = nd_next (nd x) \<and> nd_prev (nd' x) = nd_prev (nd x)"
  shows "dseg nd' p h xs e"
  using assms by (induction xs arbitrary: p h) auto

lemma dseg_update_outside: "i \<notin> set xs \<Longrightarrow> dseg (nd(i := n)) p h xs e \<longleftrightarrow> dseg nd p h xs e"
  by (induction xs arbitrary: p h) auto

lemma dseg_functional: "dseg nd p h xs 0 \<Longrightarrow> dseg nd p' h ys 0 \<Longrightarrow> xs = ys"
proof (induction xs arbitrary: p p' h ys)
  case Nil then show ?case by (cases ys) auto
next
  case (Cons x xs) then show ?case by (cases ys) auto
qed

lemma dseg_set_prev:
  assumes "dseg nd p h (y # ys) e" "y \<notin> set ys"
  shows "dseg (nd(y := nd y\<lparr>nd_prev := p'\<rparr>)) p' h (y # ys) e"
  using assms by (simp add: dseg_update_outside)

lemma dseg_set_next:
  assumes "dseg nd p h (xs @ [t]) e" "t \<notin> set xs"
  shows "dseg (nd(t := nd t\<lparr>nd_next := e'\<rparr>)) p h (xs @ [t]) e'"
  using assms by (simp add: dseg_append dseg_update_outside)

lemma dseg_pop:
  assumes "dseg nd 0 h (x # y # ys) 0" "distinct (x # y # ys)"
  shows "dseg (nd(y := nd y\<lparr>nd_prev := 0\<rparr>)) 0 (nd_next (nd x)) (y # ys) 0"
  using assms by (simp add: dseg_update_outside)

lemma dseg_push:
  assumes "dseg nd 0 h xs 0" "distinct xs" "i \<notin> set xs" "i \<noteq> 0"
    and "nd_next n = 0" "nd_prev n = last0 0 xs"
  shows "dseg (let nd1 = nd(i := n) in
                 if xs = [] then nd1 else nd1(last xs := nd1 (last xs)\<lparr>nd_next := i\<rparr>))
           0 (hd0 i xs) (xs @ [i]) 0"
proof (cases xs rule: rev_cases)
  case Nil
  with assms show ?thesis by simp
next
  case (snoc ys t)
  have "dseg (nd(i := n)) 0 h (ys @ [t]) 0"
    using assms snoc by (simp add: dseg_update_outside)
  then have "dseg ((nd(i := n))(t := (nd(i := n)) t\<lparr>nd_next := i\<rparr>)) 0 h (ys @ [t]) i"
    using assms snoc by (intro dseg_set_next) auto
  moreover have "h = hd0 i xs"
    using dseg_hd[OF assms(1)] snoc by (cases ys) auto
  ultimately show ?thesis
    using assms snoc by (auto simp: dseg_append Let_def)
qed

lemma dseg_cut:
  assumes "dseg nd 0 h (xs @ i # ys) 0" "distinct (xs @ i # ys)"
  shows "nd_prev (nd i) = last0 0 xs" "nd_next (nd i) = hd0 0 ys"
    and "dseg (let nd1 = (if xs = [] then nd else nd(last xs := nd (last xs)\<lparr>nd_next := hd0 0 ys\<rparr>))
               in if ys = [] then nd1 else nd1(hd ys := nd1 (hd ys)\<lparr>nd_prev := last0 0 xs\<rparr>))
           0 (if xs = [] then hd0 0 ys else h) (xs @ ys) 0"
proof -
  have seg: "dseg nd 0 h xs i" "i \<noteq> 0" "nd_prev (nd i) = last0 0 xs"
    "dseg nd i (nd_next (nd i)) ys 0"
    using assms(1) by (auto simp: dseg_append)
  show "nd_prev (nd i) = last0 0 xs" by (fact seg)
  show nx: "nd_next (nd i) = hd0 0 ys" using dseg_hd[OF seg(4)] .
  let ?nd1 = "if xs = [] then nd else nd(last xs := nd (last xs)\<lparr>nd_next := hd0 0 ys\<rparr>)"
  have left: "dseg ?nd1 0 (if xs = [] then hd0 0 ys else h) xs (hd0 0 ys)"
    using seg(1) assms(2) dseg_set_next[of nd 0 h "butlast xs" "last xs" i "hd0 0 ys"]
    by (cases xs rule: rev_cases) auto
  have "dseg ?nd1 i (hd0 0 ys) ys 0"
  proof (cases "xs = []")
    case False
    then have "last xs \<notin> set ys" using assms(2) last_in_set by fastforce
    with seg(4) nx False show ?thesis by (simp add: dseg_update_outside)
  qed (use seg(4) nx in simp)
  then have right: "dseg (let nd1 = ?nd1 in if ys = [] then nd1 else nd1(hd ys := nd1 (hd ys)\<lparr>nd_prev := last0 0 xs\<rparr>))
      (last0 0 xs) (hd0 0 ys) ys 0"
    using assms(2) dseg_set_prev[of ?nd1 i "hd0 0 ys" "hd ys" "tl ys" 0 "last0 0 xs"]
    by (cases ys) (simp_all add: Let_def)
  have "dseg (let nd1 = ?nd1 in if ys = [] then nd1 else nd1(hd ys := nd1 (hd ys)\<lparr>nd_prev := last0 0 xs\<rparr>))
      0 (if xs = [] then hd0 0 ys else h) xs (hd0 0 ys)"
    using left assms(2) by (cases ys) (auto simp: Let_def dseg_update_outside)
  with right show "dseg (let nd1 = ?nd1 in if ys = [] then nd1 else nd1(hd ys := nd1 (hd ys)\<lparr>nd_prev := last0 0 xs\<rparr>))
           0 (if xs = [] then hd0 0 ys else h) (xs @ ys) 0"
    by (simp add: dseg_append)
qed

section \<open>Walking a segment\<close>

text \<open>The indices of a level in queue order, read off the pool with a bound on the length.\<close>

fun walk :: "nat \<Rightarrow> (u32, Node) array \<Rightarrow> u32 \<Rightarrow> u32 list" where
  "walk 0 nd h = []"
| "walk (Suc k) nd h = (if h = 0 then [] else h # walk k nd (nd_next (nd h)))"

lemma walk_dseg: "dseg nd p h xs 0 \<Longrightarrow> length xs \<le> k \<Longrightarrow> walk k nd h = xs"
proof (induction xs arbitrary: p h k)
  case Nil then show ?case by (cases k) auto
next
  case (Cons x xs) then show ?case by (cases k) auto
qed

end
