(* ===== verification/Id_Pool.thy ===== *)
theory Id_Pool
  imports Slot_Id "HOL-Library.Multiset"
begin

text \<open>
  The contract of a pool of versioned slot ids: what \<open>acquire\<close> hands out is not in use, and
  \<open>release\<close> returns a slot. Two components provide it: the gateway's \<^verbatim>\<open>SlotIdPool\<close> and the
  free-id stack of the order book. The client lemmas of the locale follow the ids a client
  holds through any sequence of operations.
\<close>

section \<open>Stored and used slots\<close>

text \<open>\<open>slots_ok cap ids n L\<close>: of the slots below the fresh index \<open>n\<close>, those of \<open>L\<close> are in use
  and every other one is stored in \<open>ids\<close> exactly once, with a valid generation.\<close>

definition idx_below :: "u32 \<Rightarrow> u32 set" where
  "idx_below n = {i. 0 < i \<and> i < n}"

definition slots_ok :: "u32 \<Rightarrow> SlotId list \<Rightarrow> u32 \<Rightarrow> u32 set \<Rightarrow> bool" where
  "slots_ok cap ids n L \<longleftrightarrow>
     distinct (map (slot_index cap) ids) \<and> (\<forall>v\<in>set ids. slot_isValid cap v) \<and>
     slot_index cap ` set ids = idx_below n - L \<and> L \<subseteq> idx_below n"

lemma card_idx_below: "card (idx_below n) = unat n - 1"
proof -
  have "idx_below n = (of_nat :: nat \<Rightarrow> u32) ` {1..<unat n}"
  proof (intro equalityI subsetI)
    fix i assume "i \<in> idx_below n"
    then have "unat i \<in> {1..<unat n}"
      by (auto simp: idx_below_def word_less_nat_alt word_gt_0_unat)
    then show "i \<in> of_nat ` {1..<unat n}" by (rule image_eqI[rotated]) simp
  next
    fix i assume "i \<in> (of_nat :: nat \<Rightarrow> u32) ` {1..<unat n}"
    then obtain k where k: "i = of_nat k" "1 \<le> k" "k < unat n" by auto
    then have "unat i = k"
      using unsigned_less[of n, where 'a = nat] by (simp add: unat_of_nat)
    with k show "i \<in> idx_below n" by (auto simp: idx_below_def word_less_nat_alt)
  qed
  moreover have "inj_on (of_nat :: nat \<Rightarrow> u32) {1..<unat n}"
  proof (rule inj_onI)
    fix x y :: nat
    assume xy: "x \<in> {1..<unat n}" "y \<in> {1..<unat n}" "(of_nat x :: u32) = of_nat y"
    have "unat (of_nat k :: u32) = k" if "k < unat n" for k
      using that unsigned_less[of n, where 'a = nat] by (simp add: unat_of_nat)
    with xy show "x = y" by (metis atLeastLessThan_iff)
  qed
  ultimately show ?thesis by (simp add: card_image)
qed

lemma slots_ok_card:
  assumes "slots_ok cap ids n L"
  shows "length ids + card L = unat n - 1"
proof -
  have "length ids = card (slot_index cap ` set ids)"
    using assms by (metis distinct_card length_map set_map slots_ok_def)
  also have "\<dots> = card (idx_below n) - card L"
    using assms by (simp add: slots_ok_def card_Diff_subset finite_subset[OF _ finite])
  finally show ?thesis
    using assms card_mono[of "idx_below n" L] by (simp add: slots_ok_def card_idx_below)
qed

lemma slots_ok_perm: "mset xs = mset ys \<Longrightarrow> slots_ok cap xs n L \<longleftrightarrow> slots_ok cap ys n L"
proof -
  assume m: "mset xs = mset ys"
  then have "mset (map (slot_index cap) xs) = mset (map (slot_index cap) ys)" by simp
  then have "distinct (map (slot_index cap) xs) = distinct (map (slot_index cap) ys)"
    by (rule mset_eq_imp_distinct_iff)
  with mset_eq_setD[OF m] show ?thesis by (simp add: slots_ok_def)
qed

lemma slots_ok_take:
  assumes "slots_ok cap (v # ids) n L"
  shows "slot_isValid cap v" "slot_index cap v \<notin> L" "slot_index cap v \<in> idx_below n"
    "slots_ok cap ids n (insert (slot_index cap v) L)"
proof -
  have i: "insert (slot_index cap v) (slot_index cap ` set ids) = idx_below n - L"
    "slot_index cap v \<notin> slot_index cap ` set ids"
    using assms by (auto simp: slots_ok_def)
  then have "slot_index cap ` set ids = idx_below n - insert (slot_index cap v) L" by blast
  with i assms show "slot_isValid cap v" "slot_index cap v \<notin> L" "slot_index cap v \<in> idx_below n"
    "slots_ok cap ids n (insert (slot_index cap v) L)"
    by (auto simp: slots_ok_def)
qed

lemma slots_ok_give:
  assumes "slots_ok cap ids n L" "slot_index cap v \<in> L" "slot_isValid cap v"
  shows "slots_ok cap (v # ids) n (L - {slot_index cap v})"
  using assms by (auto simp: slots_ok_def)

lemma idx_below_Suc: "0 < n \<Longrightarrow> n < m \<Longrightarrow> idx_below (n + 1) = insert n (idx_below n)"
  by (auto simp: idx_below_def word_less_nat_alt unat_Suc_less word_unat_eq_iff less_Suc_eq)

lemma slots_ok_fresh:
  assumes "slots_ok cap ids n L" "slot_cap_ok cap" "0 < n" "n \<le> INDEX_MASK cap" "n < m"
  shows "slots_ok cap (slot_make cap n 1 # ids) (n + 1) L"
proof -
  note f = slot_make_fields[OF assms(2,4) one_le_GEN_MASK[OF assms(2)]]
  have "n \<notin> idx_below n" by (simp add: idx_below_def)
  with assms(1) f idx_below_Suc[OF assms(3,5)] show ?thesis
    by (auto simp: slots_ok_def slot_isValid_def)
qed

section \<open>The contract\<close>

datatype pool_op = Acquire | Release nat

text \<open>A client that keeps the ids it holds in a list and releases them by position.\<close>

fun pool_step ::
  "('s \<Rightarrow> u32 \<times> 's) \<Rightarrow> (u32 \<Rightarrow> 's \<Rightarrow> 's) \<Rightarrow> u32 \<Rightarrow> pool_op \<Rightarrow> 's \<times> u32 list \<Rightarrow> 's \<times> u32 list" where
  "pool_step acq rel cap Acquire (s, held) =
     (case acq s of (v, s') \<Rightarrow> (s', if slot_isValid cap v then v # held else held))"
| "pool_step acq rel cap (Release k) (s, held) =
     (if k < length held then (rel (held ! k) s, take k held @ drop (Suc k) held) else (s, held))"

definition pool_run ::
  "('s \<Rightarrow> u32 \<times> 's) \<Rightarrow> (u32 \<Rightarrow> 's \<Rightarrow> 's) \<Rightarrow> u32 \<Rightarrow> pool_op list \<Rightarrow> 's \<times> u32 list \<Rightarrow> 's \<times> u32 list" where
  "pool_run acq rel cap ops = fold (pool_step acq rel cap) ops"

lemma pool_step_length: "length (snd (pool_step acq rel cap op c)) \<le> Suc (length (snd c))"
  by (cases c; cases op) (auto split: prod.splits)

lemma pool_run_length: "length (snd (pool_run acq rel cap ops c)) \<le> length ops + length (snd c)"
  unfolding pool_run_def
proof (induction ops arbitrary: c)
  case (Cons op ops)
  show ?case
    using Cons[of "pool_step acq rel cap op c"] pool_step_length[of acq rel cap op c] by simp
qed simp

locale id_pool =
  fixes acq :: "'s \<Rightarrow> u32 \<times> 's"
    and rel :: "u32 \<Rightarrow> 's \<Rightarrow> 's"
    and cap :: u32
    and pool_inv :: "'s \<Rightarrow> u32 set \<Rightarrow> bool"
  assumes acquire_law:
      "pool_inv s L \<Longrightarrow> acq s = (v, s') \<Longrightarrow> slot_isValid cap v \<Longrightarrow>
         slot_index cap v \<notin> L \<and> pool_inv s' (insert (slot_index cap v) L)"
    and exhausted_law:
      "pool_inv s L \<Longrightarrow> acq s = (v, s') \<Longrightarrow> \<not> slot_isValid cap v \<Longrightarrow> pool_inv s' L"
    and release_law:
      "pool_inv s L \<Longrightarrow> slot_index cap v \<in> L \<Longrightarrow> pool_inv (rel v s) (L - {slot_index cap v})"
begin

definition held_ok :: "'s \<times> u32 list \<Rightarrow> bool" where
  "held_ok = (\<lambda>(s, held). pool_inv s (slot_index cap ` set held) \<and> distinct (map (slot_index cap) held))"

lemma step_held:
  assumes "held_ok c"
  shows "held_ok (pool_step acq rel cap op c)"
proof (cases c; cases op)
  fix s held assume c: "c = (s, held)" and op: "op = Acquire"
  obtain v s' where a: "acq s = (v, s')" by (cases "acq s")
  with assms c op acquire_law[of s _ v s'] exhausted_law[of s _ v s'] show ?thesis
    by (auto simp: held_ok_def)
next
  fix s held k assume c: "c = (s, held)" and op: "op = Release k"
  show ?thesis
  proof (cases "k < length held")
    case True
    let ?i = "slot_index cap"
    have split: "held = take k held @ held ! k # drop (Suc k) held"
      using True by (simp add: id_take_nth_drop)
    have d: "distinct (map ?i (take k held @ held ! k # drop (Suc k) held))"
      using assms c split by (auto simp: held_ok_def)
    have img: "?i ` set held = insert (?i (held ! k)) (?i ` set (take k held @ drop (Suc k) held))"
      by (subst split) auto
    moreover have "?i (held ! k) \<notin> ?i ` set (take k held @ drop (Suc k) held)"
      using d by auto
    ultimately have "?i ` set held - {?i (held ! k)} = ?i ` set (take k held @ drop (Suc k) held)"
      by auto
    moreover have "pool_inv (rel (held ! k) s) (?i ` set held - {?i (held ! k)})"
      using assms c True by (intro release_law) (auto simp: held_ok_def)
    ultimately show ?thesis using c op True d by (auto simp: held_ok_def)
  next
    case False with assms c op show ?thesis by simp
  qed
qed

lemma run_held: "held_ok c \<Longrightarrow> held_ok (pool_run acq rel cap ops c)"
  unfolding pool_run_def by (induction ops arbitrary: c) (auto simp: step_held)

lemma run_distinct:
  assumes "pool_inv s {}"
  shows "distinct (map (slot_index cap) (snd (pool_run acq rel cap ops (s, []))))"
  using run_held[of "(s, [])" ops] assms by (auto simp: held_ok_def split: prod.splits)

end

end
