(* ===== verification/Price_Level_Inv.thy ===== *)
theory Price_Level_Inv
  imports Price_Masks Node_List Id_Pool
begin

text \<open>
  The representation invariant of the order book. A ghost function \<open>q\<close> gives, for each side
  and price, the node indices of the resting orders in queue order; \<open>book_rel b q\<close> ties it to
  the four representations the code keeps in step: the linked lists with their volumes, the
  occupancy masks, the cached best prices, and the id allocator. Every operation is then
  described by what it does to \<open>q\<close>. \<open>queue_of\<close> reads \<open>q\<close> off a book.
\<close>

type_synonym queues = "Side \<Rightarrow> u32 \<Rightarrow> u32 list"

section \<open>The invariant\<close>

definition node_ok :: "(u32, Node) array \<Rightarrow> Side \<Rightarrow> u32 \<Rightarrow> u32 \<Rightarrow> bool" where
  "node_ok nd sd p i \<longleftrightarrow>
     nd_side (nd i) = sd \<and> nd_price (nd i) = p \<and> nd_qty (nd i) \<noteq> 0 \<and>
     slot_index BookOrderId_cap (nd_localId (nd i)) = i \<and>
     slot_isValid BookOrderId_cap (nd_localId (nd i))"

definition qty_sum :: "(u32, Node) array \<Rightarrow> u32 list \<Rightarrow> nat" where
  "qty_sum nd xs = sum_list (map (\<lambda>i. unat (nd_qty (nd i))) xs)"

definition level_rel :: "(u32, Node) array \<Rightarrow> PriceLevelSide \<Rightarrow> Side \<Rightarrow> u32 \<Rightarrow> u32 list \<Rightarrow> bool" where
  "level_rel nd l sd p xs \<longleftrightarrow>
     dseg nd 0 (pl_head l) xs 0 \<and> pl_tail l = last0 0 xs \<and> distinct xs \<and>
     unat (pl_volume l) = qty_sum nd xs \<and> (\<forall>i\<in>set xs. node_ok nd sd p i)"

definition live :: "queues \<Rightarrow> u32 set" where
  "live q = (\<Union>sd p. set (q sd p))"

definition mask_of :: "PriceLevelOrderBook \<Rightarrow> Side \<Rightarrow> (nat, u64) array" where
  "mask_of b sd = (case sd of SideBuy \<Rightarrow> bidMask b | SideSell \<Rightarrow> askMask b)"

definition occ_rel :: "PriceLevelOrderBook \<Rightarrow> queues \<Rightarrow> bool" where
  "occ_rel b q \<longleftrightarrow>
     (\<forall>sd n. occ (mask_of b sd) n \<longleftrightarrow> n < unat MAX_TICKS \<and> q sd (of_nat n) \<noteq> []) \<and>
     (\<forall>sd p. q sd p \<noteq> [] \<longrightarrow> p < MAX_TICKS) \<and>
     (\<forall>p. q SideSell p \<noteq> [] \<longrightarrow> minAsk b \<le> p) \<and>
     (minAsk b = MAX_TICKS \<or> q SideSell (minAsk b) \<noteq> []) \<and>
     (\<forall>p. q SideBuy p \<noteq> [] \<longrightarrow> p \<le> maxBid b) \<and>
     (maxBid b = 0 \<or> q SideBuy (maxBid b) \<noteq> [])"

definition free_ids :: "PriceLevelOrderBook \<Rightarrow> BookOrderId list" where
  "free_ids b = map (\<lambda>k. freeStack b (of_nat k)) [0..<unat (freeTop b)]"

definition book_ids_inv :: "PriceLevelOrderBook \<Rightarrow> u32 set \<Rightarrow> bool" where
  "book_ids_inv b L \<longleftrightarrow>
     slots_ok BookOrderId_cap (free_ids b) (nextAvailableIdx b) L \<and>
     1 \<le> nextAvailableIdx b \<and> nextAvailableIdx b \<le> MAX_BOOK_ORDERS"

definition levels_rel :: "PriceLevelOrderBook \<Rightarrow> queues \<Rightarrow> bool" where
  "levels_rel b q \<longleftrightarrow> (\<forall>sd p. level_rel (nodePool b) (level_side b sd p) sd p (q sd p))"

definition book_rel :: "PriceLevelOrderBook \<Rightarrow> queues \<Rightarrow> bool" where
  "book_rel b q \<longleftrightarrow> levels_rel b q \<and> occ_rel b q \<and> book_ids_inv b (live q)"

definition queue_of :: "PriceLevelOrderBook \<Rightarrow> queues" where
  "queue_of b sd p = walk (unat MAX_BOOK_ORDERS) (nodePool b) (pl_head (level_side b sd p))"

definition bookInv :: "PriceLevelOrderBook \<Rightarrow> bool" where
  "bookInv b \<longleftrightarrow> book_rel b (queue_of b)"

section \<open>Field lemmas\<close>

lemma level_side_simps [simp]:
  "level_side (upd_node i f b) sd p = level_side b sd p"
  "level_side (upd_level sd' p' g b) sd p =
     (if sd' = sd \<and> p' = p then g (level_side b sd p) else level_side b sd p)"
  "level_side (b\<lparr>freeStack := fs, freeTop := ft\<rparr>) sd p = level_side b sd p"
  "level_side (b\<lparr>freeTop := ft\<rparr>) sd p = level_side b sd p"
  "level_side (b\<lparr>nextAvailableIdx := nx\<rparr>) sd p = level_side b sd p"
  "level_side (b\<lparr>maxBid := x\<rparr>) sd p = level_side b sd p"
  "level_side (b\<lparr>minAsk := x\<rparr>) sd p = level_side b sd p"
  "level_side (b\<lparr>bidMask := m\<rparr>) sd p = level_side b sd p"
  "level_side (b\<lparr>askMask := m\<rparr>) sd p = level_side b sd p"
  by (cases sd; cases sd'; simp add: level_side_def upd_node_def upd_level_def)+

lemma nodePool_simps [simp]:
  "nodePool (upd_level sd p g b) = nodePool b"
  "nodePool (upd_node i f b) = (nodePool b)(i := f (nodePool b i))"
  by (simp_all add: upd_node_def upd_level_def)

lemma other_fields_upd_node [simp]:
  "bidMask (upd_node i f b) = bidMask b" "askMask (upd_node i f b) = askMask b"
  "minAsk (upd_node i f b) = minAsk b" "maxBid (upd_node i f b) = maxBid b"
  "freeStack (upd_node i f b) = freeStack b" "freeTop (upd_node i f b) = freeTop b"
  "nextAvailableIdx (upd_node i f b) = nextAvailableIdx b"
  by (simp_all add: upd_node_def)

lemma other_fields_upd_level [simp]:
  "bidMask (upd_level sd p g b) = bidMask b" "askMask (upd_level sd p g b) = askMask b"
  "minAsk (upd_level sd p g b) = minAsk b" "maxBid (upd_level sd p g b) = maxBid b"
  "freeStack (upd_level sd p g b) = freeStack b" "freeTop (upd_level sd p g b) = freeTop b"
  "nextAvailableIdx (upd_level sd p g b) = nextAvailableIdx b"
  by (simp_all add: upd_level_def)

lemma updateOccupancy_fields [simp]:
  "nodePool (updateOccupancy sd p a b) = nodePool b"
  "level_side (updateOccupancy sd p a b) = level_side b"
  "freeStack (updateOccupancy sd p a b) = freeStack b"
  "freeTop (updateOccupancy sd p a b) = freeTop b"
  "nextAvailableIdx (updateOccupancy sd p a b) = nextAvailableIdx b"
  by (auto simp: updateOccupancy_def Let_def findNewMaxBid_def findNewMinAsk_def level_side_def fun_eq_iff
      split: Side.splits)

lemma releaseId_fields [simp]:
  "nodePool (releaseId v b) = nodePool b" "level_side (releaseId v b) = level_side b"
  "bidMask (releaseId v b) = bidMask b" "askMask (releaseId v b) = askMask b"
  "minAsk (releaseId v b) = minAsk b" "maxBid (releaseId v b) = maxBid b"
  "nextAvailableIdx (releaseId v b) = nextAvailableIdx b"
  by (auto simp: releaseId_def level_side_def fun_eq_iff split: Side.splits)

lemma acquireId_fields:
  "nodePool (snd (acquireId b)) = nodePool b" "level_side (snd (acquireId b)) = level_side b"
  "mask_of (snd (acquireId b)) = mask_of b"
  "minAsk (snd (acquireId b)) = minAsk b" "maxBid (snd (acquireId b)) = maxBid b"
  by (auto simp: acquireId_def Let_def level_side_def mask_of_def fun_eq_iff split: Side.splits)

lemma occ_rel_cong:
  "mask_of b = mask_of b' \<Longrightarrow> minAsk b = minAsk b' \<Longrightarrow> maxBid b = maxBid b' \<Longrightarrow>
     occ_rel b q \<longleftrightarrow> occ_rel b' q"
  by (simp add: occ_rel_def)

lemma mask_of_simps [simp]:
  "mask_of (upd_node i f b) = mask_of b" "mask_of (upd_level sd p g b) = mask_of b"
  "mask_of (releaseId v b) = mask_of b"
  by (auto simp: mask_of_def fun_eq_iff split: Side.splits)

lemma occ_rel_simps [simp]:
  "occ_rel (upd_node i f b) q \<longleftrightarrow> occ_rel b q" "occ_rel (upd_level sd p g b) q \<longleftrightarrow> occ_rel b q"
  "occ_rel (releaseId v b) q \<longleftrightarrow> occ_rel b q"
  by (rule occ_rel_cong; simp)+

lemma book_ids_inv_cong:
  "freeStack b = freeStack b' \<Longrightarrow> freeTop b = freeTop b' \<Longrightarrow> nextAvailableIdx b = nextAvailableIdx b' \<Longrightarrow>
     book_ids_inv b L \<longleftrightarrow> book_ids_inv b' L"
  by (simp add: book_ids_inv_def free_ids_def)

lemma book_ids_inv_simps [simp]:
  "book_ids_inv (upd_node i f b) L \<longleftrightarrow> book_ids_inv b L"
  "book_ids_inv (upd_level sd p g b) L \<longleftrightarrow> book_ids_inv b L"
  "book_ids_inv (updateOccupancy sd p a b) L \<longleftrightarrow> book_ids_inv b L"
  by (rule book_ids_inv_cong; simp)+

section \<open>The id allocator\<close>

lemma MAX_BOOK_ORDERS_val: "MAX_BOOK_ORDERS = 131072" "INDEX_MASK BookOrderId_cap = 131071"
  by (simp_all add: MAX_BOOK_ORDERS_def push_bit_eq_mult INDEX_MASK_def IndexBits_book[unfolded MAX_BOOK_ORDERS_def push_bit_eq_mult, simplified])

lemma free_ids_pop:
  assumes "0 < freeTop b"
  shows "free_ids b = free_ids (b\<lparr>freeTop := freeTop b - 1\<rparr>) @ [freeStack b (freeTop b - 1)]"
proof -
  have "unat (freeTop b) = Suc (unat (freeTop b - 1))"
    using assms by (simp add: unat_pred_pos word_gt_0_unat)
  then show ?thesis by (simp add: free_ids_def)
qed

lemma free_top_room: "book_ids_inv b L \<Longrightarrow> unat (freeTop b) + card L < 131072"
  using slots_ok_card[of BookOrderId_cap "free_ids b" "nextAvailableIdx b" L]
  by (auto simp: book_ids_inv_def free_ids_def MAX_BOOK_ORDERS_val word_le_nat_alt)

lemma free_ids_push:
  assumes "unat (freeTop b) < 131072"
  shows "free_ids (releaseId v b) = free_ids b @ [nextGen BookOrderId_cap v]"
proof -
  have "freeTop b < 131072" using assms by (simp add: word_less_nat_alt)
  then have "unat (freeTop b + 1) = Suc (unat (freeTop b))" by (rule unat_Suc_less)
  moreover have "(of_nat k :: u32) \<noteq> freeTop b" if "k < unat (freeTop b)" for k
  proof -
    have "unat (of_nat k :: u32) = k" using that assms by (simp add: unat_of_nat)
    with that show ?thesis by auto
  qed
  ultimately show ?thesis by (simp add: free_ids_def releaseId_def)
qed

lemma acquireId_cases:
  assumes inv: "book_ids_inv b L" and a: "acquireId b = (v, b')"
  shows "slot_isValid BookOrderId_cap v \<and> slot_index BookOrderId_cap v \<notin> L \<and>
       book_ids_inv b' (insert (slot_index BookOrderId_cap v) L)
     \<or> v = 0 \<and> b' = b \<and> card L = unat MAX_BOOK_ORDERS - 1"
proof (cases "0 < freeTop b")
  case True
  then have v: "v = freeStack b (freeTop b - 1)" and b': "b' = b\<lparr>freeTop := freeTop b - 1\<rparr>"
    using a by (auto simp: acquireId_def Let_def)
  have "slots_ok BookOrderId_cap (v # free_ids b') (nextAvailableIdx b) L"
    using inv free_ids_pop[OF True] v b'
    by (subst slots_ok_perm[where ys = "free_ids b"]) (simp_all add: book_ids_inv_def)
  note t = slots_ok_take[OF this]
  with inv show ?thesis by (simp add: book_ids_inv_def b')
next
  case top: False
  then have "free_ids b = []" by (simp add: free_ids_def word_gt_0_unat)
  show ?thesis
  proof (cases "nextAvailableIdx b \<ge> MAX_BOOK_ORDERS")
    case True
    with a top have "v = 0" "b' = b" by (auto simp: acquireId_def)
    moreover have "nextAvailableIdx b = MAX_BOOK_ORDERS" using inv True by (simp add: book_ids_inv_def)
    ultimately show ?thesis
      using inv slots_ok_card[of BookOrderId_cap "free_ids b" "nextAvailableIdx b" L] \<open>free_ids b = []\<close>
      by (simp add: book_ids_inv_def)
  next
    case False
    let ?n = "nextAvailableIdx b"
    have v: "v = slot_make BookOrderId_cap ?n 1" and b': "b' = b\<lparr>nextAvailableIdx := ?n + 1\<rparr>"
      using a top False by (auto simp: acquireId_def)
    have lt: "?n < MAX_BOOK_ORDERS" using False by simp
    have n: "0 < ?n" "?n \<le> INDEX_MASK BookOrderId_cap" "?n < MAX_BOOK_ORDERS"
      unfolding MAX_BOOK_ORDERS_val(2)
      using inv lt by (auto simp: book_ids_inv_def MAX_BOOK_ORDERS_val(1) word_le_nat_alt word_less_nat_alt)
    have "slots_ok BookOrderId_cap (v # free_ids b) (?n + 1) L"
      unfolding v using inv n by (intro slots_ok_fresh) (auto simp: book_ids_inv_def)
    note t = slots_ok_take[OF this]
    have "1 \<le> ?n + 1" "?n + 1 \<le> MAX_BOOK_ORDERS"
      using n unat_Suc_less[OF n(3)] by (auto simp: word_le_nat_alt word_less_nat_alt)
    with t show ?thesis by (simp add: book_ids_inv_def b') (simp add: free_ids_def)
  qed
qed

lemma releaseId_ids:
  assumes inv: "book_ids_inv b L" and i: "slot_index BookOrderId_cap v \<in> L"
  shows "book_ids_inv (releaseId v b) (L - {slot_index BookOrderId_cap v})"
proof -
  let ?w = "nextGen BookOrderId_cap v"
  have "unat (freeTop b) < 131072" using free_top_room[OF inv] by simp
  note push = free_ids_push[OF this, of v]
  have "slots_ok BookOrderId_cap (?w # free_ids b) (nextAvailableIdx b) (L - {slot_index BookOrderId_cap ?w})"
    using inv i by (intro slots_ok_give) (auto simp: book_ids_inv_def)
  then have "slots_ok BookOrderId_cap (free_ids b @ [?w]) (nextAvailableIdx b) (L - {slot_index BookOrderId_cap v})"
    by (subst slots_ok_perm[where ys = "?w # free_ids b"]) simp_all
  with inv push show ?thesis by (simp add: book_ids_inv_def)
qed

interpretation book_ids: id_pool acquireId releaseId BookOrderId_cap book_ids_inv
proof
  fix b L v b'
  assume "book_ids_inv b L" "acquireId b = (v, b')"
  note c = acquireId_cases[OF this]
  have "\<not> slot_isValid BookOrderId_cap 0" by (simp add: slot_isValid_def slot_gen_def)
  with c \<open>book_ids_inv b L\<close>
  show "slot_isValid BookOrderId_cap v \<Longrightarrow>
      slot_index BookOrderId_cap v \<notin> L \<and> book_ids_inv b' (insert (slot_index BookOrderId_cap v) L)"
    and "\<not> slot_isValid BookOrderId_cap v \<Longrightarrow> book_ids_inv b' L"
    by auto
qed (rule releaseId_ids)

section \<open>Occupancy updates\<close>

definition upd_q :: "Side \<Rightarrow> u32 \<Rightarrow> u32 list \<Rightarrow> queues \<Rightarrow> queues" where
  "upd_q sd p xs q = q(sd := (q sd)(p := xs))"

lemma upd_q_simps [simp]:
  "upd_q sd p xs q sd' p' = (if sd' = sd \<and> p' = p then xs else q sd' p')"
  by (auto simp: upd_q_def)

lemma upd_q_same [simp]: "upd_q sd p (q sd p) q = q"
  by (auto simp: upd_q_def)

lemma occ_relD:
  assumes "occ_rel b q"
  shows "occ (mask_of b sd) n \<longleftrightarrow> n < unat MAX_TICKS \<and> q sd (of_nat n) \<noteq> []"
    "q sd p \<noteq> [] \<Longrightarrow> p < MAX_TICKS"
    "q SideSell p \<noteq> [] \<Longrightarrow> minAsk b \<le> p"
    "minAsk b = MAX_TICKS \<or> q SideSell (minAsk b) \<noteq> []"
    "q SideBuy p \<noteq> [] \<Longrightarrow> p \<le> maxBid b"
    "maxBid b = 0 \<or> q SideBuy (maxBid b) \<noteq> []"
  using assms unfolding occ_rel_def by blast+

lemma occ_relI:
  assumes "\<And>sd n. occ (mask_of b sd) n \<longleftrightarrow> n < unat MAX_TICKS \<and> q sd (of_nat n) \<noteq> []"
    "\<And>sd p. q sd p \<noteq> [] \<Longrightarrow> p < MAX_TICKS"
    "\<And>p. q SideSell p \<noteq> [] \<Longrightarrow> minAsk b \<le> p"
    "minAsk b = MAX_TICKS \<or> q SideSell (minAsk b) \<noteq> []"
    "\<And>p. q SideBuy p \<noteq> [] \<Longrightarrow> p \<le> maxBid b"
    "maxBid b = 0 \<or> q SideBuy (maxBid b) \<noteq> []"
  shows "occ_rel b q"
  using assms unfolding occ_rel_def by blast

lemma of_nat_eq_price: "n < unat MAX_TICKS \<Longrightarrow> (of_nat n :: u32) = p \<longleftrightarrow> n = unat p"
proof -
  assume "n < unat MAX_TICKS"
  then have "unat (of_nat n :: u32) = n" by (simp add: MAX_TICKS_val unat_of_nat)
  then show ?thesis by auto
qed

lemma mask_of_set:
  assumes "p < MAX_TICKS"
  shows "occ (mask_of (updateOccupancy sd p True b) sd') n \<longleftrightarrow>
           (sd' = sd \<and> n = unat p) \<or> occ (mask_of b sd') n"
  by (cases sd; cases sd') (simp_all add: updateOccupancy_def mask_of_def Let_def occ_set[simplified])

lemma occ_rel_set:
  assumes rel: "occ_rel b q" and p: "p < MAX_TICKS" and xs: "xs \<noteq> []"
  shows "occ_rel (updateOccupancy sd p True b) (upd_q sd p xs q)"
proof -
  note r = occ_relD[OF rel]
  have pn: "unat p < unat MAX_TICKS" using p by (simp add: word_less_nat_alt)
  have m: "occ (mask_of (updateOccupancy sd p True b) sd') n \<longleftrightarrow>
      n < unat MAX_TICKS \<and> upd_q sd p xs q sd' (of_nat n) \<noteq> []" for sd' n
    unfolding mask_of_set[OF p] r(1) using pn xs of_nat_eq_price[of n p] by auto
  have sell: "minAsk (updateOccupancy sd p True b) = (if sd = SideSell then min (minAsk b) p else minAsk b)"
    and buy: "maxBid (updateOccupancy sd p True b) = (if sd = SideBuy then max (maxBid b) p else maxBid b)"
    by (cases sd; simp add: updateOccupancy_def Let_def)+
  show ?thesis
  proof (rule occ_relI)
    show "occ (mask_of (updateOccupancy sd p True b) sd') n \<longleftrightarrow>
        n < unat MAX_TICKS \<and> upd_q sd p xs q sd' (of_nat n) \<noteq> []" for sd' n by (rule m)
    show "upd_q sd p xs q sd' p' \<noteq> [] \<Longrightarrow> p' < MAX_TICKS" for sd' p'
      using r(2) p by (auto split: if_splits)
    show "upd_q sd p xs q SideSell p' \<noteq> [] \<Longrightarrow> minAsk (updateOccupancy sd p True b) \<le> p'" for p'
      unfolding sell using r(3)[of p'] by (auto simp: min_le_iff_disj split: if_splits)
    show "minAsk (updateOccupancy sd p True b) = MAX_TICKS \<or>
        upd_q sd p xs q SideSell (minAsk (updateOccupancy sd p True b)) \<noteq> []"
      unfolding sell using r(4) xs by (auto simp: min_def)
    show "upd_q sd p xs q SideBuy p' \<noteq> [] \<Longrightarrow> p' \<le> maxBid (updateOccupancy sd p True b)" for p'
      unfolding buy using r(5)[of p'] by (auto simp: le_max_iff_disj split: if_splits)
    show "maxBid (updateOccupancy sd p True b) = 0 \<or>
        upd_q sd p xs q SideBuy (maxBid (updateOccupancy sd p True b)) \<noteq> []"
      unfolding buy using r(6) xs by (auto simp: max_def)
  qed
qed

lemma occ_rel_nonempty:
  assumes "occ_rel b q" "q sd p \<noteq> []" "xs \<noteq> []"
  shows "occ_rel b (upd_q sd p xs q)"
proof (rule occ_relI)
  note r = occ_relD[OF assms(1)]
  show "occ (mask_of b sd') n \<longleftrightarrow> n < unat MAX_TICKS \<and> upd_q sd p xs q sd' (of_nat n) \<noteq> []" for sd' n
    unfolding r(1) using assms(2,3) by auto
qed (use occ_relD[OF assms(1)] assms(2,3) in \<open>auto split: if_splits\<close>)

lemma mask_of_clear:
  assumes "pl_volume (level_side b sd p) = 0"
  shows "occ (mask_of (updateOccupancy sd p False b) sd') n \<longleftrightarrow>
           \<not> (sd' = sd \<and> n = unat p) \<and> occ (mask_of b sd') n"
  using assms
  by (cases sd; cases sd')
     (auto simp: updateOccupancy_def mask_of_def Let_def occ_clear[simplified] findNewMaxBid_def findNewMinAsk_def)

lemma minAsk_clear:
  assumes "pl_volume (level_side b sd p) = 0"
  shows "minAsk (updateOccupancy sd p False b) =
    (if sd = SideSell \<and> p = minAsk b
     then findNewMinAsk_from (mask_of (updateOccupancy sd p False b) SideSell) (unat (drop_bit 6 p))
     else minAsk b)"
  using assms by (cases sd) (auto simp: updateOccupancy_def Let_def findNewMinAsk_def findNewMaxBid_def mask_of_def)

lemma maxBid_clear:
  assumes "pl_volume (level_side b sd p) = 0"
  shows "maxBid (updateOccupancy sd p False b) =
    (if sd = SideBuy \<and> p = maxBid b
     then findNewMaxBid_from (mask_of (updateOccupancy sd p False b) SideBuy) (unat (drop_bit 6 p))
     else maxBid b)"
  using assms by (cases sd) (auto simp: updateOccupancy_def Let_def findNewMinAsk_def findNewMaxBid_def mask_of_def)

lemma occ_rel_clear:
  assumes rel: "occ_rel b q" and p: "p < MAX_TICKS" and v: "pl_volume (level_side b sd p) = 0"
  shows "occ_rel (updateOccupancy sd p False b) (upd_q sd p [] q)"
proof -
  note r = occ_relD[OF rel]
  let ?b = "updateOccupancy sd p False b" and ?q = "upd_q sd p [] q"
  have m: "occ (mask_of ?b sd') n \<longleftrightarrow> n < unat MAX_TICKS \<and> ?q sd' (of_nat n) \<noteq> []" for sd' n
    unfolding mask_of_clear[OF v] r(1) using of_nat_eq_price[of n p] by auto
  have lt: "?q sd' p' \<noteq> [] \<Longrightarrow> p' < MAX_TICKS" for sd' p' using r(2) by (auto split: if_splits)
  have o: "?q sd' p' \<noteq> [] \<longleftrightarrow> occ (mask_of ?b sd') (unat p')" for sd' p'
    unfolding m using lt[of sd' p'] by (auto simp: word_less_nat_alt)
  have old: "occ (mask_of ?b sd') n \<Longrightarrow> q sd' (of_nat n) \<noteq> []" for sd' n
    unfolding m by (simp split: if_splits)
  have bd: "occ (mask_of ?b sd') n \<Longrightarrow> unat (of_nat n :: u32) = n" for sd' n
    using of_nat_eq_price[of n "of_nat n"] by (simp add: m)
  have sell: "(\<forall>p'. ?q SideSell p' \<noteq> [] \<longrightarrow> minAsk ?b \<le> p') \<and> (minAsk ?b = MAX_TICKS \<or> ?q SideSell (minAsk ?b) \<noteq> [])"
  proof (cases "sd = SideSell \<and> p = minAsk b")
    case True
    let ?f = "findNewMinAsk_from (mask_of ?b SideSell) (unat (drop_bit 6 p))"
    have "64 * unat (drop_bit 6 p) \<le> n" if n: "occ (mask_of ?b SideSell) n" for n
      using r(3)[OF old[OF n]] bd[OF n] True by (simp add: drop6 word_le_nat_alt)
    with m have "(\<forall>n. occ (mask_of ?b SideSell) n \<longrightarrow> unat ?f \<le> n) \<and>
        (?f = MAX_TICKS \<or> occ (mask_of ?b SideSell) (unat ?f))"
      by (intro findNewMinAsk_best) blast+
    then show ?thesis
      using True unfolding o minAsk_clear[OF v] by (simp only: word_le_nat_alt if_True simp_thms) blast
  next
    case False
    then show ?thesis unfolding minAsk_clear[OF v] using r(3,4) by auto
  qed
  have buy: "(\<forall>p'. ?q SideBuy p' \<noteq> [] \<longrightarrow> p' \<le> maxBid ?b) \<and> (maxBid ?b = 0 \<or> ?q SideBuy (maxBid ?b) \<noteq> [])"
  proof (cases "sd = SideBuy \<and> p = maxBid b")
    case True
    let ?f = "findNewMaxBid_from (mask_of ?b SideBuy) (unat (drop_bit 6 p))"
    have "n < 64 * unat (drop_bit 6 p) + 64" if n: "occ (mask_of ?b SideBuy) n" for n
      using r(5)[OF old[OF n]] bd[OF n] True by (simp add: drop6 word_le_nat_alt)
    moreover have "unat (drop_bit 6 p) \<le> 200" using p by (simp add: drop6 word_less_nat_alt MAX_TICKS_val)
    ultimately have "(\<forall>n. occ (mask_of ?b SideBuy) n \<longrightarrow> n \<le> unat ?f) \<and>
        (?f = 0 \<or> occ (mask_of ?b SideBuy) (unat ?f))"
      by (rule findNewMaxBid_best)
    then show ?thesis
      using True unfolding o maxBid_clear[OF v] by (simp only: word_le_nat_alt if_True simp_thms) blast
  next
    case False
    then show ?thesis unfolding maxBid_clear[OF v] using r(5,6) by auto
  qed
  show ?thesis using m lt sell buy by (intro occ_relI) blast+
qed

end
