(* ===== verification/Price_Level_Fill.thy ===== *)
theory Price_Level_Fill
  imports Price_Level_Inv
begin

text \<open>
  The abstract book and the first half of the refinement: what one round of the matching loop
  does to a level. The abstract book is a list of resting orders for each side and price;
  \<open>consume\<close> is first-in first-out execution against such a list.
\<close>

section \<open>The abstract book\<close>

record Resting =
  rs_localId :: BookOrderId
  rs_systemId :: SystemOrderId
  rs_qty :: u32

type_synonym abook = "Side \<Rightarrow> u32 \<Rightarrow> Resting list"

definition resting :: "Node \<Rightarrow> Resting" where
  "resting n = \<lparr>rs_localId = nd_localId n, rs_systemId = nd_systemId n, rs_qty = nd_qty n\<rparr>"

definition abs_by :: "PriceLevelOrderBook \<Rightarrow> queues \<Rightarrow> abook" where
  "abs_by b q = (\<lambda>sd p. map (\<lambda>i. resting (nodePool b i)) (q sd p))"

definition abs_book :: "PriceLevelOrderBook \<Rightarrow> abook" where
  "abs_book b = abs_by b (queue_of b)"

definition upd_a :: "Side \<Rightarrow> u32 \<Rightarrow> Resting list \<Rightarrow> abook \<Rightarrow> abook" where
  "upd_a sd p es A = A(sd := (A sd)(p := es))"

lemma upd_a_simps [simp]:
  "upd_a sd p es A sd' p' = (if sd' = sd \<and> p' = p then es else A sd' p')"
  by (auto simp: upd_a_def)

fun consume :: "u32 \<Rightarrow> Resting list \<Rightarrow> u32 \<times> Resting list" where
  "consume r [] = (r, [])"
| "consume r (e # es) =
     (if r = 0 then (0, e # es)
      else if r < rs_qty e then (0, e\<lparr>rs_qty := rs_qty e - r\<rparr> # es)
      else consume (r - rs_qty e) es)"

lemma consume_0 [simp]: "consume 0 es = (0, es)"
  by (cases es) auto

lemma consume_left: "consume r es = (r', es') \<Longrightarrow> r' \<noteq> 0 \<Longrightarrow> es' = []"
  by (induction r es rule: consume.induct) (auto split: if_splits)

section \<open>Levels\<close>

lemma levels_relD:
  assumes "levels_rel b q"
  shows "level_rel (nodePool b) (level_side b sd p) sd p (q sd p)"
    and "dseg (nodePool b) 0 (pl_head (level_side b sd p)) (q sd p) 0"
    and "distinct (q sd p)"
    and "i \<in> set (q sd p) \<Longrightarrow> node_ok (nodePool b) sd p i"
  using assms by (auto simp: levels_rel_def level_rel_def)

lemma level_unique:
  assumes "levels_rel b q" "i \<in> set (q sd p)" "i \<in> set (q sd' p')"
  shows "sd' = sd \<and> p' = p"
  using levels_relD(4)[OF assms(1,2)] levels_relD(4)[OF assms(1,3)] by (auto simp: node_ok_def)

lemma live_iff: "i \<in> live q \<longleftrightarrow> (\<exists>sd p. i \<in> set (q sd p))"
  by (auto simp: live_def)

lemma live_upd:
  "j \<in> live (upd_q sd p xs q) \<longleftrightarrow>
     j \<in> set xs \<or> (\<exists>sd' p'. \<not> (sd' = sd \<and> p' = p) \<and> j \<in> set (q sd' p'))"
  (is "?l \<longleftrightarrow> ?r")
proof
  assume ?l
  then obtain sd' p' where "j \<in> set (upd_q sd p xs q sd' p')" by (auto simp: live_iff)
  then show ?r by (cases "sd' = sd \<and> p' = p") auto
next
  assume ?r
  then show ?l
  proof (elim disjE exE conjE)
    assume "j \<in> set xs"
    then have "j \<in> set (upd_q sd p xs q sd p)" by simp
    then show ?l unfolding live_iff by blast
  next
    fix sd' p' assume "\<not> (sd' = sd \<and> p' = p)" "j \<in> set (q sd' p')"
    then have "j \<in> set (upd_q sd p xs q sd' p')" by auto
    then show ?l unfolding live_iff by blast
  qed
qed

lemma live_split:
  "j \<in> live q \<longleftrightarrow> j \<in> set (q sd p) \<or> (\<exists>sd' p'. \<not> (sd' = sd \<and> p' = p) \<and> j \<in> set (q sd' p'))"
  using live_upd[of j sd p "q sd p" q] by simp

lemma live_remove:
  assumes "levels_rel b q" "q sd p = xs @ i # ys"
  shows "live (upd_q sd p (xs @ ys) q) = live q - {i}"
proof (rule set_eqI)
  fix j
  have "i \<notin> set (xs @ ys)" using levels_relD(3)[OF assms(1), of sd p] assms(2) by auto
  moreover have "i \<in> set (q sd' p') \<Longrightarrow> sd' = sd \<and> p' = p" for sd' p'
    using level_unique[OF assms(1), of i sd p sd' p'] assms(2) by auto
  ultimately show "j \<in> live (upd_q sd p (xs @ ys) q) \<longleftrightarrow> j \<in> live q - {i}"
    unfolding live_upd Diff_iff live_split[of j q sd p] assms(2) by auto
qed

lemma live_add: "live (upd_q sd p (q sd p @ [i]) q) = insert i (live q)"
proof (rule set_eqI)
  fix j show "j \<in> live (upd_q sd p (q sd p @ [i]) q) \<longleftrightarrow> j \<in> insert i (live q)"
    unfolding live_upd insert_iff live_split[of j q sd p] by auto
qed

lemma qty_sum_cong: "(\<And>i. i \<in> set xs \<Longrightarrow> nd_qty (nd' i) = nd_qty (nd i)) \<Longrightarrow> qty_sum nd' xs = qty_sum nd xs"
  unfolding qty_sum_def by (rule arg_cong[where f = sum_list]) simp

lemma level_rel_frame:
  assumes rel: "level_rel nd l sd p xs" and eq: "\<And>i. i \<in> set xs \<Longrightarrow> nd' i = nd i"
  shows "level_rel nd' l sd p xs"
proof -
  have "dseg nd 0 (pl_head l) xs 0" using rel by (simp add: level_rel_def)
  then have "dseg nd' 0 (pl_head l) xs 0" by (rule dseg_frame) (simp add: eq)
  moreover have "qty_sum nd' xs = qty_sum nd xs" by (rule qty_sum_cong) (simp add: eq)
  moreover have "\<forall>i\<in>set xs. node_ok nd' sd p i" using rel by (simp add: level_rel_def node_ok_def eq)
  ultimately show ?thesis using rel by (simp add: level_rel_def)
qed

lemma levels_rel_upd:
  assumes rel: "levels_rel b q"
    and new: "level_rel (nodePool b') (level_side b' sd p) sd p xs"
    and side: "\<And>sd' p'. \<not> (sd' = sd \<and> p' = p) \<Longrightarrow> level_side b' sd' p' = level_side b sd' p'"
    and node: "\<And>i. i \<in> live q \<Longrightarrow> i \<notin> set (q sd p) \<Longrightarrow> nodePool b' i = nodePool b i"
  shows "levels_rel b' (upd_q sd p xs q)"
  unfolding levels_rel_def
proof (intro allI)
  fix sd' p'
  show "level_rel (nodePool b') (level_side b' sd' p') sd' p' (upd_q sd p xs q sd' p')"
  proof (cases "sd' = sd \<and> p' = p")
    case False
    have "nodePool b' i = nodePool b i" if "i \<in> set (q sd' p')" for i
    proof (rule node)
      show "i \<in> live q" using that by (auto simp: live_iff)
      show "i \<notin> set (q sd p)" using level_unique[OF rel that, of sd p] False by blast
    qed
    with False show ?thesis
      using level_rel_frame[OF levels_relD(1)[OF rel, of sd' p']] side[of sd' p'] by auto
  qed (use new in auto)
qed

lemma abs_by_upd:
  assumes rel: "levels_rel b q"
    and node: "\<And>i. i \<in> live q \<Longrightarrow> i \<notin> set (q sd p) \<Longrightarrow> resting (nodePool b' i) = resting (nodePool b i)"
  shows "abs_by b' (upd_q sd p xs q) = upd_a sd p (map (\<lambda>i. resting (nodePool b' i)) xs) (abs_by b q)"
proof (intro ext)
  fix sd' p'
  show "abs_by b' (upd_q sd p xs q) sd' p' = upd_a sd p (map (\<lambda>i. resting (nodePool b' i)) xs) (abs_by b q) sd' p'"
  proof (cases "sd' = sd \<and> p' = p")
    case False
    have "resting (nodePool b' i) = resting (nodePool b i)" if "i \<in> set (q sd' p')" for i
    proof (rule node)
      show "i \<in> live q" using that by (auto simp: live_iff)
      show "i \<notin> set (q sd p)" using level_unique[OF rel that, of sd p] False by blast
    qed
    with False show ?thesis by (auto simp: abs_by_def)
  qed (auto simp: abs_by_def)
qed

section \<open>Bounds\<close>

lemma live_subset: "book_ids_inv b L \<Longrightarrow> L \<subseteq> idx_below (nextAvailableIdx b)"
  by (auto simp: book_ids_inv_def slots_ok_def)

lemma live_card: "book_ids_inv b L \<Longrightarrow> card L < 131072"
  using free_top_room[of b L] by simp

lemma level_length:
  assumes "book_rel b q"
  shows "length (q sd p) < 131072"
proof -
  have "length (q sd p) = card (set (q sd p))"
    using assms levels_relD(3)[of b q sd p] by (simp add: book_rel_def distinct_card)
  also have "\<dots> \<le> card (live q)"
    by (rule card_mono) (auto simp: live_def)
  finally show ?thesis using assms live_card[of b "live q"] by (simp add: book_rel_def)
qed

lemma qty_sum_simps [simp]:
  "qty_sum nd [] = 0" "qty_sum nd (i # xs) = unat (nd_qty (nd i)) + qty_sum nd xs"
  "qty_sum nd (xs @ ys) = qty_sum nd xs + qty_sum nd ys"
  by (auto simp: qty_sum_def)

lemma qty_sum_bound: "length xs < 131072 \<Longrightarrow> qty_sum nd xs + unat (r :: u32) < 2 ^ 64"
proof -
  assume l: "length xs < 131072"
  have "qty_sum nd xs \<le> length xs * 4294967296"
    unfolding qty_sum_def
  proof (rule sum_list_le_length_mult)
    fix i show "unat (nd_qty (nd i)) \<le> 4294967296"
      using unsigned_less[of "nd_qty (nd i)", where ?'a = nat] by simp
  qed
  also have "\<dots> \<le> 131072 * 4294967296" using l by simp
  finally show ?thesis using unsigned_less[of r, where ?'a = nat] by simp
qed

lemma queue_of_rel: "book_rel b q \<Longrightarrow> queue_of b = q"
proof (intro ext)
  fix sd p assume "book_rel b q"
  then show "queue_of b sd p = q sd p"
    unfolding queue_of_def
    using level_length[of b q sd p] levels_relD(2)[of b q sd p]
    by (intro walk_dseg[of _ 0]) (auto simp: book_rel_def MAX_BOOK_ORDERS_val(1))
qed

lemma bookInv_rel: "book_rel b q \<Longrightarrow> bookInv b \<and> abs_book b = abs_by b q"
  using queue_of_rel[of b q] by (simp add: bookInv_def abs_book_def)

section \<open>One fill\<close>

lemma level_head:
  assumes "book_rel b q" "q sd p = h # ys"
  shows "pl_head (level_side b sd p) = h" "h \<noteq> 0" "h \<notin> set ys" "distinct ys"
    "node_ok (nodePool b) sd p h" "nd_next (nodePool b h) = hd0 0 ys" "p < MAX_TICKS" "h \<in> live q"
    "unat (pl_volume (level_side b sd p)) = unat (nd_qty (nodePool b h)) + qty_sum (nodePool b) ys"
proof -
  have l: "level_rel (nodePool b) (level_side b sd p) sd p (h # ys)"
    using assms levels_relD(1)[of b q sd p] by (simp add: book_rel_def)
  then show "pl_head (level_side b sd p) = h" "h \<noteq> 0" "h \<notin> set ys" "distinct ys"
    "node_ok (nodePool b) sd p h"
    "unat (pl_volume (level_side b sd p)) = unat (nd_qty (nodePool b h)) + qty_sum (nodePool b) ys"
    by (auto simp: level_rel_def)
  show "nd_next (nodePool b h) = hd0 0 ys" using l dseg_hd by (auto simp: level_rel_def)
  show "p < MAX_TICKS" using assms occ_relD(2)[of b q sd p] by (simp add: book_rel_def)
  show "h \<in> live q" using assms(2) by (auto simp: live_iff intro!: exI[of _ sd] exI[of _ p])
qed

lemma unat_volume_sub:
  fixes v :: u64 and f :: u32
  assumes "unat f \<le> unat v"
  shows "unat (v - ucast f) = unat v - unat f"
  using assms by (subst unat_sub) (auto simp: word_le_nat_alt)

lemma fill_head_partial:
  assumes rel: "book_rel b q" and q: "q sd p = h # ys" and r: "0 < r" "r < nd_qty (nodePool b h)"
  shows "\<exists>b'. fill_head sd p r b = (0, b') \<and> book_rel b' q \<and>
    abs_by b' q = upd_a sd p ((resting (nodePool b h))\<lparr>rs_qty := nd_qty (nodePool b h) - r\<rparr> # tl (abs_by b q sd p)) (abs_by b q)"
proof -
  note h = level_head[OF rel q]
  let ?n = "nodePool b h"
  let ?b = "upd_level sd p (\<lambda>l. l\<lparr>pl_volume := pl_volume l - ucast r\<rparr>)
              (upd_node h (\<lambda>n. n\<lparr>nd_qty := nd_qty n - r\<rparr>) b)"
  have nz: "nd_qty ?n - r \<noteq> 0" using r by auto
  have "min r (nd_qty ?n) = r" using r by (intro min_absorb1) simp
  then have f: "fill_head sd p r b = (0, ?b)"
    using h(1) nz by (simp add: fill_head_def Let_def)
  have lev: "levels_rel b q" and oc: "occ_rel b q" and ids: "book_ids_inv b (live q)"
    using rel by (auto simp: book_rel_def)
  have l: "level_rel (nodePool b) (level_side b sd p) sd p (h # ys)"
    using levels_relD(1)[OF lev, of sd p] q by simp
  have uq: "upd_q sd p (h # ys) q = q" using upd_q_same[of sd p q] q by simp
  have same: "nodePool ?b i = nodePool b i" if "i \<noteq> h" for i using that by simp
  have "dseg (nodePool b) 0 h (h # ys) 0" using l h(1) by (simp add: level_rel_def)
  then have "dseg (nodePool ?b) 0 h (h # ys) 0" by (rule dseg_frame) simp
  moreover have "qty_sum (nodePool ?b) ys = qty_sum (nodePool b) ys"
    using h(3) by (intro qty_sum_cong) auto
  moreover have "unat (nd_qty ?n - r) = unat (nd_qty ?n) - unat r"
    using r by (intro unat_sub) simp
  moreover have "unat r < unat (nd_qty ?n)" using r by (simp add: word_less_nat_alt)
  ultimately have "level_rel (nodePool ?b) (level_side ?b sd p) sd p (h # ys)"
    using l h(1,9) nz by (simp add: level_rel_def unat_volume_sub node_ok_def)
  then have "levels_rel ?b (upd_q sd p (h # ys) q)"
    by (rule levels_rel_upd[OF lev]) (use same q in auto)
  then have "levels_rel ?b q" unfolding uq .
  then have rel': "book_rel ?b q" using oc ids by (simp add: book_rel_def)
  have "abs_by ?b (upd_q sd p (h # ys) q) =
      upd_a sd p (map (\<lambda>i. resting (nodePool ?b i)) (h # ys)) (abs_by b q)"
    by (rule abs_by_upd[OF lev]) (use same q in auto)
  moreover have "map (\<lambda>i. resting (nodePool ?b i)) ys = tl (abs_by b q sd p)"
    using h(3) q by (auto simp: abs_by_def)
  moreover have "resting (nodePool ?b h) = (resting ?n)\<lparr>rs_qty := nd_qty ?n - r\<rparr>"
    by (simp add: resting_def)
  ultimately have "abs_by ?b q = upd_a sd p ((resting ?n)\<lparr>rs_qty := nd_qty ?n - r\<rparr> # tl (abs_by b q sd p)) (abs_by b q)"
    unfolding uq by (simp only: list.map)
  with f rel' show ?thesis by blast
qed

text \<open>A fill that exhausts the head of a level: the state before the id is released.\<close>

definition unlink_head :: "Side \<Rightarrow> u32 \<Rightarrow> u32 \<Rightarrow> u32 list \<Rightarrow> PriceLevelOrderBook \<Rightarrow> PriceLevelOrderBook" where
  "unlink_head sd p h ys b =
     (let b1 = upd_level sd p (\<lambda>l. l\<lparr>pl_head := hd0 0 ys\<rparr>)
                 (upd_level sd p (\<lambda>l. l\<lparr>pl_volume := pl_volume l - ucast (nd_qty (nodePool b h))\<rparr>)
                   (upd_node h (\<lambda>n. n\<lparr>nd_qty := nd_qty n - nd_qty (nodePool b h)\<rparr>) b))
      in if ys \<noteq> [] then upd_node (hd ys) (\<lambda>n. n\<lparr>nd_prev := 0\<rparr>) b1
         else updateOccupancy sd p False (upd_level sd p (\<lambda>l. l\<lparr>pl_tail := 0\<rparr>) b1))"

lemma hd0_zero:
  assumes "book_rel b q" "q sd p = h # ys"
  shows "hd0 0 ys = 0 \<longleftrightarrow> ys = []"
proof -
  have "0 \<notin> set (q sd p)"
    using assms levels_relD(2)[of b q sd p] dseg_nonzero by (auto simp: book_rel_def)
  then show ?thesis using assms(2) by (cases ys) auto
qed

lemma fill_head_exhaust:
  assumes rel: "book_rel b q" and q: "q sd p = h # ys" and r: "nd_qty (nodePool b h) \<le> r"
  shows "fill_head sd p r b =
    (r - nd_qty (nodePool b h), releaseId (nd_localId (nodePool b h)) (unlink_head sd p h ys b))"
proof -
  note h = level_head[OF rel q]
  have ne: "hd0 0 ys \<noteq> h" using h hd0_zero[OF rel q] by (cases ys) auto
  have mn: "min r (nd_qty (nodePool b h)) = nd_qty (nodePool b h)" using r by (rule min_absorb2)
  have sd: "nd_side (nodePool b h) = sd" using h by (simp add: node_ok_def)
  show ?thesis
  proof (cases ys)
    case Nil
    then show ?thesis using h(1,6) mn sd by (simp add: fill_head_def unlink_head_def Let_def)
  next
    case (Cons y zs)
    then show ?thesis
      using h(1,6) mn ne hd0_zero[OF rel q] by (simp add: fill_head_def unlink_head_def Let_def)
  qed
qed

lemma unlink_head_node:
  assumes "h \<notin> set ys"
  shows "nodePool (unlink_head sd p h ys b) i =
    (if i = h then (nodePool b h)\<lparr>nd_qty := 0\<rparr>
     else if ys \<noteq> [] \<and> i = hd ys then (nodePool b i)\<lparr>nd_prev := 0\<rparr> else nodePool b i)"
  using assms by (cases ys) (auto simp: unlink_head_def Let_def)

lemma unlink_head_side:
  "level_side (unlink_head sd p h ys b) sd' p' =
    (if sd' = sd \<and> p' = p then
       (level_side b sd p)\<lparr>pl_head := hd0 0 ys, pl_volume := pl_volume (level_side b sd p) - ucast (nd_qty (nodePool b h)),
          pl_tail := (if ys = [] then 0 else pl_tail (level_side b sd p))\<rparr>
     else level_side b sd' p')"
  by (auto simp: unlink_head_def Let_def)

lemma unlink_head_level:
  assumes rel: "book_rel b q" and q: "q sd p = h # ys"
  shows "level_rel (nodePool (unlink_head sd p h ys b)) (level_side (unlink_head sd p h ys b) sd p) sd p ys"
proof -
  note h = level_head[OF rel q]
  note np = unlink_head_node[OF h(3), of sd p b]
  let ?nd = "nodePool (unlink_head sd p h ys b)"
  have l: "level_rel (nodePool b) (level_side b sd p) sd p (h # ys)"
    using levels_relD(1)[of b q sd p] rel q by (simp add: book_rel_def)
  have seg: "dseg ?nd 0 (hd0 0 ys) ys 0"
  proof (cases ys)
    case (Cons y zs)
    let ?nd1 = "(nodePool b)(y := (nodePool b y)\<lparr>nd_prev := 0\<rparr>)"
    have "dseg ?nd1 0 (nd_next (nodePool b h)) (y # zs) 0"
      using l Cons by (intro dseg_pop[where x = h and h = "pl_head (level_side b sd p)"]) (auto simp: level_rel_def)
    then have "dseg ?nd1 0 (hd0 0 ys) ys 0" using h Cons by simp
    then show ?thesis by (rule dseg_frame) (use h(3) Cons np in auto)
  qed simp
  have "qty_sum ?nd ys = qty_sum (nodePool b) ys"
    by (rule qty_sum_cong) (use h(3) np in auto)
  moreover have "unat (pl_volume (level_side b sd p) - ucast (nd_qty (nodePool b h))) = qty_sum (nodePool b) ys"
    using h(9) by (subst unat_volume_sub) auto
  moreover have "\<forall>i\<in>set ys. node_ok ?nd sd p i"
    using l h(3) unfolding node_ok_def np by (auto simp: level_rel_def node_ok_def)
  ultimately show ?thesis
    using seg h(4) l by (auto simp: level_rel_def unlink_head_side last0_def)
qed

lemma unlink_head_rel:
  assumes rel: "book_rel b q" and q: "q sd p = h # ys"
  shows "levels_rel (unlink_head sd p h ys b) (upd_q sd p ys q)"
    and "occ_rel (unlink_head sd p h ys b) (upd_q sd p ys q)"
    and "abs_by (unlink_head sd p h ys b) (upd_q sd p ys q) = upd_a sd p (tl (abs_by b q sd p)) (abs_by b q)"
proof -
  note h = level_head[OF rel q]
  note np = unlink_head_node[OF h(3), of sd p b]
  have lev: "levels_rel b q" and oc: "occ_rel b q" using rel by (auto simp: book_rel_def)
  have same: "nodePool (unlink_head sd p h ys b) i = nodePool b i" if "i \<notin> set (q sd p)" for i
    using that q np[of i] by auto
  show "levels_rel (unlink_head sd p h ys b) (upd_q sd p ys q)"
    by (rule levels_rel_upd[OF lev unlink_head_level[OF rel q]]) (auto simp: unlink_head_side same)
  show "occ_rel (unlink_head sd p h ys b) (upd_q sd p ys q)"
  proof (cases ys)
    case Nil
    then have "pl_volume (level_side b sd p) - ucast (nd_qty (nodePool b h)) = 0"
      using h(9) unat_volume_sub[of "nd_qty (nodePool b h)" "pl_volume (level_side b sd p)"]
      by (simp add: unat_eq_zero)
    with oc h(7) Nil show ?thesis by (simp add: unlink_head_def occ_rel_clear)
  next
    case (Cons y zs)
    then show ?thesis using occ_rel_nonempty[OF oc, of sd p ys] q by (simp add: unlink_head_def Let_def)
  qed
  have "map (\<lambda>i. resting (nodePool (unlink_head sd p h ys b) i)) ys = tl (abs_by b q sd p)"
    unfolding np using h(3) q by (auto simp: abs_by_def resting_def)
  moreover have "abs_by (unlink_head sd p h ys b) (upd_q sd p ys q) =
      upd_a sd p (map (\<lambda>i. resting (nodePool (unlink_head sd p h ys b) i)) ys) (abs_by b q)"
    by (rule abs_by_upd[OF lev]) (simp add: same)
  ultimately show "abs_by (unlink_head sd p h ys b) (upd_q sd p ys q) =
      upd_a sd p (tl (abs_by b q sd p)) (abs_by b q)" by simp
qed

lemma levels_rel_cong: "nodePool b' = nodePool b \<Longrightarrow> level_side b' = level_side b \<Longrightarrow> levels_rel b' q \<longleftrightarrow> levels_rel b q"
  by (simp add: levels_rel_def)

lemma abs_by_cong: "nodePool b' = nodePool b \<Longrightarrow> abs_by b' q = abs_by b q"
  by (simp add: abs_by_def)

lemma fill_head_full:
  assumes rel: "book_rel b q" and q: "q sd p = h # ys" and r: "nd_qty (nodePool b h) \<le> r"
  shows "\<exists>b'. fill_head sd p r b = (r - nd_qty (nodePool b h), b') \<and> book_rel b' (upd_q sd p ys q) \<and>
    abs_by b' (upd_q sd p ys q) = upd_a sd p (tl (abs_by b q sd p)) (abs_by b q)"
proof -
  note h = level_head[OF rel q] and u = unlink_head_rel[OF rel q]
  let ?b1 = "unlink_head sd p h ys b" and ?v = "nd_localId (nodePool b h)"
  have "book_ids_inv ?b1 (live q)"
    using rel by (simp add: book_rel_def unlink_head_def Let_def)
  then have "book_ids_inv (releaseId ?v ?b1) (live q - {slot_index BookOrderId_cap ?v})"
    using h(5,8) by (intro book_ids.release_law) (auto simp: node_ok_def)
  moreover have "live (upd_q sd p ys q) = live q - {h}"
    using live_remove[of b q sd p "[]" h ys] rel q by (simp add: book_rel_def)
  moreover have "slot_index BookOrderId_cap ?v = h" using h(5) by (simp add: node_ok_def)
  ultimately have "book_rel (releaseId ?v ?b1) (upd_q sd p ys q)"
    using u(1,2) levels_rel_cong[of "releaseId ?v ?b1" ?b1] by (simp add: book_rel_def)
  moreover have "abs_by (releaseId ?v ?b1) (upd_q sd p ys q) = upd_a sd p (tl (abs_by b q sd p)) (abs_by b q)"
    using u(3) abs_by_cong[of "releaseId ?v ?b1" ?b1] by simp
  ultimately show ?thesis using fill_head_exhaust[OF rel q r] by blast
qed

end
