(* ===== verification/Price_Level_Match.thy ===== *)
theory Price_Level_Match
  imports Price_Level_Fill
begin

text \<open>
  Matching refines price-time priority. The reference \<open>abs_match\<close> walks over every price of
  the opposite side within the limit, best first, and consumes each level first-in first-out;
  it knows no masks, caches or links. \<^verbatim>\<open>match\<close> on a well-formed book terminates with the same
  remainder and the same resting orders, and leaves a well-formed book.
\<close>

section \<open>The reference\<close>

definition match_prices :: "Side \<Rightarrow> Price \<Rightarrow> Price list" where
  "match_prices side limit =
     (case side of
        SideBuy \<Rightarrow> map of_nat [0..<Suc (unat limit)]
      | SideSell \<Rightarrow> map of_nat (rev [unat limit..<unat MAX_TICKS]))"

fun consume_all :: "u32 \<Rightarrow> Price list \<Rightarrow> (Price \<Rightarrow> Resting list) \<Rightarrow> u32 \<times> (Price \<Rightarrow> Resting list)" where
  "consume_all r [] A = (r, A)"
| "consume_all r (p # ps) A = (case consume r (A p) of (r', es) \<Rightarrow> consume_all r' ps (A(p := es)))"

definition abs_match :: "Price \<Rightarrow> Side \<Rightarrow> u32 \<Rightarrow> abook \<Rightarrow> u32 \<times> abook" where
  "abs_match limit side r A =
     (case consume_all r (match_prices side limit) (A (opposite side)) of
        (r', a) \<Rightarrow> (r', A(opposite side := a)))"

lemma consume_all_0 [simp]: "consume_all 0 ps A = (0, A)"
  by (induction ps arbitrary: A) auto

lemma consume_all_none: "find (\<lambda>p. A p \<noteq> []) ps = None \<Longrightarrow> consume_all r ps A = (r, A)"
  by (induction ps) (auto simp: fun_upd_idem split: if_splits)

lemma consume_all_find:
  "find (\<lambda>p. A p \<noteq> []) ps = Some p \<Longrightarrow> consume r (A p) = (r', es) \<Longrightarrow>
     consume_all r ps A = consume_all r' ps (A(p := es))"
proof (induction ps)
  case (Cons x ps)
  show ?case
  proof (cases "A x = []")
    case True
    then have f: "find (\<lambda>p. A p \<noteq> []) ps = Some p" using Cons.prems(1) by simp
    note IH = Cons.IH[OF f Cons.prems(2)]
    have "A p \<noteq> []" using f by (auto simp: find_Some_iff)
    with True have "(A(p := es)) x = []" by auto
    then have "consume_all r' (x # ps) (A(p := es)) = consume_all r' ps (A(p := es))"
      by (simp only: consume_all.simps consume.simps prod.case fun_upd_idem)
    moreover have "consume_all r (x # ps) A = consume_all r ps A"
      using True by (simp only: consume_all.simps consume.simps prod.case fun_upd_idem)
    ultimately show ?thesis using IH by (simp only:)
  next
    case False
    with Cons.prems have x: "x = p" by simp
    have "consume r' es = (r', es)"
      using consume_left[OF Cons.prems(2)] by (cases "r' = 0") auto
    then show ?thesis
      unfolding x consume_all.simps Cons.prems(2) prod.case fun_upd_same fun_upd_upd by simp
  qed
qed simp

section \<open>The best price\<close>

lemma find_map_of_nat: "find P (map f xs) = map_option f (find (\<lambda>x. P (f x)) xs)"
  by (induction xs) auto

lemma find_split: "P x \<Longrightarrow> (\<And>y. y \<in> set ys \<Longrightarrow> \<not> P y) \<Longrightarrow> find P (ys @ x # zs) = Some x"
  by (induction ys) auto

lemma find_upt_least:
  assumes "m \<le> l" "P m" "\<And>k. k < m \<Longrightarrow> \<not> P k"
  shows "find P [0..<Suc l] = Some m"
  using assms by (auto simp: find_upt_Some simp del: upt_Suc)

lemma find_rev_upt_greatest:
  assumes "l \<le> m" "m < n" "P m" "\<And>k. m < k \<Longrightarrow> k < n \<Longrightarrow> \<not> P k"
  shows "find P (rev [l..<n]) = Some m"
proof -
  have "[l..<n] = [l..<m] @ m # [Suc m..<n]"
    using assms(1,2) upt_add_eq_append[of l m "n - m"] by (simp add: upt_conv_Cons)
  then have "rev [l..<n] = rev [Suc m..<n] @ m # rev [l..<m]" by simp
  then show ?thesis using assms(3,4) by (auto intro!: find_split)
qed

definition crosses :: "Side \<Rightarrow> Price \<Rightarrow> PriceLevelOrderBook \<Rightarrow> bool" where
  "crosses side limit b \<longleftrightarrow> (case side of SideBuy \<Rightarrow> minAsk b \<le> limit | SideSell \<Rightarrow> limit \<le> maxBid b)"

definition best_opposite :: "Side \<Rightarrow> Price \<Rightarrow> PriceLevelOrderBook \<Rightarrow> Price option" where
  "best_opposite side limit b =
     (case side of SideBuy \<Rightarrow> getBestAsk b limit | SideSell \<Rightarrow> getBestBid b limit)"

lemma head_nonzero: "levels_rel b q \<Longrightarrow> pl_head (level_side b sd p) \<noteq> 0 \<longleftrightarrow> q sd p \<noteq> []"
  using levels_relD(2)[of b q sd p] dseg_Nil_iff by blast

lemma price_word: "p < MAX_TICKS \<Longrightarrow> unat (drop_bit 6 p) \<le> 200"
  by (simp add: drop6 word_less_nat_alt MAX_TICKS_val)

lemma occ_of_nat:
  assumes "occ_rel b q" "n < unat MAX_TICKS"
  shows "q sd (of_nat n) \<noteq> [] \<longleftrightarrow> occ (mask_of b sd) n"
  using occ_relD(1)[OF assms(1), of sd n] assms(2) by simp

lemma occ_price:
  assumes "occ_rel b q"
  shows "q sd p \<noteq> [] \<longleftrightarrow> occ (mask_of b sd) (unat p)"
  using occ_relD(1,2)[OF assms] by (auto simp: word_less_nat_alt)

lemma getBestAsk_hit:
  assumes lev: "levels_rel b q" and oc: "occ_rel b q" and a: "q SideSell (minAsk b) \<noteq> []" "minAsk b \<le> limit"
  shows "getBestAsk b limit = Some (minAsk b)"
proof -
  let ?i = "unat (drop_bit 6 (minAsk b))" and ?m = "mask_of b SideSell"
  have i200: "?i \<le> 200" using occ_relD(2)[OF oc a(1)] by (rule price_word)
  have o: "occ ?m (unat (minAsk b))" using a occ_price[OF oc] by blast
  have nz: "?m ?i \<noteq> 0" using occ_word[OF o] by (simp add: drop6)
  let ?p = "low_price ?i (?m ?i)"
  note lp = low_price_least[of ?i ?m, OF i200 nz]
  have "unat ?p \<le> unat (minAsk b)" using o by (intro lp(3)) (simp_all add: drop6)
  moreover have "q SideSell ?p \<noteq> []" using lp(1) occ_price[OF oc] by blast
  then have "minAsk b \<le> ?p" using occ_relD(3)[OF oc] by blast
  ultimately have p: "?p = minAsk b" by (simp add: word_le_nat_alt word_unat_eq_iff)
  have "?i \<le> unat (drop_bit 6 limit)" using a(2) by (simp add: drop6 word_le_nat_alt div_le_mono)
  moreover have "pl_head (lv_ask (levels b (minAsk b))) \<noteq> 0"
    using head_nonzero[OF lev, of SideSell "minAsk b"] a by (simp add: level_side_def)
  ultimately show ?thesis
    using p nz a(2) by (simp add: getBestAsk_def getBestAsk_from.simps Let_def mask_of_def)
qed

lemma getBestBid_hit:
  assumes lev: "levels_rel b q" and oc: "occ_rel b q" and a: "q SideBuy (maxBid b) \<noteq> []" "limit \<le> maxBid b"
  shows "getBestBid b limit = Some (maxBid b)"
proof -
  let ?i = "unat (drop_bit 6 (maxBid b))" and ?m = "mask_of b SideBuy"
  have i200: "?i \<le> 200" using occ_relD(2)[OF oc a(1)] by (rule price_word)
  have o: "occ ?m (unat (maxBid b))" using a occ_price[OF oc] by blast
  have nz: "?m ?i \<noteq> 0" using occ_word[OF o] by (simp add: drop6)
  let ?p = "high_price ?i (?m ?i)"
  note hp = high_price_greatest[of ?i ?m, OF i200 nz]
  have "unat (maxBid b) \<le> unat ?p" using o by (intro hp(3)) (simp_all add: drop6)
  moreover have "q SideBuy ?p \<noteq> []" using hp(1) occ_price[OF oc] by blast
  then have "?p \<le> maxBid b" using occ_relD(5)[OF oc] by blast
  ultimately have p: "?p = maxBid b" by (simp add: word_le_nat_alt word_unat_eq_iff)
  have "unat (drop_bit 6 limit) \<le> ?i" using a(2) by (simp add: drop6 word_le_nat_alt div_le_mono)
  moreover have "pl_head (lv_bid (levels b (maxBid b))) \<noteq> 0"
    using head_nonzero[OF lev, of SideBuy "maxBid b"] a by (simp add: level_side_def)
  ultimately show ?thesis
    using p nz a(2) by (simp add: getBestBid_def getBestBid_from.simps Let_def mask_of_def)
qed

lemma best_ask_find:
  assumes lev: "levels_rel b q" and oc: "occ_rel b q" and lim: "limit < MAX_TICKS"
  shows "(if minAsk b \<le> limit then getBestAsk b limit else None) =
    find (\<lambda>p. q SideSell p \<noteq> []) (map of_nat [0..<Suc (unat limit)])"
proof (cases "minAsk b \<le> limit")
  case True
  let ?P = "\<lambda>n. q SideSell (of_nat n) \<noteq> []"
  have ne: "q SideSell (minAsk b) \<noteq> []" using True occ_relD(4)[OF oc] lim by auto
  have "find ?P [0..<Suc (unat limit)] = Some (unat (minAsk b))"
  proof (rule find_upt_least)
    fix k assume k: "k < unat (minAsk b)"
    then have "(of_nat k :: u32) < minAsk b"
      by (simp add: word_less_nat_alt unat_of_nat order_le_less_trans[OF mod_less_eq_dividend])
    then show "\<not> ?P k" using occ_relD(3)[OF oc, of "of_nat k"] leD by blast
  qed (use True ne in \<open>auto simp: word_le_nat_alt\<close>)
  then show ?thesis
    using True getBestAsk_hit[OF lev oc ne True] by (simp add: find_map_of_nat del: upt_Suc)
next
  case False
  have lim': "unat limit < unat MAX_TICKS" using lim by (simp add: word_less_nat_alt)
  have "\<not> q SideSell (of_nat k) \<noteq> []" if "k < Suc (unat limit)" for k
  proof -
    have "(of_nat k :: u32) \<le> limit"
      using lim' that by (simp add: word_le_nat_alt unat_of_nat MAX_TICKS_val)
    then show ?thesis using False occ_relD(3)[OF oc, of "of_nat k"] order_trans by blast
  qed
  then have "find (\<lambda>n. q SideSell (of_nat n) \<noteq> []) [0..<Suc (unat limit)] = None"
    unfolding find_upt_None by blast
  then show ?thesis using False by (simp add: find_map_of_nat del: upt_Suc)
qed

lemma no_bids_no_best:
  assumes oc: "occ_rel b q" and c: "limit \<le> maxBid b" and no: "q SideBuy (maxBid b) = []"
  shows "getBestBid b limit = None"
proof -
  have z: "maxBid b = 0" "limit = 0" using no c occ_relD(6)[OF oc] by auto
  have "bidMask b 0 = 0"
  proof (rule ccontr)
    assume "bidMask b 0 \<noteq> 0"
    then have "occ (mask_of b SideBuy) (unat (high_price 0 (bidMask b 0)))"
      using high_price_greatest(1)[of 0 "bidMask b"] by (simp add: mask_of_def)
    then have "q SideBuy (high_price 0 (bidMask b 0)) \<noteq> []" using occ_price[OF oc] by blast
    with occ_relD(5)[OF oc] z no show False by fastforce
  qed
  then show ?thesis using z by (simp add: getBestBid_def getBestBid_from.simps)
qed

lemma best_bid_find:
  assumes lev: "levels_rel b q" and oc: "occ_rel b q"
  shows "(if limit \<le> maxBid b then getBestBid b limit else None) =
    find (\<lambda>p. q SideBuy p \<noteq> []) (map of_nat (rev [unat limit..<unat MAX_TICKS]))"
proof (cases "limit \<le> maxBid b \<and> q SideBuy (maxBid b) \<noteq> []")
  case True
  let ?P = "\<lambda>n. q SideBuy (of_nat n) \<noteq> []"
  have lt: "unat (maxBid b) < unat MAX_TICKS"
    using occ_relD(2)[OF oc, of SideBuy "maxBid b"] True by (simp add: word_less_nat_alt)
  have "find ?P (rev [unat limit..<unat MAX_TICKS]) = Some (unat (maxBid b))"
  proof (rule find_rev_upt_greatest)
    fix k assume k: "unat (maxBid b) < k" "k < unat MAX_TICKS"
    then have "maxBid b < of_nat k" by (simp add: word_less_nat_alt unat_of_nat MAX_TICKS_val)
    then show "\<not> ?P k" using occ_relD(5)[OF oc, of "of_nat k"] leD by blast
  qed (use True lt in \<open>auto simp: word_le_nat_alt\<close>)
  then show ?thesis
    using True getBestBid_hit[OF lev oc] by (simp add: find_map_of_nat)
next
  case False
  have "\<not> q SideBuy (of_nat k) \<noteq> []" if "unat limit \<le> k" "k < unat MAX_TICKS" for k
  proof
    assume P: "q SideBuy (of_nat k) \<noteq> []"
    have "unat (of_nat k :: u32) = k" using that by (simp add: unat_of_nat MAX_TICKS_val)
    then have "limit \<le> of_nat k" using that by (simp add: word_le_nat_alt)
    moreover have "of_nat k \<le> maxBid b" by (rule occ_relD(5)[OF oc P])
    ultimately show False using False occ_relD(6)[OF oc] P by auto
  qed
  then have "find (\<lambda>n. q SideBuy (of_nat n) \<noteq> []) (rev [unat limit..<unat MAX_TICKS]) = None"
    by (auto simp: find_None_iff)
  then show ?thesis
    using False no_bids_no_best[OF oc, of limit] by (auto simp: find_map_of_nat)
qed

text \<open>The check of the cached best price followed by the mask scan is a linear search for the
  first non-empty level within the limit.\<close>

lemma best_opposite_find:
  assumes "levels_rel b q" "occ_rel b q" "limit < MAX_TICKS"
  shows "(if crosses side limit b then best_opposite side limit b else None) =
    find (\<lambda>p. q (opposite side) p \<noteq> []) (match_prices side limit)"
  using best_ask_find[OF assms] best_bid_find[OF assms(1,2), of limit]
  by (cases side) (simp_all only: crosses_def best_opposite_def match_prices_def opposite.simps Side.case)

section \<open>Termination and refinement of the loops\<close>

lemma upd_a_same [simp]: "upd_a sd p (A sd p) A = A"
  by (auto simp: upd_a_def)

lemma upd_a_twice [simp]: "upd_a sd p es (upd_a sd p es' A) = upd_a sd p es A"
  by (auto simp: upd_a_def)

lemma match_level_spec:
  assumes "book_rel b q"
  shows "\<exists>r' b' q'. match_level sd p r b = Some (r', b') \<and> book_rel b' q' \<and>
    fst (consume r (abs_by b q sd p)) = r' \<and>
    abs_by b' q' = upd_a sd p (snd (consume r (abs_by b q sd p))) (abs_by b q)"
  using assms
proof (induction "q sd p" arbitrary: b q r)
  case Nil
  then have "pl_head (level_side b sd p) = 0"
    using head_nonzero[of b q sd p] by (simp add: book_rel_def)
  moreover have "abs_by b q sd p = []" using Nil by (simp add: abs_by_def)
  ultimately show ?case
    using Nil upd_a_same[of sd p "abs_by b q"] by (subst match_level.simps) auto
next
  case (Cons h ys)
  note rel = Cons.prems and q = Cons.hyps(2)[symmetric]
  note h = level_head[OF rel q]
  have A: "abs_by b q sd p = resting (nodePool b h) # tl (abs_by b q sd p)"
    using q by (simp add: abs_by_def)
  have rq: "rs_qty (resting (nodePool b h)) = nd_qty (nodePool b h)" by (simp add: resting_def)
  show ?case
  proof (cases "r = 0")
    case True
    then show ?thesis using rel by (subst match_level.simps) auto
  next
    case r: False
    show ?thesis
    proof (cases "r < nd_qty (nodePool b h)")
      case True
      obtain b' where b': "fill_head sd p r b = (0, b')" "book_rel b' q"
        "abs_by b' q = upd_a sd p ((resting (nodePool b h))\<lparr>rs_qty := nd_qty (nodePool b h) - r\<rparr> # tl (abs_by b q sd p)) (abs_by b q)"
        using fill_head_partial[OF rel q _ True] r by (auto simp: word_gt_0)
      have "match_level sd p r b = Some (0, b')"
        using h(1,2) r b'(1) by (subst match_level.simps) (simp add: word_gt_0, subst match_level.simps, simp)
      moreover have "consume r (abs_by b q sd p) =
          (0, (resting (nodePool b h))\<lparr>rs_qty := nd_qty (nodePool b h) - r\<rparr> # tl (abs_by b q sd p))"
        using r True by (subst A) (simp add: rq)
      ultimately show ?thesis using b' by auto
    next
      case False
      then have le: "nd_qty (nodePool b h) \<le> r" by simp
      obtain b' where b': "fill_head sd p r b = (r - nd_qty (nodePool b h), b')" "book_rel b' (upd_q sd p ys q)"
        "abs_by b' (upd_q sd p ys q) = upd_a sd p (tl (abs_by b q sd p)) (abs_by b q)"
        using fill_head_full[OF rel q le] by blast
      have "match_level sd p r b = match_level sd p (r - nd_qty (nodePool b h)) b'"
        using h(1,2) r b'(1) by (subst match_level.simps) (simp add: word_gt_0)
      moreover have "consume r (abs_by b q sd p) = consume (r - nd_qty (nodePool b h)) (tl (abs_by b q sd p))"
        using r False by (subst A) (simp add: rq)
      moreover have "abs_by b' (upd_q sd p ys q) sd p = tl (abs_by b q sd p)" using b'(3) by simp
      ultimately show ?thesis
        using Cons.hyps(1)[of "upd_q sd p ys q" b' "r - nd_qty (nodePool b h)"] b'(2,3) by simp
    qed
  qed
qed

lemma consume_decreases:
  assumes "r \<noteq> 0" "es \<noteq> []" "\<And>e. e \<in> set es \<Longrightarrow> rs_qty e \<noteq> 0"
  shows "fst (consume r es) < r"
  using assms
proof (induction r es rule: consume.induct)
  case (2 r e es)
  show ?case
  proof (cases "r < rs_qty e")
    case True
    then show ?thesis using 2 by (simp add: word_gt_0)
  next
    case False
    have "0 < unat (rs_qty e)" using "2.prems" by (simp add: unat_gt_0)
    then have lt: "r - rs_qty e < r"
      using False by (simp add: word_less_nat_alt unat_sub not_less word_le_nat_alt)
    have "fst (consume (r - rs_qty e) es) \<le> r - rs_qty e"
      using 2 False by (cases "r - rs_qty e = 0 \<or> es = []") (auto intro: less_imp_le)
    then show ?thesis using lt 2 False by simp
  qed
qed simp

lemma match_loop_unfold:
  "match_loop limit side r b =
     (if r = 0 then Some (r, b)
      else case (if crosses side limit b then best_opposite side limit b else None) of
             None \<Rightarrow> Some (r, b)
           | Some p \<Rightarrow>
               if pl_head (level_side b (opposite side) p) = 0
               then match_loop limit side r (updateOccupancy (opposite side) p False b)
               else Option.bind (match_level (opposite side) p r b)
                      (\<lambda>rb. match_loop limit side (fst rb) (snd rb)))"
  by (subst match_loop.simps)
     (cases side; auto simp: crosses_def best_opposite_def word_gt_0 not_le)

lemma abs_match_none:
  "find (\<lambda>p. A (opposite side) p \<noteq> []) (match_prices side limit) = None \<Longrightarrow> abs_match limit side r A = (r, A)"
  by (simp add: abs_match_def consume_all_none)

lemma abs_match_step:
  assumes "find (\<lambda>p. A (opposite side) p \<noteq> []) (match_prices side limit) = Some p"
    and "consume r (A (opposite side) p) = (r', es)"
  shows "abs_match limit side r A = abs_match limit side r' (upd_a (opposite side) p es A)"
  using consume_all_find[OF assms] unfolding abs_match_def upd_a_def by simp

lemma abs_by_empty: "abs_by b q sd p = [] \<longleftrightarrow> q sd p = []"
  by (simp add: abs_by_def)

lemma resting_pos: "levels_rel b q \<Longrightarrow> e \<in> set (abs_by b q sd p) \<Longrightarrow> rs_qty e \<noteq> 0"
  using levels_relD(4)[of b q _ sd p] by (auto simp: abs_by_def resting_def node_ok_def)

lemma match_loop_spec:
  assumes "book_rel b q" and lim: "limit < MAX_TICKS"
  shows "\<exists>r' b' q'. match_loop limit side r b = Some (r', b') \<and> book_rel b' q' \<and>
    abs_match limit side r (abs_by b q) = (r', abs_by b' q')"
  using assms(1)
proof (induction "unat r" arbitrary: r b q rule: less_induct)
  case less
  note rel = less.prems
  let ?sd = "opposite side" and ?A = "abs_by b q"
  have lev: "levels_rel b q" and oc: "occ_rel b q" using rel by (auto simp: book_rel_def)
  let ?best = "find (\<lambda>p. q ?sd p \<noteq> []) (match_prices side limit)"
  note unf = match_loop_unfold[of limit side r b, unfolded best_opposite_find[OF lev oc lim, of side]]
  have fA: "find (\<lambda>p. ?A ?sd p \<noteq> []) (match_prices side limit) = ?best"
    by (simp add: abs_by_empty)
  show ?case
  proof (cases "r = 0")
    case True
    then show ?thesis using unf rel by (auto simp: abs_match_def)
  next
    case r: False
    show ?thesis
    proof (cases ?best)
      case None
      then show ?thesis using unf r rel abs_match_none[of ?A side limit r] fA by auto
    next
      case (Some p)
      then have ne: "q ?sd p \<noteq> []" by (auto simp: find_Some_iff)
      obtain r1 b1 q1 where m: "match_level ?sd p r b = Some (r1, b1)" "book_rel b1 q1"
        "fst (consume r (?A ?sd p)) = r1" "abs_by b1 q1 = upd_a ?sd p (snd (consume r (?A ?sd p))) ?A"
        using match_level_spec[OF rel] by blast
      have "r1 < r"
        using consume_decreases[OF r, of "?A ?sd p"] ne resting_pos[OF lev] m(3) by (auto simp: abs_by_empty)
      then obtain r' b' q' where i: "match_loop limit side r1 b1 = Some (r', b')" "book_rel b' q'"
        "abs_match limit side r1 (abs_by b1 q1) = (r', abs_by b' q')"
        using less.hyps[of r1 b1 q1] m(2) by (auto simp: word_less_nat_alt)
      have "match_loop limit side r b = Some (r', b')"
        using unf Some r m(1) i(1) ne head_nonzero[OF lev, of ?sd p] by simp
      moreover have "abs_match limit side r ?A = (r', abs_by b' q')"
        using abs_match_step[of ?A side limit p r r1 "snd (consume r (?A ?sd p))"] fA Some m i(3)
        by (metis prod.collapse)
      ultimately show ?thesis using i(2) by blast
    qed
  qed
qed

end
