(* ===== verification/Price_Level_Rest.thy ===== *)
theory Price_Level_Rest
  imports Price_Level_Match
begin

text \<open>
  Resting an order and cancelling one, on the ghost queues: \<^verbatim>\<open>restOrder\<close> appends to the tail of
  its level under a fresh id, \<^verbatim>\<open>cancelOrder\<close> with the id of a resting order cuts exactly that
  order out of its level.
\<close>

section \<open>Resting an order\<close>

definition link_tail :: "Side \<Rightarrow> Price \<Rightarrow> u32 \<Rightarrow> Node \<Rightarrow> PriceLevelOrderBook \<Rightarrow> PriceLevelOrderBook" where
  "link_tail sd p i n b =
     (let tail = pl_tail (level_side b sd p);
          b1 = upd_node i (\<lambda>_. n) b;
          b2 = (if tail \<noteq> 0 then upd_node tail (\<lambda>m. m\<lparr>nd_next := i\<rparr>) b1
                else updateOccupancy sd p True (upd_level sd p (\<lambda>l. l\<lparr>pl_head := i\<rparr>) b1))
      in upd_level sd p (\<lambda>l. l\<lparr>pl_tail := i, pl_volume := pl_volume l + ucast (nd_qty n)\<rparr>) b2)"

lemma upd_node_twice: "upd_node i f (upd_node i g b) = upd_node i (\<lambda>n. f (g n)) b"
  by (simp add: upd_node_def)

lemma node_all_fields:
  "n\<lparr>nd_localId := v, nd_systemId := s, nd_price := p, nd_qty := qt, nd_side := sd, nd_next := nx, nd_prev := pv\<rparr>
   = \<lparr>nd_next = nx, nd_prev = pv, nd_price = p, nd_qty = qt, nd_localId = v, nd_systemId = s, nd_side = sd\<rparr>"
  by (cases n) simp

lemma restOrder_eq:
  assumes "acquireId b = (v, b0)" "slot_isValid BookOrderId_cap v"
  shows "restOrder ord side qty b =
    (link_tail side (io_price ord) (slot_index BookOrderId_cap v)
       \<lparr>nd_next = 0, nd_prev = pl_tail (level_side b0 side (io_price ord)), nd_price = io_price ord,
        nd_qty = qty, nd_localId = v, nd_systemId = io_id ord, nd_side = side\<rparr> b0,
     [PostStatus \<lparr>st_id = io_id ord, st_bookOId = v, st_fillQty = io_quantity ord - qty,
        st_fillPrice = io_price ord,
        st_state = if io_quantity ord - qty = 0 then Accepted else Partial\<rparr>])"
  using assms unfolding restOrder_def link_tail_def Let_def
  by (simp add: upd_node_twice node_all_fields del: nodePool_simps)

lemma link_tail_node:
  "nodePool (link_tail sd p i n b) =
     (let t = pl_tail (level_side b sd p); nd = (nodePool b)(i := n)
      in if t = 0 then nd else nd(t := nd t\<lparr>nd_next := i\<rparr>))"
  by (auto simp: link_tail_def Let_def)

lemma link_tail_side:
  "level_side (link_tail sd p i n b) sd' p' =
    (if sd' = sd \<and> p' = p then
       (level_side b sd p)\<lparr>pl_head := (if pl_tail (level_side b sd p) = 0 then i else pl_head (level_side b sd p)),
          pl_tail := i, pl_volume := pl_volume (level_side b sd p) + ucast (nd_qty n)\<rparr>
     else level_side b sd' p')"
  by (auto simp: link_tail_def Let_def)

lemma level_tail:
  assumes "level_rel nd l sd p xs"
  shows "pl_tail l = last0 0 xs" "pl_tail l = 0 \<longleftrightarrow> xs = []" "xs \<noteq> [] \<Longrightarrow> pl_tail l = last xs"
proof -
  have "pl_tail l = last0 0 xs" "0 \<notin> set xs" using assms dseg_nonzero by (auto simp: level_rel_def)
  then show "pl_tail l = last0 0 xs" "pl_tail l = 0 \<longleftrightarrow> xs = []" "xs \<noteq> [] \<Longrightarrow> pl_tail l = last xs"
    using last_in_set[of xs] by (auto simp: last0_def simp del: last_in_set)
qed

lemma link_tail_level:
  assumes lev: "levels_rel b q" and len: "length (q sd p) < 131072" and i: "i \<noteq> 0" "i \<notin> live q"
    and n: "nd_next n = 0" "nd_prev n = pl_tail (level_side b sd p)" "node_ok (\<lambda>_. n) sd p i"
  shows "level_rel (nodePool (link_tail sd p i n b)) (level_side (link_tail sd p i n b) sd p) sd p (q sd p @ [i])"
proof -
  let ?xs = "q sd p" and ?l = "level_side b sd p" and ?nd = "nodePool (link_tail sd p i n b)"
  have l: "level_rel (nodePool b) ?l sd p ?xs"
    by (rule levels_relD(1)[OF lev])
  note t = level_tail[OF l]
  have ix: "i \<notin> set ?xs" using i(2) by (auto simp: live_iff)
  have nd: "?nd = (let nd1 = (nodePool b)(i := n) in
      if ?xs = [] then nd1 else nd1(last ?xs := nd1 (last ?xs)\<lparr>nd_next := i\<rparr>))"
    using t by (simp add: link_tail_node Let_def)
  have "dseg ?nd 0 (hd0 i ?xs) (?xs @ [i]) 0"
    unfolding nd using l ix i n t by (intro dseg_push) (auto simp: level_rel_def)
  moreover have "hd0 i ?xs = (if pl_tail ?l = 0 then i else pl_head ?l)"
    using t(2) l dseg_hd[of "nodePool b" 0 "pl_head ?l" ?xs 0] by (auto simp: level_rel_def hd0_def)
  moreover have old: "nd_qty (?nd j) = nd_qty (nodePool b j) \<and> (node_ok (nodePool b) sd p j \<longrightarrow> node_ok ?nd sd p j)"
    if "j \<in> set ?xs" for j
    using that ix by (auto simp: nd Let_def node_ok_def)
  then have "qty_sum ?nd ?xs = qty_sum (nodePool b) ?xs" by (intro qty_sum_cong) blast
  moreover have new: "nd_qty (?nd i) = nd_qty n" "node_ok ?nd sd p i"
    using n ix by (auto simp: nd Let_def node_ok_def)
  moreover have "unat (pl_volume ?l + ucast (nd_qty n)) = qty_sum (nodePool b) ?xs + unat (nd_qty n)"
    using l qty_sum_bound[OF len, of "nodePool b" "nd_qty n"]
    by (subst unat_plus_if_size) (simp add: level_rel_def word_size)
  ultimately show ?thesis
    using l ix old by (auto simp: level_rel_def link_tail_side)
qed

lemma link_tail_rel:
  assumes lev: "levels_rel b q" and oc: "occ_rel b q" and len: "length (q sd p) < 131072"
    and p: "p < MAX_TICKS" and i: "i \<noteq> 0" "i \<notin> live q"
    and n: "nd_next n = 0" "nd_prev n = pl_tail (level_side b sd p)" "node_ok (\<lambda>_. n) sd p i"
  shows "levels_rel (link_tail sd p i n b) (upd_q sd p (q sd p @ [i]) q)"
    and "occ_rel (link_tail sd p i n b) (upd_q sd p (q sd p @ [i]) q)"
    and "abs_by (link_tail sd p i n b) (upd_q sd p (q sd p @ [i]) q) =
      upd_a sd p (abs_by b q sd p @ [resting n]) (abs_by b q)"
proof -
  let ?b = "link_tail sd p i n b"
  note t = level_tail[OF levels_relD(1)[OF lev, of sd p]]
  have other: "nodePool ?b j = nodePool b j" if "j \<in> live q" "j \<notin> set (q sd p)" for j
  proof -
    have "j \<noteq> i" using that i by auto
    moreover have "q sd p \<noteq> [] \<Longrightarrow> j \<noteq> last (q sd p)" using that last_in_set by metis
    ultimately show ?thesis using t(2,3) by (auto simp: link_tail_node Let_def)
  qed
  show "levels_rel ?b (upd_q sd p (q sd p @ [i]) q)"
    by (rule levels_rel_upd[OF lev link_tail_level[OF lev len i n]]) (auto simp: link_tail_side other)
  show "occ_rel ?b (upd_q sd p (q sd p @ [i]) q)"
  proof (cases "q sd p = []")
    case True
    then show ?thesis
      using t occ_rel_set[OF _ p, of "upd_level sd p (\<lambda>l. l\<lparr>pl_head := i\<rparr>) (upd_node i (\<lambda>_. n) b)" q "[i]" sd] oc
      by (simp add: link_tail_def Let_def)
  next
    case False
    then show ?thesis
      using t occ_rel_nonempty[OF oc False, of "q sd p @ [i]"] by (simp add: link_tail_def Let_def)
  qed
  have ix: "i \<notin> set (q sd p)" using i(2) by (auto simp: live_iff)
  have "resting (nodePool ?b j) = resting (nodePool b j)" if "j \<in> set (q sd p)" for j
    using that ix by (auto simp: link_tail_node Let_def resting_def)
  moreover have "resting (nodePool ?b i) = resting n"
    using t ix by (auto simp: link_tail_node Let_def resting_def)
  ultimately have "map (\<lambda>j. resting (nodePool ?b j)) (q sd p @ [i]) = abs_by b q sd p @ [resting n]"
    by (simp add: abs_by_def)
  moreover have "abs_by ?b (upd_q sd p (q sd p @ [i]) q) =
      upd_a sd p (map (\<lambda>j. resting (nodePool ?b j)) (q sd p @ [i])) (abs_by b q)"
    by (rule abs_by_upd[OF lev]) (simp add: other)
  ultimately show "abs_by ?b (upd_q sd p (q sd p @ [i]) q) =
      upd_a sd p (abs_by b q sd p @ [resting n]) (abs_by b q)" by simp
qed

lemma slot_index_bound: "slot_index BookOrderId_cap v \<in> idx_below n \<Longrightarrow> slot_index BookOrderId_cap v \<noteq> 0"
  by (auto simp: idx_below_def)

text \<open>\<open>rest_ok\<close> describes the two outcomes of resting \<open>qty\<close> of an order.\<close>

definition rest_ok ::
  "InternalOrder \<Rightarrow> Side \<Rightarrow> u32 \<Rightarrow> abook \<Rightarrow> PriceLevelOrderBook \<times> BookMsg list \<Rightarrow> bool" where
  "rest_ok ord side qty A res \<longleftrightarrow>
     (snd res = [PostError \<lparr>ie_code = SC_Error, ie_what = ''OrderBook is full''\<rparr>] \<and> abs_book (fst res) = A) \<or>
     (\<exists>v. slot_isValid BookOrderId_cap v \<and>
        (\<forall>sd p. \<forall>e\<in>set (A sd p). slot_index BookOrderId_cap (rs_localId e) \<noteq> slot_index BookOrderId_cap v) \<and>
        snd res = [PostStatus \<lparr>st_id = io_id ord, st_bookOId = v, st_fillQty = io_quantity ord - qty,
           st_fillPrice = io_price ord,
           st_state = if io_quantity ord - qty = 0 then Accepted else Partial\<rparr>] \<and>
        abs_book (fst res) = upd_a side (io_price ord)
          (A side (io_price ord) @ [\<lparr>rs_localId = v, rs_systemId = io_id ord, rs_qty = qty\<rparr>]) A)"

lemma abs_index_live:
  assumes "levels_rel b q" "e \<in> set (abs_by b q sd p)"
  shows "slot_index BookOrderId_cap (rs_localId e) \<in> set (q sd p)"
  using assms levels_relD(4)[OF assms(1), of _ sd p]
  by (auto simp: abs_by_def resting_def node_ok_def)

lemma acquireId_state:
  assumes "acquireId b = (v, b0)"
  shows "nodePool b0 = nodePool b" "level_side b0 = level_side b" "occ_rel b0 q \<longleftrightarrow> occ_rel b q"
  using acquireId_fields[of b] occ_rel_cong[of b0 b q] assms by simp_all

lemma restOrder_spec:
  assumes rel: "book_rel b q" and p: "io_price ord < MAX_TICKS" and qty: "qty \<noteq> 0"
  shows "bookInv (fst (restOrder ord side qty b)) \<and> rest_ok ord side qty (abs_by b q) (restOrder ord side qty b)"
proof -
  obtain v b0 where a: "acquireId b = (v, b0)" by (cases "acquireId b")
  note st = acquireId_state[OF a]
  have lev: "levels_rel b q" and ids: "book_ids_inv b (live q)" using rel by (auto simp: book_rel_def)
  show ?thesis
  proof (cases "slot_isValid BookOrderId_cap v")
    case False
    then have "b0 = b" using acquireId_cases[OF ids a] by blast
    with a False have "restOrder ord side qty b = (b, [PostError \<lparr>ie_code = SC_Error, ie_what = ''OrderBook is full''\<rparr>])"
      by (simp add: restOrder_def)
    then show ?thesis using bookInv_rel[OF rel] by (simp add: rest_ok_def)
  next
    case True
    let ?i = "slot_index BookOrderId_cap v" and ?p = "io_price ord"
    let ?n = "\<lparr>nd_next = 0, nd_prev = pl_tail (level_side b0 side ?p), nd_price = ?p, nd_qty = qty,
        nd_localId = v, nd_systemId = io_id ord, nd_side = side\<rparr>"
    let ?q = "upd_q side ?p (q side ?p @ [?i]) q" and ?b = "link_tail side ?p ?i ?n b0"
    have fresh: "?i \<notin> live q" and ids0: "book_ids_inv b0 (insert ?i (live q))"
      using book_ids.acquire_law[OF ids a True] by auto
    have i0: "?i \<noteq> 0" using live_subset[OF ids0] slot_index_bound[of v] by blast
    have lev0: "levels_rel b0 q" and oc0: "occ_rel b0 q" and abs0: "abs_by b0 q = abs_by b q"
      using rel st levels_rel_cong[of b0 b] abs_by_cong[of b0 b] by (auto simp: book_rel_def)
    have n: "nd_next ?n = 0" "nd_prev ?n = pl_tail (level_side b0 side ?p)" "node_ok (\<lambda>_. ?n) side ?p ?i"
      using qty True by (simp_all add: node_ok_def)
    note L = link_tail_rel[OF lev0 oc0 level_length[OF rel] p i0 fresh n]
    have "book_ids_inv ?b (live ?q)" unfolding live_add using ids0 by (simp add: link_tail_def Let_def)
    with L have "book_rel ?b ?q" by (simp add: book_rel_def)
    note B = bookInv_rel[OF this]
    have "slot_index BookOrderId_cap (rs_localId e) \<noteq> ?i" if "e \<in> set (abs_by b q sd p)" for e sd p
      using abs_index_live[OF lev that] fresh by (auto simp: live_iff)
    then show ?thesis
      unfolding rest_ok_def restOrder_eq[OF a True]
      using B L(3) True abs0 by (simp add: resting_def)
  qed
qed

section \<open>Cancelling a resting order\<close>

definition cut_node :: "Side \<Rightarrow> Price \<Rightarrow> u32 \<Rightarrow> PriceLevelOrderBook \<Rightarrow> PriceLevelOrderBook" where
  "cut_node sd p i b =
     (let n = nodePool b i;
          b1 = (if nd_prev n \<noteq> 0 then upd_node (nd_prev n) (\<lambda>m. m\<lparr>nd_next := nd_next n\<rparr>) b
                else upd_level sd p (\<lambda>l. l\<lparr>pl_head := nd_next n\<rparr>) b);
          b2 = (if nd_next n \<noteq> 0 then upd_node (nd_next n) (\<lambda>m. m\<lparr>nd_prev := nd_prev n\<rparr>) b1
                else upd_level sd p (\<lambda>l. l\<lparr>pl_tail := nd_prev n\<rparr>) b1);
          b3 = upd_level sd p (\<lambda>l. l\<lparr>pl_volume := pl_volume l - ucast (nd_qty n)\<rparr>) b2
      in if pl_volume (level_side b3 sd p) = 0 then updateOccupancy sd p False b3 else b3)"

lemma member_props:
  assumes rel: "levels_rel b q" and q: "q sd p = xs @ i # ys"
  shows "i \<noteq> 0" "distinct (xs @ i # ys)" "node_ok (nodePool b) sd p i"
    "nd_prev (nodePool b i) = last0 0 xs" "nd_next (nodePool b i) = hd0 0 ys"
    "last0 0 xs = 0 \<longleftrightarrow> xs = []" "hd0 0 ys = 0 \<longleftrightarrow> ys = []"
    "last0 0 xs \<noteq> i" "hd0 0 ys \<noteq> i"
proof -
  have l: "level_rel (nodePool b) (level_side b sd p) sd p (xs @ i # ys)"
    using levels_relD(1)[OF rel, of sd p] q by simp
  then have d: "distinct (xs @ i # ys)" and z: "0 \<notin> set (xs @ i # ys)"
    using dseg_nonzero[of "nodePool b" 0 "pl_head (level_side b sd p)" "xs @ i # ys" 0]
    unfolding level_rel_def by blast+
  show "distinct (xs @ i # ys)" by (fact d)
  show "i \<noteq> 0" "node_ok (nodePool b) sd p i" using l z by (auto simp: level_rel_def)
  show "nd_prev (nodePool b i) = last0 0 xs" "nd_next (nodePool b i) = hd0 0 ys"
    using dseg_cut(1,2)[of "nodePool b" _ xs i ys] l d by (auto simp: level_rel_def)
  show "last0 0 xs = 0 \<longleftrightarrow> xs = []" "last0 0 xs \<noteq> i"
    using d z by (cases xs rule: rev_cases; auto)+
  show "hd0 0 ys = 0 \<longleftrightarrow> ys = []" "hd0 0 ys \<noteq> i"
    using d z by (cases ys; auto)+
qed

lemma cut_node_node:
  assumes "levels_rel b q" "q sd p = xs @ i # ys"
  shows "nodePool (cut_node sd p i b) =
    (let nd = nodePool b;
         nd1 = (if xs = [] then nd else nd(last xs := nd (last xs)\<lparr>nd_next := hd0 0 ys\<rparr>))
     in if ys = [] then nd1 else nd1(hd ys := nd1 (hd ys)\<lparr>nd_prev := last0 0 xs\<rparr>))"
  using member_props(4-7)[OF assms] by (auto simp: cut_node_def Let_def last0_def hd0_def)

lemma cut_node_side:
  assumes "levels_rel b q" "q sd p = xs @ i # ys"
  shows "level_side (cut_node sd p i b) sd' p' =
    (if sd' = sd \<and> p' = p then
       (level_side b sd p)\<lparr>pl_head := (if xs = [] then hd0 0 ys else pl_head (level_side b sd p)),
          pl_tail := (if ys = [] then last0 0 xs else pl_tail (level_side b sd p)),
          pl_volume := pl_volume (level_side b sd p) - ucast (nd_qty (nodePool b i))\<rparr>
     else level_side b sd' p')"
  using member_props(4-7)[OF assms] by (auto simp: cut_node_def Let_def)

lemma cut_volume:
  assumes "levels_rel b q" "q sd p = xs @ i # ys"
  shows "unat (pl_volume (level_side b sd p) - ucast (nd_qty (nodePool b i))) = qty_sum (nodePool b) (xs @ ys)"
  using levels_relD(1)[OF assms(1), of sd p] assms(2)
  by (subst unat_volume_sub) (auto simp: level_rel_def)

lemma cut_node_level:
  assumes rel: "levels_rel b q" and q: "q sd p = xs @ i # ys"
  shows "level_rel (nodePool (cut_node sd p i b)) (level_side (cut_node sd p i b) sd p) sd p (xs @ ys)"
proof -
  note m = member_props[OF rel q] and np = cut_node_node[OF rel q]
  let ?nd = "nodePool (cut_node sd p i b)"
  have l: "level_rel (nodePool b) (level_side b sd p) sd p (xs @ i # ys)"
    using levels_relD(1)[OF rel, of sd p] q by simp
  have seg: "dseg ?nd 0 (if xs = [] then hd0 0 ys else pl_head (level_side b sd p)) (xs @ ys) 0"
    unfolding np using dseg_cut(3)[of "nodePool b" "pl_head (level_side b sd p)" xs i ys] l m(2)
    by (simp add: level_rel_def Let_def)
  have same: "nd_qty (?nd j) = nd_qty (nodePool b j) \<and> (node_ok ?nd sd p j \<longleftrightarrow> node_ok (nodePool b) sd p j)" for j
    unfolding np Let_def by (auto simp: node_ok_def)
  have "qty_sum ?nd (xs @ ys) = qty_sum (nodePool b) (xs @ ys)"
    by (rule qty_sum_cong) (simp add: same)
  then show ?thesis
    using seg l m(2) cut_volume[OF rel q]
    by (auto simp: level_rel_def cut_node_side[OF rel q] same last0_def)
qed

lemma qty_sum_pos: "(\<And>i. i \<in> set xs \<Longrightarrow> nd_qty (nd i) \<noteq> 0) \<Longrightarrow> qty_sum nd xs = 0 \<longleftrightarrow> xs = []"
  by (cases xs) (auto simp: unat_eq_zero)

lemma cut_node_rel:
  assumes rel: "levels_rel b q" and oc: "occ_rel b q" and q: "q sd p = xs @ i # ys"
  shows "levels_rel (cut_node sd p i b) (upd_q sd p (xs @ ys) q)"
    and "occ_rel (cut_node sd p i b) (upd_q sd p (xs @ ys) q)"
    and "abs_by (cut_node sd p i b) (upd_q sd p (xs @ ys) q) =
      upd_a sd p (map (\<lambda>j. resting (nodePool b j)) (xs @ ys)) (abs_by b q)"
proof -
  note m = member_props[OF rel q] and np = cut_node_node[OF rel q] and side = cut_node_side[OF rel q]
  let ?b = "cut_node sd p i b"
  have ends: "xs \<noteq> [] \<Longrightarrow> last xs \<in> set (q sd p)" "ys \<noteq> [] \<Longrightarrow> hd ys \<in> set (q sd p)" using q by auto
  have other: "nodePool ?b j = nodePool b j" if "j \<notin> set (q sd p)" for j
  proof -
    have "xs = [] \<or> j \<noteq> last xs" "ys = [] \<or> j \<noteq> hd ys" using that ends by blast+
    then show ?thesis unfolding np Let_def by (elim disjE) (simp_all only: fun_upd_def if_True if_False simp_thms split: if_splits)
  qed
  show "levels_rel ?b (upd_q sd p (xs @ ys) q)"
    by (rule levels_rel_upd[OF rel cut_node_level[OF rel q]]) (auto simp: side other)
  have pos: "nd_qty (nodePool b j) \<noteq> 0" if "j \<in> set (xs @ ys)" for j
    using levels_relD(4)[OF rel, of j sd p] that q by (auto simp: node_ok_def)
  have p: "p < MAX_TICKS" using occ_relD(2)[OF oc, of sd p] q by simp
  let ?vol = "pl_volume (level_side b sd p) - ucast (nd_qty (nodePool b i))"
  have vz: "?vol = 0 \<longleftrightarrow> xs @ ys = []"
  proof -
    have "?vol = 0 \<longleftrightarrow> unat ?vol = 0" by (rule unat_eq_zero[symmetric])
    also have "\<dots> \<longleftrightarrow> qty_sum (nodePool b) (xs @ ys) = 0" by (simp only: cut_volume[OF rel q])
    also have "\<dots> \<longleftrightarrow> xs @ ys = []" by (rule qty_sum_pos[OF pos])
    finally show ?thesis .
  qed
  show "occ_rel ?b (upd_q sd p (xs @ ys) q)"
  proof (cases "xs @ ys = []")
    case True
    let ?b3 = "upd_level sd p (\<lambda>l. l\<lparr>pl_volume := pl_volume l - ucast (nd_qty (nodePool b i))\<rparr>)
      (upd_level sd p (\<lambda>l. l\<lparr>pl_tail := 0\<rparr>) (upd_level sd p (\<lambda>l. l\<lparr>pl_head := 0\<rparr>) b))"
    have "?b = updateOccupancy sd p False ?b3"
      using True vz m(4,5) by (simp add: cut_node_def Let_def)
    moreover have "occ_rel (updateOccupancy sd p False ?b3) (upd_q sd p [] q)"
      using oc p True vz by (intro occ_rel_clear) simp_all
    ultimately show ?thesis using True by simp
  next
    case False
    then have "pl_volume (level_side b sd p) \<noteq> ucast (nd_qty (nodePool b i))" using vz by auto
    then have "occ_rel ?b q' \<longleftrightarrow> occ_rel b q'" for q' by (simp add: cut_node_def Let_def)
    then show ?thesis using occ_rel_nonempty[OF oc, of sd p "xs @ ys"] q False by simp
  qed
  have "resting (nodePool ?b j) = resting (nodePool b j)" for j
    unfolding np Let_def by (auto simp: resting_def)
  then show "abs_by ?b (upd_q sd p (xs @ ys) q) =
      upd_a sd p (map (\<lambda>j. resting (nodePool b j)) (xs @ ys)) (abs_by b q)"
    using abs_by_upd[OF rel, of sd p ?b "xs @ ys"] by simp
qed

lemma cancel_eq:
  assumes rel: "levels_rel b q" and q: "q sd p = xs @ i # ys"
    and v: "io_bookOId (ioe_order ioe) = nd_localId (nodePool b i)"
  shows "book_cancelOrder ioe b = (releaseId (nd_localId (nodePool b i)) (cut_node sd p i b),
     [PostStatus \<lparr>st_id = io_id (ioe_order ioe), st_bookOId = io_bookOId (ioe_order ioe), st_fillQty = 0,
        st_fillPrice = 0, st_state = Cancelled\<rparr>])"
proof -
  note m = member_props[OF rel q]
  have i: "slot_index BookOrderId_cap (nd_localId (nodePool b i)) = i"
    and s: "nd_side (nodePool b i) = sd" and p: "nd_price (nodePool b i) = p"
    using m(3) by (auto simp: node_ok_def)
  show ?thesis
    unfolding book_cancelOrder_def cut_node_def Let_def v i using m(4-9) s p by simp
qed

end
