(* ===== verification/Price_Level_Spec.thy ===== *)
theory Price_Level_Spec
  imports Price_Level_Rest
begin

text \<open>
  The properties of the price-level order book: refinement of \<^verbatim>\<open>add\<close> and \<^verbatim>\<open>cancelOrder\<close> to the
  abstract book, the invariant over event sequences, no crossed book, conservation of
  quantity, equivalence of the mask scan with a linear search, and the effect of a cancel
  whose id is no longer live.
\<close>

section \<open>What the reference match keeps\<close>

lemma consume_subset: "snd (consume r es) \<noteq> [] \<Longrightarrow> es \<noteq> []"
  by (cases es) auto

lemma consume_all_subset: "snd (consume_all r ps A) p \<noteq> [] \<Longrightarrow> A p \<noteq> []"
proof (induction ps arbitrary: r A)
  case (Cons x ps)
  obtain r' es where c: "consume r (A x) = (r', es)" by (cases "consume r (A x)")
  with Cons.prems have "snd (consume_all r' ps (A(x := es))) p \<noteq> []" by simp
  then have "(A(x := es)) p \<noteq> []" by (rule Cons.IH)
  then show ?case using c consume_subset[of r "A x"] by (auto split: if_splits)
qed simp

lemma consume_all_outside: "p \<notin> set ps \<Longrightarrow> snd (consume_all r ps A) p = A p"
  by (induction ps arbitrary: r A) (auto split: prod.splits)

lemma consume_all_left:
  "fst (consume_all r ps A) \<noteq> 0 \<Longrightarrow> p \<in> set ps \<Longrightarrow> snd (consume_all r ps A) p = []"
proof (induction ps arbitrary: r A)
  case (Cons x ps)
  obtain r' es where c: "consume r (A x) = (r', es)" by (cases "consume r (A x)")
  define A' where "A' = A(x := es)"
  have step: "consume_all r (x # ps) A = consume_all r' ps A'" using c by (simp add: A'_def)
  then have left: "fst (consume_all r' ps A') \<noteq> 0" using Cons.prems by simp
  show ?case
  proof (cases "p \<in> set ps")
    case True
    then show ?thesis using Cons.IH[OF left] step by simp
  next
    case False
    then have "p = x" using Cons.prems by simp
    moreover have "r' \<noteq> 0" using left consume_all_0 by (metis fst_conv)
    then have "es = []" using consume_left[OF c] by blast
    ultimately show ?thesis
      using step consume_all_outside[OF False, of r' A'] by (simp add: A'_def)
  qed
qed simp

section \<open>Conservation\<close>

definition qsum :: "Resting list \<Rightarrow> nat" where
  "qsum es = sum_list (map (\<lambda>e. unat (rs_qty e)) es)"

definition side_total :: "(Price \<Rightarrow> Resting list) \<Rightarrow> nat" where
  "side_total a = (\<Sum>n<unat MAX_TICKS. qsum (a (of_nat n)))"

lemma qsum_simps [simp]: "qsum [] = 0" "qsum (e # es) = unat (rs_qty e) + qsum es" "qsum (es @ fs) = qsum es + qsum fs"
  by (auto simp: qsum_def)

lemma consume_conserves:
  "qsum (snd (consume r es)) + unat r = qsum es + unat (fst (consume r es))"
proof (induction r es rule: consume.induct)
  case (2 r e es)
  show ?case
  proof (cases "r < rs_qty e")
    case True
    then have "unat (rs_qty e - r) = unat (rs_qty e) - unat r" "unat r < unat (rs_qty e)"
      by (simp_all add: unat_sub word_less_nat_alt less_imp_le)
    then show ?thesis using True by simp
  next
    case False
    then have "unat (r - rs_qty e) = unat r - unat (rs_qty e)" "unat (rs_qty e) \<le> unat r"
      by (simp_all add: unat_sub not_less word_le_nat_alt)
    then show ?thesis using False 2 by auto
  qed
qed simp

lemma side_total_upd:
  assumes "p < MAX_TICKS"
  shows "side_total (a(p := es)) + qsum (a p) = side_total a + qsum es"
proof -
  have pm: "unat p \<in> {..<unat MAX_TICKS}" using assms by (simp add: word_less_nat_alt)
  have "(\<Sum>n\<in>{..<unat MAX_TICKS} - {unat p}. qsum ((a(p := es)) (of_nat n))) =
      (\<Sum>n\<in>{..<unat MAX_TICKS} - {unat p}. qsum (a (of_nat n)))"
    using of_nat_eq_price by (intro sum.cong) auto
  then show ?thesis
    unfolding side_total_def using sum.remove[OF finite_lessThan pm, of "\<lambda>n. qsum ((a(p := es)) (of_nat n))"]
      sum.remove[OF finite_lessThan pm, of "\<lambda>n. qsum (a (of_nat n))"] by simp
qed

lemma consume_all_conserves:
  "(\<And>p. p \<in> set ps \<Longrightarrow> p < MAX_TICKS) \<Longrightarrow>
   side_total (snd (consume_all r ps A)) + unat r = side_total A + unat (fst (consume_all r ps A))"
proof (induction ps arbitrary: r A)
  case (Cons x ps)
  obtain r' es where c: "consume r (A x) = (r', es)" by (cases "consume r (A x)")
  define A' where "A' = A(x := es)"
  have step: "consume_all r (x # ps) A = consume_all r' ps A'" using c by (simp add: A'_def)
  have "side_total A' + qsum (A x) = side_total A + qsum es"
    unfolding A'_def using Cons.prems by (intro side_total_upd) simp
  moreover have "qsum es + unat r = qsum (A x) + unat r'"
    using consume_conserves[of r "A x"] c by simp
  moreover have "side_total (snd (consume_all r' ps A')) + unat r' = side_total A' + unat (fst (consume_all r' ps A'))"
    using Cons.prems by (intro Cons.IH) simp
  ultimately show ?case unfolding step by simp
qed simp

lemma match_prices_bound: "limit < MAX_TICKS \<Longrightarrow> p \<in> set (match_prices side limit) \<Longrightarrow> p < MAX_TICKS"
  by (cases side) (auto simp: match_prices_def word_less_nat_alt unat_of_nat MAX_TICKS_val
      intro: order_le_less_trans[OF mod_less_eq_dividend])

lemma match_prices_iff:
  assumes "p < MAX_TICKS" "limit < MAX_TICKS"
  shows "p \<in> set (match_prices side limit) \<longleftrightarrow> (case side of SideBuy \<Rightarrow> p \<le> limit | SideSell \<Rightarrow> limit \<le> p)"
proof -
  have n: "unat limit < unat MAX_TICKS" "unat p < unat MAX_TICKS" using assms by (simp_all add: word_less_nat_alt)
  have img: "p \<in> of_nat ` N \<longleftrightarrow> unat p \<in> N" if "N \<subseteq> {..<unat MAX_TICKS}" for N
  proof
    assume "p \<in> of_nat ` N"
    then obtain x where x: "x \<in> N" "p = of_nat x" by blast
    with that have "x < unat MAX_TICKS" by blast
    with x of_nat_eq_price[of x p] show "unat p \<in> N" by simp
  qed (rule image_eqI[of _ _ "unat p"], simp_all)
  show ?thesis
  proof (cases side)
    case SideBuy
    then have "set (match_prices side limit) = of_nat ` {..<Suc (unat limit)}"
      by (simp add: match_prices_def atLeast0LessThan del: upt_Suc)
    with img[of "{..<Suc (unat limit)}"] n SideBuy show ?thesis by (auto simp: word_le_nat_alt)
  next
    case SideSell
    then have "set (match_prices side limit) = of_nat ` {unat limit..<unat MAX_TICKS}"
      by (simp add: match_prices_def)
    moreover have "{unat limit..<unat MAX_TICKS} \<subseteq> {..<unat MAX_TICKS}" by auto
    note img[OF this]
    ultimately show ?thesis using n SideSell by (simp add: word_le_nat_alt)
  qed
qed

section \<open>The reference match\<close>

lemma abs_match_props:
  assumes m: "abs_match limit side r A = (r', A')" and lim: "limit < MAX_TICKS"
    and bnd: "\<forall>sd p. A sd p \<noteq> [] \<longrightarrow> p < MAX_TICKS"
  shows "A' side = A side"
    and "A' sd p \<noteq> [] \<Longrightarrow> A sd p \<noteq> []"
    and "r' \<noteq> 0 \<Longrightarrow> A' (opposite side) p \<noteq> [] \<Longrightarrow> \<not> (case side of SideBuy \<Rightarrow> p \<le> limit | SideSell \<Rightarrow> limit \<le> p)"
    and "side_total (A' (opposite side)) + unat r = side_total (A (opposite side)) + unat r'"
proof -
  let ?ps = "match_prices side limit" and ?o = "opposite side"
  obtain a where c: "consume_all r ?ps (A ?o) = (r', a)" and A': "A' = A(?o := a)"
    using m by (auto simp: abs_match_def split: prod.splits)
  have o: "?o \<noteq> side" by (cases side) auto
  show "A' side = A side" using o A' by auto
  show sub: "A' sd p \<noteq> [] \<Longrightarrow> A sd p \<noteq> []" for sd p
    using consume_all_subset[of r ?ps "A ?o" p] c A' by (cases "sd = ?o") auto
  show "\<not> (case side of SideBuy \<Rightarrow> p \<le> limit | SideSell \<Rightarrow> limit \<le> p)" if "r' \<noteq> 0" "A' ?o p \<noteq> []"
  proof
    assume cs: "case side of SideBuy \<Rightarrow> p \<le> limit | SideSell \<Rightarrow> limit \<le> p"
    have "p < MAX_TICKS" using bnd sub that(2) by blast
    then have "p \<in> set ?ps" using cs match_prices_iff[OF _ lim] by blast
    then have "a p = []" using consume_all_left[of r ?ps "A ?o" p] c that(1) by simp
    then show False using that(2) A' by simp
  qed
  show "side_total (A' ?o) + unat r = side_total (A ?o) + unat r'"
    using consume_all_conserves[of ?ps r "A ?o"] match_prices_bound[OF lim] c A' by simp
qed

section \<open>Refinement\<close>

lemma bookInv_bound: "bookInv b \<Longrightarrow> abs_book b sd p \<noteq> [] \<Longrightarrow> p < MAX_TICKS"
  unfolding bookInv_def book_rel_def abs_book_def abs_by_empty using occ_relD(2) by blast

lemma book_match_refines:
  assumes "bookInv b" "io_price ord < MAX_TICKS"
  shows "\<exists>r' b'. book_match ord side b = Some (r', b') \<and> bookInv b' \<and>
    abs_match (io_price ord) side (io_quantity ord) (abs_book b) = (r', abs_book b')"
proof -
  have "book_rel b (queue_of b)" using assms(1) by (simp add: bookInv_def)
  then obtain r' b' q' where m: "match_loop (io_price ord) side (io_quantity ord) b = Some (r', b')" "book_rel b' q'"
    "abs_match (io_price ord) side (io_quantity ord) (abs_by b (queue_of b)) = (r', abs_by b' q')"
    using match_loop_spec[OF _ assms(2)] by blast
  with bookInv_rel[OF m(2)] show ?thesis by (simp add: book_match_def abs_book_def)
qed

definition full_status :: "InternalOrder \<Rightarrow> BookMsg" where
  "full_status ord = PostStatus \<lparr>st_id = io_id ord, st_bookOId = 0, st_fillQty = io_quantity ord,
     st_fillPrice = io_price ord, st_state = Full\<rparr>"

lemma add_refines:
  assumes inv: "bookInv b" and act: "ioe_action ioe \<noteq> Cancel" and p: "io_price (ioe_order ioe) < MAX_TICKS"
  shows "\<exists>b' ms r A. book_add ioe b = Some (True, b', ms) \<and> bookInv b' \<and>
    abs_match (io_price (ioe_order ioe)) (getSide (ioe_action ioe)) (io_quantity (ioe_order ioe)) (abs_book b) = (r, A) \<and>
    (if r = 0 then abs_book b' = A \<and> ms = [full_status (ioe_order ioe)]
     else rest_ok (ioe_order ioe) (getSide (ioe_action ioe)) r A (b', ms))"
proof -
  let ?o = "ioe_order ioe" and ?s = "getSide (ioe_action ioe)"
  obtain r b1 where m: "book_match ?o ?s b = Some (r, b1)" "bookInv b1"
    "abs_match (io_price ?o) ?s (io_quantity ?o) (abs_book b) = (r, abs_book b1)"
    using book_match_refines[OF inv p] by blast
  show ?thesis
  proof (cases "r = 0")
    case True
    then have "book_add ioe b = Some (True, b1, [full_status ?o])"
      using m(1) act p by (simp add: book_add_def full_status_def not_le Let_def)
    then show ?thesis using m True by simp
  next
    case False
    have "bookInv (fst (restOrder ?o ?s r b1)) \<and> rest_ok ?o ?s r (abs_book b1) (restOrder ?o ?s r b1)"
      using restOrder_spec[OF _ p False, of b1 "queue_of b1"] m(2)
      by (simp add: bookInv_def abs_book_def)
    moreover have "book_add ioe b = Some (True, fst (restOrder ?o ?s r b1), snd (restOrder ?o ?s r b1))"
      using m act p False by (simp add: book_add_def word_gt_0 not_le Let_def split: prod.splits)
    ultimately show ?thesis using m(3) False by (cases "restOrder ?o ?s r b1") auto
  qed
qed

lemma cancel_refines:
  assumes inv: "bookInv b" and e: "e \<in> set (abs_book b sd p)" "rs_localId e = io_bookOId (ioe_order ioe)"
  shows "\<exists>b'. book_cancelOrder ioe b = (b', [PostStatus \<lparr>st_id = io_id (ioe_order ioe),
        st_bookOId = io_bookOId (ioe_order ioe), st_fillQty = 0, st_fillPrice = 0, st_state = Cancelled\<rparr>]) \<and>
      bookInv b' \<and>
      abs_book b' = upd_a sd p (filter (\<lambda>x. rs_localId x \<noteq> io_bookOId (ioe_order ioe)) (abs_book b sd p)) (abs_book b)"
proof -
  let ?q = "queue_of b" and ?v = "io_bookOId (ioe_order ioe)"
  have rel: "book_rel b ?q" and lev: "levels_rel b ?q" and oc: "occ_rel b ?q" and ids: "book_ids_inv b (live ?q)"
    using inv by (auto simp: bookInv_def book_rel_def)
  obtain i where i: "i \<in> set (?q sd p)" "nd_localId (nodePool b i) = ?v"
    using e by (auto simp: abs_book_def abs_by_def resting_def)
  obtain xs ys where q: "?q sd p = xs @ i # ys" using i(1) by (auto dest: split_list)
  note c = cut_node_rel[OF lev oc q] and m = member_props[OF lev q]
  have idx: "slot_index BookOrderId_cap ?v = i" using m(3) i(2) by (simp add: node_ok_def)
  let ?b' = "releaseId ?v (cut_node sd p i b)"
  have "book_ids_inv (cut_node sd p i b) (live ?q)" using ids by (simp add: cut_node_def Let_def)
  moreover have "i \<in> live ?q" using i(1) by (auto simp: live_iff)
  ultimately have "book_ids_inv ?b' (live ?q - {i})"
    using book_ids.release_law[of "cut_node sd p i b" "live ?q" ?v] idx by simp
  then have "book_rel ?b' (upd_q sd p (xs @ ys) ?q)"
    using c(1,2) live_remove[OF lev q] levels_rel_cong[of ?b' "cut_node sd p i b"] by (simp add: book_rel_def)
  note B = bookInv_rel[OF this]
  have other: "nd_localId (nodePool b j) \<noteq> ?v" if "j \<in> set (xs @ ys)" for j
    using that m(2) idx levels_relD(4)[OF lev, of j sd p] q by (auto simp: node_ok_def)
  have "filter (\<lambda>x. rs_localId x \<noteq> ?v) (abs_book b sd p) = map (\<lambda>j. resting (nodePool b j)) (xs @ ys)"
    using other i(2) by (auto simp: abs_book_def abs_by_def q resting_def filter_map o_def intro!: filter_True)
  moreover have "abs_book ?b' = upd_a sd p (map (\<lambda>j. resting (nodePool b j)) (xs @ ys)) (abs_book b)"
    using B c(3) abs_by_cong[of ?b' "cut_node sd p i b"] by (simp add: abs_book_def)
  ultimately show ?thesis
    using cancel_eq[OF lev q] i(2) B by auto
qed

section \<open>The empty book\<close>

lemma book_rel_empty: "book_rel empty_book (\<lambda>_ _. [])"
proof -
  have "idx_below 1 = {}" by (auto simp: idx_below_def word_less_nat_alt)
  then have "book_ids_inv empty_book {}"
    by (simp add: book_ids_inv_def empty_book_def free_ids_def slots_ok_def MAX_BOOK_ORDERS_val(1))
  moreover have "levels_rel empty_book (\<lambda>_ _. [])"
    by (auto simp: levels_rel_def level_rel_def level_side_def empty_book_def zero_level_def split: Side.splits)
  moreover have "occ_rel empty_book (\<lambda>_ _. [])"
    by (auto simp: occ_rel_def occ_def mask_of_def empty_book_def split: Side.splits)
  ultimately show ?thesis by (simp add: book_rel_def live_def)
qed

lemma bookInv_empty: "bookInv empty_book" "abs_book empty_book = (\<lambda>_ _. [])"
  using bookInv_rel[OF book_rel_empty] by (auto simp: abs_by_def)

section \<open>Sequences of events\<close>

text \<open>The condition on cancels: when the id passes the check of \<^verbatim>\<open>cancelOrder\<close>, it is the id of a
  resting order.\<close>

definition cancel_ok :: "InternalOrderEvent \<Rightarrow> PriceLevelOrderBook \<Rightarrow> bool" where
  "cancel_ok ioe b \<longleftrightarrow>
     (ioe_action ioe = Cancel \<longrightarrow>
      nd_localId (nodePool b (slot_index BookOrderId_cap (io_bookOId (ioe_order ioe)))) = io_bookOId (ioe_order ioe) \<longrightarrow>
      (\<exists>sd p. io_bookOId (ioe_order ioe) \<in> rs_localId ` set (abs_book b sd p)))"

fun run_ok :: "InternalOrderEvent list \<Rightarrow> PriceLevelOrderBook \<Rightarrow> bool" where
  "run_ok [] b \<longleftrightarrow> True"
| "run_ok (e # es) b \<longleftrightarrow> cancel_ok e b \<and> (case book_add e b of None \<Rightarrow> True | Some (_, b', _) \<Rightarrow> run_ok es b')"

definition uncrossed :: "abook \<Rightarrow> bool" where
  "uncrossed A \<longleftrightarrow> (\<forall>p p'. A SideBuy p \<noteq> [] \<longrightarrow> A SideSell p' \<noteq> [] \<longrightarrow> p < p')"

lemma uncrossed_sub:
  "uncrossed A \<Longrightarrow> (\<And>sd p. A' sd p \<noteq> [] \<Longrightarrow> A sd p \<noteq> []) \<Longrightarrow> uncrossed A'"
  unfolding uncrossed_def by blast

lemma uncrossed_rest:
  assumes "uncrossed A"
    and "\<And>p. A (opposite side) p \<noteq> [] \<Longrightarrow> \<not> (case side of SideBuy \<Rightarrow> p \<le> limit | SideSell \<Rightarrow> limit \<le> p)"
  shows "uncrossed (upd_a side limit es A)"
  unfolding uncrossed_def
proof (intro allI impI)
  fix p p' assume "upd_a side limit es A SideBuy p \<noteq> []" "upd_a side limit es A SideSell p' \<noteq> []"
  then show "p < p'"
    using assms unfolding uncrossed_def by (cases side) (auto simp: not_le split: if_splits)
qed

lemma add_uncrossed:
  assumes inv: "bookInv b" and u: "uncrossed (abs_book b)" and act: "ioe_action ioe \<noteq> Cancel"
    and add: "book_add ioe b = Some (f, b', ms)"
  shows "bookInv b' \<and> uncrossed (abs_book b')"
proof (cases "io_price (ioe_order ioe) < MAX_TICKS")
  case True
  let ?s = "getSide (ioe_action ioe)" and ?p = "io_price (ioe_order ioe)"
  obtain r A where r: "bookInv b'" "abs_match ?p ?s (io_quantity (ioe_order ioe)) (abs_book b) = (r, A)"
    "if r = 0 then abs_book b' = A \<and> ms = [full_status (ioe_order ioe)] else rest_ok (ioe_order ioe) ?s r A (b', ms)"
    using add_refines[OF inv act True] add by auto
  have bnd: "\<forall>sd p. abs_book b sd p \<noteq> [] \<longrightarrow> p < MAX_TICKS" using bookInv_bound[OF inv] by blast
  note m = abs_match_props[OF r(2) True bnd]
  have uA: "uncrossed A" by (rule uncrossed_sub[OF u m(2)])
  show ?thesis
  proof (cases "r = 0")
    case False
    have "uncrossed (upd_a ?s ?p es A)" for es
      by (rule uncrossed_rest[OF uA m(3)[OF False]])
    with r False uA show ?thesis by (auto simp: rest_ok_def)
  qed (use r uA in simp)
next
  case False
  then show ?thesis using add act inv u by (auto simp: book_add_def Let_def not_less split: if_splits)
qed

lemma cancel_uncrossed:
  assumes inv: "bookInv b" and u: "uncrossed (abs_book b)" and ok: "cancel_ok ioe b" and act: "ioe_action ioe = Cancel"
    and add: "book_add ioe b = Some (f, b', ms)"
  shows "bookInv b' \<and> uncrossed (abs_book b')"
proof -
  let ?v = "io_bookOId (ioe_order ioe)"
  have c: "book_cancelOrder ioe b = (b', ms)" using add act by (auto simp: book_add_def split: prod.splits)
  show ?thesis
  proof (cases "nd_localId (nodePool b (slot_index BookOrderId_cap ?v)) = ?v")
    case True
    then obtain sd p e where e: "e \<in> set (abs_book b sd p)" "rs_localId e = ?v"
      using ok act unfolding cancel_ok_def by (metis imageE)
    from cancel_refines[OF inv e] c
    have "bookInv b'" "abs_book b' = upd_a sd p (filter (\<lambda>x. rs_localId x \<noteq> ?v) (abs_book b sd p)) (abs_book b)"
      by auto
    moreover have "uncrossed (abs_book b')"
      by (rule uncrossed_sub[OF u]) (use calculation(2) in \<open>auto split: if_splits\<close>)
    ultimately show ?thesis by blast
  next
    case False
    then show ?thesis using c inv u by (auto simp: book_cancelOrder_def Let_def)
  qed
qed

lemma book_add_total:
  assumes "bookInv b" shows "\<exists>f b' ms. book_add ioe b = Some (f, b', ms)"
proof (cases "ioe_action ioe \<noteq> Cancel \<and> io_price (ioe_order ioe) < MAX_TICKS")
  case True
  then show ?thesis using add_refines[OF assms, of ioe] by blast
next
  case False
  then show ?thesis by (auto simp: book_add_def Let_def not_less split: prod.splits)
qed

lemma run_invariant:
  assumes "bookInv b" "uncrossed (abs_book b)" "run_ok es b"
  shows "\<exists>b' ms. book_run es b = Some (b', ms) \<and> bookInv b' \<and> uncrossed (abs_book b')"
  using assms
proof (induction es arbitrary: b)
  case (Cons e es)
  obtain f b1 m1 where a: "book_add e b = Some (f, b1, m1)" using book_add_total[OF Cons.prems(1)] by blast
  have "bookInv b1 \<and> uncrossed (abs_book b1)"
    using add_uncrossed[OF Cons.prems(1,2) _ a] cancel_uncrossed[OF Cons.prems(1,2) _ _ a] Cons.prems(3)
    by (cases "ioe_action e = Cancel") auto
  with Cons.IH[of b1] Cons.prems(3) a show ?case by auto
qed simp

section \<open>Volumes\<close>

definition book_volume :: "PriceLevelOrderBook \<Rightarrow> Side \<Rightarrow> nat" where
  "book_volume b sd = (\<Sum>n<unat MAX_TICKS. unat (pl_volume (level_side b sd (of_nat n))))"

lemma book_volume_total: "bookInv b \<Longrightarrow> book_volume b sd = side_total (abs_book b sd)"
proof -
  assume "bookInv b"
  then have lev: "levels_rel b (queue_of b)" by (simp add: bookInv_def book_rel_def)
  have "unat (pl_volume (level_side b sd p)) = qsum (abs_book b sd p)" for p
    using levels_relD(1)[OF lev, of sd p]
    by (simp add: level_rel_def qty_sum_def qsum_def abs_book_def abs_by_def resting_def o_def)
  then show ?thesis by (simp add: book_volume_def side_total_def)
qed

lemma consume_le: "fst (consume r es) \<le> r"
proof (induction r es rule: consume.induct)
  case (2 r e es)
  show ?case
  proof (cases "r = 0 \<or> r < rs_qty e")
    case False
    then have "fst (consume r (e # es)) \<le> r - rs_qty e" using 2 by simp
    also have "\<dots> \<le> r" using False by (simp add: word_le_nat_alt unat_sub not_less)
    finally show ?thesis .
  qed auto
qed simp

lemma consume_all_le: "fst (consume_all r ps A) \<le> r"
proof (induction ps arbitrary: r A)
  case (Cons x ps)
  obtain r' es where c: "consume r (A x) = (r', es)" by (cases "consume r (A x)")
  then have "r' \<le> r" using consume_le[of r "A x"] by simp
  moreover have "fst (consume_all r (x # ps) A) \<le> r'"
    using Cons[of r' "A(x := es)"] c by (simp only: consume_all.simps prod.case)
  ultimately show ?case by (rule order_trans[rotated])
qed simp

lemma abs_match_le: "abs_match limit side r A = (r', A') \<Longrightarrow> unat r' \<le> unat r"
  using consume_all_le[of r "match_prices side limit" "A (opposite side)"]
  by (auto simp: abs_match_def word_le_nat_alt split: prod.splits)

lemma add_conserves:
  assumes inv: "bookInv b" and act: "ioe_action ioe \<noteq> Cancel" and p: "io_price (ioe_order ioe) < MAX_TICKS"
    and add: "book_add ioe b = Some (f, b', ms)"
  shows "\<exists>filled. filled \<le> unat (io_quantity (ioe_order ioe)) \<and>
    book_volume b' (opposite (getSide (ioe_action ioe))) + filled = book_volume b (opposite (getSide (ioe_action ioe))) \<and>
    (book_volume b' (getSide (ioe_action ioe)) =
       book_volume b (getSide (ioe_action ioe)) + (unat (io_quantity (ioe_order ioe)) - filled) \<or>
     ms = [PostError \<lparr>ie_code = SC_Error, ie_what = ''OrderBook is full''\<rparr>])"
proof -
  let ?o = "ioe_order ioe" and ?s = "getSide (ioe_action ioe)"
  obtain r A where r: "bookInv b'" "abs_match (io_price ?o) ?s (io_quantity ?o) (abs_book b) = (r, A)"
    "if r = 0 then abs_book b' = A \<and> ms = [full_status ?o] else rest_ok ?o ?s r A (b', ms)"
    using add_refines[OF inv act p] add by auto
  have bnd: "\<forall>sd p. abs_book b sd p \<noteq> [] \<longrightarrow> p < MAX_TICKS" using bookInv_bound[OF inv] by blast
  note m = abs_match_props[OF r(2) p bnd]
  note v = book_volume_total[OF inv] book_volume_total[OF r(1)]
  have le: "unat r \<le> unat (io_quantity ?o)" by (rule abs_match_le[OF r(2)])
  have o: "opposite ?s \<noteq> ?s" by (cases ?s) auto
  have opp: "abs_book b' (opposite ?s) = A (opposite ?s)"
    using r(3) o by (auto simp: rest_ok_def upd_a_def split: if_splits)
  have own: "side_total (abs_book b' ?s) = side_total (abs_book b ?s) + unat r \<or>
      ms = [PostError \<lparr>ie_code = SC_Error, ie_what = ''OrderBook is full''\<rparr>]"
  proof (cases "r = 0")
    case False
    have "side_total ((A ?s)(io_price ?o := A ?s (io_price ?o) @ [e])) = side_total (A ?s) + unat (rs_qty e)" for e
      using side_total_upd[OF p, of "A ?s" "A ?s (io_price ?o) @ [e]"] by simp
    then show ?thesis using r(3) False m(1) by (auto simp: rest_ok_def upd_a_def)
  qed (use r(3) m(1) in auto)
  show ?thesis
    unfolding v using m(4) le own opp by (intro exI[of _ "unat (io_quantity ?o) - unat r"]) auto
qed

section \<open>Properties\<close>

text \<open>C1. \<^verbatim>\<open>add\<close> of a buy or sell order on a well-formed book terminates and refines price-time
  priority: the remainder and the resting orders are those of walking the opposite side
  from the best price to the limit, first-in first-out. An order filled completely is
  reported \<^verbatim>\<open>Full\<close>; otherwise the remainder rests at the tail of its level under an id no
  resting order has and is reported \<^verbatim>\<open>Accepted\<close> or \<^verbatim>\<open>Partial\<close> with the filled quantity, or the
  book is full and the error is posted. The book stays well-formed.\<close>

theorem book_add_refines:
  assumes "bookInv b" and "ioe_action ioe \<noteq> Cancel" and "io_price (ioe_order ioe) < MAX_TICKS"
  shows "\<exists>b' ms r A. book_add ioe b = Some (True, b', ms) \<and> bookInv b' \<and>
    abs_match (io_price (ioe_order ioe)) (getSide (ioe_action ioe)) (io_quantity (ioe_order ioe)) (abs_book b) = (r, A) \<and>
    (if r = 0 then abs_book b' = A \<and> ms = [full_status (ioe_order ioe)]
     else rest_ok (ioe_order ioe) (getSide (ioe_action ioe)) r A (b', ms))"
  by (rule add_refines[OF assms])

theorem book_add_refines_witness:
  "\<exists>b' ms r A. book_add \<lparr>ioe_order = \<lparr>io_id = 1, io_bookOId = 0, io_quantity = 10, io_price = 6\<rparr>,
       ioe_ticker = makeTicker ''A'', ioe_action = Buy\<rparr> empty_book = Some (True, b', ms) \<and> bookInv b' \<and>
     abs_match 6 SideBuy 10 (abs_book empty_book) = (r, A)"
  using book_add_refines[OF bookInv_empty(1), of "\<lparr>ioe_order = \<lparr>io_id = 1, io_bookOId = 0, io_quantity = 10, io_price = 6\<rparr>,
       ioe_ticker = makeTicker ''A'', ioe_action = Buy\<rparr>"]
  by (auto simp: MAX_TICKS_val getSide_def)

text \<open>C3. A cancel with the id of a resting order removes that order and nothing else, posts
  \<^verbatim>\<open>Cancelled\<close>, and keeps the book well-formed.\<close>

theorem book_cancel_live:
  assumes "bookInv b" and "e \<in> set (abs_book b sd p)" and "rs_localId e = io_bookOId (ioe_order ioe)"
  shows "\<exists>b'. book_cancelOrder ioe b = (b', [PostStatus \<lparr>st_id = io_id (ioe_order ioe),
        st_bookOId = io_bookOId (ioe_order ioe), st_fillQty = 0, st_fillPrice = 0, st_state = Cancelled\<rparr>]) \<and>
      bookInv b' \<and>
      abs_book b' = upd_a sd p (filter (\<lambda>x. rs_localId x \<noteq> io_bookOId (ioe_order ioe)) (abs_book b sd p)) (abs_book b)"
  by (rule cancel_refines[OF assms])

text \<open>C2. After any sequence of events from the empty book whose cancels name resting orders or
  fail the id check, every call has terminated, the book is well-formed and not crossed:
  every bid is below every ask.\<close>

theorem book_run_invariant:
  assumes "run_ok es empty_book"
  shows "\<exists>b ms. book_run es empty_book = Some (b, ms) \<and> bookInv b \<and> uncrossed (abs_book b)"
  using run_invariant[OF bookInv_empty(1) _ assms] by (simp add: uncrossed_def bookInv_empty(2))

text \<open>C4. Quantity is conserved: what an order takes from the level volumes of the opposite side
  is at most its quantity, and the rest of it is added to the volumes of its own side, unless
  the book is full.\<close>

theorem book_add_conserves:
  assumes "bookInv b" and "ioe_action ioe \<noteq> Cancel" and "io_price (ioe_order ioe) < MAX_TICKS"
    and "book_add ioe b = Some (f, b', ms)"
  shows "\<exists>filled. filled \<le> unat (io_quantity (ioe_order ioe)) \<and>
    book_volume b' (opposite (getSide (ioe_action ioe))) + filled = book_volume b (opposite (getSide (ioe_action ioe))) \<and>
    (book_volume b' (getSide (ioe_action ioe)) =
       book_volume b (getSide (ioe_action ioe)) + (unat (io_quantity (ioe_order ioe)) - filled) \<or>
     ms = [PostError \<lparr>ie_code = SC_Error, ie_what = ''OrderBook is full''\<rparr>])"
  by (rule add_conserves[OF assms])

text \<open>C7. The optimised best-price discovery (cached best price, then word-wise mask scan) equals
  a linear search for the first non-empty level within the limit.\<close>

theorem best_price_is_linear_search:
  assumes "bookInv b" and "limit < MAX_TICKS"
  shows "(if crosses side limit b then best_opposite side limit b else None) =
    find (\<lambda>p. abs_book b (opposite side) p \<noteq> []) (match_prices side limit)"
  using best_opposite_find[of b "queue_of b" limit side] assms
  by (simp add: bookInv_def book_rel_def abs_book_def abs_by_empty)



theorem best_price_witness:
  "(if crosses SideBuy 7 empty_book then best_opposite SideBuy 7 empty_book else None) = None"
proof -
  have "7 < MAX_TICKS" by code_simp
  from best_price_is_linear_search[OF bookInv_empty(1) this, of SideBuy] show ?thesis
    by (simp only: bookInv_empty(2)) (simp add: find_None_iff)
qed

end
