(* ===== verification/Price_Level_Scenario.thy ===== *)
theory Price_Level_Scenario
  imports Price_Level_Spec
begin

text \<open>
  A concrete run of the book, evaluated event by event: two bids at 6 and 5, a sell that
  executes both, a third bid at 6 that reuses the second slot, and a cancel with the id of
  the first bid, which is no longer in the book. The run provides inputs for the properties
  of the book and shows what the missing liveness check of \<^verbatim>\<open>cancelOrder\<close> leads to.
\<close>

section \<open>The run\<close>

definition sample_event :: "OrderAction \<Rightarrow> u32 \<Rightarrow> u32 \<Rightarrow> u32 \<Rightarrow> u32 \<Rightarrow> InternalOrderEvent" where
  "sample_event act sid bid qty p = \<lparr>ioe_order = \<lparr>io_id = sid, io_bookOId = bid, io_quantity = qty, io_price = p\<rparr>,
     ioe_ticker = makeTicker ''A'', ioe_action = act\<rparr>"

definition small_book :: "Node \<Rightarrow> Node \<Rightarrow> PriceLevelSide \<Rightarrow> PriceLevelSide \<Rightarrow> u64 \<Rightarrow> u32 \<Rightarrow> u32 \<Rightarrow> u32 \<Rightarrow> u32 \<Rightarrow> u32 \<Rightarrow> PriceLevelOrderBook" where
  "small_book n1 n2 l5 l6 m f0 f1 ft nx mx = \<lparr>nodePool = (\<lambda>i. if i = 1 then n1 else if i = 2 then n2 else zero_node),
     levels = (\<lambda>p. if p = 5 then zero_level\<lparr>lv_bid := l5\<rparr> else if p = 6 then zero_level\<lparr>lv_bid := l6\<rparr> else zero_level),
     bidMask = (\<lambda>w. if w = 0 then m else 0), askMask = (\<lambda>_. 0),
     freeStack = (\<lambda>k. if k = 0 then f0 else if k = 1 then f1 else 0), freeTop = ft,
     nextAvailableIdx = nx, minAsk = MAX_TICKS, maxBid = mx\<rparr>"

abbreviation sample_node :: "u32 \<Rightarrow> u32 \<Rightarrow> u32 \<Rightarrow> u32 \<Rightarrow> Node" where
  "sample_node price qty v s \<equiv> \<lparr>nd_next = 0, nd_prev = 0, nd_price = price, nd_qty = qty, nd_localId = v, nd_systemId = s, nd_side = SideBuy\<rparr>"
abbreviation sample_level :: "u64 \<Rightarrow> u32 \<Rightarrow> u32 \<Rightarrow> PriceLevelSide" where
  "sample_level vol h t \<equiv> \<lparr>pl_volume = vol, pl_head = h, pl_tail = t\<rparr>"

lemma sample_step0: "empty_book = small_book zero_node zero_node (sample_level 0 0 0) (sample_level 0 0 0) 0 0 0 0 1 0"
  by (simp add: empty_book_def small_book_def fun_eq_iff zero_level_def)

lemma sample_slots: "slot_make BookOrderId_cap 1 1 = 131073" "slot_make BookOrderId_cap 2 1 = 131074"
  "slot_isValid BookOrderId_cap 131073" "slot_isValid BookOrderId_cap 131074" "slot_isValid BookOrderId_cap 262146"
  "slot_index BookOrderId_cap 131073 = 1" "slot_index BookOrderId_cap 131074 = 2" "slot_index BookOrderId_cap 262146 = 2"
  "nextGen BookOrderId_cap 131073 = 262145" "nextGen BookOrderId_cap 131074 = 262146"
  by code_simp+

lemma sample_masks: "high_price 0 64 = 6" "high_price 0 96 = 6" "high_price 0 32 = 5"
  "(drop_bit 6 6 :: u32) = 0" "(drop_bit 6 5 :: u32) = 0"
  by code_simp+

lemma sample_nums: "\<not> MAX_BOOK_ORDERS \<le> 1" "\<not> MAX_BOOK_ORDERS \<le> 2" "\<not> MAX_TICKS \<le> 6" "\<not> MAX_TICKS \<le> 5"
  "MAX_TICKS > 6" "MAX_TICKS > 5" by code_simp+

lemmas sample_ops = book_add_def book_match_def restOrder_def book_cancelOrder_def acquireId_def releaseId_def updateOccupancy_def
  upd_node_def upd_level_def level_side_def Let_def sample_event_def getSide_def small_book_def zero_level_def zero_node_def sample_slots sample_masks sample_nums
  fill_head_def getBestBid_def getBestBid_from.simps findNewMaxBid_def

lemma sample_step1: "book_add (sample_event Buy 1 0 10 6) (small_book zero_node zero_node (sample_level 0 0 0) (sample_level 0 0 0) 0 0 0 0 1 0) =
  Some (True, small_book (sample_node 6 10 131073 1) zero_node (sample_level 0 0 0) (sample_level 10 1 1) 64 0 0 0 2 6,
    [PostStatus \<lparr>st_id = 1, st_bookOId = 131073, st_fillQty = 0, st_fillPrice = 6, st_state = Accepted\<rparr>])"
  by (simp add: sample_ops match_loop.simps[of 6 SideBuy] fun_eq_iff)

lemma sample_step2: "book_add (sample_event Buy 2 0 10 5) (small_book (sample_node 6 10 131073 1) zero_node (sample_level 0 0 0) (sample_level 10 1 1) 64 0 0 0 2 6) =
  Some (True, small_book (sample_node 6 10 131073 1) (sample_node 5 10 131074 2) (sample_level 10 2 2) (sample_level 10 1 1) 96 0 0 0 3 6,
    [PostStatus \<lparr>st_id = 2, st_bookOId = 131074, st_fillQty = 0, st_fillPrice = 5, st_state = Accepted\<rparr>])"
  by (simp add: sample_ops match_loop.simps[of 5 SideBuy] fun_eq_iff)

lemma sample_step3: "book_add (sample_event Sell 3 0 20 5) (small_book (sample_node 6 10 131073 1) (sample_node 5 10 131074 2) (sample_level 10 2 2) (sample_level 10 1 1) 96 0 0 0 3 6) =
  Some (True, small_book (sample_node 6 0 131073 1) (sample_node 5 0 131074 2) (sample_level 0 0 0) (sample_level 0 0 0) 0 262145 262146 2 3 0,
    [PostStatus \<lparr>st_id = 3, st_bookOId = 0, st_fillQty = 20, st_fillPrice = 5, st_state = Full\<rparr>])"
  by (simp add: sample_ops match_loop.simps[of 5 SideSell] match_level.simps[of SideBuy] fun_eq_iff)

lemma sample_step4: "book_add (sample_event Buy 4 0 7 6) (small_book (sample_node 6 0 131073 1) (sample_node 5 0 131074 2) (sample_level 0 0 0) (sample_level 0 0 0) 0 262145 262146 2 3 0) =
  Some (True, small_book (sample_node 6 0 131073 1) (sample_node 6 7 262146 4) (sample_level 0 0 0) (sample_level 7 2 2) 64 262145 262146 1 3 6,
    [PostStatus \<lparr>st_id = 4, st_bookOId = 262146, st_fillQty = 0, st_fillPrice = 6, st_state = Accepted\<rparr>])"
  by (simp add: sample_ops match_loop.simps[of 6 SideBuy] fun_eq_iff)

lemma sample_step5: "book_add (sample_event Cancel 1 131073 0 0) (small_book (sample_node 6 0 131073 1) (sample_node 6 7 262146 4) (sample_level 0 0 0) (sample_level 7 2 2) 64 262145 262146 1 3 6) =
  Some (True, small_book (sample_node 6 0 131073 1) (sample_node 6 7 262146 4) (sample_level 0 0 0) (sample_level 7 0 0) 64 262145 262145 2 3 6,
    [PostStatus \<lparr>st_id = 1, st_bookOId = 131073, st_fillQty = 0, st_fillPrice = 0, st_state = Cancelled\<rparr>])"
  by (simp add: sample_ops fun_eq_iff)

text \<open>A first bid with any system id, and its cancel.\<close>

lemma first_bid: "book_add \<lparr>ioe_order = \<lparr>io_id = sid, io_bookOId = 0, io_quantity = 10, io_price = 6\<rparr>, ioe_ticker = t, ioe_action = Buy\<rparr> empty_book =
  Some (True, small_book (sample_node 6 10 131073 sid) zero_node (sample_level 0 0 0) (sample_level 10 1 1) 64 0 0 0 2 6,
    [PostStatus \<lparr>st_id = sid, st_bookOId = 131073, st_fillQty = 0, st_fillPrice = 6, st_state = Accepted\<rparr>])"
  by (simp add: sample_step0 sample_ops match_loop.simps[of 6 SideBuy] fun_eq_iff)

lemma first_cancel: "book_add \<lparr>ioe_order = \<lparr>io_id = sid', io_bookOId = 131073, io_quantity = x, io_price = y\<rparr>, ioe_ticker = t, ioe_action = Cancel\<rparr>
    (small_book (sample_node 6 10 131073 sid) zero_node (sample_level 0 0 0) (sample_level 10 1 1) 64 0 0 0 2 6) =
  Some (True, small_book (sample_node 6 10 131073 sid) zero_node (sample_level 0 0 0) (sample_level 0 0 0) 0 262145 0 1 2 0,
    [PostStatus \<lparr>st_id = sid', st_bookOId = 131073, st_fillQty = 0, st_fillPrice = 0, st_state = Cancelled\<rparr>])"
  by (simp add: sample_ops fun_eq_iff)

lemma second_cancel: "\<exists>b. book_add \<lparr>ioe_order = \<lparr>io_id = sid', io_bookOId = 131073, io_quantity = x, io_price = y\<rparr>, ioe_ticker = t, ioe_action = Cancel\<rparr>
    (small_book (sample_node 6 10 131073 sid) zero_node (sample_level 0 0 0) (sample_level 0 0 0) 0 262145 0 1 2 0) =
  Some (True, b, [PostStatus \<lparr>st_id = sid', st_bookOId = 131073, st_fillQty = 0, st_fillPrice = 0, st_state = Cancelled\<rparr>]) \<and>
  free_ids b = [262145, 262145] \<and> pl_volume (level_side b SideBuy 6) = - 10"
  by (simp add: sample_ops free_ids_def upt_rec)

section \<open>What rests at each step\<close>

lemma abs_single:
  assumes "pl_head (level_side b sd p) = i" "i \<noteq> 0" "nd_next (nodePool b i) = 0" "nd_prev (nodePool b i) = 0"
  shows "abs_book b sd p = [resting (nodePool b i)]"
proof -
  have "queue_of b sd p = [i]"
    unfolding queue_of_def assms(1) using assms(2-4)
    by (intro walk_dseg[of _ 0]) (simp_all add: MAX_BOOK_ORDERS_val(1))
  then show ?thesis by (simp add: abs_book_def abs_by_def)
qed

lemma abs_none:
  assumes "pl_head (level_side b sd p) = 0"
  shows "abs_book b sd p = []"
proof -
  have "queue_of b sd p = []"
    unfolding queue_of_def assms by (rule walk_dseg[of _ 0]) simp_all
  then show ?thesis by (simp add: abs_book_def abs_by_def)
qed

definition sample_run :: "InternalOrderEvent list" where
  "sample_run = [sample_event Buy 1 0 10 6, sample_event Buy 2 0 10 5, sample_event Sell 3 0 20 5, sample_event Buy 4 0 7 6]"

abbreviation sample_final :: PriceLevelOrderBook where
  "sample_final \<equiv> small_book (sample_node 6 0 131073 1) (sample_node 6 7 262146 4) (sample_level 0 0 0) (sample_level 7 2 2) 64 262145 262146 1 3 6"

lemma sample_run_eq: "map_option fst (book_run sample_run empty_book) = Some sample_final"
  by (simp add: sample_run_def sample_step0 sample_step1 sample_step2 sample_step3 sample_step4)

lemma sample_run_ok: "run_ok sample_run empty_book"
  by (simp add: sample_run_def cancel_ok_def sample_event_def split: option.splits)

lemma sample_first_ok: "run_ok [sample_event Buy 1 0 10 6] empty_book"
  by (simp add: cancel_ok_def sample_event_def split: option.splits)

lemma sample_final_inv: "bookInv sample_final"
  using run_invariant[OF bookInv_empty(1) _ sample_run_ok] sample_run_eq
  by (auto simp: uncrossed_def bookInv_empty(2))

lemma sample_final_abs:
  "abs_book sample_final SideBuy 6 = [\<lparr>rs_localId = 262146, rs_systemId = 4, rs_qty = 7\<rparr>]"
  "\<not> (sd = SideBuy \<and> p = 6) \<Longrightarrow> abs_book sample_final sd p = []"
proof -
  have h: "pl_head (level_side sample_final SideBuy 6) = 2" "nodePool sample_final 2 = sample_node 6 7 262146 4"
    by (simp_all add: small_book_def level_side_def)
  show "abs_book sample_final SideBuy 6 = [\<lparr>rs_localId = 262146, rs_systemId = 4, rs_qty = 7\<rparr>]"
    using abs_single[OF h(1)] h(2) by (simp add: resting_def)
  show "abs_book sample_final sd p = []" if "\<not> (sd = SideBuy \<and> p = 6)"
    by (rule abs_none) (use that in \<open>auto simp: small_book_def level_side_def zero_level_def split: Side.splits\<close>)
qed

section \<open>Witnesses\<close>

theorem book_run_invariant_witness:
  "\<exists>b ms. book_run sample_run empty_book = Some (b, ms) \<and> bookInv b \<and> uncrossed (abs_book b)"
  by (rule book_run_invariant[OF sample_run_ok])

theorem book_cancel_live_witness:
  "\<exists>b'. book_cancelOrder (sample_event Cancel 4 262146 0 0) sample_final = (b', [PostStatus \<lparr>st_id = 4,
      st_bookOId = 262146, st_fillQty = 0, st_fillPrice = 0, st_state = Cancelled\<rparr>]) \<and> bookInv b' \<and> abs_book b' SideBuy 6 = []"
  using book_cancel_live[OF sample_final_inv, of "\<lparr>rs_localId = 262146, rs_systemId = 4, rs_qty = 7\<rparr>" SideBuy 6
      "sample_event Cancel 4 262146 0 0"]
  by (auto simp: sample_final_abs(1) sample_event_def)

theorem book_add_conserves_witness:
  "\<exists>filled. filled \<le> 10 \<and>
     book_volume (small_book (sample_node 6 10 131073 1) zero_node (sample_level 0 0 0) (sample_level 10 1 1) 64 0 0 0 2 6) SideSell + filled
       = book_volume empty_book SideSell"
  using book_add_conserves[OF bookInv_empty(1) _ _ sample_step1[folded sample_step0]]
  by (auto simp: sample_event_def MAX_TICKS_val getSide_def)

section \<open>A cancel with an id that is no longer live\<close>

text \<open>C5. Releasing an id does not clear the \<^verbatim>\<open>localId\<close> of its node, so a cancel with the id of an
  executed order passes the check until the slot is reused. In the run above the book is
  well-formed and the id 131073 of the first bid names no resting order; its cancel is
  nevertheless answered \<^verbatim>\<open>Cancelled\<close>, the bid of another client at the same price disappears
  from its level while its volume is still counted, the slot is on the free stack twice, and
  the book is no longer well-formed.\<close>

theorem stale_cancel_corrupts_book:
  "map_option fst (book_run sample_run empty_book) = Some sample_final \<and> bookInv sample_final \<and>
   (\<forall>sd p. 131073 \<notin> rs_localId ` set (abs_book sample_final sd p)) \<and>
   abs_book sample_final SideBuy 6 = [\<lparr>rs_localId = 262146, rs_systemId = 4, rs_qty = 7\<rparr>] \<and>
   (\<exists>b'. book_add (sample_event Cancel 1 131073 0 0) sample_final = Some (True, b',
        [PostStatus \<lparr>st_id = 1, st_bookOId = 131073, st_fillQty = 0, st_fillPrice = 0, st_state = Cancelled\<rparr>]) \<and>
      abs_book b' SideBuy 6 = [] \<and> pl_volume (level_side b' SideBuy 6) = 7 \<and>
      free_ids b' = [262145, 262145] \<and> \<not> bookInv b')"
proof -
  let ?b = "small_book (sample_node 6 0 131073 1) (sample_node 6 7 262146 4) (sample_level 0 0 0) (sample_level 7 0 0) 64 262145 262145 2 3 6"
  have vol: "pl_volume (level_side ?b SideBuy 6) = 7" and hd: "pl_head (level_side ?b SideBuy 6) = 0"
    by (simp_all add: small_book_def level_side_def)
  have abs: "abs_book ?b SideBuy 6 = []" by (rule abs_none[OF hd])
  have free: "free_ids ?b = [262145, 262145]" by (simp add: free_ids_def small_book_def upt_rec)
  have "\<not> bookInv ?b"
  proof
    assume "bookInv ?b"
    then have "book_ids_inv ?b (live (queue_of ?b))" by (simp add: bookInv_def book_rel_def)
    then show False by (simp add: book_ids_inv_def slots_ok_def free)
  qed
  moreover have "131073 \<notin> rs_localId ` set (abs_book sample_final sd p)" for sd p
    using sample_final_abs by (cases "sd = SideBuy \<and> p = 6") auto
  ultimately show ?thesis
    using sample_run_eq sample_final_inv sample_final_abs(1) sample_step5 abs vol free by blast
qed

end
