(* ===== verification/Heap_Array.thy ===== *)
theory Heap_Array
  imports Prelude "HOL-Library.Multiset"
begin

text \<open>
  Binary heaps in arrays, the standard library's \<^verbatim>\<open>std::push_heap\<close> and \<^verbatim>\<open>std::pop_heap\<close> as the flat order book
  uses them. An element is ordered by a key; the array \<open>xs\<close> is a heap when no element has a larger
  key than its parent. The locale states what the library documents and a client needs; the
  interpretation is on the textbook implementation by sifting.
\<close>

definition parent :: "nat \<Rightarrow> nat" where "parent i = (i - 1) div 2"

definition heap :: "('a \<Rightarrow> int) \<Rightarrow> 'a list \<Rightarrow> bool" where
  "heap key xs \<longleftrightarrow> (\<forall>i. 0 < i \<and> i < length xs \<longrightarrow> key (xs ! i) \<le> key (xs ! parent i))"

definition swap :: "'a list \<Rightarrow> nat \<Rightarrow> nat \<Rightarrow> 'a list" where
  "swap xs i j = xs[i := xs ! j, j := xs ! i]"

fun sift_up :: "('a \<Rightarrow> int) \<Rightarrow> 'a list \<Rightarrow> nat \<Rightarrow> 'a list" where
  "sift_up key xs i =
     (if i = 0 then xs
      else if key (xs ! parent i) < key (xs ! i) then sift_up key (swap xs (parent i) i) ((i - 1) div 2) else xs)"

definition push_heap :: "('a \<Rightarrow> int) \<Rightarrow> 'a list \<Rightarrow> 'a list" where
  "push_heap key xs = sift_up key xs (length xs - 1)"

function sift_down :: "('a \<Rightarrow> int) \<Rightarrow> 'a list \<Rightarrow> nat \<Rightarrow> 'a list" where
  "sift_down key xs i =
     (if 2 * i + 1 < length xs
      then let c = (if 2 * i + 2 < length xs \<and> key (xs ! (2 * i + 1)) < key (xs ! (2 * i + 2)) then 2 * i + 2 else 2 * i + 1)
           in if key (xs ! i) < key (xs ! c) then sift_down key (swap xs i c) c else xs
      else xs)"
  by pat_completeness auto
termination
  by (relation "measure (\<lambda>(key, xs, i). length xs - i)") (auto simp: swap_def Let_def)

text \<open>\<^verbatim>\<open>pop_heap\<close> moves the front to the end, where the caller drops it.\<close>

definition pop_heap :: "('a \<Rightarrow> int) \<Rightarrow> 'a list \<Rightarrow> 'a list" where
  "pop_heap key xs =
     (if xs = [] then xs else sift_down key (butlast (swap xs 0 (length xs - 1))) 0 @ [hd xs])"

declare sift_up.simps [simp del] sift_down.simps [simp del]

lemma length_swap [simp]: "length (swap xs i j) = length xs"
  by (simp add: swap_def)

lemma mset_swap_pos: "i < length xs \<Longrightarrow> j < length xs \<Longrightarrow> mset (swap xs i j) = mset xs"
  by (simp add: swap_def mset_swap)

lemma nth_swap:
  "i < length xs \<Longrightarrow> j < length xs \<Longrightarrow> k < length xs \<Longrightarrow> swap xs i j ! k = (if k = j then xs ! i else if k = i then xs ! j else xs ! k)"
  by (auto simp: swap_def nth_list_update)

lemma parent_less: "0 < i \<Longrightarrow> parent i < i"
  by (simp add: parent_def)

lemma parent_children: "0 < i \<Longrightarrow> parent i = p \<longleftrightarrow> i = 2 * p + 1 \<or> i = 2 * p + 2"
  by (auto simp: parent_def)

section \<open>Sifting up\<close>

text \<open>A heap but for the element at \<open>i\<close>, whose children are below its parent.\<close>

definition heap_up :: "('a \<Rightarrow> int) \<Rightarrow> 'a list \<Rightarrow> nat \<Rightarrow> bool" where
  "heap_up key xs i \<longleftrightarrow> (\<forall>j. 0 < j \<and> j < length xs \<and> j \<noteq> i \<longrightarrow> key (xs ! j) \<le> key (xs ! parent j)) \<and>
     (\<forall>j. 0 < j \<and> j < length xs \<and> parent j = i \<and> 0 < i \<longrightarrow> key (xs ! j) \<le> key (xs ! parent i))"

lemma heap_up_swap:
  assumes h: "heap_up key xs i" and i: "0 < i" "i < length xs" and less: "key (xs ! parent i) < key (xs ! i)"
  shows "heap_up key (swap xs (parent i) i) (parent i)"
proof -
  let ?p = "parent i" and ?ys = "swap xs (parent i) i"
  have p: "?p < i" "?p < length xs" using parent_less[OF i(1)] i by auto
  have nth: "?ys ! k = (if k = i then xs ! ?p else if k = ?p then xs ! i else xs ! k)" if "k < length xs" for k
    using nth_swap[of ?p xs i k] that i p by simp
  have up: "key (xs ! j) \<le> key (xs ! parent j)" if "0 < j" "j < length xs" "j \<noteq> i" for j
    using h that by (simp add: heap_up_def)
  have gc: "key (xs ! j) \<le> key (xs ! ?p)" if "0 < j" "j < length xs" "parent j = i" for j
    using h that i by (simp add: heap_up_def)
  show ?thesis
    unfolding heap_up_def
  proof (intro conjI allI impI)
    fix j assume "0 < j \<and> j < length ?ys \<and> j \<noteq> ?p"
    then have j: "0 < j" "j < length xs" "j \<noteq> ?p" by auto
    have pj: "parent j < length xs" using parent_less[OF j(1)] j(2) by simp
    consider "j = i" | "j \<noteq> i" "parent j = i" | "j \<noteq> i" "parent j = ?p" | "j \<noteq> i" "parent j \<noteq> i" "parent j \<noteq> ?p" by blast
    then show "key (?ys ! j) \<le> key (?ys ! parent j)"
    proof cases
      case 1 then show ?thesis using nth[of i] nth[of ?p] i p less by simp
    next
      case 2 then show ?thesis using nth[of j] nth[of i] j gc[of j] i by simp
    next
      case 3 then show ?thesis using nth[of j] nth[of ?p] j up[of j] p less by simp
    next
      case 4 then show ?thesis using nth[of j] nth[of "parent j"] j pj up[of j] by simp
    qed
  next
    fix j assume "0 < j \<and> j < length ?ys \<and> parent j = ?p \<and> 0 < ?p"
    then have j: "0 < j" "j < length xs" "parent j = ?p" "0 < ?p" by auto
    have pp: "parent ?p < ?p" "j \<noteq> ?p" using parent_less[OF j(4)] parent_less[OF j(1)] j(3) by auto
    have top: "key (xs ! ?p) \<le> key (xs ! parent ?p)" using up[of ?p] p j(4) by simp
    show "key (?ys ! j) \<le> key (?ys ! parent ?p)"
      using nth[of j] nth[of "parent ?p"] j i p pp top up[OF j(1,2)] by (cases "j = i") auto
  qed
qed

lemma sift_up_heap:
  assumes "heap_up key xs i" "i < length xs"
  shows "heap key (sift_up key xs i) \<and> mset (sift_up key xs i) = mset xs"
  using assms
proof (induction i arbitrary: xs rule: less_induct)
  case (less i)
  show ?case
  proof (cases "i \<noteq> 0 \<and> key (xs ! parent i) < key (xs ! i)")
    case True
    let ?ys = "swap xs (parent i) i"
    have p: "parent i < i" "parent i < length xs" using True less.prems parent_less[of i] by auto
    have "heap_up key ?ys (parent i)" using heap_up_swap[OF less.prems(1)] True less.prems(2) by simp
    then have "heap key (sift_up key ?ys (parent i)) \<and> mset (sift_up key ?ys (parent i)) = mset ?ys"
      using less.IH[OF p(1), of ?ys] p by simp
    moreover have "sift_up key xs i = sift_up key ?ys (parent i)"
      using True by (subst sift_up.simps) (simp add: parent_def)
    ultimately show ?thesis using mset_swap_pos[OF p(2) less.prems(2)] by simp
  next
    case False
    then have "sift_up key xs i = xs" by (subst sift_up.simps) auto
    moreover have "heap key xs"
      using less.prems False unfolding heap_up_def heap_def by (metis gr_implies_not0 not_le_imp_less)
    ultimately show ?thesis by simp
  qed
qed

lemma push_heap_law:
  assumes "heap key xs"
  shows "heap key (push_heap key (xs @ [x])) \<and> mset (push_heap key (xs @ [x])) = add_mset x (mset xs)"
proof -
  have "heap_up key (xs @ [x]) (length xs)"
    unfolding heap_up_def
  proof (intro conjI allI impI)
    fix j assume "0 < j \<and> j < length (xs @ [x]) \<and> j \<noteq> length xs"
    then have j: "0 < j" "j < length xs" by auto
    then have "parent j < length xs" using parent_less[of j] by simp
    then show "key ((xs @ [x]) ! j) \<le> key ((xs @ [x]) ! parent j)"
      using assms j by (simp add: nth_append heap_def)
  next
    fix j assume "0 < j \<and> j < length (xs @ [x]) \<and> parent j = length xs \<and> 0 < length xs"
    then show "key ((xs @ [x]) ! j) \<le> key ((xs @ [x]) ! parent (length xs))" using parent_less[of j] by auto
  qed
  from sift_up_heap[OF this] show ?thesis by (simp add: push_heap_def)
qed

section \<open>Sifting down\<close>

text \<open>A heap but for the element at \<open>i\<close>, which may be below its children; they are below its parent.\<close>

definition heap_down :: "('a \<Rightarrow> int) \<Rightarrow> 'a list \<Rightarrow> nat \<Rightarrow> bool" where
  "heap_down key xs i \<longleftrightarrow> (\<forall>j. 0 < j \<and> j < length xs \<and> parent j \<noteq> i \<longrightarrow> key (xs ! j) \<le> key (xs ! parent j)) \<and>
     (\<forall>j. 0 < j \<and> j < length xs \<and> parent j = i \<and> 0 < i \<longrightarrow> key (xs ! j) \<le> key (xs ! parent i))"

definition larger_child :: "('a \<Rightarrow> int) \<Rightarrow> 'a list \<Rightarrow> nat \<Rightarrow> nat" where
  "larger_child key xs i =
     (if 2 * i + 2 < length xs \<and> key (xs ! (2 * i + 1)) < key (xs ! (2 * i + 2)) then 2 * i + 2 else 2 * i + 1)"

lemma larger_child:
  assumes "2 * i + 1 < length xs"
  shows "larger_child key xs i < length xs" "parent (larger_child key xs i) = i" "i < larger_child key xs i"
    "\<And>j. 0 < j \<Longrightarrow> j < length xs \<Longrightarrow> parent j = i \<Longrightarrow> key (xs ! j) \<le> key (xs ! larger_child key xs i)"
  using assms by (auto simp: larger_child_def parent_children)

lemma heap_down_swap:
  assumes h: "heap_down key xs i" and lt: "2 * i + 1 < length xs" and less: "key (xs ! i) < key (xs ! larger_child key xs i)"
  shows "heap_down key (swap xs i (larger_child key xs i)) (larger_child key xs i)"
proof -
  let ?c = "larger_child key xs i"
  let ?ys = "swap xs i ?c"
  note c = larger_child[OF lt, where key = key]
  have nth: "?ys ! k = (if k = ?c then xs ! i else if k = i then xs ! ?c else xs ! k)" if "k < length xs" for k
    using nth_swap[of i xs ?c k] that c lt by simp
  have up: "key (xs ! j) \<le> key (xs ! parent j)" if "0 < j" "j < length xs" "parent j \<noteq> i" for j
    using h that by (simp add: heap_down_def)
  have above: "key (xs ! j) \<le> key (xs ! parent i)" if "0 < j" "j < length xs" "parent j = i" "0 < i" for j
    using h that by (simp add: heap_down_def)
  show ?thesis
    unfolding heap_down_def
  proof (intro conjI allI impI)
    fix j assume "0 < j \<and> j < length ?ys \<and> parent j \<noteq> ?c"
    then have j: "0 < j" "j < length xs" "parent j \<noteq> ?c" by auto
    have pj: "parent j < length xs" using parent_less[OF j(1)] j(2) by simp
    consider "j = ?c" | "j \<noteq> ?c" "parent j = i" | "j \<noteq> ?c" "parent j \<noteq> i" "j = i" | "j \<noteq> ?c" "parent j \<noteq> i" "j \<noteq> i" by blast
    then show "key (?ys ! j) \<le> key (?ys ! parent j)"
    proof cases
      case 1 then show ?thesis using nth[of ?c] nth[of i] c lt less by simp
    next
      case 2
      moreover have "j \<noteq> i" using 2 parent_less[OF j(1)] by auto
      ultimately show ?thesis using nth[of j] nth[of i] j c lt by simp
    next
      case 3
      then show ?thesis using nth[of i] nth[of "parent i"] j pj c above[of ?c] parent_less[OF j(1)] by simp
    next
      case 4 then show ?thesis using nth[of j] nth[of "parent j"] j pj up[of j] by simp
    qed
  next
    fix j assume "0 < j \<and> j < length ?ys \<and> parent j = ?c \<and> 0 < ?c"
    then have j: "0 < j" "j < length xs" "parent j = ?c" by auto
    moreover have "j \<noteq> ?c" "j \<noteq> i" "?c \<noteq> i" using parent_less[OF j(1)] j(3) c(3) by auto
    ultimately show "key (?ys ! j) \<le> key (?ys ! parent ?c)"
      using nth[of j] nth[of i] c up[of j] lt by simp
  qed
qed

lemma sift_down_heap:
  assumes "heap_down key xs i"
  shows "heap key (sift_down key xs i) \<and> mset (sift_down key xs i) = mset xs"
  using assms
proof (induction key xs i rule: sift_down.induct)
  case (1 key xs i)
  let ?c = "larger_child key xs i"
  show ?case
  proof (cases "2 * i + 1 < length xs")
    case lt: True
    note c = larger_child[OF lt, where key = key]
    show ?thesis
    proof (cases "key (xs ! i) < key (xs ! ?c)")
      case True
      then have eq: "sift_down key xs i = sift_down key (swap xs i ?c) ?c"
        using lt by (subst sift_down.simps) (simp add: larger_child_def Let_def)
      have "heap_down key (swap xs i ?c) ?c" by (rule heap_down_swap[OF 1(2) lt True])
      from 1(1)[OF lt larger_child_def True this] eq show ?thesis
        using mset_swap_pos[of i xs ?c] c lt by simp
    next
      case False
      then have "sift_down key xs i = xs"
        using lt by (subst sift_down.simps) (simp add: larger_child_def Let_def)
      moreover have "key (xs ! j) \<le> key (xs ! parent j)" if "0 < j" "j < length xs" for j
        using 1(2) that c(4)[of j] False by (cases "parent j = i") (auto simp: heap_down_def)
      ultimately show ?thesis by (simp add: heap_def)
    qed
  next
    case False
    then have "sift_down key xs i = xs" by (subst sift_down.simps) simp
    moreover have "parent j \<noteq> i" if "0 < j" "j < length xs" for j
      using False that parent_children[of j i] by auto
    ultimately show ?thesis using 1(2) by (simp add: heap_def heap_down_def)
  qed
qed

lemma pop_heap_law:
  assumes "heap key xs" "xs \<noteq> []"
  shows "heap key (butlast (pop_heap key xs))" "last (pop_heap key xs) = hd xs" "mset (pop_heap key xs) = mset xs"
proof -
  let ?n = "length xs - 1" and ?ys = "butlast (swap xs 0 (length xs - 1))"
  have n: "?n < length xs" "0 < length xs" using assms(2) by auto
  have nth: "?ys ! k = (if k = 0 then xs ! ?n else xs ! k)" if "k < ?n" for k
    using nth_swap[of 0 xs ?n k] that n by (auto simp: nth_butlast)
  have "heap_down key ?ys 0"
    unfolding heap_down_def
  proof (intro conjI allI impI)
    fix j assume "0 < j \<and> j < length ?ys \<and> parent j \<noteq> 0"
    then have j: "0 < j" "j < ?n" "parent j \<noteq> 0" by auto
    then have "parent j < ?n" using parent_less[of j] by simp
    then show "key (?ys ! j) \<le> key (?ys ! parent j)" using nth j assms(1) by (simp add: heap_def)
  qed simp
  note d = sift_down_heap[OF this]
  have sw: "swap xs 0 ?n = ?ys @ [hd xs]"
    using n assms(2) append_butlast_last_id[of "swap xs 0 ?n"] nth_swap[of 0 xs ?n ?n]
    by (auto simp: last_conv_nth hd_conv_nth swap_def)
  have "mset (swap xs 0 ?n) = mset xs" using n by (simp add: mset_swap_pos)
  then have m: "add_mset (hd xs) (mset ?ys) = mset xs" by (subst (asm) sw) simp
  have p: "pop_heap key xs = sift_down key ?ys 0 @ [hd xs]" using assms(2) by (simp add: pop_heap_def)
  show "heap key (butlast (pop_heap key xs))" "last (pop_heap key xs) = hd xs" "mset (pop_heap key xs) = mset xs"
    using d m by (simp_all add: p)
qed

lemma heap_top:
  assumes "heap key xs" "i < length xs"
  shows "key (xs ! i) \<le> key (xs ! 0)"
  using assms(2)
proof (induction i rule: less_induct)
  case (less i)
  show ?case
  proof (cases "i = 0")
    case False
    then have "key (xs ! i) \<le> key (xs ! parent i)" "parent i < i"
      using assms(1) less.prems by (auto simp: heap_def parent_less)
    then show ?thesis using less.IH[of "parent i"] less.prems by simp
  qed simp
qed

lemma heap_cong:
  assumes "length xs = length ys" "\<And>i. i < length xs \<Longrightarrow> key (xs ! i) = key (ys ! i)" "heap key xs"
  shows "heap key ys"
  unfolding heap_def
proof (intro allI impI)
  fix i assume i: "0 < i \<and> i < length ys"
  then have "parent i < length ys" using parent_less[of i] by simp
  then show "key (ys ! i) \<le> key (ys ! parent i)" using assms i by (metis heap_def)
qed

section \<open>What the standard library promises\<close>

text \<open>The contract of the heap functions, and what the order book derives from it: the front is a
  maximal element, replacing it by an element of the same key keeps the heap, and dropping the
  last element after \<open>pop\<close> removes exactly the front.\<close>

locale std_heap =
  fixes is_heap :: "('a \<Rightarrow> int) \<Rightarrow> 'a list \<Rightarrow> bool"
    and push :: "('a \<Rightarrow> int) \<Rightarrow> 'a list \<Rightarrow> 'a list"
    and pop :: "('a \<Rightarrow> int) \<Rightarrow> 'a list \<Rightarrow> 'a list"
  assumes is_heap_Nil: "is_heap key []"
    and is_heap_top: "is_heap key xs \<Longrightarrow> x \<in> set xs \<Longrightarrow> key x \<le> key (hd xs)"
    and is_heap_front: "is_heap key (x # xs) \<Longrightarrow> key y = key x \<Longrightarrow> is_heap key (y # xs)"
    and push_heap: "is_heap key xs \<Longrightarrow> is_heap key (push key (xs @ [x]))"
    and push_mset: "is_heap key xs \<Longrightarrow> mset (push key (xs @ [x])) = add_mset x (mset xs)"
    and pop_heap: "is_heap key xs \<Longrightarrow> xs \<noteq> [] \<Longrightarrow> is_heap key (butlast (pop key xs))"
    and pop_last: "is_heap key xs \<Longrightarrow> xs \<noteq> [] \<Longrightarrow> last (pop key xs) = hd xs"
    and pop_mset: "is_heap key xs \<Longrightarrow> xs \<noteq> [] \<Longrightarrow> mset (pop key xs) = mset xs"
begin

lemma push_set: "is_heap key xs \<Longrightarrow> set (push key (xs @ [x])) = insert x (set xs)"
  by (metis push_mset set_mset_add_mset_insert set_mset_mset)

lemma push_length: "is_heap key xs \<Longrightarrow> length (push key (xs @ [x])) = Suc (length xs)"
  by (metis push_mset size_add_mset size_mset)

lemma removed_mset:
  assumes "is_heap key (x # xs)"
  shows "mset (butlast (pop key (x # xs))) = mset xs"
proof -
  have "pop key (x # xs) \<noteq> []" using pop_mset[OF assms] by (metis list.distinct(1) mset_zero_iff)
  then have "mset (pop key (x # xs)) = add_mset (last (pop key (x # xs))) (mset (butlast (pop key (x # xs))))"
    by (metis append_butlast_last_id mset.simps(2) mset_append union_mset_add_mset_right empty_neutral(2) mset.simps(1))
  then show ?thesis using pop_last[OF assms] pop_mset[OF assms] by simp
qed

lemma removed_set: "is_heap key (x # xs) \<Longrightarrow> set (butlast (pop key (x # xs))) = set xs"
  by (metis removed_mset set_mset_mset)

lemma removed_length: "is_heap key (x # xs) \<Longrightarrow> length (butlast (pop key (x # xs))) = length xs"
  by (metis removed_mset size_mset)

lemma removed_heap: "is_heap key (x # xs) \<Longrightarrow> is_heap key (butlast (pop key (x # xs)))"
  by (simp add: pop_heap)

end

interpretation sift: std_heap heap push_heap pop_heap
proof
  fix key :: "'a \<Rightarrow> int" and xs :: "'a list" and x y
  show "heap key []" by (simp add: heap_def)
  show "heap key xs \<Longrightarrow> x \<in> set xs \<Longrightarrow> key x \<le> key (hd xs)"
    by (metis heap_top hd_conv_nth in_set_conv_nth length_greater_0_conv length_pos_if_in_set)
  show "heap key (x # xs) \<Longrightarrow> key y = key x \<Longrightarrow> heap key (y # xs)"
    by (rule heap_cong[of "x # xs" "y # xs"]) (auto simp: nth_Cons split: nat.splits)
qed (simp_all add: push_heap_law pop_heap_law)

end
