(* ===== verification/Flat_Order_Book.thy ===== *)
theory Flat_Order_Book
  imports Domain_Types Heap_Array
begin

text \<open>
  The alternative book of \<^verbatim>\<open>server/src/execution/orderbook/flat_order_book.hpp\<close>: two arrays of orders
  kept as heaps by price. A side is the list of its first \<^verbatim>\<open>bidCount_\<close> or \<^verbatim>\<open>askCount_\<close> elements (the
  rest of the array is never read), so the count is the length of the list. A comparator
  is the order of the keys \<open>bid_key\<close> and \<open>ask_key\<close>. The heap functions are those of
  theory \<open>Heap_Array\<close>, of which the proofs use the contract \<open>std_heap\<close> only.
\<close>

section \<open>The book\<close>

record FlatOrderBook =
  fb_bids :: "InternalOrder list"
  fb_asks :: "InternalOrder list"

definition empty_flat :: FlatOrderBook where
  "empty_flat = \<lparr>fb_bids = [], fb_asks = []\<rparr>"

definition compareBids :: "InternalOrder \<Rightarrow> InternalOrder \<Rightarrow> bool" where
  "compareBids left right \<longleftrightarrow> io_price left < io_price right"

definition compareAsks :: "InternalOrder \<Rightarrow> InternalOrder \<Rightarrow> bool" where
  "compareAsks left right \<longleftrightarrow> io_price left > io_price right"

definition bid_key :: "InternalOrder \<Rightarrow> int" where "bid_key x = uint (io_price x)"

definition ask_key :: "InternalOrder \<Rightarrow> int" where "ask_key x = - uint (io_price x)"

definition flat_status :: "InternalOrder \<Rightarrow> Quantity \<Rightarrow> Price \<Rightarrow> InternalOrderStatus" where
  "flat_status x matchQty matchPrice =
     \<lparr>st_id = io_id x, st_bookOId = 0, st_fillQty = matchQty, st_fillPrice = matchPrice,
      st_state = (if io_quantity x = 0 then Full else Partial)\<rparr>"

text \<open>The front \<open>x\<close> of a side after its fill: popped off the heap when nothing is left of it.\<close>

definition drop_filled :: "(InternalOrder \<Rightarrow> int) \<Rightarrow> InternalOrder \<Rightarrow> InternalOrder list \<Rightarrow> InternalOrder list" where
  "drop_filled key x xs = (if io_quantity x = 0 then butlast (pop_heap key (x # xs)) else x # xs)"

lemma length_sift_down [simp]: "length (sift_down key xs i) = length xs"
proof (induction key xs i rule: sift_down.induct)
  case (1 key xs i)
  then show ?case by (subst sift_down.simps) (auto simp: Let_def)
qed

lemma length_drop_filled [simp]:
  "length (drop_filled key x xs) = (if io_quantity x = 0 then length xs else Suc (length xs))"
  by (simp add: drop_filled_def pop_heap_def)

lemma partialFill_simps [simp]:
  "io_id (partialFill q x) = io_id x" "io_price (partialFill q x) = io_price x"
  "io_quantity (partialFill q x) = (if io_quantity x < q then 0 else io_quantity x - q)"
  by (simp_all add: partialFill_def)

function flat_match :: "SystemOrderId \<Rightarrow> FlatOrderBook \<Rightarrow> FlatOrderBook \<times> InternalOrderStatus list" where
  "flat_match oid fb =
     (case (fb_bids fb, fb_asks fb) of
        (bestBid # bs, bestAsk # as) \<Rightarrow>
          if io_price bestBid < io_price bestAsk then (fb, [])
          else
            let matchQty = min (io_quantity bestBid) (io_quantity bestAsk);
                matchPrice = io_price bestAsk;
                bestBid = partialFill matchQty bestBid;
                bestAsk = partialFill matchQty bestAsk;
                ms = (if oid = io_id bestBid then [flat_status bestBid matchQty matchPrice] else []) @
                     (if oid = io_id bestAsk then [flat_status bestAsk matchQty matchPrice] else []);
                (fb', ms') = flat_match oid
                  \<lparr>fb_bids = drop_filled bid_key bestBid bs, fb_asks = drop_filled ask_key bestAsk as\<rparr>
            in (fb', ms @ ms')
      | _ \<Rightarrow> (fb, []))"
  by pat_completeness auto
termination
  by (relation "measure (\<lambda>(oid, fb). length (fb_bids fb) + length (fb_asks fb))")
    (auto simp: min_def not_less dest!: arg_cong[where f = length])

declare flat_match.simps [simp del]

definition flat_add :: "InternalOrderEvent \<Rightarrow> FlatOrderBook \<Rightarrow> bool \<times> FlatOrderBook \<times> InternalOrderStatus list" where
  "flat_add ioe fb =
     (let ord = ioe_order ioe; buy = (ioe_action ioe = Buy);
          count = (of_nat (length (if buy then fb_bids fb else fb_asks fb)) :: u32)
      in if count \<ge> MAX_BOOK_ORDERS then
           (False, fb, [\<lparr>st_id = io_id ord, st_bookOId = 0, st_fillQty = 0, st_fillPrice = 0, st_state = Rejected\<rparr>])
         else
           let fb = (if buy then fb\<lparr>fb_bids := push_heap bid_key (fb_bids fb @ [ord])\<rparr>
                     else fb\<lparr>fb_asks := push_heap ask_key (fb_asks fb @ [ord])\<rparr>);
               (fb, ms) = flat_match (io_id ord) fb
           in (True, fb, ms))"

definition flat_sendAck :: "InternalOrderEvent \<Rightarrow> InternalOrderStatus" where
  "flat_sendAck ioe =
     \<lparr>st_id = io_id (ioe_order ioe), st_bookOId = 0, st_fillQty = 0, st_fillPrice = 0, st_state = Accepted\<rparr>"

definition flat_clear :: "FlatOrderBook \<Rightarrow> FlatOrderBook" where
  "flat_clear fb = \<lparr>fb_bids = [], fb_asks = []\<rparr>"

section \<open>Invariant and volumes\<close>

lemma key_comparators: "compareBids l r \<longleftrightarrow> bid_key l < bid_key r" "compareAsks l r \<longleftrightarrow> ask_key l < ask_key r"
  by (simp_all add: compareBids_def compareAsks_def bid_key_def ask_key_def word_less_def)

lemma key_partialFill [simp]: "bid_key (partialFill q x) = bid_key x" "ask_key (partialFill q x) = ask_key x"
  by (simp_all add: bid_key_def ask_key_def)

definition flatInv :: "FlatOrderBook \<Rightarrow> bool" where
  "flatInv fb \<longleftrightarrow> heap bid_key (fb_bids fb) \<and> heap ask_key (fb_asks fb) \<and>
     length (fb_bids fb) \<le> unat MAX_BOOK_ORDERS \<and> length (fb_asks fb) \<le> unat MAX_BOOK_ORDERS \<and>
     (\<forall>x\<in>set (fb_bids fb). \<forall>y\<in>set (fb_asks fb). io_price x < io_price y)"

text \<open>The quantity resting in \<open>xs\<close> under the ids of \<open>S\<close>.\<close>

definition volume_of :: "SystemOrderId set \<Rightarrow> InternalOrder list \<Rightarrow> nat" where
  "volume_of S xs = (\<Sum>x\<leftarrow>xs. if io_id x \<in> S then unat (io_quantity x) else 0)"

lemma volume_of_Cons [simp]:
  "volume_of S [] = 0"
  "volume_of S (x # xs) = (if io_id x \<in> S then unat (io_quantity x) else 0) + volume_of S xs"
  by (simp_all add: volume_of_def)

lemma volume_of_mset: "mset xs = mset ys \<Longrightarrow> volume_of S xs = volume_of S ys"
  by (simp add: volume_of_def mset_map flip: sum_mset_sum_list)

lemma volume_of_fresh: "(\<And>x. x \<in> set xs \<Longrightarrow> io_id x \<notin> S) \<Longrightarrow> volume_of S xs = 0"
  by (induction xs) auto

lemma push_volume: "heap key xs \<Longrightarrow> volume_of S (push_heap key (xs @ [x])) = volume_of S (x # xs)"
  by (rule volume_of_mset) (simp add: sift.push_mset)

text \<open>The front of a heap is filled: the heap stays, the side loses exactly the fill, and every order left has
  the id and the price of one that was there.\<close>

lemma drop_filled_law:
  assumes h: "heap key (x # xs)" and k: "key (partialFill q x) = key x" and q: "q \<le> io_quantity x"
  defines "ys \<equiv> drop_filled key (partialFill q x) xs"
  shows "heap key ys"
    "volume_of S ys + (if io_id x \<in> S then unat q else 0) = volume_of S (x # xs)"
    "length ys \<le> Suc (length xs)"
    "\<And>y. y \<in> set ys \<Longrightarrow> \<exists>z\<in>set (x # xs). io_id y = io_id z \<and> io_price y = io_price z"
proof -
  let ?x = "partialFill q x"
  have h': "heap key (?x # xs)" by (rule sift.is_heap_front[OF h k])
  have qx: "unat (io_quantity ?x) + unat q = unat (io_quantity x)"
    using q by (simp add: unat_sub word_le_nat_alt word_less_nat_alt)
  show "heap key ys" using h' sift.removed_heap[OF h'] by (simp add: ys_def drop_filled_def)
  have "volume_of S ys = volume_of S (?x # xs)"
    using volume_of_mset[OF sift.removed_mset[OF h']] by (simp add: ys_def drop_filled_def)
  then show "volume_of S ys + (if io_id x \<in> S then unat q else 0) = volume_of S (x # xs)"
    using qx by simp
  show "length ys \<le> Suc (length xs)" by (simp add: ys_def)
  show "\<exists>z\<in>set (x # xs). io_id y = io_id z \<and> io_price y = io_price z" if "y \<in> set ys" for y
  proof -
    have "set ys \<subseteq> set (?x # xs)" using sift.removed_set[OF h'] by (auto simp: ys_def drop_filled_def)
    with that show ?thesis by auto
  qed
qed

section \<open>Matching\<close>

text \<open>What the loop keeps: both heaps, and every crossing pair consists of the incoming order and one other.\<close>

definition matching :: "SystemOrderId \<Rightarrow> FlatOrderBook \<Rightarrow> bool" where
  "matching oid fb \<longleftrightarrow> heap bid_key (fb_bids fb) \<and> heap ask_key (fb_asks fb) \<and>
     length (fb_bids fb) \<le> unat MAX_BOOK_ORDERS \<and> length (fb_asks fb) \<le> unat MAX_BOOK_ORDERS \<and>
     (\<forall>x\<in>set (fb_bids fb). \<forall>y\<in>set (fb_asks fb).
        io_price x < io_price y \<or> (io_id x = oid) \<noteq> (io_id y = oid))"

definition fills :: "InternalOrderStatus list \<Rightarrow> nat" where
  "fills ms = (\<Sum>m\<leftarrow>ms. unat (st_fillQty m))"

lemma fills_simps [simp]: "fills [] = 0" "fills (ms @ ms') = fills ms + fills ms'" "fills [flat_status x q p] = unat q"
  by (simp_all add: fills_def flat_status_def)

lemma uncrossed_tops:
  assumes "heap bid_key (b # bs)" "heap ask_key (a # as)" "io_price b < io_price a" "x \<in> set (b # bs)" "y \<in> set (a # as)"
  shows "io_price x < io_price y"
proof -
  have "io_price x \<le> io_price b" using sift.is_heap_top[OF assms(1,4)] by (simp add: bid_key_def word_le_def)
  moreover have "io_price a \<le> io_price y" using sift.is_heap_top[OF assms(2,5)] by (simp add: ask_key_def word_le_def)
  ultimately show ?thesis using assms(3) by (meson order_le_less_trans order_less_le_trans)
qed

text \<open>One round on the crossing fronts \<open>b\<close> and \<open>a\<close>.\<close>

definition flat_round :: "InternalOrder \<Rightarrow> InternalOrder list \<Rightarrow> InternalOrder \<Rightarrow> InternalOrder list \<Rightarrow> FlatOrderBook" where
  "flat_round b bs a as =
     (let q = min (io_quantity b) (io_quantity a)
      in \<lparr>fb_bids = drop_filled bid_key (partialFill q b) bs, fb_asks = drop_filled ask_key (partialFill q a) as\<rparr>)"

definition flat_reports :: "SystemOrderId \<Rightarrow> InternalOrder \<Rightarrow> InternalOrder \<Rightarrow> InternalOrderStatus list" where
  "flat_reports oid b a =
     (let q = min (io_quantity b) (io_quantity a)
      in (if oid = io_id b then [flat_status (partialFill q b) q (io_price a)] else []) @
         (if oid = io_id a then [flat_status (partialFill q a) q (io_price a)] else []))"

lemma flat_match_cases:
  "fb_bids fb = [] \<or> fb_asks fb = [] \<Longrightarrow> flat_match oid fb = (fb, [])"
  "fb_bids fb = b # bs \<Longrightarrow> fb_asks fb = a # as \<Longrightarrow> io_price b < io_price a \<Longrightarrow> flat_match oid fb = (fb, [])"
  "fb_bids fb = b # bs \<Longrightarrow> fb_asks fb = a # as \<Longrightarrow> \<not> io_price b < io_price a \<Longrightarrow> flat_match oid (flat_round b bs a as) = (fb', ms) \<Longrightarrow>
     flat_match oid fb = (fb', flat_reports oid b a @ ms)"
  by (auto simp: flat_match.simps[of oid fb] flat_round_def flat_reports_def Let_def split: list.splits)

lemma flat_round_law:
  assumes m: "matching oid fb" and eq: "fb_bids fb = b # bs" "fb_asks fb = a # as" and cross: "\<not> io_price b < io_price a"
  shows "matching oid (flat_round b bs a as)" "fills (flat_reports oid b a) = unat (min (io_quantity b) (io_quantity a))"
    "volume_of UNIV (fb_bids (flat_round b bs a as)) + fills (flat_reports oid b a) = volume_of UNIV (b # bs)"
    "volume_of UNIV (fb_asks (flat_round b bs a as)) + fills (flat_reports oid b a) = volume_of UNIV (a # as)"
    "volume_of {oid} (fb_bids (flat_round b bs a as)) + volume_of {oid} (fb_asks (flat_round b bs a as)) + fills (flat_reports oid b a) =
      volume_of {oid} (b # bs) + volume_of {oid} (a # as)"
    "\<And>x. x \<in> set (fb_bids (flat_round b bs a as)) \<Longrightarrow> \<exists>y\<in>set (b # bs). io_id x = io_id y \<and> io_price x = io_price y"
    "\<And>x. x \<in> set (fb_asks (flat_round b bs a as)) \<Longrightarrow> \<exists>y\<in>set (a # as). io_id x = io_id y \<and> io_price x = io_price y"
proof -
  let ?q = "min (io_quantity b) (io_quantity a)" and ?r = "flat_round b bs a as"
  have h: "heap bid_key (b # bs)" "heap ask_key (a # as)" using m eq by (auto simp: matching_def)
  have r: "fb_bids ?r = drop_filled bid_key (partialFill ?q b) bs" "fb_asks ?r = drop_filled ask_key (partialFill ?q a) as"
    by (simp_all add: flat_round_def Let_def)
  note B = drop_filled_law[OF h(1), of ?q, simplified, folded r] and A = drop_filled_law[OF h(2), of ?q, simplified, folded r]
  have own: "(io_id b = oid) \<noteq> (io_id a = oid)" using m eq cross by (auto simp: matching_def)
  then show f: "fills (flat_reports oid b a) = unat ?q" by (auto simp: flat_reports_def Let_def)
  show "volume_of UNIV (fb_bids ?r) + fills (flat_reports oid b a) = volume_of UNIV (b # bs)"
    "volume_of UNIV (fb_asks ?r) + fills (flat_reports oid b a) = volume_of UNIV (a # as)"
    using B(2)[of UNIV] A(2)[of UNIV] by (simp_all add: f)
  show "volume_of {oid} (fb_bids ?r) + volume_of {oid} (fb_asks ?r) + fills (flat_reports oid b a) =
      volume_of {oid} (b # bs) + volume_of {oid} (a # as)"
    using B(2)[of "{oid}"] A(2)[of "{oid}"] own unfolding f by (cases "io_id b = oid") simp_all
  show bids: "\<exists>y\<in>set (b # bs). io_id x = io_id y \<and> io_price x = io_price y" if "x \<in> set (fb_bids ?r)" for x
    using B(4)[OF that] by simp
  show asks: "\<exists>y\<in>set (a # as). io_id x = io_id y \<and> io_price x = io_price y" if "x \<in> set (fb_asks ?r)" for x
    using A(4)[OF that] by simp
  have "io_price x < io_price y \<or> (io_id x = oid) \<noteq> (io_id y = oid)" if "x \<in> set (fb_bids ?r)" "y \<in> set (fb_asks ?r)" for x y
    using bids[OF that(1)] asks[OF that(2)] m unfolding eq matching_def by metis
  moreover have "length (fb_bids ?r) \<le> Suc (length bs)" "length (fb_asks ?r) \<le> Suc (length as)" by (simp_all add: r)
  ultimately show "matching oid ?r" using B(1) A(1) m eq by (auto simp: matching_def)
qed

text \<open>Matching ends uncrossed; both sides lose the same quantity, which is the sum of the fills reported for
  the incoming order; that order keeps what was not filled; each fill is at the price of an ask that the
  incoming order crosses or is.\<close>

definition fair_fill :: "SystemOrderId \<Rightarrow> FlatOrderBook \<Rightarrow> InternalOrderStatus \<Rightarrow> bool" where
  "fair_fill oid fb m \<longleftrightarrow> st_id m = oid \<and> (\<exists>a\<in>set (fb_asks fb). \<exists>b\<in>set (fb_bids fb). (io_id a = oid \<or> io_id b = oid) \<and>
     st_fillPrice m = io_price a \<and> io_price a \<le> io_price b)"

lemma flat_match_law:
  assumes "matching oid fb" "flat_match oid fb = (fb', ms)"
  shows "flatInv fb' \<and>
    volume_of UNIV (fb_bids fb') + fills ms = volume_of UNIV (fb_bids fb) \<and>
    volume_of UNIV (fb_asks fb') + fills ms = volume_of UNIV (fb_asks fb) \<and>
    volume_of {oid} (fb_bids fb') + volume_of {oid} (fb_asks fb') + fills ms =
      volume_of {oid} (fb_bids fb) + volume_of {oid} (fb_asks fb) \<and> (\<forall>m\<in>set ms. fair_fill oid fb m)"
  using assms
proof (induction "length (fb_bids fb) + length (fb_asks fb)" arbitrary: fb fb' ms rule: less_induct)
  case less
  consider "fb_bids fb = [] \<or> fb_asks fb = []" | b bs a as where "fb_bids fb = b # bs" "fb_asks fb = a # as"
    by (meson neq_Nil_conv)
  then show ?case
  proof cases
    case 1
    then have "fb' = fb" "ms = []" using less.prems(2) flat_match_cases(1)[of fb oid] by auto
    with 1 show ?thesis using less.prems(1) by (auto simp: flatInv_def matching_def)
  next
    case 2
    note eq = 2
    show ?thesis
    proof (cases "io_price b < io_price a")
      case True
      have h: "heap bid_key (b # bs)" "heap ask_key (a # as)" using less.prems(1) eq by (auto simp: matching_def)
      have "fb' = fb" "ms = []" using less.prems(2) flat_match_cases(2)[OF eq True, of oid] by auto
      then show ?thesis using less.prems(1) eq uncrossed_tops[OF h True] by (auto simp: flatInv_def matching_def)
    next
      case False
      note law = flat_round_law[OF less.prems(1) eq False]
      obtain fb2 ms2 where r: "flat_match oid (flat_round b bs a as) = (fb2, ms2)" by fastforce
      have out: "fb' = fb2" "ms = flat_reports oid b a @ ms2" using less.prems(2) flat_match_cases(3)[OF eq False r] by auto
      have "length (fb_bids (flat_round b bs a as)) + length (fb_asks (flat_round b bs a as)) < length (fb_bids fb) + length (fb_asks fb)"
        by (auto simp: eq flat_round_def Let_def min_def not_less)
      note IH = less.hyps[OF this law(1) r]
      have "fair_fill oid fb m" if "m \<in> set (flat_reports oid b a)" for m
        using that False eq by (auto simp: fair_fill_def flat_reports_def flat_status_def Let_def split: if_splits)
      moreover have "fair_fill oid fb m" if "fair_fill oid (flat_round b bs a as) m" for m
        using that law(6,7) unfolding fair_fill_def eq by metis
      ultimately show ?thesis using IH law(3-5) unfolding out eq by auto
    qed
  qed
qed

section \<open>Adding an order\<close>

definition flat_own :: "OrderAction \<Rightarrow> FlatOrderBook \<Rightarrow> InternalOrder list" where
  "flat_own act fb = (if act = Buy then fb_bids fb else fb_asks fb)"

definition flat_opposite :: "OrderAction \<Rightarrow> FlatOrderBook \<Rightarrow> InternalOrder list" where
  "flat_opposite act fb = (if act = Buy then fb_asks fb else fb_bids fb)"

lemma fresh_id:
  assumes "i \<notin> io_id ` (set (fb_bids fb) \<union> set (fb_asks fb))"
  shows "x \<in> set (fb_bids fb) \<Longrightarrow> io_id x \<noteq> i" "x \<in> set (fb_asks fb) \<Longrightarrow> io_id x \<noteq> i"
  using assms by blast+

lemma flat_push_matching:
  assumes inv: "flatInv fb" and fresh: "io_id ord \<notin> io_id ` (set (fb_bids fb) \<union> set (fb_asks fb))"
  shows "length (fb_bids fb) < unat MAX_BOOK_ORDERS \<Longrightarrow>
      matching (io_id ord) (fb\<lparr>fb_bids := push_heap bid_key (fb_bids fb @ [ord])\<rparr>)"
    and "length (fb_asks fb) < unat MAX_BOOK_ORDERS \<Longrightarrow>
      matching (io_id ord) (fb\<lparr>fb_asks := push_heap ask_key (fb_asks fb @ [ord])\<rparr>)"
  using inv fresh_id[OF fresh]
  by (auto simp: flatInv_def matching_def sift.push_set sift.push_heap sift.push_length)

lemma flat_count_full:
  assumes "flatInv fb"
  shows "length (flat_own act fb) \<le> unat MAX_BOOK_ORDERS"
    "(of_nat (length (flat_own act fb)) :: u32) \<ge> MAX_BOOK_ORDERS \<longleftrightarrow> length (flat_own act fb) = unat MAX_BOOK_ORDERS"
proof -
  show len: "length (flat_own act fb) \<le> unat MAX_BOOK_ORDERS" using assms by (simp add: flat_own_def flatInv_def)
  show "(of_nat (length (flat_own act fb)) :: u32) \<ge> MAX_BOOK_ORDERS \<longleftrightarrow> length (flat_own act fb) = unat MAX_BOOK_ORDERS"
    using len unsigned_less[of MAX_BOOK_ORDERS, where 'a = nat] by (auto simp: word_le_nat_alt unat_of_nat)
qed

text \<open>C6. The flat book: with fresh order ids, \<^verbatim>\<open>add\<close> ends, keeps both arrays heaps within their capacity and leaves the
  book uncrossed. An order for a full side is rejected and changes nothing. Otherwise the fills reported are all
  for the new order and add up to what both sides lose; the new order rests with exactly what was not filled;
  and no fill is at a price worse than its limit.\<close>

theorem flat_add_correct:
  assumes inv: "flatInv fb" and fresh: "io_id (ioe_order ioe) \<notin> io_id ` (set (fb_bids fb) \<union> set (fb_asks fb))"
    and r: "flat_add ioe fb = (ok, fb', ms)"
  shows "flatInv fb' \<and>
    (if length (flat_own (ioe_action ioe) fb) = unat MAX_BOOK_ORDERS
     then \<not> ok \<and> fb' = fb \<and> map st_state ms = [Rejected]
     else ok \<and>
       volume_of UNIV (flat_own (ioe_action ioe) fb') + fills ms =
         volume_of UNIV (flat_own (ioe_action ioe) fb) + unat (io_quantity (ioe_order ioe)) \<and>
       volume_of UNIV (flat_opposite (ioe_action ioe) fb') + fills ms = volume_of UNIV (flat_opposite (ioe_action ioe) fb) \<and>
       volume_of {io_id (ioe_order ioe)} (fb_bids fb' @ fb_asks fb') + fills ms = unat (io_quantity (ioe_order ioe)) \<and>
       (\<forall>m\<in>set ms. st_id m = io_id (ioe_order ioe) \<and>
          (if ioe_action ioe = Buy then st_fillPrice m \<le> io_price (ioe_order ioe)
           else st_fillPrice m = io_price (ioe_order ioe))))"
proof -
  let ?ord = "ioe_order ioe" and ?act = "ioe_action ioe" and ?oid = "io_id (ioe_order ioe)"
  let ?fb = "if ?act = Buy then fb\<lparr>fb_bids := push_heap bid_key (fb_bids fb @ [?ord])\<rparr>
             else fb\<lparr>fb_asks := push_heap ask_key (fb_asks fb @ [?ord])\<rparr>"
  have h: "heap bid_key (fb_bids fb)" "heap ask_key (fb_asks fb)" using inv by (simp_all add: flatInv_def)
  note full = flat_count_full[OF inv, of ?act]
  show ?thesis
  proof (cases "length (flat_own ?act fb) = unat MAX_BOOK_ORDERS")
    case True
    then show ?thesis using r inv full(2) by (auto simp: flat_add_def flat_own_def Let_def)
  next
    case False
    then have "matching ?oid ?fb" using full(1) flat_push_matching[OF inv fresh] by (auto simp: flat_own_def)
    moreover have m: "flat_match ?oid ?fb = (fb', ms)" and ok: "ok"
      using r full(2) False by (auto simp: flat_add_def flat_own_def Let_def split: prod.splits)
    ultimately have law: "flatInv fb'"
      "volume_of UNIV (fb_bids fb') + fills ms = volume_of UNIV (fb_bids ?fb)"
      "volume_of UNIV (fb_asks fb') + fills ms = volume_of UNIV (fb_asks ?fb)"
      "volume_of {?oid} (fb_bids fb') + volume_of {?oid} (fb_asks fb') + fills ms =
        volume_of {?oid} (fb_bids ?fb) + volume_of {?oid} (fb_asks ?fb)"
      "\<And>m. m \<in> set ms \<Longrightarrow> fair_fill ?oid ?fb m"
      using flat_match_law[of ?oid ?fb fb' ms] by blast+
    have fr: "volume_of {?oid} (fb_bids fb) = 0" "volume_of {?oid} (fb_asks fb) = 0"
      using fresh_id[OF fresh] by (auto intro!: volume_of_fresh)
    have own: "io_id x = ?oid \<longleftrightarrow> x = ?ord" if "x \<in> set (fb_bids ?fb) \<union> set (fb_asks ?fb)" for x
      using that fresh_id[OF fresh] h by (auto simp: sift.push_set split: if_splits)
    have price: "if ?act = Buy then st_fillPrice m \<le> io_price ?ord else st_fillPrice m = io_price ?ord" if m: "m \<in> set ms" for m
    proof -
      obtain a b where ab: "a \<in> set (fb_asks ?fb)" "b \<in> set (fb_bids ?fb)" "io_id a = ?oid \<or> io_id b = ?oid"
        "st_fillPrice m = io_price a" "io_price a \<le> io_price b" using law(5)[OF m] by (auto simp: fair_fill_def)
      have "?act = Buy \<Longrightarrow> io_id a \<noteq> ?oid" "?act \<noteq> Buy \<Longrightarrow> io_id b \<noteq> ?oid" using ab(1,2) fresh_id[OF fresh] by auto
      then show ?thesis using ab own[of a] own[of b] by auto
    qed
    have app: "volume_of {?oid} (fb_bids fb' @ fb_asks fb') = volume_of {?oid} (fb_bids fb') + volume_of {?oid} (fb_asks fb')"
      by (simp add: volume_of_def)
    show ?thesis
      using False ok law[unfolded fair_fill_def] fr price h push_volume[OF h(1)] push_volume[OF h(2)]
      by (cases "?act = Buy") (simp_all add: app flat_own_def flat_opposite_def)
  qed
qed

lemma flatInv_empty: "flatInv empty_flat"
  by (simp add: flatInv_def empty_flat_def sift.is_heap_Nil)

text \<open>A resting ask of 5 at 100 and one of 4 at 101 meet a bid of 7 at 101.\<close>

definition flat_order :: "SystemOrderId \<Rightarrow> Quantity \<Rightarrow> Price \<Rightarrow> OrderAction \<Rightarrow> InternalOrderEvent" where
  "flat_order i q p act = \<lparr>ioe_order = \<lparr>io_id = i, io_bookOId = 0, io_quantity = q, io_price = p\<rparr>, ioe_ticker = Ticker CHR ''A'' CHR ''B'' CHR ''C'' CHR ''D'', ioe_action = act\<rparr>"

definition flat_demo :: FlatOrderBook where
  "flat_demo = fst (snd (flat_add (flat_order 2 4 101 Sell) (fst (snd (flat_add (flat_order 1 5 100 Sell) empty_flat)))))"

lemma flat_demo_eq: "flat_demo = \<lparr>fb_bids = [], fb_asks = [ioe_order (flat_order 1 5 100 Sell), ioe_order (flat_order 2 4 101 Sell)]\<rparr>"
  by code_simp

lemma flat_demo_inv: "flatInv flat_demo"
proof -
  have "heap ask_key [ioe_order (flat_order 1 5 100 Sell), ioe_order (flat_order 2 4 101 Sell)]"
    by (auto simp: heap_def parent_def less_Suc_eq flat_order_def ask_key_def)
  then show ?thesis
    by (simp add: flatInv_def flat_demo_eq sift.is_heap_Nil MAX_BOOK_ORDERS_def)
qed

theorem flat_add_correct_witness:
  "case flat_add (flat_order 3 7 101 Buy) flat_demo of (ok, fb', ms) \<Rightarrow>
     ok \<and> flatInv fb' \<and> fills ms = 7 \<and> map st_fillPrice ms = [100, 101] \<and> volume_of UNIV (fb_asks fb') = 2"
proof -
  obtain ok fb' ms where r: "flat_add (flat_order 3 7 101 Buy) flat_demo = (ok, fb', ms)" by (metis prod_cases3)
  have v: "map st_fillPrice (snd (snd (flat_add (flat_order 3 7 101 Buy) flat_demo))) = [100, 101]"
    "fills (snd (snd (flat_add (flat_order 3 7 101 Buy) flat_demo))) = 7"
    by code_simp+
  have "io_id (ioe_order (flat_order 3 7 101 Buy)) \<notin> io_id ` (set (fb_bids flat_demo) \<union> set (fb_asks flat_demo))"
    by (simp add: flat_demo_eq flat_order_def)
  note added = flat_add_correct[OF flat_demo_inv this r]
  have len: "length (flat_own Buy flat_demo) \<noteq> unat MAX_BOOK_ORDERS"
    by (simp add: flat_own_def flat_demo_eq MAX_BOOK_ORDERS_def)
  have "ioe_action (flat_order 3 7 101 Buy) = Buy" by (simp add: flat_order_def)
  then show ?thesis
    using added v len by (simp add: r flat_opposite_def) (simp add: flat_demo_eq flat_order_def)
qed

end
