(* ===== verification/Network_Endpoints.thy ===== *)
theory Network_Endpoints
  imports Domain_Types
begin

text \<open>
  The endpoints that open the sockets: \<^verbatim>\<open>BoostIpcServer\<close> (\<^verbatim>\<open>server/src/ipc/boost/boost_network_server.hpp\<close>),
  \<^verbatim>\<open>BoostIpcClient\<close> (\<^verbatim>\<open>client/src/ipc/boost/boost_network_client.hpp\<close>) and the thread with an event loop of
  \<^verbatim>\<open>common/src/runner/ctx_runner.hpp\<close>. The event loop is a flag that says whether it was stopped, the
  handlers are the operations below, and what the sockets answer is a parameter of each of them:
  an error text or success. A socket is a number. The constructor's work guard keeps the loop running
  until it is stopped. Pinning the thread to a core is left out.
\<close>

section \<open>Server\<close>

datatype 'k endpoint_out = UpstreamClb 'k | DownstreamClb 'k | DatagramClb | PostInternalError InternalError

record BoostIpcServer =
  bs_stopped :: bool
  bs_running :: bool
  bs_thread :: bool
  bs_acceptUp :: bool
  bs_acceptDown :: bool

definition bs_new :: BoostIpcServer where
  "bs_new = \<lparr>bs_stopped = False, bs_running = False, bs_thread = False, bs_acceptUp = False, bs_acceptDown = False\<rparr>"

text \<open>\<^verbatim>\<open>start\<close> creates the thread; \<^verbatim>\<open>running_\<close> is set by the thread itself.\<close>

definition bs_start :: "BoostIpcServer \<Rightarrow> BoostIpcServer" where
  "bs_start s = (if bs_running s then s else s\<lparr>bs_thread := True\<rparr>)"

definition bs_threadBegin :: "BoostIpcServer \<Rightarrow> BoostIpcServer" where
  "bs_threadBegin s = s\<lparr>bs_running := True\<rparr>"

text \<open>Opening, binding and listening throws when one of the socket calls fails; otherwise the first accept is started.\<close>

definition startUpstream :: "string option \<Rightarrow> BoostIpcServer \<Rightarrow> string + BoostIpcServer" where
  "startUpstream listen s = (case listen of Some e \<Rightarrow> Inl e | None \<Rightarrow> Inr (s\<lparr>bs_acceptUp := True\<rparr>))"

definition startDownstream :: "string option \<Rightarrow> BoostIpcServer \<Rightarrow> string + BoostIpcServer" where
  "startDownstream listen s = (case listen of Some e \<Rightarrow> Inl e | None \<Rightarrow> Inr (s\<lparr>bs_acceptDown := True\<rparr>))"

definition createDatagram :: "string option \<Rightarrow> 'k endpoint_out list" where
  "createDatagram open_udp = (case open_udp of Some e \<Rightarrow> [] | None \<Rightarrow> [DatagramClb])"

text \<open>The catch block of the thread.\<close>

definition bs_threadFailed :: "string \<Rightarrow> BoostIpcServer \<Rightarrow> 'k endpoint_out list \<times> BoostIpcServer" where
  "bs_threadFailed e s = ([PostInternalError \<lparr>ie_code = SC_Error, ie_what = e\<rparr>], s\<lparr>bs_stopped := True\<rparr>)"

text \<open>The first handler of the event loop. An exception leaves the accepts started before.\<close>

definition bs_init ::
  "string option \<Rightarrow> string option \<Rightarrow> string option \<Rightarrow> BoostIpcServer \<Rightarrow> 'k endpoint_out list \<times> BoostIpcServer" where
  "bs_init up down udp s =
     (if bs_stopped s then ([], s)
      else case startUpstream up s of
             Inl e \<Rightarrow> bs_threadFailed e s
           | Inr s1 \<Rightarrow> (case startDownstream down s1 of Inl e \<Rightarrow> bs_threadFailed e s1 | Inr s2 \<Rightarrow> (createDatagram udp, s2)))"

text \<open>A completed accept: the error code, or the socket together with the result of setting its options, which throws.\<close>

datatype 'k accept_result = AcceptError | Accepted_Socket 'k "string option"

definition acceptUpstream_handler :: "'k accept_result \<Rightarrow> BoostIpcServer \<Rightarrow> 'k endpoint_out list \<times> BoostIpcServer" where
  "acceptUpstream_handler r s =
     (if bs_stopped s \<or> \<not> bs_acceptUp s then ([], s)
      else case r of
             AcceptError \<Rightarrow> ([], s\<lparr>bs_acceptUp := False\<rparr>)
           | Accepted_Socket k (Some e) \<Rightarrow> bs_threadFailed e (s\<lparr>bs_acceptUp := False\<rparr>)
           | Accepted_Socket k None \<Rightarrow> ([UpstreamClb k], s))"

definition acceptDownstream_handler :: "'k accept_result \<Rightarrow> BoostIpcServer \<Rightarrow> 'k endpoint_out list \<times> BoostIpcServer" where
  "acceptDownstream_handler r s =
     (if bs_stopped s \<or> \<not> bs_acceptDown s then ([], s)
      else case r of
             AcceptError \<Rightarrow> ([], s\<lparr>bs_acceptDown := False\<rparr>)
           | Accepted_Socket k (Some e) \<Rightarrow> bs_threadFailed e (s\<lparr>bs_acceptDown := False\<rparr>)
           | Accepted_Socket k None \<Rightarrow> ([DownstreamClb k], s))"

definition bs_stop :: "BoostIpcServer \<Rightarrow> BoostIpcServer" where
  "bs_stop s = (if bs_running s then s\<lparr>bs_running := False, bs_stopped := True, bs_thread := False\<rparr> else s)"

section \<open>Client\<close>

record BoostIpcClient =
  bc_stopped :: bool
  bc_connectUp :: bool
  bc_connectDown :: bool

definition bc_new :: BoostIpcClient where
  "bc_new = \<lparr>bc_stopped = False, bc_connectUp = False, bc_connectDown = False\<rparr>"

text \<open>\<^verbatim>\<open>createPrices\<close> and the first handler of the loop; an address that does not parse throws in \<^verbatim>\<open>asyncConnect\<close>.\<close>

definition createPrices :: "string option \<Rightarrow> 'k endpoint_out list" where
  "createPrices bind_udp = (case bind_udp of Some e \<Rightarrow> [] | None \<Rightarrow> [DatagramClb])"

definition bc_init :: "string option \<Rightarrow> string option \<Rightarrow> BoostIpcClient \<Rightarrow> 'k endpoint_out list \<times> BoostIpcClient" where
  "bc_init address udp c =
     (if bc_stopped c then ([], c)
      else case address of
             Some e \<Rightarrow> ([PostInternalError \<lparr>ie_code = SC_Error, ie_what = e\<rparr>], c\<lparr>bc_stopped := True\<rparr>)
           | None \<Rightarrow> (createPrices udp, c\<lparr>bc_connectUp := True, bc_connectDown := True\<rparr>))"

text \<open>The handler of \<^verbatim>\<open>async_connect\<close>: a failed connection is only logged.\<close>

definition bc_connected :: "bool \<Rightarrow> 'k accept_result \<Rightarrow> BoostIpcClient \<Rightarrow> 'k endpoint_out list \<times> BoostIpcClient" where
  "bc_connected up r c =
     (if bc_stopped c \<or> \<not> (if up then bc_connectUp c else bc_connectDown c) then ([], c)
      else
        let c = (if up then c\<lparr>bc_connectUp := False\<rparr> else c\<lparr>bc_connectDown := False\<rparr>)
        in case r of
             AcceptError \<Rightarrow> ([], c)
           | Accepted_Socket k (Some e) \<Rightarrow> ([PostInternalError \<lparr>ie_code = SC_Error, ie_what = e\<rparr>], c\<lparr>bc_stopped := True\<rparr>)
           | Accepted_Socket k None \<Rightarrow> ([if up then UpstreamClb k else DownstreamClb k], c))"

definition bc_stop :: "BoostIpcClient \<Rightarrow> BoostIpcClient" where
  "bc_stop c = c\<lparr>bc_stopped := True\<rparr>"

section \<open>A thread with an event loop\<close>

record CtxRunner =
  cr_stopped :: bool
  cr_running :: bool

text \<open>\<^verbatim>\<open>run\<close> reports whether a thread was created; \<^verbatim>\<open>failed\<close> is the catch block around the loop.\<close>

definition cr_run :: "CtxRunner \<Rightarrow> bool \<times> CtxRunner" where
  "cr_run r = (if cr_running r then (False, r) else (True, r\<lparr>cr_running := True\<rparr>))"

definition cr_stop :: "CtxRunner \<Rightarrow> CtxRunner" where
  "cr_stop r = r\<lparr>cr_stopped := True, cr_running := False\<rparr>"

definition cr_failed :: "string option \<Rightarrow> CtxRunner \<Rightarrow> InternalError \<times> CtxRunner" where
  "cr_failed what r =
     (\<lparr>ie_code = SC_Error, ie_what = (case what of Some e \<Rightarrow> e | None \<Rightarrow> ''unknown exception in CtxRunner'')\<rparr>, cr_stop r)"

section \<open>Accepting connections\<close>

datatype 'k server_event = EvUp "'k accept_result" | EvDown "'k accept_result" | EvStop

fun bs_event :: "'k server_event \<Rightarrow> BoostIpcServer \<Rightarrow> 'k endpoint_out list \<times> BoostIpcServer" where
  "bs_event (EvUp r) s = acceptUpstream_handler r s"
| "bs_event (EvDown r) s = acceptDownstream_handler r s"
| "bs_event EvStop s = ([], bs_stop s)"

fun bs_run :: "'k server_event list \<Rightarrow> BoostIpcServer \<Rightarrow> 'k endpoint_out list" where
  "bs_run [] s = []"
| "bs_run (ev # evs) s = (case bs_event ev s of (out, s) \<Rightarrow> out @ bs_run evs s)"

text \<open>The connections offered on one port before the first failed accept on it.\<close>

fun up_until_error :: "'k server_event list \<Rightarrow> 'k list" where
  "up_until_error [] = []"
| "up_until_error (EvUp (Accepted_Socket k _) # evs) = k # up_until_error evs"
| "up_until_error (EvUp AcceptError # evs) = []"
| "up_until_error (_ # evs) = up_until_error evs"

fun down_until_error :: "'k server_event list \<Rightarrow> 'k list" where
  "down_until_error [] = []"
| "down_until_error (EvDown (Accepted_Socket k _) # evs) = k # down_until_error evs"
| "down_until_error (EvDown AcceptError # evs) = []"
| "down_until_error (_ # evs) = down_until_error evs"

definition up_calls :: "'k endpoint_out list \<Rightarrow> 'k list" where
  "up_calls outs = concat (map (\<lambda>x. case x of UpstreamClb k \<Rightarrow> [k] | _ \<Rightarrow> []) outs)"

definition down_calls :: "'k endpoint_out list \<Rightarrow> 'k list" where
  "down_calls outs = concat (map (\<lambda>x. case x of DownstreamClb k \<Rightarrow> [k] | _ \<Rightarrow> []) outs)"

text \<open>No stop, and every accepted socket takes its options.\<close>

definition calm :: "'k server_event \<Rightarrow> bool" where
  "calm ev \<longleftrightarrow> (case ev of EvUp (Accepted_Socket _ e) \<Rightarrow> e = None | EvDown (Accepted_Socket _ e) \<Rightarrow> e = None | EvStop \<Rightarrow> False | _ \<Rightarrow> True)"

lemma calls_simps [simp]:
  "up_calls [] = []" "up_calls (xs @ ys) = up_calls xs @ up_calls ys" "up_calls (UpstreamClb k # xs) = k # up_calls xs" "up_calls (DownstreamClb k # xs) = up_calls xs"
  "down_calls [] = []" "down_calls (xs @ ys) = down_calls xs @ down_calls ys" "down_calls (DownstreamClb k # xs) = k # down_calls xs" "down_calls (UpstreamClb k # xs) = down_calls xs"
  by (simp_all add: up_calls_def down_calls_def)

lemma bs_run_calls:
  "\<not> bs_stopped s \<Longrightarrow> list_all calm evs \<Longrightarrow>
     up_calls (bs_run evs s) = (if bs_acceptUp s then up_until_error evs else []) \<and>
     down_calls (bs_run evs s) = (if bs_acceptDown s then down_until_error evs else [])"
proof (induction evs arbitrary: s)
  case (Cons ev evs)
  show ?case
  proof (cases ev)
    case (EvUp r)
    then show ?thesis using Cons by (cases r) (auto simp: calm_def acceptUpstream_handler_def split: prod.splits)
  next
    case (EvDown r)
    then show ?thesis using Cons by (cases r) (auto simp: calm_def acceptDownstream_handler_def split: prod.splits)
  next
    case EvStop
    then show ?thesis using Cons by (simp add: calm_def)
  qed
qed simp



text \<open>\<^verbatim>\<open>stop\<close> before the thread has set \<^verbatim>\<open>running_\<close> does nothing, and the server starts accepting afterwards.\<close>

lemma early_stop_ignored:
  "case bs_init None None udp (bs_threadBegin (bs_stop (bs_start bs_new))) of (out, s) \<Rightarrow> bs_acceptUp s \<and> bs_running s \<and> \<not> bs_stopped s"
  by (simp add: bs_stop_def bs_start_def bs_new_def bs_threadBegin_def bs_init_def startUpstream_def startDownstream_def)

text \<open>A stopped event loop is never restarted: after a stop, a second start accepts nothing.\<close>

lemma restart_accepts_nothing:
  assumes "bs_running s"
  shows "snd (bs_init up down udp (bs_threadBegin (bs_start (bs_stop s)))) = bs_threadBegin (bs_start (bs_stop s))"
  using assms by (simp add: bs_init_def bs_threadBegin_def bs_start_def bs_stop_def)

end
