(* ===== verification/Kafka_Adapter.thy ===== *)
theory Kafka_Adapter
  imports Domain_Types
begin

text \<open>
  \<^verbatim>\<open>KafkaAdapter\<close> of \<^verbatim>\<open>common/src/adapters/kafka/kafka_adapter.hpp\<close>. The results of the calls into the client
  library are the parameter \<open>rk\<close> (an error text or success), and may differ from call to call of the adapter.
  A producer object is a number, a topic handle the number of the producer it was created for;
  \<open>ka_made\<close> counts the producers created. \<open>ka_timer\<close> says that a wait is outstanding, whose handler is
  \<open>kafka_timer\<close>; cancelling the timer leaves the handler to run, aborted or, when it was already queued, not.
\<close>

section \<open>The client library\<close>

record RdKafka =
  rk_set :: "string \<Rightarrow> string option"
  rk_consumer :: "string option"
  rk_producer :: "string option"
  rk_subscribe :: "string list \<Rightarrow> string option"
  rk_topic :: "string \<Rightarrow> string option"

text \<open>What a call of \<^verbatim>\<open>consume\<close> returns: a payload, an error code or a time-out.\<close>

datatype kafka_msg = KM_Payload "u8 list" | KM_Error | KM_TimedOut

section \<open>The adapter\<close>

datatype KafkaStatus = KafkaError

record KafkaEvent =
  ke_status :: KafkaStatus
  ke_details :: string

definition KafkaStatus_toString :: "KafkaStatus \<Rightarrow> string" where
  "KafkaStatus_toString s = (case s of KafkaError \<Rightarrow> ''error'')"

definition KafkaEvent_toString :: "KafkaEvent \<Rightarrow> string" where
  "KafkaEvent_toString e = ''KafkaEvent '' @ KafkaStatus_toString (ke_status e) @ '' '' @ ke_details e"

record KafkaAdapter =
  ka_consumeTopics :: "string list"
  ka_produceTopics :: "string list"
  ka_producer :: "nat option"
  ka_consumer :: bool
  ka_topicMap :: "string \<rightharpoonup> nat"
  ka_timer :: bool
  ka_started :: bool
  ka_error :: string
  ka_made :: nat

definition kafka_new :: "string list \<Rightarrow> string list \<Rightarrow> KafkaAdapter" where
  "kafka_new consume produce = \<lparr>ka_consumeTopics = consume, ka_produceTopics = produce, ka_producer = None, ka_consumer = False,
     ka_topicMap = Map.empty, ka_timer = False, ka_started = False, ka_error = [], ka_made = 0\<rparr>"

definition CONSUME_CHUNK :: nat where "CONSUME_CHUNK = 100"

definition onFatalError :: "string \<Rightarrow> KafkaAdapter \<Rightarrow> KafkaEvent list \<times> KafkaAdapter" where
  "onFatalError error k =
     (let k = (if error = [] then k else k\<lparr>ka_error := error\<rparr>)
      in ([\<lparr>ke_status = KafkaError, ke_details = ka_error k\<rparr>], k))"

text \<open>A call of the library that fails stores its text in \<^verbatim>\<open>error_\<close>.\<close>

definition kafka_failed :: "string \<Rightarrow> KafkaAdapter \<Rightarrow> bool \<times> KafkaEvent list \<times> KafkaAdapter" where
  "kafka_failed e k = (case onFatalError [] (k\<lparr>ka_error := e\<rparr>) of (out, k) \<Rightarrow> (False, out, k))"

fun conf_set :: "RdKafka \<Rightarrow> string list \<Rightarrow> string option" where
  "conf_set rk [] = None"
| "conf_set rk (key # keys) = (case rk_set rk key of Some e \<Rightarrow> Some e | None \<Rightarrow> conf_set rk keys)"

definition consumer_keys :: "string list" where
  "consumer_keys = [''bootstrap.servers'', ''event_cb'', ''group.id'', ''fetch.wait.max.ms'', ''fetch.min.bytes'',
     ''session.timeout.ms'', ''heartbeat.interval.ms'']"

definition producer_keys :: "string list" where
  "producer_keys = [''bootstrap.servers'', ''dr_cb'', ''event_cb'']"

definition createConsumer :: "RdKafka \<Rightarrow> KafkaAdapter \<Rightarrow> bool \<times> KafkaEvent list \<times> KafkaAdapter" where
  "createConsumer rk k =
     (if ka_consumer k then (False, [], k)
      else case conf_set rk consumer_keys of
             Some e \<Rightarrow> kafka_failed e k
           | None \<Rightarrow> (case rk_consumer rk of Some e \<Rightarrow> kafka_failed e k | None \<Rightarrow> (True, [], k\<lparr>ka_consumer := True\<rparr>)))"

definition createProducer :: "RdKafka \<Rightarrow> KafkaAdapter \<Rightarrow> bool \<times> KafkaEvent list \<times> KafkaAdapter" where
  "createProducer rk k =
     (if ka_producer k \<noteq> None then (False, [], k)
      else case conf_set rk producer_keys of
             Some e \<Rightarrow> kafka_failed e k
           | None \<Rightarrow>
               (case rk_producer rk of
                  Some e \<Rightarrow> kafka_failed e k
                | None \<Rightarrow> (True, [], k\<lparr>ka_producer := Some (ka_made k), ka_made := ka_made k + 1\<rparr>)))"

definition startConsume :: "RdKafka \<Rightarrow> KafkaAdapter \<Rightarrow> bool \<times> KafkaEvent list \<times> KafkaAdapter" where
  "startConsume rk k =
     (if \<not> ka_consumer k then (False, [], k)
      else case rk_subscribe rk (ka_consumeTopics k) of
             Some e \<Rightarrow> (case onFatalError e k of (out, k) \<Rightarrow> (False, out, k))
           | None \<Rightarrow> (True, [], k))"

text \<open>\<^verbatim>\<open>insert\<close> keeps a handle that is already in the map.\<close>

definition topic_insert :: "string \<Rightarrow> nat \<Rightarrow> KafkaAdapter \<Rightarrow> KafkaAdapter" where
  "topic_insert t p k = (if t \<in> dom (ka_topicMap k) then k else k\<lparr>ka_topicMap := (ka_topicMap k)(t \<mapsto> p)\<rparr>)"

fun create_topics :: "RdKafka \<Rightarrow> nat \<Rightarrow> string list \<Rightarrow> KafkaAdapter \<Rightarrow> bool \<times> KafkaEvent list \<times> KafkaAdapter" where
  "create_topics rk p [] k = (True, [], k)"
| "create_topics rk p (t # ts) k =
     (case rk_topic rk t of
        Some e \<Rightarrow>
          (case onFatalError (''Failed to create topic '' @ t @ '': '' @ e) (k\<lparr>ka_error := e\<rparr>) of (out, k) \<Rightarrow> (False, out, k))
      | None \<Rightarrow> create_topics rk p ts (topic_insert t p k))"

definition startProduce :: "RdKafka \<Rightarrow> KafkaAdapter \<Rightarrow> bool \<times> KafkaEvent list \<times> KafkaAdapter" where
  "startProduce rk k =
     (case ka_producer k of None \<Rightarrow> (False, [], k) | Some p \<Rightarrow> create_topics rk p (ka_produceTopics k) k)"

definition schedulePoll :: "KafkaAdapter \<Rightarrow> KafkaAdapter" where
  "schedulePoll k = (if ka_started k then k\<lparr>ka_timer := True\<rparr> else k)"

definition kafka_reset :: "KafkaAdapter \<Rightarrow> KafkaAdapter" where
  "kafka_reset k = k\<lparr>ka_consumer := False, ka_producer := None\<rparr>"

definition kafka_start :: "RdKafka \<Rightarrow> KafkaAdapter \<Rightarrow> bool \<times> KafkaEvent list \<times> KafkaAdapter" where
  "kafka_start rk k =
     (if ka_started k then (False, [], k)
      else case createConsumer rk k of
        (False, out, k) \<Rightarrow> (False, out, k)
      | (True, out1, k) \<Rightarrow>
          (case createProducer rk k of
             (False, out, k) \<Rightarrow> (False, out1 @ out, k\<lparr>ka_consumer := False\<rparr>)
           | (True, out2, k) \<Rightarrow>
               (case startConsume rk k of
                  (False, out, k) \<Rightarrow> (False, out1 @ out2 @ out, kafka_reset k)
                | (True, out3, k) \<Rightarrow>
                    (case startProduce rk k of
                       (False, out, k) \<Rightarrow> (False, out1 @ out2 @ out3 @ out, kafka_reset k)
                     | (True, out4, k) \<Rightarrow> (True, out1 @ out2 @ out3 @ out4, schedulePoll (k\<lparr>ka_started := True\<rparr>))))))"

text \<open>The flush loop of \<^verbatim>\<open>stop\<close>: \<open>outq i\<close> is the length of the output queue after \<open>i\<close> calls of \<^verbatim>\<open>flush\<close>; \<open>None\<close> is a loop that
  never ends.\<close>

partial_function (option) flush_loop :: "(nat \<Rightarrow> nat) \<Rightarrow> nat \<Rightarrow> nat option" where
  "flush_loop outq i = (if outq i > 0 then flush_loop outq (Suc i) else Some i)"

declare flush_loop.simps [code]

definition kafka_stop :: "(nat \<Rightarrow> nat) \<Rightarrow> KafkaAdapter \<Rightarrow> KafkaAdapter option" where
  "kafka_stop outq k =
     (let k = k\<lparr>ka_started := False\<rparr>
      in case ka_producer k of
           None \<Rightarrow> Some (k\<lparr>ka_topicMap := Map.empty\<rparr>)
         | Some p \<Rightarrow> (case flush_loop outq 0 of None \<Rightarrow> None | Some n \<Rightarrow> Some (k\<lparr>ka_topicMap := Map.empty\<rparr>)))"

text \<open>\<^verbatim>\<open>produce\<close>: \<open>NullProducer\<close> is a call through the empty pointer, \<open>StaleTopic\<close> one with the handle of a producer that no
  longer exists. \<open>err\<close> is the result of the library's call.\<close>

datatype produce_result = NotConnected | NullProducer | StaleTopic | Produced "u8 list" | ProduceFailed KafkaEvent

definition kafka_produce ::
  "('e \<Rightarrow> u8 list) \<Rightarrow> string option \<Rightarrow> 'e \<Rightarrow> string \<Rightarrow> KafkaAdapter \<Rightarrow> produce_result \<times> KafkaAdapter" where
  "kafka_produce serialize err event topic k =
     (case ka_topicMap k topic of
        None \<Rightarrow> (NotConnected, k)
      | Some p \<Rightarrow>
          (case ka_producer k of
             None \<Rightarrow> (NullProducer, k)
           | Some p' \<Rightarrow>
               if p \<noteq> p' then (StaleTopic, k)
               else case err of
                      None \<Rightarrow> (Produced (serialize event), k)
                    | Some e \<Rightarrow> (case onFatalError e k of (out, k) \<Rightarrow> (ProduceFailed (hd out), k))))"

text \<open>\<^verbatim>\<open>pollConsume\<close>: \<open>msgs i\<close> is the result of the \<open>i\<close>-th \<^verbatim>\<open>consume\<close>; the payloads handed to the deserializer.\<close>

function poll_from :: "(nat \<Rightarrow> kafka_msg) \<Rightarrow> nat \<Rightarrow> bool \<Rightarrow> u8 list list" where
  "poll_from msgs i started =
     (if i < CONSUME_CHUNK \<and> started
      then (case msgs i of KM_Payload bs \<Rightarrow> bs # poll_from msgs (i + 1) started | KM_Error \<Rightarrow> [] | KM_TimedOut \<Rightarrow> [])
      else [])"
  by pat_completeness auto
termination
  by (relation "measure (\<lambda>(msgs, i, started). CONSUME_CHUNK - i)") auto

definition pollConsume :: "(nat \<Rightarrow> kafka_msg) \<Rightarrow> KafkaAdapter \<Rightarrow> u8 list list" where
  "pollConsume msgs k = poll_from msgs 0 (ka_started k)"

text \<open>The timer handler: expired, aborted by \<^verbatim>\<open>cancel\<close>, or failed. \<open>None\<close> is a poll of a producer that is not there.\<close>

datatype timer_code = TimerOk | TimerAborted | TimerError string

definition kafka_timer ::
  "(nat \<Rightarrow> kafka_msg) \<Rightarrow> timer_code \<Rightarrow> KafkaAdapter \<Rightarrow> (u8 list list \<times> KafkaEvent list \<times> KafkaAdapter) option" where
  "kafka_timer msgs code k =
     (let k = k\<lparr>ka_timer := False\<rparr>
      in case code of
           TimerAborted \<Rightarrow> Some ([], [], k)
         | TimerError e \<Rightarrow> (case onFatalError e k of (out, k) \<Rightarrow> Some ([], out, k))
         | TimerOk \<Rightarrow> if ka_producer k = None then None else Some (pollConsume msgs k, [], schedulePoll k))"

section \<open>Invariant\<close>

text \<open>Every handle belongs to the present producer, and an adapter that runs, or has a poll outstanding, has both
  clients; a running one has a handle for each of its topics.\<close>

definition kafka_inv :: "KafkaAdapter \<Rightarrow> bool" where
  "kafka_inv k \<longleftrightarrow> (ka_consumer k \<longleftrightarrow> ka_producer k \<noteq> None) \<and> (ka_started k \<or> ka_timer k \<longrightarrow> ka_consumer k) \<and>
     (\<forall>t p. ka_topicMap k t = Some p \<longrightarrow> ka_producer k = Some p) \<and>
     (ka_started k \<longrightarrow> dom (ka_topicMap k) = set (ka_produceTopics k))"

lemma create_topics_ok:
  assumes "\<And>t. rk_topic rk t = None"
  shows "create_topics rk p ts k = (True, [], k\<lparr>ka_topicMap := (\<lambda>t. if t \<in> set ts \<and> t \<notin> dom (ka_topicMap k) then Some p else ka_topicMap k t)\<rparr>)"
proof (induction ts arbitrary: k)
  case Nil then show ?case by (simp add: surjective)
next
  case (Cons t ts)
  show ?case using assms by (auto simp: Cons.IH topic_insert_def fun_eq_iff domIff intro!: KafkaAdapter.equality)
qed

lemma onFatalError_keeps:
  assumes "onFatalError e k = (out, k')"
  shows "k' = k\<lparr>ka_error := ka_error k'\<rparr>"
  using assms by (auto simp: onFatalError_def Let_def)

lemma kafka_inv_error: "kafka_inv (k\<lparr>ka_error := e\<rparr>) = kafka_inv k"
  by (simp add: kafka_inv_def)

lemma kafka_inv_start:
  assumes inv: "kafka_inv k" and ok: "\<And>t. rk_topic rk t = None" and st: "kafka_start rk k = (b, out, k')"
  shows "kafka_inv k'"
proof (cases "ka_started k \<or> ka_consumer k")
  case True
  then show ?thesis using inv st by (auto simp: kafka_start_def createConsumer_def split: if_splits)
next
  case False
  then have *: "\<not> ka_started k" "\<not> ka_consumer k" "\<not> ka_timer k" "ka_producer k = None" "ka_topicMap k = Map.empty"
    using inv by (auto simp: kafka_inv_def fun_eq_iff)
  then show ?thesis
    using st by (auto simp: kafka_start_def createConsumer_def createProducer_def startConsume_def startProduce_def kafka_failed_def
        onFatalError_def kafka_reset_def schedulePoll_def create_topics_ok[OF ok] kafka_inv_def Let_def dom_def
        split: option.splits bool.splits if_splits)
qed

text \<open>The adapter's life: starts with library results under which every topic can be created, stops that return, events
  produced, timer handlers of outstanding waits.\<close>

inductive kafka_reach :: "string list \<Rightarrow> string list \<Rightarrow> KafkaAdapter \<Rightarrow> bool" for cs ps where
  init: "kafka_reach cs ps (kafka_new cs ps)"
| start: "kafka_reach cs ps k \<Longrightarrow> \<forall>t. rk_topic rk t = None \<Longrightarrow> kafka_start rk k = (b, out, k') \<Longrightarrow> kafka_reach cs ps k'"
| stop: "kafka_reach cs ps k \<Longrightarrow> kafka_stop outq k = Some k' \<Longrightarrow> kafka_reach cs ps k'"
| produce: "kafka_reach cs ps k \<Longrightarrow> kafka_produce (\<lambda>bs. bs) err event topic k = (r, k') \<Longrightarrow> kafka_reach cs ps k'"
| timer: "kafka_reach cs ps k \<Longrightarrow> ka_timer k \<Longrightarrow> kafka_timer msgs code k = Some (bs, out, k') \<Longrightarrow> kafka_reach cs ps k'"

lemma kafka_reach_inv: "kafka_reach cs ps k \<Longrightarrow> kafka_inv k"
proof (induction rule: kafka_reach.induct)
  case init then show ?case by (simp add: kafka_inv_def kafka_new_def)
next
  case (start k rk b out k') then show ?case using kafka_inv_start[of k rk b out k'] by simp
next
  case (stop k outq k')
  then show ?case by (auto simp: kafka_stop_def kafka_inv_def Let_def split: option.splits)
next
  case (produce k err event topic r k')
  then show ?case
    by (auto simp: kafka_produce_def onFatalError_def Let_def kafka_inv_error split: option.splits if_splits prod.splits)
next
  case (timer k msgs code bs out k')
  have "kafka_inv (k\<lparr>ka_timer := x\<rparr>)" for x using timer by (auto simp: kafka_inv_def)
  then show ?case
    using timer by (cases code) (auto simp: kafka_timer_def onFatalError_def schedulePoll_def Let_def kafka_inv_error split: if_splits)
qed

section \<open>Properties\<close>

text \<open>As long as every topic can be created, no use of the adapter, in any order of starts, stops, events and timer
  handlers, goes through a missing producer or a handle of an old one: an event for one of its topics is
  produced or reported while the adapter runs and ignored when it is stopped, and a timer handler
  always returns.\<close>

theorem kafka_adapter_safe:
  assumes "kafka_reach cs ps k"
  shows "fst (kafka_produce serialize err event topic k) \<in> {NotConnected, Produced (serialize event)} \<union> range ProduceFailed \<and>
    (ka_started k \<and> topic \<in> set (ka_produceTopics k) \<longrightarrow> fst (kafka_produce serialize err event topic k) \<noteq> NotConnected) \<and>
    (ka_timer k \<longrightarrow> kafka_timer msgs code k \<noteq> None)"
proof -
  note inv = kafka_reach_inv[OF assms]
  have "ka_started k \<and> topic \<in> set (ka_produceTopics k) \<Longrightarrow> ka_topicMap k topic \<noteq> None"
    using inv by (auto simp: kafka_inv_def dom_def)
  moreover have "ka_topicMap k topic = Some p \<Longrightarrow> ka_producer k = Some p" for p using inv by (simp add: kafka_inv_def)
  moreover have "ka_timer k \<Longrightarrow> ka_producer k \<noteq> None" using inv by (auto simp: kafka_inv_def)
  ultimately show ?thesis
    by (cases code; cases "ka_topicMap k topic"; cases err)
      (auto simp: kafka_produce_def kafka_timer_def onFatalError_def Let_def)
qed

definition rk_works :: RdKafka where
  "rk_works = \<lparr>rk_set = (\<lambda>_. None), rk_consumer = None, rk_producer = None, rk_subscribe = (\<lambda>_. None), rk_topic = (\<lambda>_. None)\<rparr>"

theorem kafka_adapter_safe_witness:
  "\<exists>k. kafka_reach [''in''] [''out''] k \<and> ka_started k \<and>
     fst (kafka_produce (\<lambda>_. [1, 2]) None () ''out'' k) = Produced [1, 2]"
proof -
  define k where "k = snd (snd (kafka_start rk_works (kafka_new [''in''] [''out''])))"
  have "\<forall>t. rk_topic rk_works t = None" by (simp add: rk_works_def)
  moreover obtain b out where "kafka_start rk_works (kafka_new [''in''] [''out'']) = (b, out, k)"
    unfolding k_def by (metis prod.collapse)
  ultimately have "kafka_reach [''in''] [''out''] k" by (rule kafka_reach.start[OF kafka_reach.init])
  moreover have "ka_started k" "ka_produceTopics k = [''out'']"
    unfolding k_def by code_simp+
  moreover have "fst (kafka_produce (\<lambda>_. [1, 2]) None () ''out'' k) \<noteq> ProduceFailed x" for x
    by (auto simp: kafka_produce_def split: option.splits)
  ultimately show ?thesis
    using kafka_adapter_safe[of "[''in'']" "[''out'']" k "\<lambda>_. [1, 2]" None "()" "''out''" "\<lambda>_. KM_TimedOut" TimerOk]
    by (intro exI[of _ k]) auto
qed

section \<open>Stopping and starting again\<close>

lemma flush_loop_from: "outq (i + n) = 0 \<Longrightarrow> (\<And>j. j < n \<Longrightarrow> outq (i + j) > 0) \<Longrightarrow> flush_loop outq i = Some (i + n)"
proof (induction n arbitrary: i)
  case 0 then show ?case by (subst flush_loop.simps) simp
next
  case (Suc n)
  have "flush_loop outq (Suc i) = Some (Suc i + n)"
    by (rule Suc.IH) (use Suc.prems(1) Suc.prems(2)[of "Suc _"] in auto)
  then show ?case using Suc.prems(2)[of 0] by (subst flush_loop.simps) simp
qed

text \<open>\<^verbatim>\<open>stop\<close> returns when the output queue of the library drains at some point.\<close>

lemma kafka_stop_returns:
  assumes "\<exists>n. outq n = 0"
  shows "\<exists>k'. kafka_stop outq k = Some k' \<and> \<not> ka_started k' \<and> ka_topicMap k' = Map.empty"
proof -
  obtain n where "outq n = 0" "\<And>j. j < n \<Longrightarrow> outq j > 0" using exists_least_iff[of "\<lambda>n. outq n = 0"] assms by auto
  then have "flush_loop outq 0 = Some n" using flush_loop_from[of outq 0 n] by simp
  then show ?thesis by (simp add: kafka_stop_def Let_def split: option.splits)
qed

text \<open>\<^verbatim>\<open>stop\<close> keeps the consumer and the producer, so \<^verbatim>\<open>start\<close> never succeeds a second time.\<close>

lemma create_topics_keeps: "create_topics rk p ts k = (b, out, k') \<Longrightarrow> ka_consumer k' = ka_consumer k"
  by (induction ts arbitrary: k) (auto simp: topic_insert_def onFatalError_def Let_def split: option.splits if_splits)

lemma kafka_started_consumer:
  assumes "kafka_start rk k = (True, out, k1)"
  shows "ka_consumer k1"
  using assms
  by (auto simp: kafka_start_def createConsumer_def createProducer_def startConsume_def startProduce_def kafka_failed_def onFatalError_def
      schedulePoll_def dest!: create_topics_keeps split: if_splits option.splits prod.splits bool.splits)

lemma kafka_no_restart:
  assumes "kafka_start rk k = (True, out, k1)" "kafka_stop outq k1 = Some k2"
  shows "kafka_start rk' k2 = (False, [], k2)"
proof -
  have "ka_consumer k1" by (rule kafka_started_consumer[OF assms(1)])
  then have "ka_consumer k2 \<and> \<not> ka_started k2" using assms(2) by (auto simp: kafka_stop_def Let_def split: option.splits)
  then show ?thesis by (simp add: kafka_start_def createConsumer_def)
qed

text \<open>When a topic cannot be created, \<^verbatim>\<open>start\<close> drops the producer but keeps the handles created before: an event for such a
  topic is produced through an empty pointer, and after the next, successful start through a handle whose
  producer is gone.\<close>

lemma kafka_failed_start_dangles:
  "let rk = rk_works\<lparr>rk_topic := \<lambda>t. if t = ''b'' then Some ''no topic'' else None\<rparr>;
       (r1, _, k1) = kafka_start rk (kafka_new [] [''a'', ''b'']);
       (r2, _, k2) = kafka_start rk_works k1
   in \<not> r1 \<and> fst (kafka_produce (\<lambda>_. []) None () ''a'' k1) = NullProducer \<and>
      r2 \<and> fst (kafka_produce (\<lambda>_. []) None () ''a'' k2) = StaleTopic"
  by code_simp

end
