(* ===== verification/Market_Data.thy ===== *)
theory Market_Data
  imports Price_Level_Spec
begin

text \<open>
  Market data and routing: \<^verbatim>\<open>TickerData\<close>/\<^verbatim>\<open>MarketData\<close> (\<^verbatim>\<open>server/src/execution/market_data.hpp\<close>),
  \<^verbatim>\<open>Storage::loadMarketData\<close> (\<^verbatim>\<open>server/src/storage/storage.hpp\<close>), which spreads the tickers over the
  matching workers, and \<^verbatim>\<open>Coordinator::post\<close> and \<^verbatim>\<open>Matcher::post\<close>
  (\<^verbatim>\<open>server/src/execution/coordinator.hpp\<close>). The rows read from the database are a parameter.
\<close>

section \<open>Loading\<close>

record TickerData =
  td_workerId :: ThreadId
  td_orderBook :: PriceLevelOrderBook

type_synonym MarketData = "Ticker \<rightharpoonup> TickerData"

text \<open>\<^verbatim>\<open>emplace\<close> keeps an entry that exists.\<close>

definition md_emplace :: "Ticker \<Rightarrow> ThreadId \<Rightarrow> MarketData \<Rightarrow> MarketData" where
  "md_emplace t idx data =
     (if t \<in> dom data then data else data(t \<mapsto> \<lparr>td_workerId = idx, td_orderBook = empty_book\<rparr>))"

definition worker_count :: "CoreId list \<Rightarrow> ThreadId" where
  "worker_count coresApp = (if length coresApp = 0 then 1 else of_nat (length coresApp))"

text \<open>The inner loop: up to \<open>n\<close> tickers for worker \<open>idx\<close>.\<close>

fun load_worker :: "nat \<Rightarrow> ThreadId \<Rightarrow> TickerPrice list \<Rightarrow> MarketData \<Rightarrow> TickerPrice list \<times> MarketData" where
  "load_worker 0 idx prices data = (prices, data)"
| "load_worker (Suc n) idx [] data = ([], data)"
| "load_worker (Suc n) idx (p # ps) data = load_worker n idx ps (md_emplace (tp_ticker p) idx data)"

function load_workers ::
  "nat \<Rightarrow> nat \<Rightarrow> ThreadId \<Rightarrow> ThreadId \<Rightarrow> TickerPrice list \<Rightarrow> MarketData \<Rightarrow> TickerPrice list \<times> MarketData" where
  "load_workers perWorker leftOver workerCount idx prices data =
     (if idx < workerCount then
        (case load_worker (perWorker + (if unat idx < leftOver then 1 else 0)) idx prices data of
           (prices', data') \<Rightarrow> load_workers perWorker leftOver workerCount (idx + 1) prices' data')
      else (prices, data))"
  by pat_completeness auto
termination
  by (relation "measure (\<lambda>(_, _, wc, idx, _, _). unat wc - unat idx)")
     (auto simp: word_less_nat_alt unat_Suc_less)

declare load_workers.simps [simp del]

definition loadMarketData :: "CoreId list \<Rightarrow> StatusCode + TickerPrice list \<Rightarrow> StatusCode + MarketData" where
  "loadMarketData coresApp readTickers =
     (case readTickers of
        Inl err \<Rightarrow> Inl err
      | Inr prices \<Rightarrow>
          let workerCount = worker_count coresApp;
              perWorker = length prices div unat workerCount;
              leftOver = length prices mod unat workerCount
          in Inr (snd (load_workers perWorker leftOver workerCount 0 prices Map.empty)))"

section \<open>Routing\<close>

datatype Route = Dropped | ToWorker ThreadId InternalOrderEvent

definition coordinator_post :: "bool \<Rightarrow> MarketData \<Rightarrow> InternalOrderEvent \<Rightarrow> Route" where
  "coordinator_post stop_requested data ioe =
     (if stop_requested then Dropped
      else case data (ioe_ticker ioe) of
             None \<Rightarrow> Dropped
           | Some td \<Rightarrow> ToWorker (td_workerId td) ioe)"

text \<open>\<^verbatim>\<open>Matcher::post\<close> adds to the book of the event's ticker; \<open>None\<close> is a call that does not return.\<close>

definition matcher_post :: "InternalOrderEvent \<Rightarrow> MarketData \<Rightarrow> (MarketData \<times> BookMsg list) option" where
  "matcher_post ioe data =
     (case data (ioe_ticker ioe) of
        None \<Rightarrow> Some (data, [])
      | Some td \<Rightarrow>
          (case book_add ioe (td_orderBook td) of
             None \<Rightarrow> None
           | Some (_, b, ms) \<Rightarrow> Some (data(ioe_ticker ioe \<mapsto> td\<lparr>td_orderBook := b\<rparr>), ms)))"

text \<open>\<^verbatim>\<open>startWorkers\<close>: one worker for each application core, or one without affinity.\<close>

definition worker_cores :: "CoreId list \<Rightarrow> CoreId option list" where
  "worker_cores coresApp = (if coresApp = [] then [None] else map Some coresApp)"

section \<open>Distribution of the tickers\<close>

definition worker_share :: "nat \<Rightarrow> nat \<Rightarrow> nat \<Rightarrow> nat" where
  "worker_share perWorker leftOver i = perWorker + (if i < leftOver then 1 else 0)"

abbreviation fresh_data :: "ThreadId \<Rightarrow> TickerData" where
  "fresh_data idx \<equiv> \<lparr>td_workerId = idx, td_orderBook = empty_book\<rparr>"

lemma load_worker_spec:
  "distinct (map tp_ticker ps) \<Longrightarrow> set (map tp_ticker ps) \<inter> dom data = {} \<Longrightarrow> n \<le> length ps \<Longrightarrow>
   load_worker n idx ps data =
     (drop n ps, \<lambda>t. if t \<in> tp_ticker ` set (take n ps) then Some (fresh_data idx) else data t)"
proof (induction n idx ps data rule: load_worker.induct)
  case (3 n idx p ps data)
  let ?d = "md_emplace (tp_ticker p) idx data"
  have d: "?d = data(tp_ticker p \<mapsto> fresh_data idx)"
    using "3.prems" by (auto simp: md_emplace_def)
  have "load_worker n idx ps ?d =
      (drop n ps, \<lambda>t. if t \<in> tp_ticker ` set (take n ps) then Some (fresh_data idx) else ?d t)"
  proof (rule "3.IH")
    have "dom ?d = insert (tp_ticker p) (dom data)" by (simp add: d)
    then show "set (map tp_ticker ps) \<inter> dom ?d = {}" using "3.prems" by auto
  qed (use "3.prems" in auto)
  moreover have "(\<lambda>t. if t \<in> tp_ticker ` set (take n ps) then Some (fresh_data idx) else ?d t) =
      (\<lambda>t. if t \<in> tp_ticker ` set (take (Suc n) (p # ps)) then Some (fresh_data idx) else data t)"
    by (auto simp: d fun_eq_iff)
  ultimately show ?case by simp
qed auto

definition assigned :: "MarketData \<Rightarrow> TickerPrice list \<Rightarrow> nat \<Rightarrow> Ticker set" where
  "assigned data ps w = {t \<in> tp_ticker ` set ps. \<exists>td. data t = Some td \<and> unat (td_workerId td) = w}"

lemma card_tickers: "distinct (map tp_ticker ps) \<Longrightarrow> card (tp_ticker ` set ps) = length ps"
  by (metis distinct_card length_map set_map)

text \<open>One worker's slice of the tickers, then the rest.\<close>

lemma assigned_split:
  assumes dist: "distinct (map tp_ticker ps)"
    and here: "\<And>t. t \<in> tp_ticker ` set (take n ps) \<Longrightarrow> data t = Some (fresh_data idx)"
    and rest: "\<And>w. unat idx < w \<Longrightarrow> w < m \<Longrightarrow> card (assigned data (drop n ps) w) = share w"
    and above: "\<And>t. t \<in> tp_ticker ` set (drop n ps) \<Longrightarrow> \<exists>td. data t = Some td \<and> unat idx < unat (td_workerId td)"
    and n: "n = share (unat idx)" "n \<le> length ps" and w: "unat idx \<le> w" "w < m"
  shows "card (assigned data ps w) = share w"
proof -
  have "tp_ticker ` set ps = tp_ticker ` set (take n ps) \<union> tp_ticker ` set (drop n ps)"
    by (metis append_take_drop_id image_Un set_append)
  then have split: "assigned data ps w = assigned data (take n ps) w \<union> assigned data (drop n ps) w"
    by (auto simp: assigned_def)
  show ?thesis
  proof (cases "w = unat idx")
    case True
    have "assigned data (take n ps) w = tp_ticker ` set (take n ps)"
      using here True by (auto simp: assigned_def)
    moreover have "assigned data (drop n ps) w = {}" using above True by (fastforce simp: assigned_def)
    moreover have "card (tp_ticker ` set (take n ps)) = n"
      using dist n(2) card_tickers[of "take n ps"] by (simp add: take_map[symmetric])
    ultimately show ?thesis using split n True by simp
  next
    case False
    have "assigned data (take n ps) w = {}" using here False by (auto simp: assigned_def)
    then show ?thesis using split rest[of w] w False by simp
  qed
qed

text \<open>What the workers from \<open>idx\<close> on make of the tickers that are left.\<close>

definition loaded :: "nat \<Rightarrow> nat \<Rightarrow> ThreadId \<Rightarrow> ThreadId \<Rightarrow> TickerPrice list \<Rightarrow> MarketData \<Rightarrow> MarketData \<Rightarrow> bool" where
  "loaded pw lo wc idx ps data res \<longleftrightarrow>
     (\<forall>t. t \<notin> tp_ticker ` set ps \<longrightarrow> res t = data t) \<and>
     (\<forall>t\<in>tp_ticker ` set ps. \<exists>w. idx \<le> w \<and> w < wc \<and> res t = Some (fresh_data w)) \<and>
     (\<forall>w. unat idx \<le> w \<longrightarrow> w < unat wc \<longrightarrow> card (assigned res ps w) = worker_share pw lo w)"

lemma take_drop_tickers:
  "tp_ticker ` set ps = tp_ticker ` set (take n ps) \<union> tp_ticker ` set (drop n ps)"
  "distinct (map tp_ticker ps) \<Longrightarrow> tp_ticker ` set (take n ps) \<inter> tp_ticker ` set (drop n ps) = {}"
proof -
  show "tp_ticker ` set ps = tp_ticker ` set (take n ps) \<union> tp_ticker ` set (drop n ps)" by (metis append_take_drop_id image_Un set_append)
  show "tp_ticker ` set (take n ps) \<inter> tp_ticker ` set (drop n ps) = {}" if "distinct (map tp_ticker ps)"
    using that distinct_append[of "map tp_ticker (take n ps)" "map tp_ticker (drop n ps)"] by (simp flip: map_append)
qed

lemma loaded_step:
  assumes dist: "distinct (map tp_ticker ps)" and idx: "idx < wc" and n: "n = worker_share pw lo (unat idx)" "n \<le> length ps"
    and rest: "loaded pw lo wc (idx + 1) (drop n ps) (\<lambda>t. if t \<in> tp_ticker ` set (take n ps) then Some (fresh_data idx) else data t) res"
  shows "loaded pw lo wc idx ps data res"
proof -
  note spl = take_drop_tickers(1)[of ps n] and disj = take_drop_tickers(2)[OF dist, of n]
  have suc: "unat (idx + 1) = Suc (unat idx)" by (rule unat_Suc_less[OF idx])
  have here: "res t = Some (fresh_data idx)" if "t \<in> tp_ticker ` set (take n ps)" for t
  proof -
    have "t \<notin> tp_ticker ` set (drop n ps)" using that disj by blast
    then show ?thesis using rest that unfolding loaded_def by presburger
  qed
  have above: "\<exists>w. idx < w \<and> w < wc \<and> res t = Some (fresh_data w)" if "t \<in> tp_ticker ` set (drop n ps)" for t
    using rest that suc by (fastforce simp: loaded_def word_less_nat_alt word_le_nat_alt)
  have "card (assigned res ps w) = worker_share pw lo w" if "unat idx \<le> w" "w < unat wc" for w
  proof (rule assigned_split[where n = n and idx = idx and m = "unat wc"])
    show "\<exists>td. res t = Some td \<and> unat idx < unat (td_workerId td)" if "t \<in> tp_ticker ` set (drop n ps)" for t
      using above[OF that] by (auto simp: word_less_nat_alt)
  qed (use dist here rest n that suc in \<open>auto simp: loaded_def\<close>)
  moreover have "\<exists>w. idx \<le> w \<and> w < wc \<and> res t = Some (fresh_data w)" if "t \<in> tp_ticker ` set ps" for t
    using that here[of t] above[of t] idx spl less_imp_le by blast
  moreover have "res t = data t" if "t \<notin> tp_ticker ` set ps" for t
    using rest that spl by (auto simp: loaded_def)
  ultimately show ?thesis by (simp add: loaded_def)
qed

lemma load_workers_loaded:
  assumes "distinct (map tp_ticker ps)" "set (map tp_ticker ps) \<inter> dom data = {}" "idx \<le> wc"
    and "length ps = (\<Sum>i=unat idx..<unat wc. worker_share pw lo i)"
  shows "loaded pw lo wc idx ps data (snd (load_workers pw lo wc idx ps data))"
  using assms
proof (induction pw lo wc idx ps data rule: load_workers.induct)
  case (1 pw lo wc idx ps data)
  show ?case
  proof (cases "idx < wc")
    case False
    then have "idx = wc" using "1.prems"(3) by simp
    then show ?thesis using "1.prems"(4) by (simp add: load_workers.simps[of pw lo wc wc] word_less_nat_alt loaded_def)
  next
    case True
    let ?n = "worker_share pw lo (unat idx)"
    let ?d = "\<lambda>t. if t \<in> tp_ticker ` set (take ?n ps) then Some (fresh_data idx) else data t"
    have lt: "unat idx < unat wc" and suc: "unat (idx + 1) = Suc (unat idx)"
      using True unat_Suc_less[OF True] by (auto simp: word_less_nat_alt)
    have len: "length ps = ?n + (\<Sum>i=Suc (unat idx)..<unat wc. worker_share pw lo i)"
      using "1.prems"(4) lt by (simp add: sum.atLeast_Suc_lessThan)
    have lw: "load_worker ?n idx ps data = (drop ?n ps, ?d)" using "1.prems" len by (intro load_worker_spec) auto
    have "dom ?d = tp_ticker ` set (take ?n ps) \<union> dom data" by (auto simp: dom_def)
    then have "set (map tp_ticker (drop ?n ps)) \<inter> dom ?d = {}"
      using take_drop_tickers(1)[of ps ?n] take_drop_tickers(2)[OF "1.prems"(1), of ?n] "1.prems"(2) by auto
    moreover have "distinct (map tp_ticker (drop ?n ps))" using "1.prems"(1) by (simp add: drop_map[symmetric])
    moreover have "idx + 1 \<le> wc" using lt suc by (simp add: word_le_nat_alt)
    moreover have "length (drop ?n ps) = (\<Sum>i=unat (idx + 1)..<unat wc. worker_share pw lo i)" using len suc by simp
    ultimately have "loaded pw lo wc (idx + 1) (drop ?n ps) ?d (snd (load_workers pw lo wc (idx + 1) (drop ?n ps) ?d))"
      using "1.IH"[OF True lw[unfolded worker_share_def, symmetric]] by (simp add: worker_share_def)
    moreover have "load_workers pw lo wc idx ps data = load_workers pw lo wc (idx + 1) (drop ?n ps) ?d"
      using True lw by (subst load_workers.simps) (simp add: worker_share_def)
    ultimately show ?thesis using loaded_step[OF "1.prems"(1) True refl, of pw lo data] len by simp
  qed
qed

lemma share_sum: "0 < n \<Longrightarrow> (\<Sum>i=0..<n. worker_share (len div n) (len mod n) i) = len"
proof -
  assume n: "0 < n"
  have "(\<Sum>i=0..<n. if i < len mod n then 1 else (0::nat)) = card ({0..<n} \<inter> {i. i < len mod n})"
    by (simp add: sum.If_cases)
  also have "{0..<n} \<inter> {i. i < len mod n} = {0..<len mod n}" using n less_trans[OF _ mod_less_divisor[of n len]] by auto
  finally show ?thesis
    by (simp add: worker_share_def sum.distrib)
qed

lemma worker_count_pos: "length cores < 65536 \<Longrightarrow> unat (worker_count cores) = length (worker_cores cores) \<and> 0 < unat (worker_count cores)"
  by (auto simp: worker_count_def worker_cores_def unat_of_nat)

lemma load_balanced:
  assumes "distinct (map tp_ticker prices)" and "length coresApp < 65536"
  shows "\<exists>data. loadMarketData coresApp (Inr prices) = Inr data \<and> dom data = tp_ticker ` set prices \<and>
    (\<forall>t td. data t = Some td \<longrightarrow> td_orderBook td = empty_book \<and> unat (td_workerId td) < length (worker_cores coresApp)) \<and>
    (\<forall>w < length (worker_cores coresApp).
       card {t. \<exists>td. data t = Some td \<and> unat (td_workerId td) = w} =
       length prices div length (worker_cores coresApp) + (if w < length prices mod length (worker_cores coresApp) then 1 else 0))"
proof -
  let ?n = "unat (worker_count coresApp)" and ?len = "length prices"
  let ?res = "snd (load_workers (?len div ?n) (?len mod ?n) (worker_count coresApp) 0 prices Map.empty)"
  have n: "?n = length (worker_cores coresApp)" "0 < ?n" using worker_count_pos[OF assms(2)] by auto
  have "(\<forall>t. t \<notin> tp_ticker ` set prices \<longrightarrow> ?res t = None) \<and>
    (\<forall>t\<in>tp_ticker ` set prices. \<exists>w. 0 \<le> w \<and> w < worker_count coresApp \<and> ?res t = Some (fresh_data w)) \<and>
    (\<forall>w. 0 \<le> w \<longrightarrow> w < ?n \<longrightarrow> card (assigned ?res prices w) = worker_share (?len div ?n) (?len mod ?n) w)"
    using load_workers_loaded[of prices Map.empty 0 "worker_count coresApp" "?len div ?n" "?len mod ?n"] assms(1) share_sum[OF n(2), of ?len]
    by (simp add: loaded_def)
  then have out: "\<And>t. t \<notin> tp_ticker ` set prices \<Longrightarrow> ?res t = None"
    and mem: "\<And>t. t \<in> tp_ticker ` set prices \<Longrightarrow> \<exists>w. w < worker_count coresApp \<and> ?res t = Some (fresh_data w)"
    and cnt: "\<And>w. w < ?n \<Longrightarrow> card (assigned ?res prices w) = worker_share (?len div ?n) (?len mod ?n) w"
    by auto
  define res where "res = ?res"
  have "dom res = tp_ticker ` set prices" unfolding res_def using out mem by (fastforce simp: dom_def)
  moreover have "td_orderBook td = empty_book \<and> unat (td_workerId td) < length (worker_cores coresApp)" if "res t = Some td" for t td
    using that out[of t] mem[of t] n(1) unfolding res_def
    by (cases "t \<in> tp_ticker ` set prices") (auto simp: word_less_nat_alt)
  moreover have "assigned res prices w = {t. \<exists>td. res t = Some td \<and> unat (td_workerId td) = w}" for w
    using calculation(1) by (auto simp: assigned_def)
  then have "card {t. \<exists>td. res t = Some td \<and> unat (td_workerId td) = w} =
      ?len div ?n + (if w < ?len mod ?n then 1 else 0)" if "w < ?n" for w
    using cnt[OF that] by (simp only: res_def[symmetric] worker_share_def)
  moreover have "loadMarketData coresApp (Inr prices) = Inr res" by (simp add: loadMarketData_def Let_def res_def)
  ultimately show ?thesis unfolding n(1) by (intro exI[of _ res]) blast
qed

section \<open>Worker ids\<close>

text \<open>Whatever the table holds, every ticker belongs to a worker that is started.\<close>

definition ids_below :: "ThreadId \<Rightarrow> MarketData \<Rightarrow> bool" where
  "ids_below wc data \<longleftrightarrow> (\<forall>t td. data t = Some td \<longrightarrow> td_workerId td < wc)"

lemma emplace_ids: "ids_below wc data \<Longrightarrow> wi < wc \<Longrightarrow> ids_below wc (md_emplace t wi data)"
  unfolding ids_below_def md_emplace_def by simp

lemma load_worker_ids: "ids_below wc data \<Longrightarrow> wi < wc \<Longrightarrow> ids_below wc (snd (load_worker n wi ps data))"
  by (induction n wi ps data rule: load_worker.induct) (simp_all add: emplace_ids)

lemma load_workers_ids: "ids_below wc data \<Longrightarrow> ids_below wc (snd (load_workers pw lo wc wi ps data))"
proof (induction pw lo wc wi ps data rule: load_workers.induct)
  case (1 pw lo wc wi ps data)
  obtain ps' data' where lw: "load_worker (pw + (if unat wi < lo then 1 else 0)) wi ps data = (ps', data')"
    by (cases "load_worker (pw + (if unat wi < lo then 1 else 0)) wi ps data")
  show ?case
  proof (cases "wi < wc")
    case True
    then have "ids_below wc data'" using load_worker_ids[OF "1.prems" True, of "pw + (if unat wi < lo then 1 else 0)" ps] lw by simp
    then show ?thesis using "1.IH"[OF True lw[symmetric]] True lw by (subst load_workers.simps) simp
  next
    case False
    then show ?thesis using "1.prems" by (subst load_workers.simps) simp
  qed
qed

lemma loadMarketData_ids:
  assumes "loadMarketData cores tickers = Inr data" and "data t = Some td"
  shows "unat (td_workerId td) < length (worker_cores cores)"
proof -
  have "ids_below (worker_count cores) data"
    using assms(1) load_workers_ids[of "worker_count cores" Map.empty]
    by (auto simp: loadMarketData_def Let_def ids_below_def split: sum.splits)
  then have "unat (td_workerId td) < unat (worker_count cores)" using assms(2) by (auto simp: ids_below_def word_less_nat_alt)
  also have "\<dots> \<le> length (worker_cores cores)"
    by (simp add: worker_count_def worker_cores_def unat_of_nat)
  finally show ?thesis .
qed

section \<open>Properties\<close>



end
