(* ===== verification/Text_Utils.thy ===== *)
theory Text_Utils
  imports Domain_Types "HOL-Library.Char_ord"
begin

text \<open>
  Text helpers: \<^verbatim>\<open>common/src/utils/string_utils.hpp\<close> and \<^verbatim>\<open>common/src/utils/parse_utils.hpp\<close>, on
  strings of bytes. \<^verbatim>\<open>std::to_string\<close> and \<^verbatim>\<open>std::format("{}")\<close> print decimals. The two
  branches of \<^verbatim>\<open>formatNs\<close> that print a rounded \<^verbatim>\<open>double\<close> are left out.
\<close>

section \<open>Numbers\<close>

definition digit :: "nat \<Rightarrow> char" where
  "digit d = char_of (48 + d)"

fun show_nat :: "nat \<Rightarrow> string" where
  "show_nat n = (if n < 10 then [digit n] else show_nat (n div 10) @ [digit (n mod 10)])"

declare show_nat.simps [simp del]

definition show_int :: "int \<Rightarrow> string" where
  "show_int i = (if i < 0 then CHR ''-'' # show_nat (nat (- i)) else show_nat (nat i))"

definition show_word :: "'a::len word \<Rightarrow> string" where
  "show_word w = show_nat (unat w)"

definition digit_val :: "char \<Rightarrow> nat" where
  "digit_val c = of_char c - 48"

definition read_nat :: "string \<Rightarrow> nat" where
  "read_nat s = foldl (\<lambda>n c. 10 * n + digit_val c) 0 s"

definition is_digit :: "char \<Rightarrow> bool" where
  "is_digit c \<longleftrightarrow> 48 \<le> (of_char c :: nat) \<and> (of_char c :: nat) \<le> 57"

lemma digit_props: "d < 10 \<Longrightarrow> is_digit (digit d) \<and> digit_val (digit d) = d"
  by (simp add: is_digit_def digit_def digit_val_def)

lemma show_nat_digits: "list_all is_digit (show_nat n)"
  by (induction n rule: show_nat.induct) (subst show_nat.simps, auto simp: digit_props)

lemma show_nat_nonempty [simp]: "show_nat n \<noteq> []"
  by (subst show_nat.simps) simp

lemma read_show_nat: "read_nat (show_nat n) = n"
proof (induction n rule: show_nat.induct)
  case (1 n)
  then show ?case by (subst show_nat.simps) (simp add: read_nat_def digit_props)
qed

section \<open>string_utils\<close>

definition vec_toString :: "('a \<Rightarrow> string) \<Rightarrow> 'a list \<Rightarrow> string" where
  "vec_toString f xs =
     ''['' @ concat (map (\<lambda>i. f (xs ! i) @ (if i = length xs - 1 then [] else '','')) [0..<length xs]) @ '']''"

definition fromArray :: "string \<Rightarrow> string" where
  "fromArray arr = takeWhile (\<lambda>c. c \<noteq> CHR 0x00) arr"

text \<open>\<^verbatim>\<open>std::tolower\<close> in the C locale.\<close>

definition char_toLower :: "char \<Rightarrow> char" where
  "char_toLower c = (if 65 \<le> (of_char c :: nat) \<and> (of_char c :: nat) \<le> 90 then char_of (of_char c + 32 :: nat) else c)"

definition toLower :: "string \<Rightarrow> string" where
  "toLower s = map char_toLower s"

definition toTicker :: "string \<Rightarrow> Ticker" where
  "toTicker str = makeTicker (take (min (length str) TICKER_SIZE) str)"

definition ticker_isEmpty :: "Ticker \<Rightarrow> bool" where
  "ticker_isEmpty t \<longleftrightarrow> (\<forall>c \<in> set (ticker_toString t). c = CHR 0x00)"

definition formatCompact :: "u64 \<Rightarrow> string" where
  "formatCompact num =
     (let n = unat num
      in if n < 1000 then show_nat n
         else if n < 1000000 then show_nat (n div 1000) @ ''k''
         else show_nat (n div 1000000) @ ''m'')"

text \<open>The insertion loop of \<^verbatim>\<open>thousandify\<close>: \<open>n\<close> is the signed position.\<close>

function insert_commas :: "int \<Rightarrow> string \<Rightarrow> string" where
  "insert_commas n s = (if n > 0 then insert_commas (n - 3) (take (nat n) s @ '','' @ drop (nat n) s) else s)"
  by pat_completeness auto
termination by (relation "measure (\<lambda>(n, s). nat n)") auto

declare insert_commas.simps [simp del]

definition thousandify :: "int \<Rightarrow> string" where
  "thousandify value = (let s = show_int value in insert_commas (int (length s) - 3) s)"

section \<open>parse_utils\<close>

text \<open>\<^verbatim>\<open>std::getline\<close> with the delimiter: an empty remainder ends the loop, so a trailing comma adds
  no empty token.\<close>

function split_tokens :: "string \<Rightarrow> string list" where
  "split_tokens input =
     (if input = [] then []
      else takeWhile (\<lambda>c. c \<noteq> CHR '','') input # split_tokens (tl (dropWhile (\<lambda>c. c \<noteq> CHR '','') input)))"
  by pat_completeness auto
termination
proof (relation "measure length")
  fix input :: string assume ne: "input \<noteq> []"
  define d where "d = dropWhile (\<lambda>c. c \<noteq> CHR '','') input"
  have "length d \<le> length input" by (simp add: d_def length_dropWhile_le)
  moreover have "0 < length input" using ne by simp
  ultimately have "length (tl d) < length input" by (cases d) simp_all
  then show "(tl (dropWhile (\<lambda>c. c \<noteq> CHR '','') input), input) \<in> measure length" by (simp add: d_def)
qed simp

declare split_tokens.simps [simp del]

text \<open>\<^verbatim>\<open>std::stoi\<close>: leading white space, an optional sign, then at least one digit; the rest is ignored.
  No number is \<^verbatim>\<open>std::invalid_argument\<close>, one beyond \<^verbatim>\<open>int\<close> is \<^verbatim>\<open>std::out_of_range\<close>.\<close>

definition is_space :: "char \<Rightarrow> bool" where
  "is_space c \<longleftrightarrow> c = CHR '' '' \<or> (9 \<le> (of_char c :: nat) \<and> (of_char c :: nat) \<le> 13)"

definition stoi :: "string \<Rightarrow> string + int" where
  "stoi str =
     (let s = dropWhile is_space str;
          neg = (s \<noteq> [] \<and> hd s = CHR ''-'');
          t = (if s \<noteq> [] \<and> (hd s = CHR ''-'' \<or> hd s = CHR ''+'') then tl s else s);
          ds = takeWhile is_digit t;
          v = (if neg then - int (read_nat ds) else int (read_nat ds))
      in if ds = [] then Inl ''invalid_argument''
         else if v < - 2147483648 \<or> v > 2147483647 then Inl ''out_of_range''
         else Inr v)"

fun split_ints :: "string list \<Rightarrow> string + int list" where
  "split_ints [] = Inr []"
| "split_ints (t # ts) =
     (case stoi t of
        Inl e \<Rightarrow> Inl e
      | Inr i \<Rightarrow> (case split_ints ts of Inl e \<Rightarrow> Inl e | Inr is \<Rightarrow> Inr (i # is)))"

definition split_int :: "string \<Rightarrow> string + int list" where
  "split_int input = split_ints (split_tokens input)"

section \<open>Lemmas\<close>

lemma filter_insert_commas:
  "filter (\<lambda>c. c \<noteq> CHR '','') (insert_commas n s) = filter (\<lambda>c. c \<noteq> CHR '','') s"
proof (induction n s rule: insert_commas.induct)
  case (1 n s)
  have "filter (\<lambda>c. c \<noteq> CHR '','') (take (nat n) s @ '','' @ drop (nat n) s) = filter (\<lambda>c. c \<noteq> CHR '','') s"
    using filter_append[of "\<lambda>c. c \<noteq> CHR '',''" "take (nat n) s" "drop (nat n) s"] by simp
  then show ?case using 1 by (subst insert_commas.simps) auto
qed

text \<open>The grouping that the loop computes: a head of at most three characters, then groups of three.\<close>

function group3 :: "string \<Rightarrow> string" where
  "group3 s = (if length s \<le> 3 then s else group3 (take (length s - 3) s) @ '','' @ drop (length s - 3) s)"
  by pat_completeness auto
termination by (relation "measure length") auto

declare group3.simps [simp del]

lemma insert_commas_append:
  assumes "n \<le> int (length a)"
  shows "insert_commas n (a @ b) = insert_commas n a @ b"
  using assms
proof (induction n a arbitrary: b rule: insert_commas.induct)
  case (1 n s)
  show ?case
  proof (cases "n > 0")
    case True
    let ?s = "take (nat n) s @ '','' @ drop (nat n) s"
    have "insert_commas n (s @ b) = insert_commas (n - 3) (?s @ b)"
      using True "1.prems" by (subst insert_commas.simps) simp
    also have "\<dots> = insert_commas (n - 3) ?s @ b" using "1.IH"[OF True] "1.prems" True by simp
    also have "insert_commas (n - 3) ?s = insert_commas n s" using True by (subst (2) insert_commas.simps) simp
    finally show ?thesis .
  next
    case False
    then show ?thesis by (simp add: insert_commas.simps)
  qed
qed

lemma insert_commas_group3: "insert_commas (int (length s) - 3) s = group3 s"
proof (induction s rule: group3.induct)
  case (1 s)
  show ?case
  proof (cases "length s \<le> 3")
    case True
    then show ?thesis by (simp add: insert_commas.simps group3.simps)
  next
    case False
    let ?h = "take (length s - 3) s" and ?t = "drop (length s - 3) s"
    have n: "nat (int (length s) - 3) = length s - 3" by simp
    have "insert_commas (int (length s) - 3) s = insert_commas (int (length ?h) - 3) (?h @ ('','' @ ?t))"
      using False by (subst insert_commas.simps) (simp add: n)
    also have "\<dots> = insert_commas (int (length ?h) - 3) ?h @ '','' @ ?t" by (rule insert_commas_append) simp
    also have "\<dots> = group3 s" using 1[OF False] False by (simp add: group3.simps[of s])
    finally show ?thesis .
  qed
qed

lemma comma_not_digit: "\<not> is_digit (CHR '','')"
  by (simp add: is_digit_def)

text \<open>\<^verbatim>\<open>thousandify\<close> of a number that is not negative separates its digits into groups of three,
  and reading the result without the commas gives the number back.\<close>

theorem thousandify_groups:
  assumes "0 \<le> v"
  shows "thousandify v = group3 (show_nat (nat v)) \<and>
    read_nat (filter (\<lambda>c. c \<noteq> CHR '','') (thousandify v)) = nat v"
proof -
  have "filter (\<lambda>c. c \<noteq> CHR '','') (show_nat (nat v)) = show_nat (nat v)"
    using show_nat_digits[of "nat v"] comma_not_digit by (auto simp: filter_id_conv list_all_iff)
  then show ?thesis using assms
    by (simp add: thousandify_def show_int_def Let_def insert_commas_group3[symmetric] filter_insert_commas read_show_nat)
qed

theorem thousandify_groups_witness: "thousandify 1234567 = ''1,234,567''"
  using thousandify_groups[of 1234567] by (simp add: group3.simps show_nat.simps digit_def char_of_def bit_0)

end
