(* ===== verification/Serialization.thy ===== *)
theory Serialization
  imports Text_Utils
begin

text \<open>
  The wire formats of the client messages: \<^verbatim>\<open>common/src/serialization/fbs\<close> and
  \<^verbatim>\<open>common/src/serialization/sbe\<close>. The classes generated from the two schemas are not part of the
  sources: their accessors and builders are parameters (\<open>verify\<close>, \<open>getRoot\<close>, \<open>finish\<close> for
  FlatBuffers; header length, template id, block lengths, getters and setters for SBE), and the
  tables they read and write are datatypes with the fields of \<^verbatim>\<open>schema/fbs/domain_messages.fbs\<close> and
  \<^verbatim>\<open>schema/sbe/domain_messages.xml\<close>. A table field that holds a string may be absent.
\<close>

section \<open>Outcomes and messages\<close>

text \<open>A call returns, returns \<^verbatim>\<open>std::unexpected\<close>, throws, or dereferences a null pointer.\<close>

datatype 'a outcome = Returned 'a | Unexpected StatusCode | Thrown string | NullDeref

fun obind :: "'a outcome \<Rightarrow> ('a \<Rightarrow> 'b outcome) \<Rightarrow> 'b outcome" where
  "obind (Returned x) f = f x"
| "obind (Unexpected e) f = Unexpected e"
| "obind (Thrown s) f = Thrown s"
| "obind NullDeref f = NullDeref"

datatype DomainMsg =
    M_LoginRequest LoginRequest
  | M_TokenBindRequest TokenBindRequest
  | M_LoginResponse LoginResponse
  | M_Order Order
  | M_OrderStatus OrderStatus
  | M_TickerPrice TickerPrice

section \<open>FlatBuffers\<close>

datatype fbs_message =
    F_LoginRequest "string option" "string option"
  | F_TokenBindRequest u32
  | F_LoginResponse u32 bool "string option"
  | F_Order u32 "string option" u32 u32 u8
  | F_OrderStatus u32 u32 u32 u32 u32
  | F_TickerPrice "string option" u32
  | F_NoTable u8
  | F_Unknown u8

fun fbStringToTicker :: "string option \<Rightarrow> Ticker outcome" where
  "fbStringToTicker None = NullDeref"
| "fbStringToTicker (Some str) = Returned (makeTicker (take (min (length str) TICKER_SIZE) str))"

fun fbStringToString :: "string option \<Rightarrow> string outcome" where
  "fbStringToString None = NullDeref"
| "fbStringToString (Some str) = Returned str"

text \<open>The converters; the codes are those of the schema enums.\<close>

definition fbs_to_action :: "u8 \<Rightarrow> OrderAction outcome" where
  "fbs_to_action a =
     (if a = 0 then Returned Dummy
      else if a = 1 then Returned Buy
      else if a = 2 then Returned Sell
      else if a = 3 then Returned Modify
      else if a = 4 then Returned Cancel
      else Thrown (''Unknown gen::fbs::domain::OrderAction '' @ show_word a))"

fun fbs_of_action :: "OrderAction \<Rightarrow> u8" where
  "fbs_of_action Dummy = 0"
| "fbs_of_action Buy = 1"
| "fbs_of_action Sell = 2"
| "fbs_of_action Modify = 3"
| "fbs_of_action Cancel = 4"

definition fbs_to_state :: "u32 \<Rightarrow> OrderState outcome" where
  "fbs_to_state s =
     (if s = 0 then Returned Accepted
      else if s = 1 then Returned Rejected
      else if s = 2 then Returned Cancelled
      else if s = 3 then Returned Partial
      else if s = 4 then Returned Full
      else Thrown (''Unknown gen::fbs::domain::OrderState '' @ show_word (ucast s :: u8)))"

fun fbs_of_state :: "OrderState \<Rightarrow> u32" where
  "fbs_of_state Accepted = 0"
| "fbs_of_state Rejected = 1"
| "fbs_of_state Cancelled = 2"
| "fbs_of_state Partial = 3"
| "fbs_of_state Full = 4"

fun fbs_read :: "fbs_message \<Rightarrow> DomainMsg outcome" where
  "fbs_read (F_LoginRequest n p) =
     obind (fbStringToString n) (\<lambda>n. obind (fbStringToString p) (\<lambda>p. Returned (M_LoginRequest \<lparr>lr_name = n, lr_password = p\<rparr>)))"
| "fbs_read (F_TokenBindRequest t) = Returned (M_TokenBindRequest \<lparr>tb_token = ucast t\<rparr>)"
| "fbs_read (F_LoginResponse t b e) =
     obind (fbStringToString e) (\<lambda>e. Returned (M_LoginResponse \<lparr>lp_token = ucast t, lp_ok = b, lp_error = e\<rparr>))"
| "fbs_read (F_Order i t q p a) =
     obind (fbStringToTicker t) (\<lambda>t. obind (fbs_to_action a) (\<lambda>a.
       Returned (M_Order \<lparr>o_id = i, o_ticker = t, o_quantity = q, o_price = p, o_action = a\<rparr>)))"
| "fbs_read (F_OrderStatus i si q p s) =
     obind (fbs_to_state s) (\<lambda>s.
       Returned (M_OrderStatus \<lparr>os_orderId = i, os_systemOrderId = si, os_quantity = q, os_fillPrice = p, os_state = s\<rparr>))"
| "fbs_read (F_TickerPrice t p) =
     obind (fbStringToTicker t) (\<lambda>t. Returned (M_TickerPrice \<lparr>tp_ticker = t, tp_price = p\<rparr>))"
| "fbs_read (F_NoTable k) = Unexpected SC_Error"
| "fbs_read (F_Unknown k) = Unexpected SC_Error"

text \<open>The consumed size and the posted message.\<close>

definition fbs_deserialize ::
  "(u8 list \<Rightarrow> bool) \<Rightarrow> (u8 list \<Rightarrow> fbs_message option) \<Rightarrow> u8 list \<Rightarrow> (nat \<times> DomainMsg) outcome" where
  "fbs_deserialize verify getRoot data =
     (if \<not> verify data then Unexpected SC_Error
      else case getRoot data of
             None \<Rightarrow> Unexpected SC_Error
           | Some m \<Rightarrow> obind (fbs_read m) (\<lambda>msg. Returned (length data, msg)))"

fun fbs_table :: "DomainMsg \<Rightarrow> fbs_message" where
  "fbs_table (M_LoginRequest r) = F_LoginRequest (Some (lr_name r)) (Some (lr_password r))"
| "fbs_table (M_TokenBindRequest r) = F_TokenBindRequest (ucast (tb_token r))"
| "fbs_table (M_LoginResponse r) = F_LoginResponse (ucast (lp_token r)) (lp_ok r) (Some (lp_error r))"
| "fbs_table (M_Order r) =
     F_Order (o_id r) (Some (ticker_toString (o_ticker r))) (o_quantity r) (o_price r) (fbs_of_action (o_action r))"
| "fbs_table (M_OrderStatus r) =
     F_OrderStatus (os_orderId r) (os_systemOrderId r) (os_quantity r) (os_fillPrice r) (fbs_of_state (os_state r))"
| "fbs_table (M_TickerPrice r) = F_TickerPrice (Some (ticker_toString (tp_ticker r))) (tp_price r)"

definition fbs_serialize :: "(fbs_message \<Rightarrow> u8 list) \<Rightarrow> DomainMsg \<Rightarrow> u8 list" where
  "fbs_serialize finish m = finish (fbs_table m)"

section \<open>Simple Binary Encoding\<close>

datatype sbe_kind = K_LoginRequest | K_LoginResponse | K_TokenBindRequest | K_Order | K_OrderStatus | K_TickerPrice

datatype sbe_message =
    S_LoginRequest string string
  | S_LoginResponse u32 u8 string
  | S_TokenBindRequest u32
  | S_Order u32 string u32 u32 u8
  | S_OrderStatus u32 u32 u32 u32 u32
  | S_TickerPrice string u32

fun sbe_kind_of :: "sbe_message \<Rightarrow> sbe_kind" where
  "sbe_kind_of (S_LoginRequest _ _) = K_LoginRequest"
| "sbe_kind_of (S_LoginResponse _ _ _) = K_LoginResponse"
| "sbe_kind_of (S_TokenBindRequest _) = K_TokenBindRequest"
| "sbe_kind_of (S_Order _ _ _ _ _) = K_Order"
| "sbe_kind_of (S_OrderStatus _ _ _ _ _) = K_OrderStatus"
| "sbe_kind_of (S_TickerPrice _ _) = K_TickerPrice"

definition sbe_to_action :: "u8 \<Rightarrow> OrderAction outcome" where
  "sbe_to_action a =
     (if a = 1 then Returned Buy
      else if a = 2 then Returned Sell
      else if a = 0 then Returned Dummy
      else Thrown ''Unknown gen::sbe::domain::OrderAction::Value type'')"

fun sbe_of_action :: "OrderAction \<Rightarrow> u8 outcome" where
  "sbe_of_action Buy = Returned 1"
| "sbe_of_action Sell = Returned 2"
| "sbe_of_action Dummy = Returned 0"
| "sbe_of_action _ = Thrown ''OrderAction type''"

definition sbe_to_state :: "u32 \<Rightarrow> OrderState outcome" where
  "sbe_to_state s =
     (if s = 0 then Returned Accepted
      else if s = 1 then Returned Rejected
      else if s = 3 then Returned Partial
      else if s = 4 then Returned Full
      else Thrown ''Unknown gen::sbe::domain::OrderState::Value type'')"

fun sbe_of_state :: "OrderState \<Rightarrow> u32 outcome" where
  "sbe_of_state Accepted = Returned 0"
| "sbe_of_state Rejected = Returned 1"
| "sbe_of_state Partial = Returned 3"
| "sbe_of_state Full = Returned 4"
| "sbe_of_state _ = Thrown ''OrderState type''"

fun sbe_read :: "sbe_message \<Rightarrow> DomainMsg outcome" where
  "sbe_read (S_LoginRequest n p) = Returned (M_LoginRequest \<lparr>lr_name = n, lr_password = p\<rparr>)"
| "sbe_read (S_TokenBindRequest t) = Returned (M_TokenBindRequest \<lparr>tb_token = ucast t\<rparr>)"
| "sbe_read (S_LoginResponse t b e) = Returned (M_LoginResponse \<lparr>lp_token = ucast t, lp_ok = (b = 1), lp_error = e\<rparr>)"
| "sbe_read (S_Order i t q p a) =
     obind (sbe_to_action a) (\<lambda>a.
       Returned (M_Order \<lparr>o_id = i, o_ticker = makeTicker t, o_quantity = q, o_price = p, o_action = a\<rparr>))"
| "sbe_read (S_OrderStatus i si q p s) =
     obind (sbe_to_state s) (\<lambda>s.
       Returned (M_OrderStatus \<lparr>os_orderId = i, os_systemOrderId = si, os_quantity = q, os_fillPrice = p, os_state = s\<rparr>))"
| "sbe_read (S_TickerPrice t p) = Returned (M_TickerPrice \<lparr>tp_ticker = makeTicker t, tp_price = p\<rparr>)"

definition sbe_deserialize ::
  "nat \<Rightarrow> (u8 list \<Rightarrow> sbe_kind option) \<Rightarrow> (sbe_kind \<Rightarrow> nat) \<Rightarrow> (sbe_kind \<Rightarrow> u8 list \<Rightarrow> sbe_message) \<Rightarrow> u8 list \<Rightarrow>
     (nat \<times> DomainMsg) outcome" where
  "sbe_deserialize headerLen templateId blockLen get data =
     (if length data < headerLen then Unexpected SC_Error
      else case templateId data of
             None \<Rightarrow> Unexpected SC_Error
           | Some k \<Rightarrow>
               if length data < blockLen k then Unexpected SC_Error
               else obind (sbe_read (get k data)) (\<lambda>m. Returned (blockLen k, m)))"

text \<open>A \<^verbatim>\<open>Char32\<close> or \<^verbatim>\<open>Char4\<close> field keeps the characters up to the first null; \<^verbatim>\<open>putChar4\<close> is
  given the four characters of the ticker.\<close>

fun sbe_table :: "DomainMsg \<Rightarrow> sbe_message outcome" where
  "sbe_table (M_LoginRequest r) = Returned (S_LoginRequest (lr_name r) (lr_password r))"
| "sbe_table (M_TokenBindRequest r) = Returned (S_TokenBindRequest (ucast (tb_token r)))"
| "sbe_table (M_LoginResponse r) =
     Returned (S_LoginResponse (ucast (lp_token r)) (if lp_ok r then 1 else 0) (lp_error r))"
| "sbe_table (M_Order r) =
     obind (sbe_of_action (o_action r)) (\<lambda>a.
       Returned (S_Order (o_id r) (ticker_toString (o_ticker r)) (o_quantity r) (o_price r) a))"
| "sbe_table (M_OrderStatus r) =
     obind (sbe_of_state (os_state r)) (\<lambda>s.
       Returned (S_OrderStatus (os_orderId r) (os_systemOrderId r) (os_quantity r) (os_fillPrice r) s))"
| "sbe_table (M_TickerPrice r) = Returned (S_TickerPrice (ticker_toString (tp_ticker r)) (tp_price r))"

definition sbe_serialize :: "(sbe_message \<Rightarrow> u8 list) \<Rightarrow> DomainMsg \<Rightarrow> u8 list outcome" where
  "sbe_serialize put m = obind (sbe_table m) (\<lambda>t. Returned (put t))"

section \<open>Round trips\<close>

text \<open>Tokens are 64-bit in the program and 32-bit in both schemas.\<close>

fun token_fits :: "DomainMsg \<Rightarrow> bool" where
  "token_fits (M_TokenBindRequest r) \<longleftrightarrow> unat (tb_token r) < 2 ^ 32"
| "token_fits (M_LoginResponse r) \<longleftrightarrow> unat (lp_token r) < 2 ^ 32"
| "token_fits _ \<longleftrightarrow> True"

lemma ucast_token: "unat t < 2 ^ 32 \<Longrightarrow> (ucast (ucast (t :: u64) :: u32) :: u64) = t"
  by (simp add: word_unat_eq_iff unsigned_ucast_eq unsigned_take_bit_eq take_bit_nat_eq_self)

lemma makeTicker_toString [simp]: "makeTicker (ticker_toString t) = t"
  by (cases t) (simp add: makeTicker_def char_at_def TICKER_SIZE_def)

lemma length_ticker_toString [simp]: "length (ticker_toString t) = 4"
  by (cases t) simp

lemma fbs_read_table: "token_fits m \<Longrightarrow> fbs_read (fbs_table m) = Returned m"
proof (cases m)
  case (M_Order r)
  then show ?thesis by (cases "o_action r") (simp_all add: fbs_to_action_def TICKER_SIZE_def)
next
  case (M_OrderStatus r)
  then show ?thesis by (cases "os_state r") (simp_all add: fbs_to_state_def)
qed (simp_all add: ucast_token TICKER_SIZE_def)

text \<open>FlatBuffers round trip: a message serialized by \<^verbatim>\<open>FbsDomainSerializer\<close> and read back is posted
  unchanged and consumes its whole size, for every message whose token fits the schema's 32
  bits, provided that the generated builder's output verifies and has the table it was
  given as its root.\<close>

theorem fbs_roundtrip:
  assumes "verify (finish (fbs_table m))" "getRoot (finish (fbs_table m)) = Some (fbs_table m)" "token_fits m"
  shows "fbs_deserialize verify getRoot (fbs_serialize finish m) = Returned (length (fbs_serialize finish m), m)"
  using assms by (simp add: fbs_deserialize_def fbs_serialize_def fbs_read_table)

definition sample_order :: DomainMsg where
  "sample_order = M_Order \<lparr>o_id = 7, o_ticker = makeTicker ''AAPL'', o_quantity = 10, o_price = 190, o_action = Cancel\<rparr>"

theorem fbs_roundtrip_witness:
  "fbs_deserialize (\<lambda>_. True) (\<lambda>_. Some (fbs_table sample_order)) (fbs_serialize (\<lambda>_. [1, 2, 3]) sample_order) =
     Returned (3, sample_order)"
proof -
  have "token_fits sample_order" by (simp add: sample_order_def)
  then show ?thesis
    using fbs_roundtrip[of "\<lambda>_. True" "\<lambda>_. [1, 2, 3]" sample_order "\<lambda>_. Some (fbs_table sample_order)"]
    by (simp add: fbs_serialize_def)
qed

text \<open>The messages the SBE converters know.\<close>

fun sbe_known :: "DomainMsg \<Rightarrow> bool" where
  "sbe_known (M_Order r) \<longleftrightarrow> o_action r \<in> {Dummy, Buy, Sell}"
| "sbe_known (M_OrderStatus r) \<longleftrightarrow> os_state r \<noteq> Cancelled"
| "sbe_known _ \<longleftrightarrow> True"

lemma sbe_table_known:
  "(\<exists>t. sbe_table m = Returned t) \<longleftrightarrow> sbe_known m"
proof (cases m)
  case (M_Order r)
  then show ?thesis by (cases "o_action r") simp_all
next
  case (M_OrderStatus r)
  then show ?thesis by (cases "os_state r") simp_all
qed simp_all

lemma sbe_read_table: "token_fits m \<Longrightarrow> sbe_table m = Returned t \<Longrightarrow> sbe_read t = Returned m"
proof (cases m)
  case (M_Order r)
  moreover assume "sbe_table m = Returned t"
  ultimately show ?thesis by (cases "o_action r") (auto simp: sbe_to_action_def)
next
  case (M_OrderStatus r)
  moreover assume "sbe_table m = Returned t"
  ultimately show ?thesis by (cases "os_state r") (auto simp: sbe_to_state_def)
qed (auto simp: ucast_token)



text \<open>A verified buffer can still bring the server down: the verifier accepts a login request whose
  name field is absent, and the reader dereferences the null string.\<close>

theorem fbs_absent_string_dereferenced:
  assumes "verify data" "getRoot data = Some (F_LoginRequest None p)"
  shows "fbs_deserialize verify getRoot data = NullDeref"
  using assms by (simp add: fbs_deserialize_def)

theorem fbs_absent_string_dereferenced_witness:
  "fbs_deserialize (\<lambda>_. True) (\<lambda>_. Some (F_LoginRequest None (Some ''x''))) [0, 0, 0, 0] = NullDeref"
  by (rule fbs_absent_string_dereferenced) simp_all

end
