(* ===== verification/Session.thy ===== *)
theory Session
  imports Serialization
begin

text \<open>
  Client sessions over TCP: \<^verbatim>\<open>SessionBus\<close> and \<^verbatim>\<open>SessionChannel\<close> (\<^verbatim>\<open>server/src/ipc\<close>), \<^verbatim>\<open>Authenticator\<close> and
  \<^verbatim>\<open>NetworkSessionManager\<close> (\<^verbatim>\<open>server/src/session\<close>). Channel objects live in a store keyed by their
  connection id; the byte level of a channel is the theory of its own. Dropping the last
  reference to a channel closes it, as its destructor does. The credentials table of the
  database is a parameter. A null dereference is the value \<^const>\<open>None\<close>.
\<close>

section \<open>SessionBus and SessionChannel\<close>

datatype direction = Upstream | Downstream

record SessionChannel =
  sc_dir :: direction
  sc_clientId :: "ClientId option"
  sc_status :: ConnectionStatus

datatype SessionMsg =
    SM_Login ServerLoginRequest
  | SM_Bind ServerTokenBindRequest
  | SM_Order ServerOrder
  | SM_Status ChannelStatusEvent

definition sc_new :: "direction \<Rightarrow> SessionChannel" where
  "sc_new d = \<lparr>sc_dir = d, sc_clientId = None, sc_status = Connected\<rparr>"

definition sc_isAuthenticated :: "SessionChannel \<Rightarrow> bool" where
  "sc_isAuthenticated ch \<longleftrightarrow> sc_clientId ch \<noteq> None"

definition sc_authenticate :: "ClientId \<Rightarrow> SessionChannel \<Rightarrow> SessionChannel" where
  "sc_authenticate c ch = (if sc_isAuthenticated ch then ch else ch\<lparr>sc_clientId := Some c\<rparr>)"

definition sc_close :: "SessionChannel \<Rightarrow> SessionChannel" where
  "sc_close ch = ch\<lparr>sc_status := Disconnected\<rparr>"

definition error_event :: "ConnectionId \<Rightarrow> SessionChannel \<Rightarrow> SessionMsg" where
  "error_event cid ch =
     SM_Status \<lparr>chse_clientId = sc_clientId ch, chse_event = \<lparr>cse_connectionId = cid, cse_status = ConnError\<rparr>\<rparr>"

text \<open>\<^verbatim>\<open>SessionBus::post\<close> for a message deserialized from the channel.\<close>

definition session_post :: "ConnectionId \<Rightarrow> SessionChannel \<Rightarrow> DomainMsg \<Rightarrow> SessionMsg option" where
  "session_post cid ch m =
     (case m of
        M_LoginRequest r \<Rightarrow>
          if sc_isAuthenticated ch then Some (error_event cid ch)
          else Some (SM_Login \<lparr>slr_connectionId = cid, slr_request = r\<rparr>)
      | M_TokenBindRequest r \<Rightarrow>
          if sc_isAuthenticated ch then Some (error_event cid ch)
          else Some (SM_Bind \<lparr>stb_connectionId = cid, stb_request = r\<rparr>)
      | M_Order ord \<Rightarrow>
          (case sc_clientId ch of
             None \<Rightarrow> Some (error_event cid ch)
           | Some c \<Rightarrow> Some (SM_Order \<lparr>so_clientId = c, so_order = ord\<rparr>))
      | _ \<Rightarrow> None)"

definition session_status :: "SessionChannel \<Rightarrow> ConnectionStatusEvent \<Rightarrow> SessionMsg" where
  "session_status ch ev = SM_Status \<lparr>chse_clientId = sc_clientId ch, chse_event = ev\<rparr>"

text \<open>The message types \<^verbatim>\<open>UpstreamBus\<close> and \<^verbatim>\<open>DownstreamBus\<close> let through.\<close>

fun bus_allows :: "direction \<Rightarrow> SessionMsg \<Rightarrow> bool" where
  "bus_allows Upstream (SM_Order _) \<longleftrightarrow> True"
| "bus_allows Upstream (SM_Login _) \<longleftrightarrow> True"
| "bus_allows Upstream (SM_Bind _) \<longleftrightarrow> False"
| "bus_allows Downstream (SM_Order _) \<longleftrightarrow> False"
| "bus_allows Downstream (SM_Login _) \<longleftrightarrow> False"
| "bus_allows Downstream (SM_Bind _) \<longleftrightarrow> True"
| "bus_allows _ (SM_Status _) \<longleftrightarrow> True"

definition restricted_post :: "ConnectionId \<Rightarrow> SessionChannel \<Rightarrow> DomainMsg \<Rightarrow> SessionMsg option" where
  "restricted_post cid ch m =
     (case session_post cid ch m of
        Some sm \<Rightarrow> if bus_allows (sc_dir ch) sm then Some sm else None
      | None \<Rightarrow> None)"

text \<open>What a write to the channel puts on the wire.\<close>

definition sc_writeLogin :: "LoginResponse \<Rightarrow> SessionChannel \<Rightarrow> DomainMsg list" where
  "sc_writeLogin r ch = (if sc_status ch = Connected then [M_LoginResponse r] else [])"

definition sc_writeStatus :: "OrderStatus \<Rightarrow> SessionChannel \<Rightarrow> DomainMsg list" where
  "sc_writeStatus s ch = (if sc_isAuthenticated ch \<and> sc_status ch = Connected then [M_OrderStatus s] else [])"

section \<open>Authenticator\<close>

definition auth_post :: "(string \<Rightarrow> string \<Rightarrow> StatusCode + ClientId) \<Rightarrow> ServerLoginRequest \<Rightarrow> ServerLoginResponse" where
  "auth_post checkCredentials r =
     (case checkCredentials (lr_name (slr_request r)) (lr_password (slr_request r)) of
        Inr c \<Rightarrow> \<lparr>slp_connectionId = slr_connectionId r, slp_clientId = c, slp_ok = True, slp_error = []\<rparr>
      | Inl e \<Rightarrow> \<lparr>slp_connectionId = slr_connectionId r, slp_clientId = 0, slp_ok = False, slp_error = StatusCode_toString e\<rparr>)"

section \<open>NetworkSessionManager\<close>

definition MAX_CONNECTIONS :: nat where "MAX_CONNECTIONS = 10"

record Session =
  se_clientId :: ClientId
  se_token :: Token
  se_upstream :: ConnectionId
  se_downstream :: "ConnectionId option"

record NetworkSessionManager =
  ns_chans :: "ConnectionId \<rightharpoonup> SessionChannel"
  ns_unauthUp :: "ConnectionId set"
  ns_unauthDown :: "ConnectionId set"
  ns_sessions :: "(ClientId \<times> Session) list"
  ns_connCounter :: u64
  ns_tokenCounter :: u64
  ns_stopRequested :: bool

type_synonym wire = "(ConnectionId \<times> DomainMsg) list"

definition ns_new :: NetworkSessionManager where
  "ns_new = \<lparr>ns_chans = Map.empty, ns_unauthUp = {}, ns_unauthDown = {}, ns_sessions = [], ns_connCounter = 0,
     ns_tokenCounter = 0, ns_stopRequested = False\<rparr>"

definition genConnectionId :: "NetworkSessionManager \<Rightarrow> ConnectionId \<times> NetworkSessionManager" where
  "genConnectionId m = (ucast (ucast (ns_connCounter m) :: u32), m\<lparr>ns_connCounter := ns_connCounter m + 1\<rparr>)"

definition genToken :: "NetworkSessionManager \<Rightarrow> Token \<times> NetworkSessionManager" where
  "genToken m = (ucast (ucast (ns_tokenCounter m) :: u32), m\<lparr>ns_tokenCounter := ns_tokenCounter m + 1\<rparr>)"

definition upd_chan :: "ConnectionId \<Rightarrow> (SessionChannel \<Rightarrow> SessionChannel) \<Rightarrow> NetworkSessionManager \<Rightarrow> NetworkSessionManager" where
  "upd_chan cid f m = m\<lparr>ns_chans := (ns_chans m)(cid := map_option f (ns_chans m cid))\<rparr>"

definition write_chan :: "ConnectionId \<Rightarrow> (SessionChannel \<Rightarrow> DomainMsg list) \<Rightarrow> NetworkSessionManager \<Rightarrow> wire" where
  "write_chan cid w m = (case ns_chans m cid of None \<Rightarrow> [] | Some ch \<Rightarrow> map (Pair cid) (w ch))"

definition acceptUpstream :: "NetworkSessionManager \<Rightarrow> NetworkSessionManager" where
  "acceptUpstream m =
     (if ns_stopRequested m then m
      else case genConnectionId m of
             (cid, m) \<Rightarrow>
               if length (ns_sessions m) \<ge> MAX_CONNECTIONS then m
               else m\<lparr>ns_chans := (ns_chans m)(cid \<mapsto> sc_new Upstream), ns_unauthUp := insert cid (ns_unauthUp m)\<rparr>)"

definition acceptDownstream :: "NetworkSessionManager \<Rightarrow> NetworkSessionManager" where
  "acceptDownstream m =
     (if ns_stopRequested m then m
      else case genConnectionId m of
             (cid, m) \<Rightarrow>
               if length (ns_sessions m) \<ge> MAX_CONNECTIONS then m
               else m\<lparr>ns_chans := (ns_chans m)(cid \<mapsto> sc_new Downstream), ns_unauthDown := insert cid (ns_unauthDown m)\<rparr>)"

definition ns_close :: "NetworkSessionManager \<Rightarrow> NetworkSessionManager" where
  "ns_close m = m\<lparr>ns_chans := (\<lambda>cid. map_option sc_close (ns_chans m cid)), ns_sessions := [], ns_unauthUp := {}, ns_unauthDown := {}\<rparr>"

definition ns_postStatus :: "ServerOrderStatus \<Rightarrow> NetworkSessionManager \<Rightarrow> wire" where
  "ns_postStatus status m =
     (if ns_stopRequested m then []
      else case map_of (ns_sessions m) (sos_clientId status) of
             None \<Rightarrow> []
           | Some se \<Rightarrow>
               (case se_downstream se of
                  Some d \<Rightarrow> write_chan d (sc_writeStatus (sos_orderStatus status)) m
                | None \<Rightarrow> []))"

definition ns_postLogin :: "ServerLoginResponse \<Rightarrow> NetworkSessionManager \<Rightarrow> wire \<times> NetworkSessionManager" where
  "ns_postLogin r m =
     (if ns_stopRequested m \<or> slp_connectionId r \<notin> ns_unauthUp m then ([], m)
      else
        let cid = slp_connectionId r;
            m = m\<lparr>ns_unauthUp := ns_unauthUp m - {cid}\<rparr>
        in if \<not> slp_ok r
           then (write_chan cid (sc_writeLogin \<lparr>lp_token = 0, lp_ok = False, lp_error = slp_error r\<rparr>) m, upd_chan cid sc_close m)
           else
             (case genToken m of
                (token, m) \<Rightarrow>
                  if map_of (ns_sessions m) (slp_clientId r) \<noteq> None
                  then (write_chan cid (sc_writeLogin \<lparr>lp_token = 0, lp_ok = False, lp_error = ''Already authorized''\<rparr>) m,
                        upd_chan cid sc_close m)
                  else
                    (write_chan cid (sc_writeLogin \<lparr>lp_token = token, lp_ok = True, lp_error = []\<rparr>) m,
                     upd_chan cid (sc_authenticate (slp_clientId r))
                       (m\<lparr>ns_sessions := ns_sessions m @
                            [(slp_clientId r, \<lparr>se_clientId = slp_clientId r, se_token = token, se_upstream = cid, se_downstream = None\<rparr>)]\<rparr>))))"

definition bind_session :: "ClientId \<Rightarrow> ConnectionId \<Rightarrow> (ClientId \<times> Session) list \<Rightarrow> (ClientId \<times> Session) list" where
  "bind_session c cid ss = map (\<lambda>(k, se). (k, if k = c then se\<lparr>se_downstream := Some cid\<rparr> else se)) ss"

definition ns_postBind :: "ServerTokenBindRequest \<Rightarrow> NetworkSessionManager \<Rightarrow> wire \<times> NetworkSessionManager" where
  "ns_postBind r m =
     (if ns_stopRequested m \<or> stb_connectionId r \<notin> ns_unauthDown m then ([], m)
      else
        let cid = stb_connectionId r;
            token = tb_token (stb_request r);
            m = m\<lparr>ns_unauthDown := ns_unauthDown m - {cid}\<rparr>
        in case find (\<lambda>(k, se). se_token se = token) (ns_sessions m) of
             None \<Rightarrow>
               (write_chan cid (sc_writeLogin \<lparr>lp_token = 0, lp_ok = False, lp_error = ''Invalid token''\<rparr>) m, upd_chan cid sc_close m)
           | Some (k, se) \<Rightarrow>
               if se_downstream se = None
               then
                 let m = upd_chan cid (sc_authenticate (se_clientId se)) (m\<lparr>ns_sessions := bind_session k cid (ns_sessions m)\<rparr>)
                 in (write_chan cid (sc_writeLogin \<lparr>lp_token = token, lp_ok = True, lp_error = []\<rparr>) m, m)
               else
                 (write_chan cid (sc_writeLogin \<lparr>lp_token = 0, lp_ok = False, lp_error = ''Already connected''\<rparr>) m,
                  upd_chan cid sc_close m))"

text \<open>\<^verbatim>\<open>unauthorizedUpstreamMap_.erase\<close> and its twin: the last reference goes, which closes the channel.\<close>

definition forget_chan :: "ConnectionId \<Rightarrow> NetworkSessionManager \<Rightarrow> NetworkSessionManager" where
  "forget_chan cid m =
     (let m' = (if cid \<in> ns_unauthUp m \<or> cid \<in> ns_unauthDown m then upd_chan cid sc_close m else m)
      in m'\<lparr>ns_unauthUp := ns_unauthUp m' - {cid}, ns_unauthDown := ns_unauthDown m' - {cid}\<rparr>)"

text \<open>A disconnected client with a session whose downstream channel was never bound: the handler calls
  \<^verbatim>\<open>close\<close> through the null pointer.\<close>

definition ns_postChannel :: "ChannelStatusEvent \<Rightarrow> NetworkSessionManager \<Rightarrow> NetworkSessionManager option" where
  "ns_postChannel ev m =
     (case cse_status (chse_event ev) of
        Connected \<Rightarrow> Some m
      | _ \<Rightarrow>
          (let cleanup = forget_chan (cse_connectionId (chse_event ev))
           in case chse_clientId ev of
                None \<Rightarrow> Some (cleanup m)
              | Some c \<Rightarrow>
                  (case map_of (ns_sessions m) c of
                     None \<Rightarrow> Some (cleanup m)
                   | Some se \<Rightarrow>
                       (case se_downstream se of
                          None \<Rightarrow> None
                        | Some d \<Rightarrow>
                            Some (cleanup (upd_chan (se_upstream se) sc_close (upd_chan d sc_close
                              (m\<lparr>ns_sessions := filter (\<lambda>(k, _). k \<noteq> c) (ns_sessions m)\<rparr>))))))))"

section \<open>The login protocol\<close>

text \<open>Requests, responses and channel events travel over the system bus, a FIFO queue; orders reach the
  gateway directly. \<open>ss_verified\<close> records which client the database returned for which connection.\<close>

datatype sys_msg = Q_Msg SessionMsg | Q_Response ServerLoginResponse

record SessionSystem =
  ss_mgr :: NetworkSessionManager
  ss_queue :: "sys_msg list"
  ss_orders :: "(ConnectionId \<times> ServerOrder) list"
  ss_statuses :: "(ConnectionId \<times> ClientId) list"
  ss_verified :: "(ConnectionId \<times> ClientId) set"

definition ss_new :: SessionSystem where
  "ss_new = \<lparr>ss_mgr = ns_new, ss_queue = [], ss_orders = [], ss_statuses = [], ss_verified = {}\<rparr>"

definition ss_recv :: "ConnectionId \<Rightarrow> DomainMsg \<Rightarrow> SessionSystem \<Rightarrow> SessionSystem" where
  "ss_recv cid msg s =
     (case ns_chans (ss_mgr s) cid of
        None \<Rightarrow> s
      | Some ch \<Rightarrow>
          if sc_status ch \<noteq> Connected then s
          else case restricted_post cid ch msg of
                 None \<Rightarrow> s
               | Some (SM_Order ord) \<Rightarrow> s\<lparr>ss_orders := ss_orders s @ [(cid, ord)]\<rparr>
               | Some sm \<Rightarrow> s\<lparr>ss_queue := ss_queue s @ [Q_Msg sm]\<rparr>)"

definition ss_ioError :: "ConnectionId \<Rightarrow> SessionSystem \<Rightarrow> SessionSystem" where
  "ss_ioError cid s =
     (case ns_chans (ss_mgr s) cid of
        None \<Rightarrow> s
      | Some ch \<Rightarrow>
          s\<lparr>ss_mgr := upd_chan cid (\<lambda>ch. ch\<lparr>sc_status := ConnError\<rparr>) (ss_mgr s),
            ss_queue := ss_queue s @ [Q_Msg (session_status ch \<lparr>cse_connectionId = cid, cse_status = ConnError\<rparr>)]\<rparr>)"

definition ss_dispatch :: "(string \<Rightarrow> string \<Rightarrow> StatusCode + ClientId) \<Rightarrow> SessionSystem \<Rightarrow> SessionSystem option" where
  "ss_dispatch check s =
     (case ss_queue s of
        [] \<Rightarrow> Some s
      | q # qs \<Rightarrow>
          let s = s\<lparr>ss_queue := qs\<rparr> in
          case q of
            Q_Msg (SM_Login r) \<Rightarrow>
              (let resp = auth_post check r
               in Some (s\<lparr>ss_queue := qs @ [Q_Response resp],
                          ss_verified := (if slp_ok resp then insert (slp_connectionId resp, slp_clientId resp) (ss_verified s)
                                          else ss_verified s)\<rparr>))
          | Q_Msg (SM_Bind r) \<Rightarrow> Some (s\<lparr>ss_mgr := snd (ns_postBind r (ss_mgr s))\<rparr>)
          | Q_Msg (SM_Status ev) \<Rightarrow> map_option (\<lambda>m. s\<lparr>ss_mgr := m\<rparr>) (ns_postChannel ev (ss_mgr s))
          | Q_Msg (SM_Order ord) \<Rightarrow> Some s
          | Q_Response r \<Rightarrow> Some (s\<lparr>ss_mgr := snd (ns_postLogin r (ss_mgr s))\<rparr>))"

definition ss_status :: "ServerOrderStatus \<Rightarrow> SessionSystem \<Rightarrow> SessionSystem" where
  "ss_status st s =
     s\<lparr>ss_statuses := ss_statuses s @ map (\<lambda>(cid, _). (cid, sos_clientId st)) (ns_postStatus st (ss_mgr s))\<rparr>"

text \<open>The states reached by any interleaving; connection ids are 32-bit counters, so fewer than
  \<open>2 ^ 32\<close> connections are accepted.\<close>

inductive ss_reach :: "(string \<Rightarrow> string \<Rightarrow> StatusCode + ClientId) \<Rightarrow> SessionSystem \<Rightarrow> bool" for check where
  init: "ss_reach check ss_new"
| up: "ss_reach check s \<Longrightarrow> ns_connCounter (ss_mgr s) < 2 ^ 32 - 1 \<Longrightarrow> ss_reach check (s\<lparr>ss_mgr := acceptUpstream (ss_mgr s)\<rparr>)"
| down: "ss_reach check s \<Longrightarrow> ns_connCounter (ss_mgr s) < 2 ^ 32 - 1 \<Longrightarrow> ss_reach check (s\<lparr>ss_mgr := acceptDownstream (ss_mgr s)\<rparr>)"
| recv: "ss_reach check s \<Longrightarrow> ss_reach check (ss_recv cid msg s)"
| ioError: "ss_reach check s \<Longrightarrow> ss_reach check (ss_ioError cid s)"
| dispatch: "ss_reach check s \<Longrightarrow> ss_dispatch check s = Some s' \<Longrightarrow> ss_reach check s'"
| status: "ss_reach check s \<Longrightarrow> ss_reach check (ss_status st s)"
| close: "ss_reach check s \<Longrightarrow> ss_reach check (s\<lparr>ss_mgr := ns_close (ss_mgr s)\<rparr>)"

section \<open>Invariant\<close>

definition fresh_ids :: "NetworkSessionManager \<Rightarrow> bool" where
  "fresh_ids m \<longleftrightarrow> unat (ns_connCounter m) < 2 ^ 32 \<and> (\<forall>cid \<in> dom (ns_chans m). unat cid < unat (ns_connCounter m))"

definition chans_ok :: "(ConnectionId \<times> ClientId) set \<Rightarrow> NetworkSessionManager \<Rightarrow> bool" where
  "chans_ok V m \<longleftrightarrow> fresh_ids m \<and>
     (\<forall>cid ch c. ns_chans m cid = Some ch \<longrightarrow> sc_dir ch = Upstream \<longrightarrow> sc_clientId ch = Some c \<longrightarrow> (cid, c) \<in> V) \<and>
     (\<forall>cid \<in> ns_unauthUp m. \<exists>ch. ns_chans m cid = Some ch \<and> sc_dir ch = Upstream) \<and>
     (\<forall>cid \<in> ns_unauthDown m. \<exists>ch. ns_chans m cid = Some ch \<and> sc_dir ch = Downstream \<and> sc_clientId ch = None) \<and>
     (\<forall>(k, se) \<in> set (ns_sessions m). se_clientId se = k \<and>
        (case se_downstream se of None \<Rightarrow> True
         | Some d \<Rightarrow> \<exists>ch. ns_chans m d = Some ch \<and> sc_dir ch = Downstream \<and> sc_clientId ch = Some k))"

text \<open>Most handlers keep the identities of the channels and only forget references to them.\<close>

definition same_identity :: "NetworkSessionManager \<Rightarrow> NetworkSessionManager \<Rightarrow> bool" where
  "same_identity m m' \<longleftrightarrow> ns_connCounter m' = ns_connCounter m \<and>
     (\<forall>cid. map_option (\<lambda>ch. (sc_dir ch, sc_clientId ch)) (ns_chans m' cid) =
        map_option (\<lambda>ch. (sc_dir ch, sc_clientId ch)) (ns_chans m cid)) \<and>
     ns_unauthUp m' \<subseteq> ns_unauthUp m \<and> ns_unauthDown m' \<subseteq> ns_unauthDown m \<and> set (ns_sessions m') \<subseteq> set (ns_sessions m)"

definition has_identity :: "NetworkSessionManager \<Rightarrow> ConnectionId \<Rightarrow> direction \<Rightarrow> ClientId option \<Rightarrow> bool" where
  "has_identity m cid d c \<longleftrightarrow> map_option (\<lambda>ch. (sc_dir ch, sc_clientId ch)) (ns_chans m cid) = Some (d, c)"

lemma has_identity_iff: "has_identity m cid d c \<longleftrightarrow> (\<exists>ch. ns_chans m cid = Some ch \<and> sc_dir ch = d \<and> sc_clientId ch = c)"
  by (auto simp: has_identity_def)

lemma same_identity_has: "same_identity m m' \<Longrightarrow> has_identity m' cid d c = has_identity m cid d c"
  by (simp add: same_identity_def has_identity_def)

lemma chans_ok_alt:
  "chans_ok V m \<longleftrightarrow> fresh_ids m \<and>
     (\<forall>cid c. has_identity m cid Upstream (Some c) \<longrightarrow> (cid, c) \<in> V) \<and>
     (\<forall>cid \<in> ns_unauthUp m. \<exists>c. has_identity m cid Upstream c) \<and>
     (\<forall>cid \<in> ns_unauthDown m. has_identity m cid Downstream None) \<and>
     (\<forall>(k, se) \<in> set (ns_sessions m). se_clientId se = k \<and>
        (\<forall>d. se_downstream se = Some d \<longrightarrow> has_identity m d Downstream (Some k)))"
  by (auto simp: chans_ok_def has_identity_iff split: option.splits)

lemma same_identity_dom: "same_identity m m' \<Longrightarrow> dom (ns_chans m') = dom (ns_chans m)"
proof -
  assume s: "same_identity m m'"
  have "ns_chans m' x = None \<longleftrightarrow> ns_chans m x = None" for x
  proof -
    have "map_option (\<lambda>ch. (sc_dir ch, sc_clientId ch)) (ns_chans m' x) = map_option (\<lambda>ch. (sc_dir ch, sc_clientId ch)) (ns_chans m x)"
      using s by (simp add: same_identity_def)
    then show ?thesis by (cases "ns_chans m' x"; cases "ns_chans m x") simp_all
  qed
  then show ?thesis by (simp add: dom_def)
qed

lemma chans_ok_same:
  assumes "chans_ok V m" "same_identity m m'"
  shows "chans_ok V m'"
proof -
  have "fresh_ids m'" using assms same_identity_dom[OF assms(2)]
    by (simp add: chans_ok_alt fresh_ids_def same_identity_def)
  moreover have "ns_unauthUp m' \<subseteq> ns_unauthUp m" "ns_unauthDown m' \<subseteq> ns_unauthDown m" "set (ns_sessions m') \<subseteq> set (ns_sessions m)"
    using assms(2) by (auto simp: same_identity_def)
  ultimately show ?thesis using assms(1) unfolding chans_ok_alt same_identity_has[OF assms(2)] by fast
qed

lemma chans_ok_mono: "chans_ok V m \<Longrightarrow> V \<subseteq> V' \<Longrightarrow> chans_ok V' m"
  unfolding chans_ok_alt by blast

lemma same_identity_refl [simp]: "same_identity m m"
  by (simp add: same_identity_def)

lemma same_identity_trans: "same_identity m m' \<Longrightarrow> same_identity m' m'' \<Longrightarrow> same_identity m m''"
  by (auto simp: same_identity_def)

lemma same_identity_upd:
  assumes "\<And>ch. sc_dir (f ch) = sc_dir ch \<and> sc_clientId (f ch) = sc_clientId ch"
  shows "same_identity m (upd_chan cid f m)"
  using assms by (simp add: same_identity_def upd_chan_def option.map_comp comp_def)

lemma same_identity_close: "same_identity m (upd_chan cid sc_close m)"
  by (rule same_identity_upd) (simp add: sc_close_def)

text \<open>The identities that clients rely on persist.\<close>

definition extends :: "NetworkSessionManager \<Rightarrow> NetworkSessionManager \<Rightarrow> bool" where
  "extends m m' \<longleftrightarrow> (\<forall>cid d c. has_identity m cid d (Some c) \<longrightarrow> has_identity m' cid d (Some c))"

lemma same_extends: "same_identity m m' \<Longrightarrow> extends m m'"
  by (simp add: extends_def same_identity_has)

lemma authenticate_identity:
  "has_identity (upd_chan cid (sc_authenticate k) m) x d c \<longleftrightarrow>
     (if x = cid then (has_identity m cid d c \<and> c \<noteq> None) \<or> (c = Some k \<and> has_identity m cid d None) else has_identity m x d c)"
proof (cases "x = cid")
  case True
  show ?thesis
  proof (cases "ns_chans m cid")
    case (Some ch)
    then show ?thesis using True
      by (cases "sc_clientId ch") (auto simp: has_identity_def upd_chan_def sc_authenticate_def sc_isAuthenticated_def)
  qed (use True in \<open>simp add: has_identity_def upd_chan_def\<close>)
qed (simp add: has_identity_def upd_chan_def)

lemma authenticate_extends: "extends m (upd_chan cid (sc_authenticate k) m)"
  by (auto simp: extends_def authenticate_identity)

lemma upd_chan_simps [simp]:
  "ns_unauthUp (upd_chan cid f m) = ns_unauthUp m" "ns_unauthDown (upd_chan cid f m) = ns_unauthDown m"
  "ns_sessions (upd_chan cid f m) = ns_sessions m" "ns_connCounter (upd_chan cid f m) = ns_connCounter m"
  "dom (ns_chans (upd_chan cid f m)) = dom (ns_chans m)"
  by (auto simp: upd_chan_def)

lemma has_identity_cong: "ns_chans m' = ns_chans m \<Longrightarrow> has_identity m' = has_identity m"
  by (simp add: has_identity_def fun_eq_iff)

section \<open>Every handler keeps it\<close>

lemma acceptor_ok:
  assumes "chans_ok V m" "ns_connCounter m < 2 ^ 32 - 1" "m' = acceptUpstream m \<or> m' = acceptDownstream m"
  shows "chans_ok V m' \<and> extends m m'"
proof -
  define cid where "cid = (ucast (ucast (ns_connCounter m) :: u32) :: ConnectionId)"
  have lt: "unat (ns_connCounter m) < 2 ^ 32 - 1" using assms(2) by (simp add: word_less_nat_alt)
  have cid: "cid = ns_connCounter m" using ucast_token lt by (simp add: cid_def)
  have cnt: "unat (ns_connCounter m + 1) = unat (ns_connCounter m) + 1" using lt by (simp add: unat_word_ariths)
  have fresh: "\<forall>x \<in> dom (ns_chans m). unat x < unat (ns_connCounter m)" using assms(1) by (simp add: chans_ok_def fresh_ids_def)
  then have new: "ns_chans m cid = None" using cid by (metis domIff less_irrefl)
  have f': "\<forall>x \<in> dom (ns_chans m). unat x < unat (ns_connCounter m + 1)" using fresh by (simp add: cnt less_Suc_eq)
  have no_id: "\<not> has_identity m cid d c" for d c using new by (simp add: has_identity_iff)
  let ?m1 = "m\<lparr>ns_connCounter := ns_connCounter m + 1\<rparr>"
  have ok1: "chans_ok V ?m1 \<and> extends m ?m1"
    using assms(1) f' cnt lt has_identity_cong[of ?m1 m] by (simp add: chans_ok_alt fresh_ids_def extends_def)
  define m2 where "m2 d = ?m1\<lparr>ns_chans := (ns_chans m)(cid \<mapsto> sc_new d),
        ns_unauthUp := (if d = Upstream then insert cid (ns_unauthUp m) else ns_unauthUp m),
        ns_unauthDown := (if d = Downstream then insert cid (ns_unauthDown m) else ns_unauthDown m)\<rparr>" for d
  have id: "has_identity (m2 d) x e c \<longleftrightarrow> (if x = cid then e = d \<and> c = None else has_identity m x e c)" for d x e c
    by (auto simp: has_identity_iff sc_new_def m2_def)
  have ext: "extends m (m2 d)" for d using no_id by (auto simp: extends_def id)
  have ins: "chans_ok V (m2 d)" for d
  proof -
    have "unat cid < unat (ns_connCounter m + 1)" using cid cnt by simp
    then have "fresh_ids (m2 d)" using f' cnt lt by (auto simp: fresh_ids_def m2_def)
    moreover have un: "cid \<notin> ns_unauthUp m" "cid \<notin> ns_unauthDown m"
      using assms(1) no_id by (auto simp: chans_ok_alt)
    moreover have "\<forall>(k, se) \<in> set (ns_sessions m). se_clientId se = k \<and>
        (\<forall>d'. se_downstream se = Some d' \<longrightarrow> has_identity (m2 d) d' Downstream (Some k))"
      using assms(1) no_id unfolding chans_ok_alt id by fastforce
    moreover have "\<forall>x \<in> ns_unauthUp (m2 d). \<exists>c. has_identity (m2 d) x Upstream c"
      "\<forall>x \<in> ns_unauthDown (m2 d). has_identity (m2 d) x Downstream None"
      using assms(1) un unfolding chans_ok_alt id by (auto simp: m2_def)
    moreover have "\<forall>x c. has_identity (m2 d) x Upstream (Some c) \<longrightarrow> (x, c) \<in> V"
      using assms(1) unfolding chans_ok_alt id by auto
    ultimately show ?thesis unfolding chans_ok_alt by (simp add: m2_def)
  qed
  have "m' = m \<or> m' = ?m1 \<or> m' = m2 Upstream \<or> m' = m2 Downstream"
    using assms(3) by (auto simp: acceptUpstream_def acceptDownstream_def genConnectionId_def cid_def[symmetric] m2_def)
  then show ?thesis using assms(1) ok1 ins ext same_extends[OF same_identity_refl] by blast
qed

lemma close_ok: "same_identity m (ns_close m)"
  by (auto simp: same_identity_def ns_close_def option.map_comp comp_def sc_close_def)

lemma login_ok:
  assumes ok: "chans_ok V m" and v: "slp_ok r \<Longrightarrow> (slp_connectionId r, slp_clientId r) \<in> V"
  shows "chans_ok V (snd (ns_postLogin r m)) \<and> extends m (snd (ns_postLogin r m))"
proof -
  define cid where "cid = slp_connectionId r"
  define m1 where "m1 = m\<lparr>ns_unauthUp := ns_unauthUp m - {cid}\<rparr>"
  define m2 where "m2 = m1\<lparr>ns_tokenCounter := ns_tokenCounter m1 + 1\<rparr>"
  have s1: "same_identity m m1" "same_identity m m2" by (auto simp: same_identity_def m1_def m2_def)
  note c1 = same_identity_trans[OF s1(1) same_identity_close[of m1 cid]]
    same_identity_trans[OF s1(2) same_identity_close[of m2 cid]]
  show ?thesis
  proof (cases "ns_stopRequested m \<or> cid \<notin> ns_unauthUp m \<or> \<not> slp_ok r \<or> map_of (ns_sessions m) (slp_clientId r) \<noteq> None")
    case True
    then have "same_identity m (snd (ns_postLogin r m))"
      using c1 by (auto simp: ns_postLogin_def cid_def[symmetric] m1_def[symmetric] Let_def genToken_def m2_def[symmetric])
        (simp_all add: m2_def m1_def)
    then show ?thesis using chans_ok_same[OF ok] same_extends by blast
  next
    case False
    define m3 where "m3 = m2\<lparr>ns_sessions := ns_sessions m @ [(slp_clientId r, \<lparr>se_clientId = slp_clientId r,
       se_token = fst (genToken m1), se_upstream = cid, se_downstream = None\<rparr>)]\<rparr>"
    define m4 where "m4 = upd_chan cid (sc_authenticate (slp_clientId r)) m3"
    have res: "snd (ns_postLogin r m) = m4"
      using False by (simp add: ns_postLogin_def cid_def[symmetric] Let_def genToken_def m1_def m2_def m3_def m4_def)
    have h3: "has_identity m3 = has_identity m" by (rule has_identity_cong) (simp add: m3_def m2_def m1_def)
    obtain c0 where up: "has_identity m cid Upstream c0" using ok False by (auto simp: chans_ok_alt)
    have nd: "\<not> has_identity m cid Downstream c" for c using up by (auto simp: has_identity_iff)
    have id: "has_identity m4 x d c \<longleftrightarrow> (if x = cid then (has_identity m cid d c \<and> c \<noteq> None) \<or>
        (c = Some (slp_clientId r) \<and> has_identity m cid d None) else has_identity m x d c)" for x d c
      unfolding m4_def authenticate_identity h3 ..
    have "fresh_ids m4" using ok by (simp add: chans_ok_def fresh_ids_def m4_def) (simp add: m3_def m2_def m1_def)
    moreover have "ns_unauthUp m4 = ns_unauthUp m - {cid}" "ns_unauthDown m4 = ns_unauthDown m"
      by (simp_all add: m4_def m3_def m2_def m1_def)
    moreover have "set (ns_sessions m4) = insert (slp_clientId r, \<lparr>se_clientId = slp_clientId r,
       se_token = fst (genToken m1), se_upstream = cid, se_downstream = None\<rparr>) (set (ns_sessions m))"
      by (simp add: m4_def m3_def)
    ultimately have "chans_ok V m4" using ok v False nd unfolding chans_ok_alt id
      by (auto simp: cid_def[symmetric] split: if_splits)
    moreover have "extends m m4" by (auto simp: extends_def id)
    ultimately show ?thesis using res by simp
  qed
qed

end
