(* ===== verification/Db_Adapter.thy ===== *)
theory Db_Adapter
  imports Market_Data Session Text_Utils
begin

text \<open>
  The database adapter of \<^verbatim>\<open>common/src/adapters/postgres\<close>: reading the tickers with their cache, checking
  credentials, the connection string, and the row cursor of \<^verbatim>\<open>TableReader\<close>. What the database answers is a
  parameter: each statement succeeds, fails with an SQL error or throws another exception, and each field
  of a row converts to the type asked for or makes the conversion throw.
\<close>

section \<open>The database\<close>

datatype db_failure = SqlError string | OtherException string

type_synonym 'a db = "db_failure + 'a"

text \<open>\<open>tq_begin\<close> is opening the transaction and setting the time-out; \<open>tq_count\<close> is \<open>None\<close> for an empty result.\<close>

record tickers_query =
  tq_begin :: "unit db"
  tq_count :: "nat option db"
  tq_rows :: "(string db \<times> u64 db) list db"
  tq_commit :: "unit db"

section \<open>Reading the tickers\<close>

text \<open>The loop appends to the static vector row by row; a conversion that throws leaves what was appended.\<close>

fun append_rows :: "(string db \<times> u64 db) list \<Rightarrow> TickerPrice list \<Rightarrow> bool \<times> TickerPrice list" where
  "append_rows [] tickers = (True, tickers)"
| "append_rows ((Inr t, Inr p) # rows) tickers =
     append_rows rows (tickers @ [\<lparr>tp_ticker = toTicker t, tp_price = ucast p\<rparr>])"
| "append_rows (_ # rows) tickers = (False, tickers)"

text \<open>The result and the static vector after the call.\<close>

definition pg_readTickers ::
  "tickers_query \<Rightarrow> bool \<Rightarrow> TickerPrice list \<Rightarrow> (StatusCode + TickerPrice list) \<times> TickerPrice list" where
  "pg_readTickers db cache tickers =
     (if cache \<and> tickers \<noteq> [] then (Inr tickers, tickers)
      else
        case (tq_begin db, tq_count db) of
          (Inr _, Inr None) \<Rightarrow> (Inr [], [])
        | (Inr _, Inr (Some n)) \<Rightarrow>
            if n = 0 then (Inr [], [])
            else (case tq_rows db of
                    Inl e \<Rightarrow> (Inl SC_DbError, [])
                  | Inr rows \<Rightarrow>
                      (case (append_rows rows [], tq_commit db) of
                         ((True, ts), Inr _) \<Rightarrow> (Inr ts, ts)
                       | ((_, ts), _) \<Rightarrow> (Inl SC_DbError, ts)))
        | _ \<Rightarrow> (Inl SC_DbError, []))"

section \<open>Credentials\<close>

text \<open>The rows of the clients table with the given name. Only SQL errors are caught.\<close>

definition pg_checkCredentials ::
  "(string \<Rightarrow> (ClientId db \<times> string db) list db) \<Rightarrow> string \<Rightarrow> string \<Rightarrow> ClientId outcome" where
  "pg_checkCredentials select name password =
     (case select name of
        Inl (SqlError e) \<Rightarrow> Unexpected SC_DbError
      | Inl (OtherException e) \<Rightarrow> Thrown e
      | Inr [] \<Rightarrow> Unexpected SC_AuthUserNotFound
      | Inr ((Inr clientId, Inr realPassword) # _) \<Rightarrow>
          if password = realPassword then Returned clientId else Unexpected SC_AuthInvalidPassword
      | Inr ((Inr clientId, Inl (SqlError e)) # _) \<Rightarrow> Unexpected SC_DbError
      | Inr ((Inr clientId, Inl (OtherException e)) # _) \<Rightarrow> Thrown e
      | Inr ((Inl (SqlError e), _) # _) \<Rightarrow> Unexpected SC_DbError
      | Inr ((Inl (OtherException e), _) # _) \<Rightarrow> Thrown e)"

section \<open>Connection string\<close>

definition env_or :: "(string \<Rightarrow> string option) \<Rightarrow> (string \<Rightarrow> string) \<Rightarrow> string \<Rightarrow> string \<Rightarrow> string" where
  "env_or env cfg var key = (case env var of None \<Rightarrow> cfg key | Some v \<Rightarrow> if v = [] then cfg key else v)"

definition getConnectionString :: "(string \<Rightarrow> string option) \<Rightarrow> (string \<Rightarrow> string) \<Rightarrow> string" where
  "getConnectionString env cfg =
     ''host='' @ env_or env cfg ''POSTGRES_HOST'' ''db.host'' @ '' port='' @ env_or env cfg ''POSTGRES_PORT'' ''db.port'' @
     '' user='' @ env_or env cfg ''POSTGRES_USER'' ''db.user'' @
     '' password='' @ env_or env cfg ''POSTGRES_PASSWORD'' ''db.password'' @
     '' dbname='' @ env_or env cfg ''POSTGRES_DB'' ''db.dbname'' @ '' connect_timeout=1''"

section \<open>Row cursor\<close>

record 'v TableReader =
  tr_result :: "'v list list"
  tr_cursor :: int

definition table_query :: "string \<Rightarrow> string" where
  "table_query table = ''SELECT * FROM '' @ table @ '';''"

definition table_open :: "'v list list \<Rightarrow> 'v TableReader" where
  "table_open rows = \<lparr>tr_result = rows, tr_cursor = - 1\<rparr>"

definition table_size :: "'v TableReader \<Rightarrow> nat" where
  "table_size r = length (tr_result r)"

definition table_empty :: "'v TableReader \<Rightarrow> bool" where
  "table_empty r \<longleftrightarrow> tr_result r = []"

definition table_next :: "'v TableReader \<Rightarrow> bool \<times> 'v TableReader" where
  "table_next r = (let c = tr_cursor r + 1 in (c < int (length (tr_result r)), r\<lparr>tr_cursor := c\<rparr>))"

definition table_get :: "nat \<Rightarrow> 'v TableReader \<Rightarrow> string + 'v" where
  "table_get col r =
     (if tr_cursor r < 0 \<or> tr_cursor r \<ge> int (length (tr_result r)) then Inl ''Row index out of range''
      else if col \<ge> length (tr_result r ! nat (tr_cursor r)) then Inl ''Column index out of range''
      else Inr (tr_result r ! nat (tr_cursor r) ! col))"

text \<open>A client's loop: \<^verbatim>\<open>while (reader.next()) use(reader.get(col));\<close>\<close>

function table_column :: "nat \<Rightarrow> 'v TableReader \<Rightarrow> (string + 'v) list" where
  "table_column col r =
     (case table_next r of (found, r') \<Rightarrow> if found then table_get col r' # table_column col r' else [])"
  by pat_completeness auto
termination
  by (relation "measure (\<lambda>(col, r). nat (int (length (tr_result r)) - tr_cursor r))") (auto simp: table_next_def Let_def)

section \<open>Properties\<close>

declare table_column.simps [simp del]

lemma table_column_from:
  "n \<le> length rows \<Longrightarrow> table_column col \<lparr>tr_result = rows, tr_cursor = int n - 1\<rparr> =
     map (\<lambda>row. if col < length row then Inr (row ! col) else Inl ''Column index out of range'') (drop n rows)"
proof (induction "length rows - n" arbitrary: n)
  case 0 then show ?case by (subst table_column.simps) (simp add: table_next_def Let_def)
next
  case (Suc d)
  then have n: "n < length rows" by simp
  have "table_column col \<lparr>tr_result = rows, tr_cursor = int n\<rparr> =
      map (\<lambda>row. if col < length row then Inr (row ! col) else Inl ''Column index out of range'') (drop (Suc n) rows)"
    using Suc.hyps(1)[of "Suc n"] Suc.hyps(2) n by simp
  then show ?case
    using n by (subst table_column.simps) (simp add: table_next_def Let_def table_get_def Cons_nth_drop_Suc[symmetric])
qed

text \<open>Iterating over a table visits every row exactly once, in order.\<close>

lemma table_reader_visits_rows:
  "table_column col (table_open rows) =
     map (\<lambda>row. if col < length row then Inr (row ! col) else Inl ''Column index out of range'') rows"
  using table_column_from[of 0 rows col] by (simp add: table_open_def)

lemma append_rows_ok:
  "append_rows rows ts = (True, ts') \<Longrightarrow> length ts' = length ts + length rows \<and> (\<exists>us. ts' = ts @ us)"
  by (induction rows ts rule: append_rows.induct) auto

text \<open>A read that fails half way leaves the rows converted so far in the cache, and the next cached read returns
  them as the whole table.\<close>

lemma partial_tickers_cached:
  "let db = \<lparr>tq_begin = Inr (), tq_count = Inr (Some 2), tq_rows = Inr [(Inr ''AAPL'', Inr 7), (Inl (OtherException ''null''), Inr 8)],
             tq_commit = Inr ()\<rparr>;
       (r1, c1) = pg_readTickers db True [];
       (r2, c2) = pg_readTickers db True c1
   in r1 = Inl SC_DbError \<and> r2 = Inr [\<lparr>tp_ticker = toTicker ''AAPL'', tp_price = 7\<rparr>]"
  by code_simp

text \<open>Once the tickers have been read, every later read with the cache returns the same ones whatever the database
  answers, so the books of the server and its price feed are built over the same tickers; a read succeeds
  only with every row of the table.\<close>

theorem tickers_cached:
  assumes "pg_readTickers db False old = (Inr ts, cache)"
  shows "cache = ts \<and> (ts \<noteq> [] \<longrightarrow> pg_readTickers db' True cache = (Inr ts, cache)) \<and>
    (ts \<noteq> [] \<longrightarrow> (\<exists>rows. tq_rows db = Inr rows \<and> length ts = length rows))"
  using assms append_rows_ok[of _ "[]" ts]
  by (auto simp: pg_readTickers_def split: sum.splits option.splits if_splits prod.splits bool.splits)

end
