(* ===== verification/Price_Feed.thy ===== *)
theory Price_Feed
  imports Market_Data
begin

text \<open>
  \<^verbatim>\<open>PriceFeed\<close> of \<^verbatim>\<open>server/src/price_feed.hpp\<close>: random price trends and their broadcast. Prices between two
  whole numbers are doubles; their arithmetic is the parameter \<open>fp\<close>, so everything shown here holds for any
  arithmetic. What the random generator draws is the parameter \<open>draw\<close> of the operations that call it: a rate, given the
  drift that shifts its bounds, and a number that selects a duration.
\<close>

record 'd fp_ops =
  fp_of_price :: "Price \<Rightarrow> 'd"
  fp_of_ticks :: "u64 \<Rightarrow> 'd"
  fp_mul :: "'d \<Rightarrow> 'd \<Rightarrow> 'd"
  fp_add :: "'d \<Rightarrow> 'd \<Rightarrow> 'd"
  fp_round :: "'d \<Rightarrow> Price"

record 'd Fluctuation =
  fl_base :: TickerPrice
  fl_price :: 'd
  fl_rate :: 'd
  fl_drift :: 'd
  fl_duration :: u64
  fl_lastUpdate :: u64

definition MIN_DURATION_US :: u64 where "MIN_DURATION_US = 100000"

definition MAX_DURATION_US :: u64 where "MAX_DURATION_US = 5000000"

type_synonym 'd rng_draw = "('d \<Rightarrow> 'd) \<times> nat"

definition draw_duration :: "nat \<Rightarrow> u64" where
  "draw_duration d = MIN_DURATION_US + of_nat (d mod unat (MAX_DURATION_US - MIN_DURATION_US + 1))"

definition randomize :: "'d fp_ops \<Rightarrow> 'd rng_draw \<Rightarrow> u64 \<Rightarrow> 'd Fluctuation \<Rightarrow> 'd Fluctuation" where
  "randomize fp draw now f = f\<lparr>fl_rate := fp_mul fp (fl_price f) (fst draw (fl_drift f)), fl_duration := draw_duration (snd draw), fl_lastUpdate := now\<rparr>"

definition fluctuation_new :: "'d fp_ops \<Rightarrow> 'd \<Rightarrow> 'd rng_draw \<Rightarrow> u64 \<Rightarrow> TickerPrice \<Rightarrow> 'd Fluctuation" where
  "fluctuation_new fp drift draw now base =
     randomize fp draw now \<lparr>fl_base = base, fl_price = fp_of_price fp (tp_price base), fl_rate = fp_of_price fp 0,
       fl_drift = drift, fl_duration = 0, fl_lastUpdate = 0\<rparr>"

definition fl_getPrice :: "'d fp_ops \<Rightarrow> 'd Fluctuation \<Rightarrow> Price" where
  "fl_getPrice fp f = fp_round fp (fl_price f)"

text \<open>The time an update applies to the price and what is left of the period.\<close>

definition time_slice :: "u64 \<Rightarrow> 'd Fluctuation \<Rightarrow> u64 \<times> u64" where
  "time_slice timeStamp f =
     (let timeDelta = timeStamp - fl_lastUpdate f
      in if fl_duration f > timeDelta then (timeDelta, fl_duration f - timeDelta) else (fl_duration f, 0))"

definition fl_update :: "'d fp_ops \<Rightarrow> 'd rng_draw \<Rightarrow> u64 \<Rightarrow> 'd Fluctuation \<Rightarrow> bool \<times> 'd Fluctuation" where
  "fl_update fp draw timeStamp f =
     (case time_slice timeStamp f of (timeDelta, duration) \<Rightarrow>
        let f = f\<lparr>fl_duration := duration, fl_price := fp_add fp (fl_price f) (fp_mul fp (fl_rate f) (fp_of_ticks fp timeDelta))\<rparr>;
            f = (if duration = 0 then randomize fp draw timeStamp f else f\<lparr>fl_lastUpdate := timeStamp\<rparr>)
        in (tp_price (fl_base f) \<noteq> fl_getPrice fp f, f))"

record 'd PriceFeed =
  pf_fluctuations :: "'d Fluctuation list"
  pf_updating :: bool
  pf_wait :: bool

definition pf_new :: "'d fp_ops \<Rightarrow> ('d \<times> 'd rng_draw) list \<Rightarrow> u64 \<Rightarrow> StatusCode + TickerPrice list \<Rightarrow> string + 'd PriceFeed" where
  "pf_new fp draws now readTickers =
     (case readTickers of
        Inl e \<Rightarrow> Inl ''Failed to load tickers''
      | Inr prices \<Rightarrow>
          Inr \<lparr>pf_fluctuations = map2 (\<lambda>(drift, draw) base. fluctuation_new fp drift draw now base) draws prices, pf_updating = False, pf_wait = False\<rparr>)"

definition schedulePriceUpdate :: "'d PriceFeed \<Rightarrow> 'd PriceFeed" where
  "schedulePriceUpdate p = (if pf_updating p then p\<lparr>pf_wait := True\<rparr> else p)"

definition pf_start :: "'d PriceFeed \<Rightarrow> 'd PriceFeed" where
  "pf_start p = schedulePriceUpdate (p\<lparr>pf_updating := True\<rparr>)"

text \<open>Cancelling the timer leaves its handler to run, with an error code or not.\<close>

definition pf_stop :: "'d PriceFeed \<Rightarrow> 'd PriceFeed" where
  "pf_stop p = p\<lparr>pf_updating := False\<rparr>"

fun updatePrices :: "'d fp_ops \<Rightarrow> 'd rng_draw list \<Rightarrow> u64 \<Rightarrow> 'd Fluctuation list \<Rightarrow> TickerPrice list \<times> 'd Fluctuation list" where
  "updatePrices fp (draw # draws) timeStamp (f # fs) =
     (let (changed, f') = fl_update fp draw timeStamp f;
          (msgs, fs') = updatePrices fp draws timeStamp fs
      in ((if changed then [\<lparr>tp_ticker = tp_ticker (fl_base f'), tp_price = fl_getPrice fp f'\<rparr>] else []) @ msgs, f' # fs'))"
| "updatePrices fp _ timeStamp fs = ([], fs)"

definition pf_timer :: "'d fp_ops \<Rightarrow> 'd rng_draw list \<Rightarrow> bool \<Rightarrow> u64 \<Rightarrow> 'd PriceFeed \<Rightarrow> TickerPrice list \<times> 'd PriceFeed" where
  "pf_timer fp draws ec timeStamp p =
     (if ec then ([], p\<lparr>pf_wait := False\<rparr>)
      else case updatePrices fp draws timeStamp (pf_fluctuations p) of
             (msgs, fs) \<Rightarrow> (msgs, schedulePriceUpdate (p\<lparr>pf_fluctuations := fs, pf_wait := False\<rparr>)))"

section \<open>Properties\<close>

lemma draw_duration_bounds: "MIN_DURATION_US \<le> draw_duration d \<and> draw_duration d \<le> MAX_DURATION_US"
proof -
  have v: "unat (MAX_DURATION_US - MIN_DURATION_US + 1) = 4900001" by (simp add: MAX_DURATION_US_def MIN_DURATION_US_def)
  have "d mod 4900001 < 4900001" by simp
  then have u: "unat (of_nat (d mod 4900001) :: u64) = d mod 4900001" by (simp add: unat_of_nat)
  have "unat (draw_duration d) = 100000 + d mod 4900001"
    unfolding draw_duration_def v unfolding MIN_DURATION_US_def using \<open>d mod 4900001 < 4900001\<close> u
    by (subst unat_add_lem[THEN iffD1]) simp_all
  then show ?thesis using \<open>d mod 4900001 < 4900001\<close> by (simp add: word_le_nat_alt MIN_DURATION_US_def MAX_DURATION_US_def)
qed

text \<open>A trend always has some time left.\<close>

definition fl_ok :: "'d Fluctuation \<Rightarrow> bool" where
  "fl_ok f \<longleftrightarrow> 0 < fl_duration f \<and> fl_duration f \<le> MAX_DURATION_US"

text \<open>An update applies at most the time left of the trend and at most the time that passed; the rest stays, and a
  trend that is used up is replaced by a new one.\<close>

lemma time_slice_sum:
  assumes "time_slice now f = (dt, rest)"
  shows "dt \<le> now - fl_lastUpdate f" "dt \<le> fl_duration f" "rest = fl_duration f - dt" "rest \<le> fl_duration f"
  using assms by (auto simp: time_slice_def Let_def word_le_nat_alt word_less_nat_alt unat_sub split: if_splits)

lemma fl_update_ok:
  assumes "fl_ok f" "fl_update fp draw now f = (changed, f')"
  shows "fl_ok f' \<and> fl_base f' = fl_base f \<and> fl_lastUpdate f' = now \<and> (changed \<longleftrightarrow> tp_price (fl_base f') \<noteq> fl_getPrice fp f')"
proof -
  obtain dt rest where ts: "time_slice now f = (dt, rest)" by fastforce
  have "0 < draw_duration d" "draw_duration d \<le> MAX_DURATION_US" for d
    using draw_duration_bounds[of d] by (auto simp: MIN_DURATION_US_def word_le_nat_alt word_less_nat_alt)
  moreover have "rest \<le> MAX_DURATION_US" using time_slice_sum(4)[OF ts] assms(1) by (auto simp: fl_ok_def intro: order_trans)
  ultimately show ?thesis
    using assms(2) by (auto simp: fl_update_def ts randomize_def fl_ok_def Let_def word_neq_0_conv split: if_splits)
qed

text \<open>One round of price updates, whatever the arithmetic of doubles: it posts, in the order of the tickers, exactly the prices that
  differ from the base price after rounding, at most one per ticker; every trend keeps its ticker and has time
  left, at most the longest period.\<close>

theorem price_update_round:
  assumes "length draws = length fs" "list_all fl_ok fs" "updatePrices fp draws now fs = (msgs, fs')"
  shows "list_all fl_ok fs' \<and> map fl_base fs' = map fl_base fs \<and>
    msgs = map (\<lambda>f. \<lparr>tp_ticker = tp_ticker (fl_base f), tp_price = fl_getPrice fp f\<rparr>)
             (filter (\<lambda>f. tp_price (fl_base f) \<noteq> fl_getPrice fp f) fs')"
  using assms
proof (induction draws fs arbitrary: msgs fs' rule: list_induct2)
  case (Cons draw draws f fs)
  obtain ch f1 where u: "fl_update fp draw now f = (ch, f1)" by fastforce
  obtain ms fs1 where r: "updatePrices fp draws now fs = (ms, fs1)" by fastforce
  show ?case using Cons.IH[OF _ r] Cons.prems fl_update_ok[OF _ u] by (auto simp: u r)
qed simp

text \<open>A price that grows by its rate, in whole numbers: after 2000 units of time the price 7 is 2007.\<close>

definition nat_ops :: "nat fp_ops" where
  "nat_ops = \<lparr>fp_of_price = unat, fp_of_ticks = unat, fp_mul = (*), fp_add = (+), fp_round = of_nat\<rparr>"

definition demo_trend :: "nat Fluctuation" where
  "demo_trend = \<lparr>fl_base = \<lparr>tp_ticker = makeTicker ''AAPL'', tp_price = 7\<rparr>, fl_price = 7, fl_rate = 1, fl_drift = 0,
     fl_duration = 100000, fl_lastUpdate = 1000\<rparr>"

theorem price_update_round_witness:
  "fst (updatePrices nat_ops [(id, 0)] 3000 [demo_trend]) = [\<lparr>tp_ticker = makeTicker ''AAPL'', tp_price = 2007\<rparr>] \<and>
   list_all fl_ok (snd (updatePrices nat_ops [(id, 0)] 3000 [demo_trend]))"
proof -
  obtain msgs fs' where r: "updatePrices nat_ops [(id, 0)] 3000 [demo_trend] = (msgs, fs')" by fastforce
  have "list_all fl_ok [demo_trend]" by code_simp
  then have "list_all fl_ok fs'" using price_update_round[OF _ _ r] by simp
  moreover have "fst (updatePrices nat_ops [(id, 0)] 3000 [demo_trend]) = [\<lparr>tp_ticker = makeTicker ''AAPL'', tp_price = 2007\<rparr>]"
    by code_simp
  ultimately show ?thesis by (metis r snd_conv)
qed

text \<open>After a stop the outstanding wait is the last one.\<close>

lemma pf_stopped_wait:
  "pf_wait (snd (pf_timer fp draws ec now (pf_stop p))) = False"
  by (simp add: pf_timer_def pf_stop_def schedulePriceUpdate_def split: prod.splits)

end
