(* ===== verification/Ring_Buffer.thy ===== *)
theory Ring_Buffer
  imports Prelude
begin

text \<open>
  Circular storage as a list: \<open>ring N a h n\<close> are the \<open>n\<close> elements of an array of size \<open>N\<close>
  starting at position \<open>h\<close>, wrapping around. The id pool and the lock-free queues use it as
  their abstraction.
\<close>

definition ring :: "nat \<Rightarrow> (nat \<Rightarrow> 'a) \<Rightarrow> nat \<Rightarrow> nat \<Rightarrow> 'a list" where
  "ring N a h n = map (\<lambda>k. a ((h + k) mod N)) [0..<n]"

lemma length_ring [simp]: "length (ring N a h n) = n"
  by (simp add: ring_def)

lemma ring_0 [simp]: "ring N a h 0 = []"
  by (simp add: ring_def)

lemma ring_mod [simp]: "ring N a (h mod N) n = ring N a h n"
  by (simp add: ring_def mod_add_left_eq)

lemma ring_Suc: "ring N a h (Suc n) = a (h mod N) # ring N a (Suc h) n"
  by (simp add: ring_def map_upt_Suc del: upt_Suc)

lemma ring_snoc: "ring N a h (Suc n) = ring N a h n @ [a ((h + n) mod N)]"
  by (simp add: ring_def)

lemma mod_add_neq:
  fixes h k n N :: nat
  assumes "k < n" "n < N"
  shows "(h + k) mod N \<noteq> (h + n) mod N"
proof
  assume "(h + k) mod N = (h + n) mod N"
  then have "N dvd n - k"
    using assms mod_eq_dvd_iff_nat[of "h + k" "h + n" N] by simp
  then show False using assms by (auto dest: dvd_imp_le)
qed

lemma ring_push:
  assumes "n < N"
  shows "ring N (a((h + n) mod N := v)) h (Suc n) = ring N a h n @ [v]"
  using assms by (auto simp: ring_snoc ring_def mod_add_neq)

lemma ring_cong:
  assumes "\<And>k. k < n \<Longrightarrow> a ((h + k) mod N) = a' ((h + k) mod N)"
  shows "ring N a h n = ring N a' h n"
  using assms by (auto simp: ring_def)

section \<open>Wrapped positions\<close>

definition ring_len :: "nat \<Rightarrow> nat \<Rightarrow> nat \<Rightarrow> nat" where
  "ring_len N h t = (if h \<le> t then t - h else t + N - h)"

lemma ring_len_less: "h < N \<Longrightarrow> t < N \<Longrightarrow> ring_len N h t < N"
  by (auto simp: ring_len_def)

lemma ring_len_0: "h < N \<Longrightarrow> t < N \<Longrightarrow> ring_len N h t = 0 \<longleftrightarrow> h = t"
  by (auto simp: ring_len_def)

lemma ring_len_tail: "h < N \<Longrightarrow> t < N \<Longrightarrow> (h + ring_len N h t) mod N = t"
  by (auto simp: ring_len_def)

lemma Suc_mod_if: "h < N \<Longrightarrow> Suc h mod N = (if Suc h = N then 0 else Suc h)"
  by auto

lemma ring_len_pop:
  assumes "h < N" "t < N" "h \<noteq> t"
  shows "ring_len N h t = Suc (ring_len N (Suc h mod N) t)"
  using assms by (auto simp: ring_len_def Suc_mod_if)

lemma ring_len_push:
  assumes "h < N" "t < N" "Suc (ring_len N h t) < N"
  shows "ring_len N h (Suc t mod N) = Suc (ring_len N h t)"
  using assms by (auto simp: ring_len_def Suc_mod_if split: if_splits)

end
