(* ===== verification/Slot_Id_Pool.thy ===== *)
theory Slot_Id_Pool
  imports Id_Pool Ring_Buffer
begin

text \<open>
  \<^verbatim>\<open>SlotIdPool\<close> of \<^verbatim>\<open>common/src/id/slot_id_pool.hpp\<close>: the gateway releases ids into a shared
  ring, the network thread moves them into a private stack when that is empty, and a chunk
  of fresh ids is generated when both are. Each operation is one atomic step: the ring has
  one producer and one consumer, and \<^verbatim>\<open>refill\<close> reads \<^verbatim>\<open>tail_\<close> once, so a concurrent release
  is seen entirely or not at all.
\<close>

section \<open>Model\<close>

definition POOL_MASK :: u32 where "POOL_MASK = INDEX_MASK SystemOrderId_cap"
definition POOL_CAPACITY :: u32 where "POOL_CAPACITY = POOL_MASK + 1"
definition LOCAL_CACHE_SIZE :: u32 where "LOCAL_CACHE_SIZE = 65536"
definition FRESH_CHUNK_SIZE :: u32 where "FRESH_CHUNK_SIZE = 16384"

record SlotIdPool =
  sp_head :: u32
  sp_tail :: u32
  sp_sharedQueue :: "(u32, SlotId) array"
  sp_localStack :: "(u32, SlotId) array"
  sp_localTop :: u32
  sp_nextFreshIdx :: u32

definition new_pool :: SlotIdPool where
  "new_pool = \<lparr>sp_head = 0, sp_tail = 0, sp_sharedQueue = (\<lambda>_. 0), sp_localStack = (\<lambda>_. 0),
     sp_localTop = 0, sp_nextFreshIdx = 1\<rparr>"

text \<open>The two loops of \<^verbatim>\<open>refill\<close>.\<close>

function refill_shared :: "u32 \<Rightarrow> SlotIdPool \<Rightarrow> SlotIdPool" where
  "refill_shared t s =
     (if sp_head s \<noteq> t \<and> sp_localTop s < LOCAL_CACHE_SIZE then
        refill_shared t
          (s\<lparr>sp_localStack := (sp_localStack s)(sp_localTop s := sp_sharedQueue s (sp_head s)),
             sp_localTop := sp_localTop s + 1,
             sp_head := (sp_head s + 1) AND POOL_MASK\<rparr>)
      else s)"
  by pat_completeness auto
termination
  by (relation "measure (\<lambda>(t, s). unat LOCAL_CACHE_SIZE - unat (sp_localTop s))")
     (auto simp: word_less_nat_alt unat_Suc_less)

function refill_fresh :: "u32 \<Rightarrow> SlotIdPool \<Rightarrow> SlotIdPool" where
  "refill_fresh limit s =
     (if sp_nextFreshIdx s < limit \<and> sp_localTop s < LOCAL_CACHE_SIZE then
        refill_fresh limit
          (s\<lparr>sp_localStack := (sp_localStack s)(sp_localTop s := slot_make SystemOrderId_cap (sp_nextFreshIdx s) 1),
             sp_localTop := sp_localTop s + 1,
             sp_nextFreshIdx := sp_nextFreshIdx s + 1\<rparr>)
      else s)"
  by pat_completeness auto
termination
  by (relation "measure (\<lambda>(t, s). unat LOCAL_CACHE_SIZE - unat (sp_localTop s))")
     (auto simp: word_less_nat_alt unat_Suc_less)

declare refill_shared.simps [simp del] refill_fresh.simps [simp del]

definition pop_local :: "SlotIdPool \<Rightarrow> SlotId \<times> SlotIdPool" where
  "pop_local s = (let t = sp_localTop s - 1 in (sp_localStack s t, s\<lparr>sp_localTop := t\<rparr>))"

definition refill :: "SlotIdPool \<Rightarrow> SlotId \<times> SlotIdPool" where
  "refill s =
     (let s = refill_shared (sp_tail s) s;
          s = (if sp_localTop s = 0
               then refill_fresh (min (sp_nextFreshIdx s + FRESH_CHUNK_SIZE) POOL_CAPACITY) s
               else s)
      in if sp_localTop s > 0 then pop_local s else (0, s))"

definition pool_acquire :: "SlotIdPool \<Rightarrow> SlotId \<times> SlotIdPool" where
  "pool_acquire s = (if sp_localTop s > 0 then pop_local s else refill s)"

definition pool_release :: "SlotId \<Rightarrow> SlotIdPool \<Rightarrow> SlotIdPool" where
  "pool_release v s =
     s\<lparr>sp_sharedQueue := (sp_sharedQueue s)(sp_tail s := nextGen SystemOrderId_cap v),
       sp_tail := (sp_tail s + 1) AND POOL_MASK\<rparr>"

section \<open>Invariant\<close>

abbreviation POOL_SIZE :: nat where "POOL_SIZE \<equiv> 16777216"

definition shared_len :: "SlotIdPool \<Rightarrow> nat" where
  "shared_len s = ring_len POOL_SIZE (unat (sp_head s)) (unat (sp_tail s))"

definition shared_ids :: "SlotIdPool \<Rightarrow> SlotId list" where
  "shared_ids s = ring POOL_SIZE (\<lambda>k. sp_sharedQueue s (of_nat k)) (unat (sp_head s)) (shared_len s)"

definition local_ids :: "SlotIdPool \<Rightarrow> SlotId list" where
  "local_ids s = map (\<lambda>k. sp_localStack s (of_nat k)) [0..<unat (sp_localTop s)]"

definition slot_pool_inv :: "SlotIdPool \<Rightarrow> u32 set \<Rightarrow> bool" where
  "slot_pool_inv s L \<longleftrightarrow>
     slots_ok SystemOrderId_cap (shared_ids s @ local_ids s) (sp_nextFreshIdx s) L \<and>
     1 \<le> sp_nextFreshIdx s \<and> sp_nextFreshIdx s \<le> POOL_CAPACITY \<and>
     unat (sp_head s) < POOL_SIZE \<and> unat (sp_tail s) < POOL_SIZE \<and>
     sp_localTop s \<le> LOCAL_CACHE_SIZE"

section \<open>Preservation\<close>

lemma POOL_MASK_val: "POOL_MASK = 16777215"
  by (simp add: POOL_MASK_def INDEX_MASK_def IndexBits_system push_bit_eq_mult)

lemma POOL_CAPACITY_val: "POOL_CAPACITY = 16777216"
  by (simp add: POOL_CAPACITY_def POOL_MASK_val)

lemma unat_and_POOL_MASK: "unat (x AND POOL_MASK) = unat x mod POOL_SIZE"
  using unat_slot_index[of SystemOrderId_cap x] by (simp add: slot_index_def POOL_MASK_def IndexBits_system)

lemma unat_step_mask: "unat x < POOL_SIZE \<Longrightarrow> unat ((x + 1) AND POOL_MASK) = Suc (unat x) mod POOL_SIZE"
  by (simp add: unat_and_POOL_MASK unat_word_ariths)

lemma local_ids_push:
  assumes "sp_localTop s < LOCAL_CACHE_SIZE"
  shows "local_ids (s\<lparr>sp_localStack := (sp_localStack s)(sp_localTop s := v), sp_localTop := sp_localTop s + 1\<rparr>)
         = local_ids s @ [v]"
proof -
  have lt: "unat (sp_localTop s) < 65536"
    using assms by (simp add: LOCAL_CACHE_SIZE_def word_less_nat_alt)
  have ne: "(of_nat k :: u32) \<noteq> sp_localTop s" if "k < unat (sp_localTop s)" for k
  proof -
    have "unat (of_nat k :: u32) = k" using that lt by (simp add: unat_of_nat)
    with that show ?thesis by auto
  qed
  show ?thesis
    using ne by (simp add: local_ids_def unat_Suc_less[OF assms])
qed

lemma local_ids_pop:
  assumes "0 < sp_localTop s"
  shows "local_ids s = local_ids (s\<lparr>sp_localTop := sp_localTop s - 1\<rparr>) @ [sp_localStack s (sp_localTop s - 1)]"
proof -
  have "unat (sp_localTop s) = Suc (unat (sp_localTop s - 1))"
    using assms by (simp add: unat_pred_pos word_gt_0_unat)
  then show ?thesis by (simp add: local_ids_def)
qed

lemma shared_move:
  assumes "slot_pool_inv s L" "sp_head s \<noteq> sp_tail s" "sp_localTop s < LOCAL_CACHE_SIZE"
  shows "slot_pool_inv
    (s\<lparr>sp_localStack := (sp_localStack s)(sp_localTop s := sp_sharedQueue s (sp_head s)),
       sp_localTop := sp_localTop s + 1, sp_head := (sp_head s + 1) AND POOL_MASK\<rparr>) L"
    (is "slot_pool_inv ?s L")
proof -
  have ht: "unat (sp_head s) < POOL_SIZE" "unat (sp_tail s) < POOL_SIZE" "unat (sp_head s) \<noteq> unat (sp_tail s)"
    using assms by (auto simp: slot_pool_inv_def word_unat_eq_iff)
  have "shared_ids s = sp_sharedQueue s (sp_head s) # shared_ids ?s"
    using ring_len_pop[OF ht] ht
    by (simp add: shared_ids_def shared_len_def ring_Suc unat_step_mask)
  moreover have "local_ids ?s = local_ids s @ [sp_sharedQueue s (sp_head s)]"
    using local_ids_push[OF assms(3)] by (simp add: local_ids_def)
  ultimately have "mset (shared_ids ?s @ local_ids ?s) = mset (shared_ids s @ local_ids s)"
    by simp
  from slots_ok_perm[OF this]
  have "slots_ok SystemOrderId_cap (shared_ids ?s @ local_ids ?s) (sp_nextFreshIdx s) L"
    using assms(1) by (simp add: slot_pool_inv_def)
  then show ?thesis
    using assms ht by (simp add: slot_pool_inv_def unat_step_mask word_le_nat_alt word_less_nat_alt unat_Suc_less)
qed

lemma refill_shared_inv:
  "slot_pool_inv s L \<Longrightarrow> t = sp_tail s \<Longrightarrow>
     slot_pool_inv (refill_shared t s) L \<and> sp_nextFreshIdx (refill_shared t s) = sp_nextFreshIdx s"
proof (induction t s rule: refill_shared.induct)
  case (1 t s)
  then show ?case
    using shared_move[of s L] by (subst (1 2) refill_shared.simps) auto
qed

lemma fresh_step:
  assumes "slot_pool_inv s L" "sp_nextFreshIdx s < limit" "limit \<le> POOL_CAPACITY"
    "sp_localTop s < LOCAL_CACHE_SIZE"
  shows "slot_pool_inv
    (s\<lparr>sp_localStack := (sp_localStack s)(sp_localTop s := slot_make SystemOrderId_cap (sp_nextFreshIdx s) 1),
       sp_localTop := sp_localTop s + 1, sp_nextFreshIdx := sp_nextFreshIdx s + 1\<rparr>) L"
    (is "slot_pool_inv ?s L")
proof -
  let ?v = "slot_make SystemOrderId_cap (sp_nextFreshIdx s) 1"
  have n: "0 < sp_nextFreshIdx s" "sp_nextFreshIdx s \<le> INDEX_MASK SystemOrderId_cap"
    using assms POOL_MASK_val
    by (auto simp: slot_pool_inv_def POOL_CAPACITY_val POOL_MASK_def word_le_nat_alt word_less_nat_alt)
  have "slots_ok SystemOrderId_cap (?v # shared_ids s @ local_ids s) (sp_nextFreshIdx s + 1) L"
    using assms n by (intro slots_ok_fresh) (auto simp: slot_pool_inv_def)
  moreover have "shared_ids ?s = shared_ids s" by (simp add: shared_ids_def shared_len_def)
  moreover have "local_ids ?s = local_ids s @ [?v]"
    using local_ids_push[OF assms(4)] by (simp add: local_ids_def)
  ultimately have "slots_ok SystemOrderId_cap (shared_ids ?s @ local_ids ?s) (sp_nextFreshIdx s + 1) L"
    by (subst slots_ok_perm[where ys = "?v # shared_ids s @ local_ids s"]) simp_all
  then show ?thesis
    using assms n by (simp add: slot_pool_inv_def word_le_nat_alt word_less_nat_alt unat_Suc_less)
qed

lemma refill_fresh_inv:
  "slot_pool_inv s L \<Longrightarrow> limit \<le> POOL_CAPACITY \<Longrightarrow> slot_pool_inv (refill_fresh limit s) L"
proof (induction limit s rule: refill_fresh.induct)
  case (1 limit s)
  then show ?case
    using fresh_step[of s L limit] by (subst refill_fresh.simps) auto
qed

lemma pop_local_inv:
  assumes "slot_pool_inv s L" "0 < sp_localTop s" "pop_local s = (v, s')"
  shows "slot_isValid SystemOrderId_cap v \<and> slot_index SystemOrderId_cap v \<notin> L \<and>
    slot_pool_inv s' (insert (slot_index SystemOrderId_cap v) L)"
proof -
  have v: "v = sp_localStack s (sp_localTop s - 1)" and s': "s' = s\<lparr>sp_localTop := sp_localTop s - 1\<rparr>"
    using assms(3) by (auto simp: pop_local_def Let_def)
  have "slots_ok SystemOrderId_cap (v # shared_ids s @ local_ids s') (sp_nextFreshIdx s) L"
    using assms(1) local_ids_pop[OF assms(2)] v s'
    by (subst slots_ok_perm[where ys = "shared_ids s @ local_ids s"]) (simp_all add: slot_pool_inv_def)
  note t = slots_ok_take[OF this]
  have "shared_ids s' = shared_ids s" by (simp add: s' shared_ids_def shared_len_def)
  moreover have "sp_localTop s - 1 \<le> LOCAL_CACHE_SIZE"
    using assms(1,2) by (auto simp: slot_pool_inv_def word_le_nat_alt unat_pred_pos)
  ultimately show ?thesis
    using t assms(1) by (auto simp: slot_pool_inv_def s')
qed

lemma acquire_cases:
  assumes "slot_pool_inv s L"
  obtains s1 where "slot_pool_inv s1 L" "0 < sp_localTop s1" "pool_acquire s = pop_local s1"
  | s1 where "slot_pool_inv s1 L" "pool_acquire s = (0, s1)"
proof (cases "0 < sp_localTop s")
  case True then show ?thesis using that assms by (simp add: pool_acquire_def)
next
  case False
  let ?s1 = "refill_shared (sp_tail s) s"
  let ?lim = "min (sp_nextFreshIdx ?s1 + FRESH_CHUNK_SIZE) POOL_CAPACITY"
  let ?s2 = "if sp_localTop ?s1 = 0 then refill_fresh ?lim ?s1 else ?s1"
  have "slot_pool_inv ?s2 L"
    using refill_shared_inv[OF assms refl] refill_fresh_inv[of ?s1 L ?lim] by simp
  then show ?thesis
    using that False by (cases "0 < sp_localTop ?s2") (auto simp: pool_acquire_def refill_def Let_def)
qed

lemma pool_release_inv:
  assumes inv: "slot_pool_inv s L" and i: "slot_index SystemOrderId_cap v \<in> L"
  shows "slot_pool_inv (pool_release v s) (L - {slot_index SystemOrderId_cap v})"
proof -
  let ?c = SystemOrderId_cap and ?s = "pool_release v s" and ?w = "nextGen SystemOrderId_cap v"
  have ok: "slots_ok ?c (shared_ids s @ local_ids s) (sp_nextFreshIdx s) L"
    and ht: "unat (sp_head s) < POOL_SIZE" "unat (sp_tail s) < POOL_SIZE"
    using inv by (auto simp: slot_pool_inv_def)
  have "0 < card L" using i by (auto simp: card_gt_0_iff)
  then have "Suc (shared_len s) < POOL_SIZE"
    using slots_ok_card[OF ok] inv
    by (auto simp: slot_pool_inv_def shared_ids_def POOL_CAPACITY_val word_le_nat_alt)
  then have room: "Suc (ring_len POOL_SIZE (unat (sp_head s)) (unat (sp_tail s))) < POOL_SIZE"
    by (simp add: shared_len_def)
  let ?a = "\<lambda>k. sp_sharedQueue s (of_nat k)"
  have upd: "sp_sharedQueue ?s (of_nat k) = (?a(unat (sp_tail s) := ?w)) k" if "k < POOL_SIZE" for k
  proof -
    have "unat (of_nat k :: u32) = k" using that by (simp add: unat_of_nat)
    then have "(of_nat k :: u32) = sp_tail s \<longleftrightarrow> k = unat (sp_tail s)"
      by (auto simp: word_unat_eq_iff)
    then show ?thesis by (auto simp: pool_release_def)
  qed
  let ?n = "ring_len POOL_SIZE (unat (sp_head s)) (unat (sp_tail s))"
  have "shared_ids ?s = ring POOL_SIZE (?a((unat (sp_head s) + ?n) mod POOL_SIZE := ?w)) (unat (sp_head s)) (Suc ?n)"
    using upd ring_len_push[OF ht room] ring_len_tail[OF ht] ht
    by (simp add: shared_ids_def shared_len_def pool_release_def unat_step_mask) (rule ring_cong, simp)
  also have "\<dots> = shared_ids s @ [?w]"
    using room by (subst ring_push) (simp_all add: shared_ids_def shared_len_def)
  finally have sh: "shared_ids ?s = shared_ids s @ [?w]" .
  have "slots_ok ?c (?w # shared_ids s @ local_ids s) (sp_nextFreshIdx s) (L - {slot_index ?c ?w})"
    using ok i by (intro slots_ok_give) auto
  then have "slots_ok ?c (shared_ids ?s @ local_ids ?s) (sp_nextFreshIdx s) (L - {slot_index ?c v})"
    by (subst slots_ok_perm[where ys = "?w # shared_ids s @ local_ids s"])
       (simp_all add: sh, simp add: local_ids_def pool_release_def)
  then show ?thesis
    using inv ht by (simp add: slot_pool_inv_def pool_release_def unat_step_mask)
qed

interpretation sys_ids: id_pool pool_acquire pool_release SystemOrderId_cap slot_pool_inv
proof
  fix s L v s'
  assume inv: "slot_pool_inv s L" and a: "pool_acquire s = (v, s')"
  show "slot_isValid SystemOrderId_cap v \<Longrightarrow>
    slot_index SystemOrderId_cap v \<notin> L \<and> slot_pool_inv s' (insert (slot_index SystemOrderId_cap v) L)"
    using inv
  proof (cases rule: acquire_cases)
    case (1 s1)
    with a pop_local_inv[of s1 L v s'] show ?thesis by simp
  next
    case (2 s1)
    assume "slot_isValid SystemOrderId_cap v"
    with 2 a show ?thesis by (simp add: slot_isValid_def slot_gen_def)
  qed
  show "\<not> slot_isValid SystemOrderId_cap v \<Longrightarrow> slot_pool_inv s' L"
    using inv
  proof (cases rule: acquire_cases)
    case (1 s1)
    assume "\<not> slot_isValid SystemOrderId_cap v"
    with 1 a pop_local_inv[of s1 L v s'] show ?thesis by simp
  next
    case (2 s1)
    with a show ?thesis by simp
  qed
next
  fix s L v
  assume "slot_pool_inv s L" "slot_index SystemOrderId_cap v \<in> L"
  then show "slot_pool_inv (pool_release v s) (L - {slot_index SystemOrderId_cap v})"
    by (rule pool_release_inv)
qed

section \<open>Exhaustion\<close>

lemma refill_shared_top: "sp_localTop s \<le> sp_localTop (refill_shared t s)"
proof (induction t s rule: refill_shared.induct)
  case (1 t s)
  then show ?case
    by (subst refill_shared.simps)
       (auto simp: word_le_nat_alt unat_Suc_less dest: unat_Suc_less)
qed

lemma refill_shared_empty:
  assumes "sp_localTop (refill_shared t s) = 0"
  shows "sp_head s = t \<and> refill_shared t s = s"
proof (cases "sp_head s \<noteq> t \<and> sp_localTop s < LOCAL_CACHE_SIZE")
  case True
  let ?s = "s\<lparr>sp_localStack := (sp_localStack s)(sp_localTop s := sp_sharedQueue s (sp_head s)),
             sp_localTop := sp_localTop s + 1, sp_head := (sp_head s + 1) AND POOL_MASK\<rparr>"
  have "refill_shared t s = refill_shared t ?s" using True by (subst refill_shared.simps) simp
  then show ?thesis
    using refill_shared_top[of ?s t] assms True unat_Suc_less[of "sp_localTop s" LOCAL_CACHE_SIZE]
    by (simp add: word_le_nat_alt)
next
  case False
  then have "refill_shared t s = s" by (subst refill_shared.simps) (simp only: if_False)
  with False assms show ?thesis by (auto simp: LOCAL_CACHE_SIZE_def)
qed

lemma refill_fresh_top: "sp_localTop s \<le> sp_localTop (refill_fresh limit s)"
proof (induction limit s rule: refill_fresh.induct)
  case (1 limit s)
  then show ?case
    by (subst refill_fresh.simps) (auto simp: word_le_nat_alt unat_Suc_less dest: unat_Suc_less)
qed

lemma refill_fresh_empty:
  assumes "sp_localTop (refill_fresh limit s) = 0"
  shows "limit \<le> sp_nextFreshIdx s \<and> refill_fresh limit s = s"
proof (cases "sp_nextFreshIdx s < limit \<and> sp_localTop s < LOCAL_CACHE_SIZE")
  case True
  let ?s = "s\<lparr>sp_localStack := (sp_localStack s)(sp_localTop s := slot_make SystemOrderId_cap (sp_nextFreshIdx s) 1),
             sp_localTop := sp_localTop s + 1, sp_nextFreshIdx := sp_nextFreshIdx s + 1\<rparr>"
  have "refill_fresh limit s = refill_fresh limit ?s" using True by (subst refill_fresh.simps) simp
  then show ?thesis
    using refill_fresh_top[of ?s limit] assms True unat_Suc_less[of "sp_localTop s" LOCAL_CACHE_SIZE]
    by (simp add: word_le_nat_alt)
next
  case False
  then have "refill_fresh limit s = s" by (subst refill_fresh.simps) (simp only: if_False)
  with False assms show ?thesis by (auto simp: LOCAL_CACHE_SIZE_def)
qed

lemma refill_exhausted:
  assumes inv: "slot_pool_inv s L" and "refill s = (0, s')" and "sp_localTop s' = 0"
    and "\<not> 0 < sp_localTop (let s = refill_shared (sp_tail s) s in
           if sp_localTop s = 0 then refill_fresh (min (sp_nextFreshIdx s + FRESH_CHUNK_SIZE) POOL_CAPACITY) s else s)"
  shows "L = idx_below POOL_CAPACITY"
proof -
  let ?s1 = "refill_shared (sp_tail s) s"
  have z: "sp_localTop ?s1 = 0" using assms(4) by (auto simp: Let_def word_gt_0 split: if_splits)
  note e1 = refill_shared_empty[OF z]
  let ?lim = "min (sp_nextFreshIdx s + FRESH_CHUNK_SIZE) POOL_CAPACITY"
  have e2: "?lim \<le> sp_nextFreshIdx s"
    using assms(4) z e1 refill_fresh_empty[of ?lim s] by (auto simp: Let_def word_gt_0)
  have le: "unat (sp_nextFreshIdx s) \<le> POOL_SIZE"
    using inv by (simp add: slot_pool_inv_def POOL_CAPACITY_val word_le_nat_alt)
  then have "unat (sp_nextFreshIdx s + FRESH_CHUNK_SIZE) = unat (sp_nextFreshIdx s) + 16384"
    by (subst unat_plus_if_size) (simp add: FRESH_CHUNK_SIZE_def word_size)
  then have "POOL_SIZE \<le> unat (sp_nextFreshIdx s)"
    using e2 by (auto simp: word_le_nat_alt unat_min POOL_CAPACITY_val min_def split: if_splits)
  then have full: "sp_nextFreshIdx s = POOL_CAPACITY"
    using le by (simp add: word_unat_eq_iff POOL_CAPACITY_val)
  have "shared_ids s = []" "local_ids s = []"
    using e1 z by (auto simp: shared_ids_def shared_len_def ring_len_def local_ids_def)
  then show ?thesis using inv full by (auto simp: slot_pool_inv_def slots_ok_def)
qed

lemma pool_acquire_invalid:
  assumes inv: "slot_pool_inv s L" and inval: "\<not> slot_isValid SystemOrderId_cap (fst (pool_acquire s))"
  shows "L = idx_below POOL_CAPACITY"
proof -
  let ?s2 = "let s = refill_shared (sp_tail s) s in
           if sp_localTop s = 0 then refill_fresh (min (sp_nextFreshIdx s + FRESH_CHUNK_SIZE) POOL_CAPACITY) s else s"
  have i2: "slot_pool_inv ?s2 L"
    using refill_shared_inv[OF inv refl] refill_fresh_inv by (simp add: Let_def)
  have no: "\<not> 0 < sp_localTop u" if "slot_pool_inv u L" "pool_acquire s = pop_local u" for u
    using pop_local_inv[of u L "fst (pop_local u)" "snd (pop_local u)"] that inval by auto
  have z: "\<not> 0 < sp_localTop s"
    using no[OF inv] by (auto simp: pool_acquire_def)
  moreover have z2: "\<not> 0 < sp_localTop ?s2"
    using no[OF i2] z by (auto simp: pool_acquire_def refill_def Let_def)
  ultimately have "refill s = (0, ?s2)" by (auto simp: refill_def Let_def)
  moreover have "sp_localTop ?s2 = 0" using z2 by (simp add: word_gt_0_unat unat_0_iff)
  ultimately show ?thesis using refill_exhausted[OF inv] z2 by blast
qed

lemma slot_pool_inv_new: "slot_pool_inv new_pool {}"
proof -
  have "idx_below 1 = {}" by (auto simp: idx_below_def word_less_nat_alt)
  then show ?thesis
    by (simp add: slot_pool_inv_def new_pool_def slots_ok_def shared_ids_def local_ids_def
        shared_len_def ring_len_def POOL_CAPACITY_val)
qed

lemma unat_pool_capacity: "unat POOL_CAPACITY - 1 = 2 ^ 24 - 1"
  by (simp add: POOL_CAPACITY_val)

section \<open>Properties\<close>

text \<open>C9. Whatever the order in which the gateway and the network thread acquire and release
  system order ids, the ids that are in use at the same time name different slots of the
  record table.\<close>

theorem system_ids_distinct:
  "distinct (map (slot_index SystemOrderId_cap)
     (snd (pool_run pool_acquire pool_release SystemOrderId_cap ops (new_pool, []))))"
  by (rule sys_ids.run_distinct[OF slot_pool_inv_new])

text \<open>C10. After any such sequence, as long as fewer than \<open>2 ^ 24 - 1\<close> ids are held, \<open>acquire\<close>
  returns a valid id whose slot is not held: no id is lost between the shared ring, the
  local stack and the fresh counter.\<close>

theorem pool_acquire_available:
  assumes "pool_run pool_acquire pool_release SystemOrderId_cap ops (new_pool, []) = (s, held)"
    and "length held < 2 ^ 24 - 1"
  shows "slot_isValid SystemOrderId_cap (fst (pool_acquire s)) \<and>
    slot_index SystemOrderId_cap (fst (pool_acquire s)) \<notin> slot_index SystemOrderId_cap ` set held"
proof -
  let ?L = "slot_index SystemOrderId_cap ` set held"
  have inv: "slot_pool_inv s ?L"
    using sys_ids.run_held[of "(new_pool, [])" ops] assms(1) slot_pool_inv_new
    by (simp add: sys_ids.held_ok_def)
  have "card ?L \<le> length held"
    using card_image_le[of "set held"] card_length[of held] by (meson List.finite_set le_trans)
  then have "?L \<noteq> idx_below POOL_CAPACITY"
    using assms(2) card_idx_below[of POOL_CAPACITY] unat_pool_capacity by (metis leD)
  then have v: "slot_isValid SystemOrderId_cap (fst (pool_acquire s))"
    using pool_acquire_invalid[OF inv] by blast
  with sys_ids.acquire_law[OF inv _ v, of "snd (pool_acquire s)"] show ?thesis by simp
qed

theorem pool_acquire_available_witness:
  "slot_isValid SystemOrderId_cap (fst (pool_acquire
     (fst (pool_run pool_acquire pool_release SystemOrderId_cap [Acquire, Acquire, Release 0, Acquire] (new_pool, [])))))"
proof -
  let ?r = "pool_run pool_acquire pool_release SystemOrderId_cap [Acquire, Acquire, Release 0, Acquire] (new_pool, [])"
  have "length (snd ?r) < 2 ^ 24 - 1"
    using pool_run_length[of pool_acquire pool_release SystemOrderId_cap
        "[Acquire, Acquire, Release 0, Acquire]" "(new_pool, [])"] by simp
  then show ?thesis
    using pool_acquire_available[of "[Acquire, Acquire, Release 0, Acquire]" "fst ?r" "snd ?r"] by simp
qed

end
