(* ===== verification/Order_Gateway.thy ===== *)
theory Order_Gateway
  imports Slot_Id_Pool Domain_Types
begin

text \<open>
  \<^verbatim>\<open>OrderGateway\<close> and \<^verbatim>\<open>OrderRecord\<close> of \<^verbatim>\<open>server/src/gateway\<close>: the table of order records indexed
  by the slot of the system order id, the handling of client orders (network thread) and of
  statuses from the matching workers (gateway thread). What a handler posts to the bus is
  returned in order. The invariant ties the table to the id pool: a slot in use holds the
  record of the id that was handed out for it.
\<close>

section \<open>Model\<close>

datatype RecordState = RS_New | RS_Accepted | RS_Closed

record OrderRecord =
  or_externalOId :: OrderId
  or_systemOId :: SystemOrderId
  or_bookOId :: BookOrderId
  or_ticker :: Ticker
  or_clientId :: ClientId
  or_state :: RecordState

record OrderGateway =
  gw_idPool :: SlotIdPool
  gw_recordMap :: "(u32, OrderRecord) array"
  gw_closed :: bool

datatype GatewayMsg = GwStatus ServerOrderStatus | GwEvent InternalOrderEvent

definition zero_record :: OrderRecord where
  "zero_record = \<lparr>or_externalOId = 0, or_systemOId = 0, or_bookOId = 0, or_ticker = makeTicker [],
     or_clientId = 0, or_state = RS_New\<rparr>"

definition new_gateway :: OrderGateway where
  "new_gateway = \<lparr>gw_idPool = new_pool, gw_recordMap = (\<lambda>_. zero_record), gw_closed = False\<rparr>"

definition gw_stop :: "OrderGateway \<Rightarrow> OrderGateway" where
  "gw_stop g = g\<lparr>gw_closed := True\<rparr>"

definition gw_isValid :: "ServerOrder \<Rightarrow> bool" where
  "gw_isValid so \<longleftrightarrow> o_price (so_order so) > 0"

definition upd_record :: "u32 \<Rightarrow> (OrderRecord \<Rightarrow> OrderRecord) \<Rightarrow> OrderGateway \<Rightarrow> OrderGateway" where
  "upd_record i f g = g\<lparr>gw_recordMap := (gw_recordMap g)(i := f (gw_recordMap g i))\<rparr>"

definition closeRecord :: "u32 \<Rightarrow> OrderGateway \<Rightarrow> OrderGateway" where
  "closeRecord i g =
     (let g = upd_record i (\<lambda>r. r\<lparr>or_state := RS_Closed\<rparr>) g
      in g\<lparr>gw_idPool := pool_release (or_systemOId (gw_recordMap g i)) (gw_idPool g)\<rparr>)"

definition reject :: "ServerOrder \<Rightarrow> GatewayMsg" where
  "reject so = (let o' = so_order so in
     GwStatus \<lparr>sos_clientId = so_clientId so,
       sos_orderStatus = \<lparr>os_orderId = o_id o', os_systemOrderId = 0, os_quantity = o_quantity o',
         os_fillPrice = o_price o', os_state = Rejected\<rparr>\<rparr>)"

definition gw_postStatus :: "InternalOrderStatus \<Rightarrow> OrderGateway \<Rightarrow> OrderGateway \<times> GatewayMsg list" where
  "gw_postStatus s g =
     (if gw_closed g then (g, [])
      else
        let i = slot_index SystemOrderId_cap (st_id s);
            r = gw_recordMap g i;
            msg = GwStatus \<lparr>sos_clientId = or_clientId r,
              sos_orderStatus = \<lparr>os_orderId = or_externalOId r, os_systemOrderId = or_systemOId r,
                os_quantity = st_fillQty s, os_fillPrice = st_fillPrice s, os_state = st_state s\<rparr>\<rparr>
        in (case st_state s of
              Cancelled \<Rightarrow> (closeRecord i g, [msg])
            | Rejected \<Rightarrow> (closeRecord i g, [msg])
            | Full \<Rightarrow> (closeRecord i g, [msg])
            | _ \<Rightarrow> (upd_record i (\<lambda>r. r\<lparr>or_bookOId := st_bookOId s, or_state := RS_Accepted\<rparr>) g, [msg])))"

definition gw_cancelOrder :: "ServerOrder \<Rightarrow> OrderGateway \<Rightarrow> OrderGateway \<times> GatewayMsg list" where
  "gw_cancelOrder so g =
     (let o' = so_order so;
          sysOId = o_id o';
          r = gw_recordMap g (slot_index SystemOrderId_cap sysOId)
      in if or_state r \<noteq> RS_Accepted \<or> so_clientId so \<noteq> or_clientId r \<or> o_id o' \<noteq> or_systemOId r then (g, [])
         else (g, [GwEvent \<lparr>ioe_order = \<lparr>io_id = sysOId, io_bookOId = or_bookOId r, io_quantity = o_quantity o',
                     io_price = o_price o'\<rparr>, ioe_ticker = o_ticker o', ioe_action = o_action o'\<rparr>]))"

definition gw_newOrder :: "ServerOrder \<Rightarrow> OrderGateway \<Rightarrow> OrderGateway \<times> GatewayMsg list" where
  "gw_newOrder so g =
     (let o' = so_order so
      in case pool_acquire (gw_idPool g) of (systemOId, pool) \<Rightarrow>
           let g = g\<lparr>gw_idPool := pool\<rparr>
           in if \<not> slot_isValid SystemOrderId_cap systemOId then (g, [reject so])
              else
                (upd_record (slot_index SystemOrderId_cap systemOId)
                   (\<lambda>r. r\<lparr>or_externalOId := o_id o', or_systemOId := systemOId, or_bookOId := 0,
                      or_clientId := so_clientId so, or_ticker := o_ticker o', or_state := RS_New\<rparr>) g,
                 [GwEvent \<lparr>ioe_order = \<lparr>io_id = systemOId, io_bookOId = 0, io_quantity = o_quantity o',
                    io_price = o_price o'\<rparr>, ioe_ticker = o_ticker o', ioe_action = o_action o'\<rparr>]))"

definition gw_postOrder :: "ServerOrder \<Rightarrow> OrderGateway \<Rightarrow> OrderGateway \<times> GatewayMsg list" where
  "gw_postOrder so g =
     (if gw_closed g then (g, [])
      else if \<not> gw_isValid so then (g, [reject so])
      else
        (case o_action (so_order so) of
           Dummy \<Rightarrow> (g, [])
         | Cancel \<Rightarrow> gw_cancelOrder so g
         | Modify \<Rightarrow> (g, [])
         | _ \<Rightarrow> gw_newOrder so g))"

section \<open>Invariant\<close>

text \<open>\<open>gw_inv g L\<close>: the slots \<open>L\<close> are in use and each of them holds the record of an id of that slot.\<close>

definition gw_inv :: "OrderGateway \<Rightarrow> u32 set \<Rightarrow> bool" where
  "gw_inv g L \<longleftrightarrow> slot_pool_inv (gw_idPool g) L \<and>
     (\<forall>i\<in>L. slot_index SystemOrderId_cap (or_systemOId (gw_recordMap g i)) = i)"

lemma gw_inv_new: "gw_inv new_gateway {}"
  by (simp add: gw_inv_def new_gateway_def slot_pool_inv_new)

lemma upd_record_simps [simp]:
  "gw_idPool (upd_record i f g) = gw_idPool g" "gw_closed (upd_record i f g) = gw_closed g"
  "gw_recordMap (upd_record i f g) = (gw_recordMap g)(i := f (gw_recordMap g i))"
  by (simp_all add: upd_record_def)

lemma closeRecord_simps [simp]:
  "gw_recordMap (closeRecord i g) = (gw_recordMap g)(i := (gw_recordMap g i)\<lparr>or_state := RS_Closed\<rparr>)"
  "gw_idPool (closeRecord i g) = pool_release (or_systemOId (gw_recordMap g i)) (gw_idPool g)"
  by (simp_all add: closeRecord_def Let_def)

lemma gw_inv_close:
  assumes "gw_inv g L" "i \<in> L"
  shows "gw_inv (closeRecord i g) (L - {i})"
  using assms sys_ids.release_law[of "gw_idPool g" L "or_systemOId (gw_recordMap g i)"]
  by (auto simp: gw_inv_def)

lemma newOrder_cases:
  assumes inv: "gw_inv g L"
  obtains v pool where "pool_acquire (gw_idPool g) = (v, pool)" "slot_isValid SystemOrderId_cap v"
      "slot_index SystemOrderId_cap v \<notin> L"
      "gw_inv (fst (gw_newOrder so g)) (insert (slot_index SystemOrderId_cap v) L)"
      "gw_recordMap (fst (gw_newOrder so g)) (slot_index SystemOrderId_cap v) =
         \<lparr>or_externalOId = o_id (so_order so), or_systemOId = v, or_bookOId = 0, or_ticker = o_ticker (so_order so),
          or_clientId = so_clientId so, or_state = RS_New\<rparr>"
      "\<And>j. j \<noteq> slot_index SystemOrderId_cap v \<Longrightarrow> gw_recordMap (fst (gw_newOrder so g)) j = gw_recordMap g j"
      "snd (gw_newOrder so g) = [GwEvent \<lparr>ioe_order = \<lparr>io_id = v, io_bookOId = 0,
          io_quantity = o_quantity (so_order so), io_price = o_price (so_order so)\<rparr>,
          ioe_ticker = o_ticker (so_order so), ioe_action = o_action (so_order so)\<rparr>]"
    | pool where "gw_newOrder so g = (g\<lparr>gw_idPool := pool\<rparr>, [reject so])" "gw_inv (g\<lparr>gw_idPool := pool\<rparr>) L"
        "L = idx_below POOL_CAPACITY"
proof -
  obtain v pool where a: "pool_acquire (gw_idPool g) = (v, pool)" by (cases "pool_acquire (gw_idPool g)")
  have p: "slot_pool_inv (gw_idPool g) L" using inv by (simp add: gw_inv_def)
  show thesis
  proof (cases "slot_isValid SystemOrderId_cap v")
    case True
    note l = sys_ids.acquire_law[OF p a True]
    show thesis
    proof (rule that(1)[OF a True])
      show "gw_inv (fst (gw_newOrder so g)) (insert (slot_index SystemOrderId_cap v) L)"
        using l inv True a by (auto simp: gw_newOrder_def gw_inv_def Let_def)
      show "gw_recordMap (fst (gw_newOrder so g)) (slot_index SystemOrderId_cap v) =
         \<lparr>or_externalOId = o_id (so_order so), or_systemOId = v, or_bookOId = 0, or_ticker = o_ticker (so_order so),
          or_clientId = so_clientId so, or_state = RS_New\<rparr>"
        using True a by (cases "gw_recordMap g (slot_index SystemOrderId_cap v)") (simp add: gw_newOrder_def Let_def)
    qed (use True a l in \<open>auto simp: gw_newOrder_def Let_def\<close>)
  next
    case False
    show thesis
    proof (rule that(2))
      show "gw_newOrder so g = (g\<lparr>gw_idPool := pool\<rparr>, [reject so])" using False a by (simp add: gw_newOrder_def Let_def)
      show "gw_inv (g\<lparr>gw_idPool := pool\<rparr>) L"
        using sys_ids.exhausted_law[OF p a False] inv by (simp add: gw_inv_def)
      show "L = idx_below POOL_CAPACITY" using pool_acquire_invalid[OF p] a False by simp
    qed
  qed
qed

end
