(* ===== verification/Server_Flow.thy ===== *)
theory Server_Flow
  imports Order_Gateway Market_Data Price_Level_Scenario
begin

text \<open>
  The order path of the server put together: client orders enter the gateway on the network
  thread, events are routed by the coordinator into the queues of the matching workers, the
  workers run the books and post statuses into the gateway's queue, and the gateway thread
  turns them into client statuses. A step is one handler call of one thread; a run is any
  interleaving of steps. The queues are FIFO and unbounded here; the bounded lock-free queue
  that implements them has a theory of its own.
\<close>

section \<open>State and steps\<close>

record Server =
  sv_gateway :: OrderGateway
  sv_data :: MarketData
  sv_workerQ :: "ThreadId \<Rightarrow> InternalOrderEvent list"
  sv_gatewayQ :: "InternalOrderStatus list"
  sv_sent :: "ServerOrderStatus list"
  sv_errors :: "InternalError list"
  sv_stopped :: bool

definition new_server :: "MarketData \<Rightarrow> Server" where
  "new_server data = \<lparr>sv_gateway = new_gateway, sv_data = data, sv_workerQ = (\<lambda>_. []), sv_gatewayQ = [],
     sv_sent = [], sv_errors = [], sv_stopped = False\<rparr>"

fun bus_gateway :: "GatewayMsg \<Rightarrow> Server \<Rightarrow> Server" where
  "bus_gateway (GwStatus m) s = s\<lparr>sv_sent := sv_sent s @ [m]\<rparr>"
| "bus_gateway (GwEvent e) s =
     (case coordinator_post (sv_stopped s) (sv_data s) e of
        Dropped \<Rightarrow> s
      | ToWorker w e' \<Rightarrow> s\<lparr>sv_workerQ := (sv_workerQ s)(w := sv_workerQ s w @ [e'])\<rparr>)"

fun bus_book :: "BookMsg \<Rightarrow> Server \<Rightarrow> Server" where
  "bus_book (PostStatus st) s = s\<lparr>sv_gatewayQ := sv_gatewayQ s @ [st]\<rparr>"
| "bus_book (PostError e) s = s\<lparr>sv_errors := sv_errors s @ [e]\<rparr>"

definition srv_recv :: "ServerOrder \<Rightarrow> Server \<Rightarrow> Server" where
  "srv_recv so s =
     (case gw_postOrder so (sv_gateway s) of (g, ms) \<Rightarrow> fold bus_gateway ms (s\<lparr>sv_gateway := g\<rparr>))"

definition srv_work :: "ThreadId \<Rightarrow> Server \<Rightarrow> Server option" where
  "srv_work w s =
     (case sv_workerQ s w of
        [] \<Rightarrow> Some s
      | e # es \<Rightarrow>
          (case matcher_post e (sv_data s) of
             None \<Rightarrow> None
           | Some (data, ms) \<Rightarrow>
               Some (fold bus_book ms (s\<lparr>sv_data := data, sv_workerQ := (sv_workerQ s)(w := es)\<rparr>))))"

definition srv_gate :: "Server \<Rightarrow> Server" where
  "srv_gate s =
     (case sv_gatewayQ s of
        [] \<Rightarrow> s
      | st # sts \<Rightarrow>
          (case gw_postStatus st (sv_gateway s) of
             (g, ms) \<Rightarrow> fold bus_gateway ms (s\<lparr>sv_gateway := g, sv_gatewayQ := sts\<rparr>)))"

datatype srv_step = Recv ServerOrder | Work ThreadId | Gate

fun srv_do :: "srv_step \<Rightarrow> Server \<Rightarrow> Server option" where
  "srv_do (Recv so) s = Some (srv_recv so s)"
| "srv_do (Work w) s = srv_work w s"
| "srv_do Gate s = Some (srv_gate s)"

fun srv_run :: "srv_step list \<Rightarrow> Server \<Rightarrow> Server option" where
  "srv_run [] s = Some s"
| "srv_run (x # xs) s = (case srv_do x s of None \<Rightarrow> None | Some s' \<Rightarrow> srv_run xs s')"

section \<open>Accounting of orders and statuses\<close>

definition order_key :: "ServerOrder \<Rightarrow> ClientId \<times> OrderId" where
  "order_key so = (so_clientId so, o_id (so_order so))"

definition status_key :: "ServerOrderStatus \<Rightarrow> ClientId \<times> OrderId" where
  "status_key m = (sos_clientId m, os_orderId (sos_orderStatus m))"

definition record_key :: "OrderGateway \<Rightarrow> SystemOrderId \<Rightarrow> ClientId \<times> OrderId" where
  "record_key g v = (let r = gw_recordMap g (slot_index SystemOrderId_cap v) in (or_clientId r, or_externalOId r))"

definition received :: "srv_step list \<Rightarrow> ServerOrder list" where
  "received xs = concat (map (\<lambda>x. case x of Recv so \<Rightarrow> [so] | _ \<Rightarrow> []) xs)"

definition in_flight :: "Server \<Rightarrow> SystemOrderId multiset" where
  "in_flight s = (\<Sum>w\<in>UNIV. mset (map (\<lambda>e. io_id (ioe_order e)) (sv_workerQ s w))) + mset (map st_id (sv_gatewayQ s))"

definition records_ok :: "OrderGateway \<Rightarrow> u32 set \<Rightarrow> SystemOrderId multiset \<Rightarrow> bool" where
  "records_ok g L M \<longleftrightarrow> gw_inv g L \<and>
     (\<forall>v\<in>#M. slot_index SystemOrderId_cap v \<in> L \<and>
        or_systemOId (gw_recordMap g (slot_index SystemOrderId_cap v)) = v) \<and>
     (\<forall>v. count M v \<le> 1)"

definition queues_ok :: "Server \<Rightarrow> bool" where
  "queues_ok s \<longleftrightarrow>
     (\<forall>w. \<forall>e\<in>set (sv_workerQ s w). ioe_action e \<noteq> Cancel) \<and>
     (\<forall>st\<in>set (sv_gatewayQ s). st_state st \<in> {Accepted, Partial, Full}) \<and>
     (\<forall>t td. sv_data s t = Some td \<longrightarrow> bookInv (td_orderBook td) \<and> uncrossed (abs_book (td_orderBook td)))"

definition srv_inv :: "Server \<Rightarrow> (ClientId \<times> OrderId) multiset \<Rightarrow> bool" where
  "srv_inv s R \<longleftrightarrow> queues_ok s \<and> (\<exists>L. records_ok (sv_gateway s) L (in_flight s)) \<and>
     image_mset (record_key (sv_gateway s)) (in_flight s) + mset (map status_key (sv_sent s)) \<subseteq># R"

section \<open>In-flight orders\<close>

lemma in_flight_enqueue:
  "in_flight (s\<lparr>sv_workerQ := (sv_workerQ s)(w := sv_workerQ s w @ [e])\<rparr>) = in_flight s + {#io_id (ioe_order e)#}"
proof -
  let ?f = "\<lambda>Q w. mset (map (\<lambda>e. io_id (ioe_order e)) (Q w))"
  have "(\<Sum>v\<in>UNIV. ?f ((sv_workerQ s)(w := sv_workerQ s w @ [e])) v) = (\<Sum>v\<in>UNIV. ?f (sv_workerQ s) v) + {#io_id (ioe_order e)#}"
    by (subst (1 2) sum.remove[of UNIV w]) (auto intro!: sum.cong)
  then show ?thesis by (simp add: in_flight_def)
qed

lemma in_flight_dequeue:
  assumes "sv_workerQ s w = e # es"
  shows "in_flight s = in_flight (s\<lparr>sv_data := d, sv_workerQ := (sv_workerQ s)(w := es)\<rparr>) + {#io_id (ioe_order e)#}"
proof -
  let ?f = "\<lambda>Q w. mset (map (\<lambda>e. io_id (ioe_order e)) (Q w))"
  have "(\<Sum>v\<in>UNIV. ?f (sv_workerQ s) v) = (\<Sum>v\<in>UNIV. ?f ((sv_workerQ s)(w := es)) v) + {#io_id (ioe_order e)#}"
    using assms by (subst (1 2) sum.remove[of UNIV w]) (auto intro!: sum.cong)
  then show ?thesis by (simp add: in_flight_def)
qed

lemma in_flight_simps [simp]:
  "in_flight (s\<lparr>sv_gateway := g\<rparr>) = in_flight s" "in_flight (s\<lparr>sv_sent := x\<rparr>) = in_flight s"
  "in_flight (s\<lparr>sv_errors := y\<rparr>) = in_flight s"
  "in_flight (s\<lparr>sv_gatewayQ := q @ [st]\<rparr>) = in_flight (s\<lparr>sv_gatewayQ := q\<rparr>) + {#st_id st#}"
  by (simp_all add: in_flight_def)

section \<open>Client orders\<close>

lemma record_key_cong:
  "gw_recordMap g' (slot_index SystemOrderId_cap v) = gw_recordMap g (slot_index SystemOrderId_cap v) \<Longrightarrow>
     record_key g' v = record_key g v"
  by (simp add: record_key_def)

lemma records_ok_fresh:
  assumes ok: "records_ok g L M" and i: "slot_index SystemOrderId_cap v \<notin> L"
    and inv: "gw_inv g' (insert (slot_index SystemOrderId_cap v) L)"
    and here: "or_systemOId (gw_recordMap g' (slot_index SystemOrderId_cap v)) = v"
    and other: "\<And>j. j \<noteq> slot_index SystemOrderId_cap v \<Longrightarrow> gw_recordMap g' j = gw_recordMap g j"
  shows "records_ok g' (insert (slot_index SystemOrderId_cap v) L) M"
    and "records_ok g' (insert (slot_index SystemOrderId_cap v) L) (M + {#v#})"
    and "image_mset (record_key g') M = image_mset (record_key g) M"
proof -
  have ne: "slot_index SystemOrderId_cap u \<noteq> slot_index SystemOrderId_cap v" if "u \<in># M" for u
    using ok i that by (auto simp: records_ok_def)
  then have "v \<notin># M" by blast
  then have "count M v = 0" by (simp add: count_eq_zero_iff)
  then show "records_ok g' (insert (slot_index SystemOrderId_cap v) L) M"
    "records_ok g' (insert (slot_index SystemOrderId_cap v) L) (M + {#v#})"
    using ok inv here other ne by (auto simp: records_ok_def)
  show "image_mset (record_key g') M = image_mset (record_key g) M"
    using ne other by (intro image_mset_cong record_key_cong) auto
qed

lemma queues_ok_simps [simp]:
  "queues_ok (s\<lparr>sv_gateway := g\<rparr>) = queues_ok s" "queues_ok (s\<lparr>sv_sent := x\<rparr>) = queues_ok s"
  "queues_ok (s\<lparr>sv_errors := y\<rparr>) = queues_ok s"
  by (simp_all add: queues_ok_def)

lemma queues_ok_enqueue:
  "queues_ok s \<Longrightarrow> ioe_action e \<noteq> Cancel \<Longrightarrow> queues_ok (s\<lparr>sv_workerQ := (sv_workerQ s)(w := sv_workerQ s w @ [e])\<rparr>)"
  by (auto simp: queues_ok_def)

lemma srv_inv_event:
  assumes q: "queues_ok s" and act: "ioe_action e \<noteq> Cancel"
    and r0: "records_ok (sv_gateway s) L (in_flight s)"
    and r1: "records_ok (sv_gateway s) L (in_flight s + {#io_id (ioe_order e)#})"
    and sub: "image_mset (record_key (sv_gateway s)) (in_flight s) + {#record_key (sv_gateway s) (io_id (ioe_order e))#} +
        mset (map status_key (sv_sent s)) \<subseteq># R"
  shows "srv_inv (bus_gateway (GwEvent e) s) R"
proof (cases "coordinator_post (sv_stopped s) (sv_data s) e")
  case Dropped
  have "image_mset (record_key (sv_gateway s)) (in_flight s) + mset (map status_key (sv_sent s)) \<subseteq># R"
    using sub by (rule subset_mset.order_trans[rotated]) simp
  with Dropped q r0 show ?thesis by (auto simp: srv_inv_def)
next
  case (ToWorker w e')
  then have "e' = e" by (auto simp: coordinator_post_def split: if_splits option.splits)
  let ?s = "s\<lparr>sv_workerQ := (sv_workerQ s)(w := sv_workerQ s w @ [e])\<rparr>"
  have b: "bus_gateway (GwEvent e) s = ?s" using ToWorker \<open>e' = e\<close> by simp
  have f: "in_flight ?s = in_flight s + {#io_id (ioe_order e)#}" by (rule in_flight_enqueue)
  show ?thesis
    unfolding b srv_inv_def f using queues_ok_enqueue[OF q act] r1 sub by auto
qed

lemma add_sub: "A \<subseteq># R \<Longrightarrow> A \<subseteq># add_mset k R"
  by (rule subset_mset.order_trans) auto

lemma postOrder_cases:
  "o_action (so_order so) \<noteq> Cancel \<Longrightarrow>
     gw_postOrder so g = (g, []) \<or> gw_postOrder so g = (g, [reject so]) \<or> gw_postOrder so g = gw_newOrder so g"
  unfolding gw_postOrder_def by (auto split: OrderAction.split)

lemma recv_inv:
  assumes inv: "srv_inv s R" and act: "o_action (so_order so) \<noteq> Cancel"
  shows "srv_inv (srv_recv so s) (add_mset (order_key so) R)"
proof -
  let ?g = "sv_gateway s"
  obtain L where ok: "records_ok ?g L (in_flight s)" using inv by (auto simp: srv_inv_def)
  have sub: "image_mset (record_key ?g) (in_flight s) + mset (map status_key (sv_sent s)) \<subseteq># R" and q: "queues_ok s"
    using inv by (auto simp: srv_inv_def)
  have keep: "srv_inv s (add_mset (order_key so) R)" using inv add_sub[OF sub] by (auto simp: srv_inv_def)
  have rej: "srv_inv (bus_gateway (reject so) (s\<lparr>sv_gateway := g'\<rparr>)) (add_mset (order_key so) R)"
    if "records_ok g' L (in_flight s)" "gw_recordMap g' = gw_recordMap ?g" for g'
    using that q sub by (auto simp: srv_inv_def reject_def Let_def status_key_def order_key_def record_key_def[abs_def])
  consider "gw_postOrder so ?g = (?g, [])" | "gw_postOrder so ?g = (?g, [reject so])"
    | "gw_postOrder so ?g = gw_newOrder so ?g"
    using postOrder_cases[OF act] by blast
  then show ?thesis
  proof cases
    case 1 then show ?thesis using keep by (simp add: srv_recv_def)
  next
    case 2 then show ?thesis using rej[OF ok] by (simp add: srv_recv_def)
  next
    case 3
    have gi: "gw_inv ?g L" using ok by (simp add: records_ok_def)
    from gi show ?thesis
    proof (cases rule: newOrder_cases[where so = so])
      case (1 v pool)
      let ?g' = "fst (gw_newOrder so ?g)"
      let ?e = "\<lparr>ioe_order = \<lparr>io_id = v, io_bookOId = 0, io_quantity = o_quantity (so_order so),
          io_price = o_price (so_order so)\<rparr>, ioe_ticker = o_ticker (so_order so), ioe_action = o_action (so_order so)\<rparr>"
      have here: "or_systemOId (gw_recordMap ?g' (slot_index SystemOrderId_cap v)) = v" unfolding 1(5) by simp
      note f = records_ok_fresh[OF ok 1(3,4) here 1(6)]
      have key: "record_key ?g' v = order_key so" unfolding record_key_def 1(5) by (simp add: order_key_def)
      have "srv_recv so s = bus_gateway (GwEvent ?e) (s\<lparr>sv_gateway := ?g'\<rparr>)"
        using 3 1(7) by (cases "gw_newOrder so ?g") (simp add: srv_recv_def)
      moreover have "srv_inv (bus_gateway (GwEvent ?e) (s\<lparr>sv_gateway := ?g'\<rparr>)) (add_mset (order_key so) R)"
        by (rule srv_inv_event[where L = "insert (slot_index SystemOrderId_cap v) L"])
           (use q act f key sub in simp_all)
      ultimately show ?thesis by simp
    next
      case (2 pool)
      have "records_ok (?g\<lparr>gw_idPool := pool\<rparr>) L (in_flight s)" using ok 2(2) by (simp add: records_ok_def)
      from rej[OF this] 3 2(1) show ?thesis by (simp add: srv_recv_def)
    qed
  qed
qed

section \<open>Matching\<close>

lemma book_add_msgs:
  assumes "ioe_action ioe \<noteq> Cancel" "book_add ioe b = Some (f, b', ms)"
  shows "ms = [] \<or> (\<exists>st. ms = [PostStatus st] \<and> st_id st = io_id (ioe_order ioe) \<and> st_state st \<in> {Accepted, Partial, Full}) \<or>
    (\<exists>er. ms = [PostError er])"
  using assms by (auto simp: book_add_def restOrder_def Let_def split: if_splits option.splits prod.splits)

lemma matcher_post_ok:
  assumes q: "queues_ok s" and e: "ioe_action e \<noteq> Cancel"
  shows "\<exists>data ms. matcher_post e (sv_data s) = Some (data, ms) \<and> queues_ok (s\<lparr>sv_data := data\<rparr>) \<and>
    (ms = [] \<or> (\<exists>st. ms = [PostStatus st] \<and> st_id st = io_id (ioe_order e) \<and> st_state st \<in> {Accepted, Partial, Full}) \<or>
     (\<exists>er. ms = [PostError er]))"
proof (cases "sv_data s (ioe_ticker e)")
  case None
  then show ?thesis using q by (simp add: matcher_post_def)
next
  case (Some td)
  then have inv: "bookInv (td_orderBook td)" "uncrossed (abs_book (td_orderBook td))"
    using q by (auto simp: queues_ok_def)
  obtain f b ms where a: "book_add e (td_orderBook td) = Some (f, b, ms)" using book_add_total[OF inv(1)] by blast
  have "bookInv b \<and> uncrossed (abs_book b)" by (rule add_uncrossed[OF inv e a])
  then have "queues_ok (s\<lparr>sv_data := (sv_data s)(ioe_ticker e \<mapsto> td\<lparr>td_orderBook := b\<rparr>)\<rparr>)"
    using q by (auto simp: queues_ok_def)
  then show ?thesis using Some a book_add_msgs[OF e a] by (simp add: matcher_post_def)
qed

lemma queues_ok_dequeue:
  "queues_ok (s\<lparr>sv_data := d\<rparr>) \<Longrightarrow> sv_workerQ s w = e # es \<Longrightarrow>
     queues_ok (s\<lparr>sv_data := d, sv_workerQ := (sv_workerQ s)(w := es)\<rparr>)"
  by (auto simp: queues_ok_def) (metis list.set_intros(2))

lemma records_ok_less: "records_ok g L (M + {#v#}) \<Longrightarrow> records_ok g L M"
proof -
  assume ok: "records_ok g L (M + {#v#})"
  have "count M u \<le> count (M + {#v#}) u" for u by simp
  then have "count M u \<le> 1" for u using ok order_trans unfolding records_ok_def by blast
  with ok show ?thesis by (simp add: records_ok_def)
qed

lemma work_inv:
  assumes inv: "srv_inv s R"
  shows "\<exists>s'. srv_work w s = Some s' \<and> srv_inv s' R"
proof (cases "sv_workerQ s w")
  case Nil
  then show ?thesis using inv by (simp add: srv_work_def)
next
  case (Cons e es)
  have q: "queues_ok s" using inv by (simp add: srv_inv_def)
  have "e \<in> set (sv_workerQ s w)" using Cons by simp
  then have e: "ioe_action e \<noteq> Cancel" using q unfolding queues_ok_def by blast
  obtain data ms where m: "matcher_post e (sv_data s) = Some (data, ms)" "queues_ok (s\<lparr>sv_data := data\<rparr>)"
    "ms = [] \<or> (\<exists>st. ms = [PostStatus st] \<and> st_id st = io_id (ioe_order e) \<and> st_state st \<in> {Accepted, Partial, Full}) \<or>
     (\<exists>er. ms = [PostError er])"
    using matcher_post_ok[OF q e] by blast
  let ?s = "s\<lparr>sv_data := data, sv_workerQ := (sv_workerQ s)(w := es)\<rparr>"
  note qs = queues_ok_dequeue[OF m(2) Cons] and fl = in_flight_dequeue[OF Cons, of data]
  obtain L where ok: "records_ok (sv_gateway s) L (in_flight ?s + {#io_id (ioe_order e)#})"
    using inv fl by (auto simp: srv_inv_def)
  have sub: "image_mset (record_key (sv_gateway s)) (in_flight ?s) + {#record_key (sv_gateway s) (io_id (ioe_order e))#} +
      mset (map status_key (sv_sent s)) \<subseteq># R" using inv fl by (auto simp: srv_inv_def)
  have less: "image_mset (record_key (sv_gateway s)) (in_flight ?s) + mset (map status_key (sv_sent s)) \<subseteq># R"
    using sub by (rule subset_mset.order_trans[rotated]) simp
  have run: "srv_work w s = Some (fold bus_book ms ?s)" using Cons m(1) by (simp add: srv_work_def)
  have drop: "srv_inv ?s R" "srv_inv (?s\<lparr>sv_errors := er\<rparr>) R" for er
    using qs records_ok_less[OF ok] less by (auto simp: srv_inv_def)
  have post: "srv_inv (?s\<lparr>sv_gatewayQ := sv_gatewayQ s @ [st]\<rparr>) R"
    if "st_id st = io_id (ioe_order e)" "st_state st \<in> {Accepted, Partial, Full}" for st
  proof -
    have "in_flight (?s\<lparr>sv_gatewayQ := sv_gatewayQ s @ [st]\<rparr>) = in_flight ?s + {#io_id (ioe_order e)#}"
      using that by (simp add: in_flight_def)
    moreover have "queues_ok (?s\<lparr>sv_gatewayQ := sv_gatewayQ s @ [st]\<rparr>)" using qs that by (auto simp: queues_ok_def)
    ultimately show ?thesis using ok sub by (auto simp: srv_inv_def)
  qed
  have "srv_inv (fold bus_book ms ?s) R" using m(3) drop post by auto
  then show ?thesis using run by simp
qed

section \<open>Statuses\<close>

lemma records_ok_close:
  assumes "records_ok g L (M + {#v#})"
  shows "records_ok (closeRecord (slot_index SystemOrderId_cap v) g) (L - {slot_index SystemOrderId_cap v}) M"
proof -
  let ?i = "slot_index SystemOrderId_cap v"
  have v: "?i \<in> L" "or_systemOId (gw_recordMap g ?i) = v" and inv: "gw_inv g L"
    and m: "\<forall>u\<in>#M. slot_index SystemOrderId_cap u \<in> L \<and> or_systemOId (gw_recordMap g (slot_index SystemOrderId_cap u)) = u"
    and c: "\<forall>u. count (M + {#v#}) u \<le> 1"
    using assms by (auto simp: records_ok_def)
  have nv: "v \<notin># M" using c[rule_format, of v] by (simp add: count_eq_zero_iff)
  then have "slot_index SystemOrderId_cap u \<noteq> ?i" if "u \<in># M" for u
    using that m v by metis
  moreover have "count M u \<le> 1" for u using c[rule_format, of u] by (simp split: if_splits)
  ultimately show ?thesis using m gw_inv_close[OF inv v(1)] by (auto simp: records_ok_def)
qed

lemma gate_inv:
  assumes inv: "srv_inv s R"
  shows "srv_inv (srv_gate s) R"
proof (cases "sv_gatewayQ s")
  case Nil
  then show ?thesis using inv by (simp add: srv_gate_def)
next
  case (Cons st sts)
  let ?g = "sv_gateway s" and ?s = "s\<lparr>sv_gatewayQ := sts\<rparr>" and ?i = "slot_index SystemOrderId_cap (st_id st)"
  have fl: "in_flight s = in_flight ?s + {#st_id st#}" using Cons by (simp add: in_flight_def)
  have q: "queues_ok ?s" and st: "st_state st \<in> {Accepted, Partial, Full}"
    using inv Cons by (auto simp: srv_inv_def queues_ok_def)
  obtain L where ok: "records_ok ?g L (in_flight ?s + {#st_id st#})" using inv fl by (auto simp: srv_inv_def)
  have sub: "image_mset (record_key ?g) (in_flight ?s) + {#record_key ?g (st_id st)#} + mset (map status_key (sv_sent s)) \<subseteq># R"
    using inv fl by (auto simp: srv_inv_def)
  show ?thesis
  proof (cases "gw_closed ?g")
    case True
    have "image_mset (record_key ?g) (in_flight ?s) + mset (map status_key (sv_sent s)) \<subseteq># R"
      using sub by (rule subset_mset.order_trans[rotated]) simp
    with True Cons q records_ok_less[OF ok] show ?thesis
      by (auto simp: srv_gate_def gw_postStatus_def srv_inv_def)
  next
    case False
    obtain g' m where p: "gw_postStatus st ?g = (g', [GwStatus m])" "status_key m = record_key ?g (st_id st)"
      "g' = closeRecord ?i ?g \<or> g' = upd_record ?i (\<lambda>r. r\<lparr>or_bookOId := st_bookOId st, or_state := RS_Accepted\<rparr>) ?g"
      using False st by (auto simp: gw_postStatus_def Let_def status_key_def record_key_def)
    have key: "record_key g' = record_key ?g" using p(3) by (auto simp: record_key_def Let_def fun_eq_iff)
    have "records_ok (upd_record ?i (\<lambda>r. r\<lparr>or_bookOId := st_bookOId st, or_state := RS_Accepted\<rparr>) ?g) L (in_flight ?s)"
      using records_ok_less[OF ok] by (auto simp: records_ok_def gw_inv_def)
    then have "\<exists>L. records_ok g' L (in_flight ?s)" using p(3) records_ok_close[OF ok] by blast
    moreover have "srv_gate s = ?s\<lparr>sv_gateway := g', sv_sent := sv_sent s @ [m]\<rparr>"
      using Cons p(1) by (simp add: srv_gate_def)
    ultimately show ?thesis using q sub key p(2) by (auto simp: srv_inv_def in_flight_def queues_ok_def)
  qed
qed

section \<open>Runs\<close>

lemma run_inv:
  assumes "srv_inv s R" "\<forall>so\<in>set (received xs). o_action (so_order so) \<noteq> Cancel"
  shows "\<exists>s'. srv_run xs s = Some s' \<and> srv_inv s' (R + mset (map order_key (received xs)))"
  using assms
proof (induction xs arbitrary: s R)
  case (Cons x xs)
  show ?case
  proof (cases x)
    case (Recv so)
    then have "srv_inv (srv_recv so s) (add_mset (order_key so) R)" using Cons.prems by (intro recv_inv) (auto simp: received_def)
    from Cons.IH[OF this] Cons.prems Recv show ?thesis by (auto simp: received_def)
  next
    case (Work w)
    obtain s' where "srv_work w s = Some s'" "srv_inv s' R" using work_inv[OF Cons.prems(1)] by blast
    with Cons.IH[of s' R] Cons.prems Work show ?thesis by (auto simp: received_def)
  next
    case Gate
    with Cons.IH[OF gate_inv[OF Cons.prems(1)]] Cons.prems show ?thesis by (auto simp: received_def)
  qed
qed (simp add: received_def)

lemma srv_inv_new:
  assumes "\<forall>t td. data t = Some td \<longrightarrow> td_orderBook td = empty_book"
  shows "srv_inv (new_server data) {#}"
proof -
  have "in_flight (new_server data) = {#}" by (simp add: in_flight_def new_server_def)
  moreover have "records_ok new_gateway {} {#}" by (simp add: records_ok_def gw_inv_new)
  ultimately show ?thesis
    using assms bookInv_empty by (auto simp: srv_inv_def queues_ok_def new_server_def uncrossed_def)
qed

end
