(* ===== verification/Server_Scenario.thy ===== *)
theory Server_Scenario
  imports Server_Flow
begin

text \<open>
  Properties of the order path: the accounting of statuses over all interleavings, and two
  runs that show what the cancel path lets a client do. The system ids the pool hands out are
  kept symbolic, so the runs hold whatever id the pool picks.
\<close>

section \<open>Placing one bid\<close>

abbreviation sample_order :: "ClientId \<Rightarrow> OrderId \<Rightarrow> Ticker \<Rightarrow> OrderAction \<Rightarrow> ServerOrder" where
  "sample_order c x t act \<equiv> \<lparr>so_clientId = c, so_order = \<lparr>o_id = x, o_ticker = t, o_quantity = 10, o_price = 6, o_action = act\<rparr>\<rparr>"

abbreviation sample_status :: "ClientId \<Rightarrow> OrderId \<Rightarrow> SystemOrderId \<Rightarrow> Price \<Rightarrow> OrderState \<Rightarrow> ServerOrderStatus" where
  "sample_status c x v p st \<equiv> \<lparr>sos_clientId = c, sos_orderStatus = \<lparr>os_orderId = x, os_systemOrderId = v, os_quantity = 0, os_fillPrice = p, os_state = st\<rparr>\<rparr>"

abbreviation bid_book :: "SystemOrderId \<Rightarrow> PriceLevelOrderBook" where
  "bid_book v \<equiv> small_book (sample_node 6 10 131073 v) zero_node (sample_level 0 0 0) (sample_level 10 1 1) 64 0 0 0 2 6"

abbreviation no_bid_book :: "SystemOrderId \<Rightarrow> PriceLevelOrderBook" where
  "no_bid_book v \<equiv> small_book (sample_node 6 10 131073 v) zero_node (sample_level 0 0 0) (sample_level 0 0 0) 0 262145 0 1 2 0"

definition idle :: "Server \<Rightarrow> bool" where
  "idle s \<longleftrightarrow> \<not> gw_closed (sv_gateway s) \<and> \<not> sv_stopped s \<and> sv_workerQ s = (\<lambda>_. []) \<and> sv_gatewayQ s = []"

lemma not_full: "card L < 100 \<Longrightarrow> L \<noteq> idx_below POOL_CAPACITY"
  by (auto simp: card_idx_below POOL_CAPACITY_val)

lemma place_bid:
  assumes inv: "gw_inv (sv_gateway s) L" "card L < 100" and idle: "idle s"
    and d: "sv_data s t = Some (fresh_data 0)"
  shows "\<exists>v s'. srv_run [Recv (sample_order c x t Buy), Work 0, Gate] s = Some s' \<and> idle s' \<and>
    slot_index SystemOrderId_cap v \<notin> L \<and> gw_inv (sv_gateway s') (insert (slot_index SystemOrderId_cap v) L) \<and>
    gw_recordMap (sv_gateway s') (slot_index SystemOrderId_cap v) = \<lparr>or_externalOId = x, or_systemOId = v,
      or_bookOId = 131073, or_ticker = t, or_clientId = c, or_state = RS_Accepted\<rparr> \<and>
    (\<forall>j. j \<noteq> slot_index SystemOrderId_cap v \<longrightarrow> gw_recordMap (sv_gateway s') j = gw_recordMap (sv_gateway s) j) \<and>
    sv_data s' = (sv_data s)(t \<mapsto> \<lparr>td_workerId = 0, td_orderBook = bid_book v\<rparr>) \<and>
    sv_sent s' = sv_sent s @ [sample_status c x v 6 Accepted]"
  using inv(1)
proof (cases rule: newOrder_cases[where so = "sample_order c x t Buy"])
  case (1 v pool)
  let ?so = "sample_order c x t Buy" and ?i = "slot_index SystemOrderId_cap v"
  obtain g ms where n: "gw_newOrder ?so (sv_gateway s) = (g, ms)" by (cases "gw_newOrder ?so (sv_gateway s)")
  note F = 1[unfolded n fst_conv snd_conv]
  let ?e = "\<lparr>ioe_order = \<lparr>io_id = v, io_bookOId = 0, io_quantity = 10, io_price = 6\<rparr>, ioe_ticker = t, ioe_action = Buy\<rparr>"
  let ?g' = "upd_record ?i (\<lambda>r. r\<lparr>or_bookOId := 131073, or_state := RS_Accepted\<rparr>) g"
  let ?data = "(sv_data s)(t \<mapsto> \<lparr>td_workerId = 0, td_orderBook = bid_book v\<rparr>)"
  have open': "\<not> gw_closed g"
    using idle 1(1,2) n by (auto simp: gw_newOrder_def Let_def idle_def)
  have new: "gw_newOrder ?so (sv_gateway s) = (g, [GwEvent ?e])" using n F(7) by simp
  have recv: "srv_recv ?so s = s\<lparr>sv_gateway := g, sv_workerQ := (\<lambda>_. [])(0 := [?e])\<rparr>"
    using idle d new by (simp add: srv_recv_def gw_postOrder_def gw_isValid_def coordinator_post_def idle_def)
  have work: "srv_work 0 (s\<lparr>sv_gateway := g, sv_workerQ := (\<lambda>_. [])(0 := [?e])\<rparr>) =
      Some (s\<lparr>sv_gateway := g, sv_workerQ := (\<lambda>_. []), sv_data := ?data,
        sv_gatewayQ := [\<lparr>st_id = v, st_bookOId = 131073, st_fillQty = 0, st_fillPrice = 6, st_state = Accepted\<rparr>]\<rparr>)"
    using d idle first_bid[of v t] by (simp add: srv_work_def matcher_post_def idle_def fun_upd_idem)
  have gate: "srv_gate (s\<lparr>sv_gateway := g, sv_workerQ := (\<lambda>_. []), sv_data := ?data,
        sv_gatewayQ := [\<lparr>st_id = v, st_bookOId = 131073, st_fillQty = 0, st_fillPrice = 6, st_state = Accepted\<rparr>]\<rparr>) =
      s\<lparr>sv_gateway := ?g', sv_workerQ := (\<lambda>_. []), sv_data := ?data, sv_gatewayQ := [],
        sv_sent := sv_sent s @ [sample_status c x v 6 Accepted]\<rparr>" (is "_ = ?s'")
    using open' F(5) by (simp add: srv_gate_def gw_postStatus_def Let_def)
  have "gw_inv ?g' (insert ?i L)" using F(4) by (auto simp: gw_inv_def)
  moreover have "idle ?s'" using idle open' by (simp add: idle_def)
  moreover have "gw_recordMap ?g' ?i = \<lparr>or_externalOId = x, or_systemOId = v, or_bookOId = 131073, or_ticker = t,
      or_clientId = c, or_state = RS_Accepted\<rparr>" using F(5) by simp
  moreover have "srv_run [Recv ?so, Work 0, Gate] s = Some ?s'" using recv work gate by simp
  ultimately show ?thesis using F(3,6) by (intro exI[of _ v] exI[of _ ?s']) simp
next
  case (2 pool)
  then show ?thesis using not_full[OF inv(2)] by simp
qed

lemma srv_run_append: "srv_run xs s = Some s' \<Longrightarrow> srv_run (xs @ ys) s = srv_run ys s'"
  by (induction xs arbitrary: s) (auto split: option.splits)

section \<open>Cancelling\<close>

definition owns :: "OrderGateway \<Rightarrow> ClientId \<Rightarrow> OrderId \<Rightarrow> SystemOrderId \<Rightarrow> bool" where
  "owns g c x v \<longleftrightarrow> \<not> gw_closed g \<and>
     (let r = gw_recordMap g (slot_index SystemOrderId_cap v)
      in or_externalOId r = x \<and> or_systemOId r = v \<and> or_bookOId r = 131073 \<and> or_clientId r = c \<and> or_state r = RS_Accepted)"

abbreviation cancel_event :: "SystemOrderId \<Rightarrow> Ticker \<Rightarrow> InternalOrderEvent" where
  "cancel_event v t \<equiv> \<lparr>ioe_order = \<lparr>io_id = v, io_bookOId = 131073, io_quantity = 10, io_price = 6\<rparr>, ioe_ticker = t, ioe_action = Cancel\<rparr>"

lemma recv_cancel:
  assumes "owns (sv_gateway s) c x v" "\<not> sv_stopped s" "sv_data s t = Some td"
  shows "srv_recv (sample_order c v t Cancel) s =
    s\<lparr>sv_workerQ := (sv_workerQ s)(td_workerId td := sv_workerQ s (td_workerId td) @ [cancel_event v t])\<rparr>"
  using assms by (simp add: srv_recv_def gw_postOrder_def gw_isValid_def gw_cancelOrder_def owns_def Let_def coordinator_post_def)

lemma gate_cancelled:
  assumes "\<not> gw_closed (sv_gateway s)" "or_systemOId (gw_recordMap (sv_gateway s) (slot_index SystemOrderId_cap v)) = v"
    "or_clientId (gw_recordMap (sv_gateway s) (slot_index SystemOrderId_cap v)) = c"
    "or_externalOId (gw_recordMap (sv_gateway s) (slot_index SystemOrderId_cap v)) = x"
    "sv_gatewayQ s = \<lparr>st_id = v, st_bookOId = 131073, st_fillQty = 0, st_fillPrice = 0, st_state = Cancelled\<rparr> # q"
  shows "srv_gate s = s\<lparr>sv_gateway := closeRecord (slot_index SystemOrderId_cap v) (sv_gateway s), sv_gatewayQ := q,
     sv_sent := sv_sent s @ [sample_status c x v 0 Cancelled]\<rparr>"
  using assms by (simp add: srv_gate_def gw_postStatus_def Let_def)

lemma cancel_run:
  assumes own: "owns (sv_gateway s) c x v" and idle: "idle s"
    and d: "sv_data s t = Some \<lparr>td_workerId = 0, td_orderBook = bid_book u\<rparr>"
  shows "srv_run [Recv (sample_order c v t Cancel), Work 0, Gate] s =
    Some (s\<lparr>sv_gateway := closeRecord (slot_index SystemOrderId_cap v) (sv_gateway s),
      sv_data := (sv_data s)(t \<mapsto> \<lparr>td_workerId = 0, td_orderBook = no_bid_book u\<rparr>),
      sv_sent := sv_sent s @ [sample_status c x v 0 Cancelled]\<rparr>)"
proof -
  let ?st = "\<lparr>st_id = v, st_bookOId = 131073, st_fillQty = 0, st_fillPrice = 0, st_state = Cancelled\<rparr>"
  let ?data = "(sv_data s)(t \<mapsto> \<lparr>td_workerId = 0, td_orderBook = no_bid_book u\<rparr>)"
  have "srv_recv (sample_order c v t Cancel) s = s\<lparr>sv_workerQ := (\<lambda>_. [])(0 := [cancel_event v t])\<rparr>"
    using recv_cancel[OF own _ d] idle by (simp add: idle_def)
  moreover have "srv_work 0 (s\<lparr>sv_workerQ := (\<lambda>_. [])(0 := [cancel_event v t])\<rparr>) =
      Some (s\<lparr>sv_workerQ := (\<lambda>_. []), sv_data := ?data, sv_gatewayQ := [?st]\<rparr>)"
    using d idle first_cancel[of v 10 6 t u] by (simp add: srv_work_def matcher_post_def idle_def fun_upd_idem)
  moreover have "s\<lparr>sv_workerQ := (\<lambda>_. []), sv_data := ?data, sv_gatewayQ := []\<rparr> = s\<lparr>sv_data := ?data\<rparr>"
    using idle by (simp add: idle_def)
  moreover have "srv_gate (s\<lparr>sv_workerQ := (\<lambda>_. []), sv_data := ?data, sv_gatewayQ := [?st]\<rparr>) =
      s\<lparr>sv_workerQ := (\<lambda>_. []), sv_gateway := closeRecord (slot_index SystemOrderId_cap v) (sv_gateway s), sv_data := ?data,
        sv_gatewayQ := [], sv_sent := sv_sent s @ [sample_status c x v 0 Cancelled]\<rparr>"
    using own by (subst gate_cancelled[where c = c and x = x and v = v and q = "[]"]) (simp_all add: owns_def Let_def)
  ultimately show ?thesis using idle by (simp add: idle_def)
qed

section \<open>Properties\<close>


definition two_tickers :: MarketData where
  "two_tickers = [makeTicker ''AAA'' \<mapsto> fresh_data 0, makeTicker ''BBB'' \<mapsto> fresh_data 0]"

lemma tickers_differ: "makeTicker ''AAA'' \<noteq> makeTicker ''BBB''"
  by (simp add: makeTicker_def char_at_def TICKER_SIZE_def)

lemma new_server_simps:
  "idle (new_server d)" "gw_inv (sv_gateway (new_server d)) {}" "sv_data (new_server d) = d" "sv_sent (new_server d) = []"
  by (simp_all add: idle_def new_server_def new_gateway_def gw_inv_new[unfolded new_gateway_def])


text \<open>C36. The gateway checks that a cancel comes from the owner of the system id, but routes it by
  the ticker in the request instead of the ticker of the record. Client 1 with a bid on AAA
  and client 2 with a bid on BBB: a cancel by client 1 for its own order that names BBB removes
  the bid of client 2 from the book. Client 1 is told \<^verbatim>\<open>Cancelled\<close>, its own bid stays in the
  book, and client 2 is told nothing.\<close>

theorem cancel_reaches_foreign_order:
  "\<exists>v1 v2 s s'. v1 \<noteq> v2 \<and>
     srv_run [Recv (sample_order 1 101 (makeTicker ''AAA'') Buy), Work 0, Gate,
              Recv (sample_order 2 201 (makeTicker ''BBB'') Buy), Work 0, Gate] (new_server two_tickers) = Some s \<and>
     sv_sent s = [sample_status 1 101 v1 6 Accepted, sample_status 2 201 v2 6 Accepted] \<and>
     srv_run [Recv (sample_order 1 v1 (makeTicker ''BBB'') Cancel), Work 0, Gate] s = Some s' \<and>
     sv_sent s' = sv_sent s @ [sample_status 1 101 v1 0 Cancelled] \<and>
     sv_data s (makeTicker ''BBB'') = Some \<lparr>td_workerId = 0, td_orderBook = bid_book v2\<rparr> \<and>
     abs_book (bid_book v2) SideBuy 6 = [\<lparr>rs_localId = 131073, rs_systemId = v2, rs_qty = 10\<rparr>] \<and>
     sv_data s' (makeTicker ''BBB'') = Some \<lparr>td_workerId = 0, td_orderBook = no_bid_book v2\<rparr> \<and>
     abs_book (no_bid_book v2) SideBuy 6 = [] \<and>
     sv_data s' (makeTicker ''AAA'') = Some \<lparr>td_workerId = 0, td_orderBook = bid_book v1\<rparr>"
proof -
  let ?A = "makeTicker ''AAA''" and ?B = "makeTicker ''BBB''" and ?i = "slot_index SystemOrderId_cap"
  have dA: "sv_data (new_server two_tickers) ?A = Some (fresh_data 0)"
    by (simp add: new_server_simps two_tickers_def tickers_differ)
  obtain v1 s1 where p1: "srv_run [Recv (sample_order 1 101 ?A Buy), Work 0, Gate] (new_server two_tickers) = Some s1"
    "idle s1" "gw_inv (sv_gateway s1) {?i v1}"
    "gw_recordMap (sv_gateway s1) (?i v1) = \<lparr>or_externalOId = 101, or_systemOId = v1, or_bookOId = 131073, or_ticker = ?A, or_clientId = 1, or_state = RS_Accepted\<rparr>"
    "sv_data s1 = two_tickers(?A \<mapsto> \<lparr>td_workerId = 0, td_orderBook = bid_book v1\<rparr>)"
    "sv_sent s1 = [sample_status 1 101 v1 6 Accepted]"
    using place_bid[OF new_server_simps(2) _ new_server_simps(1) dA, of 1 101] by (auto simp: new_server_simps)
  have dB: "sv_data s1 ?B = Some (fresh_data 0)" using tickers_differ by (auto simp: p1(5) two_tickers_def)
  obtain v2 s2 where p2: "srv_run [Recv (sample_order 2 201 ?B Buy), Work 0, Gate] s1 = Some s2" "idle s2" "?i v2 \<notin> {?i v1}"
    "gw_recordMap (sv_gateway s2) (?i v1) = gw_recordMap (sv_gateway s1) (?i v1)"
    "sv_data s2 = (sv_data s1)(?B \<mapsto> \<lparr>td_workerId = 0, td_orderBook = bid_book v2\<rparr>)"
    "sv_sent s2 = sv_sent s1 @ [sample_status 2 201 v2 6 Accepted]"
    using place_bid[OF p1(3) _ p1(2) dB, of 2 201] by auto
  have own: "owns (sv_gateway s2) 1 101 v1" using p2(2,4) p1(4) by (simp add: owns_def idle_def)
  have d2: "sv_data s2 ?B = Some \<lparr>td_workerId = 0, td_orderBook = bid_book v2\<rparr>" by (simp add: p2(5))
  note c = cancel_run[OF own p2(2) d2]
  have h: "pl_head (level_side (bid_book v2) SideBuy 6) = 1" "nodePool (bid_book v2) 1 = sample_node 6 10 131073 v2"
    "pl_head (level_side (no_bid_book v2) SideBuy 6) = 0"
    by (simp_all add: small_book_def level_side_def)
  have a1: "abs_book (bid_book v2) SideBuy 6 = [\<lparr>rs_localId = 131073, rs_systemId = v2, rs_qty = 10\<rparr>]"
    using abs_single[OF h(1)] h(2) by (simp add: resting_def)
  have a2: "abs_book (no_bid_book v2) SideBuy 6 = []" by (rule abs_none[OF h(3)])
  have run: "srv_run [Recv (sample_order 1 101 ?A Buy), Work 0, Gate, Recv (sample_order 2 201 ?B Buy), Work 0, Gate]
      (new_server two_tickers) = Some s2"
    using srv_run_append[OF p1(1), of "[Recv (sample_order 2 201 ?B Buy), Work 0, Gate]"] p2(1) by simp
  let ?s' = "s2\<lparr>sv_gateway := closeRecord (?i v1) (sv_gateway s2),
      sv_data := (sv_data s2)(?B \<mapsto> \<lparr>td_workerId = 0, td_orderBook = no_bid_book v2\<rparr>),
      sv_sent := sv_sent s2 @ [sample_status 1 101 v1 0 Cancelled]\<rparr>"
  have "v1 \<noteq> v2" using p2(3) by auto
  then show ?thesis
    using run c d2 a1 a2 p1(5,6) p2(5,6) tickers_differ
    by (intro exI[of _ v1] exI[of _ v2] exI[of _ s2] exI[of _ ?s']) simp
qed

lemma closeRecord_owner:
  "gw_closed (closeRecord i g) = gw_closed g"
  by (simp add: closeRecord_def Let_def)

lemma double_cancel_run:
  assumes own: "owns (sv_gateway s) c x v" and idle: "idle s"
    and d: "sv_data s t = Some \<lparr>td_workerId = 0, td_orderBook = bid_book u\<rparr>"
  shows "\<exists>s'. srv_run [Recv (sample_order c v t Cancel), Recv (sample_order c v t Cancel), Work 0, Work 0, Gate, Gate] s = Some s' \<and>
    gw_idPool (sv_gateway s') = pool_release v (pool_release v (gw_idPool (sv_gateway s))) \<and>
    (\<exists>b. sv_data s' t = Some \<lparr>td_workerId = 0, td_orderBook = b\<rparr> \<and> free_ids b = [262145, 262145] \<and>
       pl_volume (level_side b SideBuy 6) = - 10)"
proof -
  let ?st = "\<lparr>st_id = v, st_bookOId = 131073, st_fillQty = 0, st_fillPrice = 0, st_state = Cancelled\<rparr>"
  let ?i = "slot_index SystemOrderId_cap v" and ?e = "cancel_event v t"
  obtain b where b: "book_add ?e (no_bid_book u) = Some (True, b, [PostStatus ?st])" "free_ids b = [262145, 262145]"
    "pl_volume (level_side b SideBuy 6) = - 10"
    using second_cancel[of v 10 6 t u] by blast
  let ?d1 = "(sv_data s)(t \<mapsto> \<lparr>td_workerId = 0, td_orderBook = no_bid_book u\<rparr>)"
  let ?d2 = "(sv_data s)(t \<mapsto> \<lparr>td_workerId = 0, td_orderBook = b\<rparr>)"
  let ?s1 = "s\<lparr>sv_workerQ := (\<lambda>_. [])(0 := [?e])\<rparr>" and ?s2 = "s\<lparr>sv_workerQ := (\<lambda>_. [])(0 := [?e, ?e])\<rparr>"
  have r1: "srv_recv (sample_order c v t Cancel) s = ?s1"
    using recv_cancel[OF own _ d] idle by (simp add: idle_def)
  have own1: "owns (sv_gateway ?s1) c x v" "\<not> sv_stopped ?s1" "sv_data ?s1 t = Some \<lparr>td_workerId = 0, td_orderBook = bid_book u\<rparr>"
    using own idle d by (simp_all add: idle_def)
  have r2: "srv_recv (sample_order c v t Cancel) ?s1 = ?s2"
    using recv_cancel[OF own1] by simp
  let ?s3 = "s\<lparr>sv_workerQ := (\<lambda>_. [])(0 := [?e]), sv_data := ?d1, sv_gatewayQ := [?st]\<rparr>"
  have w1: "srv_work 0 ?s2 = Some ?s3"
    using d idle first_cancel[of v 10 6 t u] by (simp add: srv_work_def matcher_post_def idle_def)
  let ?s4 = "s\<lparr>sv_workerQ := (\<lambda>_. []), sv_data := ?d2, sv_gatewayQ := [?st, ?st]\<rparr>"
  have w2: "srv_work 0 ?s3 = Some ?s4"
    using b(1) by (simp add: srv_work_def matcher_post_def fun_upd_idem)
  let ?s5 = "s\<lparr>sv_workerQ := (\<lambda>_. []), sv_gateway := closeRecord ?i (sv_gateway s), sv_data := ?d2,
    sv_gatewayQ := [?st], sv_sent := sv_sent s @ [sample_status c x v 0 Cancelled]\<rparr>"
  have g1: "srv_gate ?s4 = ?s5"
    using own by (subst gate_cancelled[where c = c and x = x and v = v and q = "[?st]"]) (simp_all add: owns_def Let_def)
  have g2: "srv_gate ?s5 = ?s5\<lparr>sv_gateway := closeRecord ?i (closeRecord ?i (sv_gateway s)), sv_gatewayQ := [],
      sv_sent := sv_sent s @ [sample_status c x v 0 Cancelled] @ [sample_status c x v 0 Cancelled]\<rparr>"
    using own by (subst gate_cancelled[where c = c and x = x and v = v and q = "[]"])
                 (simp_all add: owns_def Let_def closeRecord_owner)
  have v: "or_systemOId (gw_recordMap (sv_gateway s) ?i) = v" using own by (simp add: owns_def Let_def)
  have "srv_run [Recv (sample_order c v t Cancel), Recv (sample_order c v t Cancel), Work 0, Work 0, Gate, Gate] s = Some (srv_gate ?s5)"
    using r1 r2 w1 w2 g1 by simp
  then show ?thesis
    unfolding g2 using b(2,3) v by (intro exI conjI) (assumption, simp_all)
qed

text \<open>C37. A client that sends the same cancel twice before the first one is processed gets both
  executed: the record stays \<^verbatim>\<open>Accepted\<close> until the gateway thread sees the first status, and the
  book accepts the second cancel because releasing an id does not clear it in the node. The
  system id and the book id are then both released twice (two later orders will share a slot)
  and the level volume wraps below zero.\<close>

theorem double_cancel_releases_twice:
  "\<exists>v s s'. srv_run [Recv (sample_order 1 101 (makeTicker ''AAA'') Buy), Work 0, Gate] (new_server two_tickers) = Some s \<and>
     sv_sent s = [sample_status 1 101 v 6 Accepted] \<and>
     srv_run [Recv (sample_order 1 v (makeTicker ''AAA'') Cancel), Recv (sample_order 1 v (makeTicker ''AAA'') Cancel),
              Work 0, Work 0, Gate, Gate] s = Some s' \<and>
     gw_idPool (sv_gateway s') = pool_release v (pool_release v (gw_idPool (sv_gateway s))) \<and>
     (\<exists>b. sv_data s' (makeTicker ''AAA'') = Some \<lparr>td_workerId = 0, td_orderBook = b\<rparr> \<and>
        free_ids b = [262145, 262145] \<and> pl_volume (level_side b SideBuy 6) = - 10 \<and> \<not> bookInv b)"
proof -
  let ?A = "makeTicker ''AAA''" and ?i = "slot_index SystemOrderId_cap"
  have dA: "sv_data (new_server two_tickers) ?A = Some (fresh_data 0)"
    by (simp add: new_server_simps two_tickers_def tickers_differ)
  obtain v s where p: "srv_run [Recv (sample_order 1 101 ?A Buy), Work 0, Gate] (new_server two_tickers) = Some s" "idle s"
    "gw_recordMap (sv_gateway s) (?i v) = \<lparr>or_externalOId = 101, or_systemOId = v, or_bookOId = 131073, or_ticker = ?A, or_clientId = 1, or_state = RS_Accepted\<rparr>"
    "sv_data s = two_tickers(?A \<mapsto> \<lparr>td_workerId = 0, td_orderBook = bid_book v\<rparr>)"
    "sv_sent s = [sample_status 1 101 v 6 Accepted]"
    using place_bid[OF new_server_simps(2) _ new_server_simps(1) dA, of 1 101] by (auto simp: new_server_simps)
  have own: "owns (sv_gateway s) 1 101 v" using p(2,3) by (simp add: owns_def idle_def)
  have d: "sv_data s ?A = Some \<lparr>td_workerId = 0, td_orderBook = bid_book v\<rparr>" by (simp add: p(4))
  have "\<not> bookInv b" if "free_ids b = [262145, 262145]" for b
    using that by (auto simp: bookInv_def book_rel_def book_ids_inv_def slots_ok_def)
  then show ?thesis using double_cancel_run[OF own p(2) d] p(1,5) by blast
qed

end
