(* ===== verification/Spin_Wait.thy ===== *)
theory Spin_Wait
  imports Prelude
begin

text \<open>
  \<^verbatim>\<open>SpinWait\<close> of \<^verbatim>\<open>common/src/utils/spin_wait.hpp\<close>: the bounded back-off counter of every polling
  loop. The pause and yield instructions change no state; the result says whether to go on
  spinning.
\<close>

definition SPIN_RETRIES_HOT :: nat where "SPIN_RETRIES_HOT = 1000"
definition SPIN_RETRIES_WARM :: nat where "SPIN_RETRIES_WARM = SPIN_RETRIES_HOT * 100"
definition SPIN_RETRIES_YIELD :: nat where "SPIN_RETRIES_YIELD = SPIN_RETRIES_WARM * 10"

record SpinWait =
  sw_cap :: nat
  sw_cycles :: nat

definition sw_new :: "nat \<Rightarrow> SpinWait" where
  "sw_new c = \<lparr>sw_cap = c, sw_cycles = 0\<rparr>"

definition sw_reset :: "SpinWait \<Rightarrow> SpinWait" where
  "sw_reset w = w\<lparr>sw_cycles := 0\<rparr>"

definition sw_inc :: "SpinWait \<Rightarrow> bool \<times> SpinWait" where
  "sw_inc w =
     (if sw_cycles w \<ge> sw_cap w then (False, w)
      else
        let w = w\<lparr>sw_cycles := sw_cycles w + 1\<rparr>
        in if sw_cycles w < SPIN_RETRIES_HOT then (True, w)
           else if sw_cycles w < SPIN_RETRIES_WARM then (True, w)
           else if sw_cycles w < SPIN_RETRIES_YIELD then (True, w)
           else (False, w))"

lemma sw_inc_cap [simp]: "sw_cap (snd (sw_inc w)) = sw_cap w"
  by (simp add: sw_inc_def Let_def)

text \<open>The number of times \<open>sw_inc\<close> answers true before it answers false.\<close>

definition spin_budget :: "SpinWait \<Rightarrow> nat" where
  "spin_budget w = min (sw_cap w) (SPIN_RETRIES_YIELD - 1) - sw_cycles w"

lemma sw_inc_True: "fst (sw_inc w) \<longleftrightarrow> 0 < spin_budget w"
  by (auto simp: sw_inc_def Let_def spin_budget_def SPIN_RETRIES_HOT_def SPIN_RETRIES_WARM_def SPIN_RETRIES_YIELD_def)

lemma sw_inc_budget: "fst (sw_inc w) \<Longrightarrow> spin_budget w = Suc (spin_budget (snd (sw_inc w)))"
  by (auto simp: sw_inc_def Let_def spin_budget_def SPIN_RETRIES_HOT_def SPIN_RETRIES_WARM_def SPIN_RETRIES_YIELD_def
      split: if_splits)

fun sw_spin :: "nat \<Rightarrow> SpinWait \<Rightarrow> bool \<times> SpinWait" where
  "sw_spin 0 w = sw_inc w"
| "sw_spin (Suc n) w = (case sw_inc w of (b, w') \<Rightarrow> if b then sw_spin n w' else (False, w'))"

lemma sw_spin_True: "fst (sw_spin n w) \<longleftrightarrow> n < spin_budget w"
proof (induction n arbitrary: w)
  case 0
  then show ?case by (simp add: sw_inc_True)
next
  case (Suc n)
  obtain b w' where i: "sw_inc w = (b, w')" by (cases "sw_inc w")
  have "b \<longleftrightarrow> 0 < spin_budget w" using sw_inc_True[of w] i by simp
  moreover have "spin_budget w = Suc (spin_budget w')" if b using sw_inc_budget[of w] i that by simp
  ultimately show ?case using Suc.IH[of w'] i by (cases b) simp_all
qed

end
