(* ===== verification/Fifo_Queue.thy ===== *)
theory Fifo_Queue
  imports Prelude
begin

text \<open>
  The contract of a bounded FIFO queue, which the lock-free queues of
  \<^verbatim>\<open>common/src/containers\<close> provide and the runners and transports rely on: a write succeeds
  exactly when there is room and appends, a read returns the oldest element. The client
  lemma follows any sequence of writes and reads: what was accepted is what was delivered
  followed by what is still stored, in order.
\<close>

datatype 'a queue_op = Write 'a | Read

fun fifo_step ::
  "('a \<Rightarrow> 's \<Rightarrow> bool \<times> 's) \<Rightarrow> ('s \<Rightarrow> 'a option \<times> 's) \<Rightarrow> 'a queue_op \<Rightarrow> 's \<times> 'a list \<times> 'a list \<Rightarrow> 's \<times> 'a list \<times> 'a list" where
  "fifo_step enq deq (Write x) (s, acc, del) = (case enq x s of (b, s') \<Rightarrow> (s', if b then acc @ [x] else acc, del))"
| "fifo_step enq deq Read (s, acc, del) =
     (case deq s of (r, s') \<Rightarrow> (s', acc, case r of None \<Rightarrow> del | Some x \<Rightarrow> del @ [x]))"

definition fifo_run ::
  "('a \<Rightarrow> 's \<Rightarrow> bool \<times> 's) \<Rightarrow> ('s \<Rightarrow> 'a option \<times> 's) \<Rightarrow> 'a queue_op list \<Rightarrow> 's \<Rightarrow> 's \<times> 'a list \<times> 'a list" where
  "fifo_run enq deq ops s = fold (fifo_step enq deq) ops (s, [], [])"

locale fifo =
  fixes enq :: "'a \<Rightarrow> 's \<Rightarrow> bool \<times> 's"
    and deq :: "'s \<Rightarrow> 'a option \<times> 's"
    and q_inv :: "'s \<Rightarrow> bool"
    and items :: "'s \<Rightarrow> 'a list"
    and room :: nat
    and msg_ok :: "'a \<Rightarrow> bool"
  assumes write_law:
      "q_inv s \<Longrightarrow> msg_ok x \<Longrightarrow> enq x s = (b, s') \<Longrightarrow>
         q_inv s' \<and> (b \<longleftrightarrow> length (items s) < room) \<and> items s' = (if b then items s @ [x] else items s)"
    and read_law:
      "q_inv s \<Longrightarrow> deq s = (r, s') \<Longrightarrow>
         q_inv s' \<and> r = (case items s of [] \<Rightarrow> None | x # xs \<Rightarrow> Some x) \<and> items s' = tl (items s)"
begin

definition op_ok :: "'a queue_op \<Rightarrow> bool" where
  "op_ok op \<longleftrightarrow> (case op of Write x \<Rightarrow> msg_ok x | Read \<Rightarrow> True)"

lemma step_account:
  assumes "q_inv s" "items s0 @ acc = del @ items s" "op_ok op"
    and "fifo_step enq deq op (s, acc, del) = (s', acc', del')"
  shows "q_inv s' \<and> items s0 @ acc' = del' @ items s'"
proof (cases op)
  case (Write x)
  obtain b s1 where e: "enq x s = (b, s1)" by (cases "enq x s")
  with write_law[OF assms(1) _ e] assms Write show ?thesis by (auto simp: op_ok_def)
next
  case Read
  obtain r s1 where d: "deq s = (r, s1)" by (cases "deq s")
  with read_law[OF assms(1) d] assms Read show ?thesis by (cases "items s") auto
qed

lemma run_account:
  assumes "q_inv s" "items s0 @ acc = del @ items s" "\<And>op. op \<in> set ops \<Longrightarrow> op_ok op"
    and "fold (fifo_step enq deq) ops (s, acc, del) = (s', acc', del')"
  shows "q_inv s' \<and> items s0 @ acc' = del' @ items s'"
  using assms
proof (induction ops arbitrary: s acc del)
  case (Cons op ops)
  obtain s1 a1 d1 where st: "fifo_step enq deq op (s, acc, del) = (s1, a1, d1)"
    by (cases "fifo_step enq deq op (s, acc, del)")
  have "q_inv s1 \<and> items s0 @ a1 = d1 @ items s1"
    using step_account[OF Cons.prems(1,2) _ st] Cons.prems(3) by simp
  then show ?case using Cons.IH[of s1 a1 d1] Cons.prems(3,4) st by simp
qed auto

lemma run_fifo:
  assumes "q_inv s" "items s = []" "\<And>op. op \<in> set ops \<Longrightarrow> op_ok op"
    and "fifo_run enq deq ops s = (s', acc, del)"
  shows "acc = del @ items s'"
  using run_account[of s s "[]" "[]" ops s' acc del] assms by (simp add: fifo_run_def)

end

end
