(* ===== verification/Seq_Ring.thy ===== *)
theory Seq_Ring
  imports Ring_Buffer
begin

text \<open>
  The sequence-number discipline shared by \<^verbatim>\<open>SequencedSPSC\<close> and \<^verbatim>\<open>VyukovMPMC\<close>: every slot of a
  ring of \<open>2 ^ k\<close> slots carries a 64-bit number. A slot at position \<open>p\<close> is free for the writer
  when it holds \<open>p\<close>, filled when it holds \<open>p + 1\<close>, and the reader hands it back with
  \<open>p + 2 ^ k\<close>. The counters wrap, so the invariant speaks of the reader's position \<open>r\<close> and the
  number \<open>c\<close> of filled slots, never of the order of two counters.
\<close>

definition slot_of :: "nat \<Rightarrow> u64 \<Rightarrow> nat" where
  "slot_of k idx = unat (idx AND (push_bit k 1 - 1))"

definition seq_ok :: "nat \<Rightarrow> (nat, u64) array \<Rightarrow> u64 \<Rightarrow> nat \<Rightarrow> bool" where
  "seq_ok k sq r c \<longleftrightarrow> c \<le> 2 ^ k \<and>
     (\<forall>j < 2 ^ k. sq ((unat r + j) mod 2 ^ k) = r + of_nat j + (if j < c then 1 else 0))"

definition fill_count :: "u64 \<Rightarrow> u64 \<Rightarrow> nat" where
  "fill_count w r = unat (w - r)"

lemma slot_of_mod: "k < 64 \<Longrightarrow> slot_of k idx = unat idx mod 2 ^ k"
proof -
  assume "k < 64"
  have "(push_bit k 1 - 1 :: u64) = mask k" by (simp add: mask_eq_decr_exp push_bit_eq_mult)
  then show ?thesis
    by (simp add: slot_of_def unsigned_take_bit_eq take_bit_eq_mod flip: take_bit_eq_mask)
       (simp flip: take_bit_eq_mod add: unsigned_take_bit_eq)?
qed

lemma slot_of_less: "k < 64 \<Longrightarrow> slot_of k idx < 2 ^ k"
  by (simp add: slot_of_mod)

lemma unat_add_mod: "k < 64 \<Longrightarrow> unat (a + b :: u64) mod 2 ^ k = (unat a + unat b) mod 2 ^ k"
proof -
  assume "k < 64"
  then have "(2 ^ k :: nat) dvd 2 ^ 64" by (intro le_imp_power_dvd) simp
  then show ?thesis by (simp add: unat_word_ariths mod_mod_cancel)
qed

lemma unat_of_nat_le_pow: "k < 64 \<Longrightarrow> c \<le> 2 ^ k \<Longrightarrow> unat (of_nat c :: u64) = c"
proof -
  assume "k < 64" "c \<le> 2 ^ k"
  moreover have "(2 :: nat) ^ k < 2 ^ 64" using \<open>k < 64\<close> by (intro power_strict_increasing) auto
  ultimately have "c < 2 ^ LENGTH(64)" by simp
  then show ?thesis by (simp add: take_bit_nat_eq_self_iff unsigned_of_nat)
qed

lemma fill_count_write: "w = r + of_nat (fill_count w r)"
  by (simp add: fill_count_def)

lemma fill_count_add: "k < 64 \<Longrightarrow> c \<le> 2 ^ k \<Longrightarrow> fill_count (r + of_nat c) r = c"
  by (simp add: fill_count_def unat_of_nat_le_pow)

lemma slot_of_add: "k < 64 \<Longrightarrow> c \<le> 2 ^ k \<Longrightarrow> slot_of k (r + of_nat c) = (unat r + c) mod 2 ^ k"
  by (simp add: slot_of_mod unat_add_mod unat_of_nat_le_pow)

lemma unat_Suc_mod: "k < 64 \<Longrightarrow> (unat (r + 1 :: u64) + j) mod 2 ^ k = (unat r + Suc j) mod 2 ^ k"
  using unat_add_mod[of k r 1] mod_add_cong[of "unat (r + 1)" "2 ^ k" "unat r + 1" j j] by simp

lemma push_bit_1: "(push_bit k 1 :: u64) = 2 ^ k"
  by (simp add: push_bit_eq_mult)

lemma pow_neq_1: "0 < k \<Longrightarrow> k < 64 \<Longrightarrow> (2 ^ k :: u64) \<noteq> 1"
proof
  assume "0 < k" "k < 64" "(2 ^ k :: u64) = 1"
  then have "unat (of_nat (2 ^ k) :: u64) = 1" by simp
  then have "(2 :: nat) ^ k = 1" using unat_of_nat_le_pow[OF \<open>k < 64\<close> le_refl] by linarith
  then show False using \<open>0 < k\<close> by simp
qed

section \<open>What the writer and the reader see\<close>

lemma seq_at_write:
  assumes "seq_ok k sq r c" "0 < k" "k < 64"
  shows "sq (slot_of k (r + of_nat c)) = (if c < 2 ^ k then r + of_nat c else r + 1)"
proof (cases "c < 2 ^ k")
  case True
  then have "sq ((unat r + c) mod 2 ^ k) = r + of_nat c"
    using assms(1) by (simp add: seq_ok_def)
  then show ?thesis using assms(3) True by (simp add: slot_of_add)
next
  case False
  then have "c = 2 ^ k" using assms(1) by (simp add: seq_ok_def)
  moreover have "sq ((unat r + 0) mod 2 ^ k) = r + of_nat 0 + (if 0 < c then 1 else 0)"
    using assms(1) unfolding seq_ok_def by (elim conjE allE[of _ 0]) simp
  ultimately show ?thesis using slot_of_add[OF assms(3), of c r] by simp
qed

lemma seq_write_free:
  assumes "seq_ok k sq r c" "0 < k" "k < 64"
  shows "sq (slot_of k (r + of_nat c)) = r + of_nat c \<longleftrightarrow> c < 2 ^ k"
proof (cases "c < 2 ^ k")
  case False
  then have "c = 2 ^ k" using assms(1) by (simp add: seq_ok_def)
  then show ?thesis using seq_at_write[OF assms] pow_neq_1[OF assms(2,3)] by auto
qed (use seq_at_write[OF assms] in simp)

lemma seq_at_read:
  assumes "seq_ok k sq r c" "k < 64"
  shows "sq (slot_of k r) = r + (if 0 < c then 1 else 0)"
proof -
  have "sq ((unat r + 0) mod 2 ^ k) = r + of_nat 0 + (if 0 < c then 1 else 0)"
    using assms(1) unfolding seq_ok_def by (elim conjE allE[of _ 0]) simp
  then show ?thesis using assms(2) by (simp add: slot_of_mod)
qed

lemma seq_read_ready:
  assumes "seq_ok k sq r c" "k < 64"
  shows "sq (slot_of k r) = r + 1 \<longleftrightarrow> 0 < c"
  using seq_at_read[OF assms] by simp

section \<open>Preservation\<close>

lemma seq_ok_write:
  assumes "seq_ok k sq r c" "k < 64" "c < 2 ^ k"
  shows "seq_ok k (sq(slot_of k (r + of_nat c) := r + of_nat c + 1)) r (Suc c)"
proof -
  have "(unat r + j) mod 2 ^ k \<noteq> (unat r + c) mod 2 ^ k" if "j < 2 ^ k" "j \<noteq> c" for j
    using mod_add_neq[of j c "2 ^ k" "unat r"] mod_add_neq[of c j "2 ^ k" "unat r"] that assms(3)
    by (metis nat_neq_iff)
  moreover have "j < c" if "j < Suc c" "j \<noteq> c" for j using that by simp
  ultimately show ?thesis using assms slot_of_add[OF assms(2), of c r]
    by (auto simp: seq_ok_def add.assoc less_Suc_eq)
qed

lemma seq_ok_read:
  assumes "seq_ok k sq r (Suc c)" "k < 64"
  shows "seq_ok k (sq(slot_of k r := r + push_bit k 1)) (r + 1) c"
  unfolding seq_ok_def
proof (intro conjI allI impI)
  show "c \<le> 2 ^ k" using assms(1) by (simp add: seq_ok_def)
  fix j :: nat assume j: "j < 2 ^ k"
  show "(sq(slot_of k r := r + push_bit k 1)) ((unat (r + 1) + j) mod 2 ^ k) =
      r + 1 + of_nat j + (if j < c then 1 else 0)"
  proof (cases "Suc j < 2 ^ k")
    case True
    have "(unat r + Suc j) mod 2 ^ k \<noteq> unat r mod 2 ^ k"
      using mod_add_neq[of 0 "Suc j" "2 ^ k" "unat r"] True by simp
    moreover have "sq ((unat r + Suc j) mod 2 ^ k) = r + of_nat (Suc j) + (if Suc j < Suc c then 1 else 0)"
      using assms(1) True unfolding seq_ok_def by blast
    ultimately show ?thesis using assms(2) unat_Suc_mod[OF assms(2), of r j]
      by (simp add: slot_of_mod del: add_Suc_right) (simp add: algebra_simps)?
  next
    case False
    then have sj: "Suc j = 2 ^ k" using j by simp
    then have "\<not> j < c" using assms(1) by (simp add: seq_ok_def)
    moreover have "(unat (r + 1) + j) mod 2 ^ k = slot_of k r"
      using assms(2) unat_Suc_mod[OF assms(2), of r j] sj by (simp add: slot_of_mod)
    moreover have "(2 ^ k :: u64) = 1 + of_nat j" using arg_cong[OF sj, of "of_nat :: nat \<Rightarrow> u64"] by simp
    ultimately show ?thesis by (simp add: push_bit_1 add.assoc)
  qed
qed

lemma seq_ok_init: "k < 64 \<Longrightarrow> seq_ok k of_nat 0 0"
  by (simp add: seq_ok_def)

text \<open>Writing one slot's payload appends to the ring, handing one back drops its head.\<close>

lemma ring_write:
  assumes "k < 64" "c < 2 ^ k"
    and "\<And>i. i \<noteq> slot_of k (r + of_nat c) \<Longrightarrow> a' i = a i" "a' (slot_of k (r + of_nat c)) = v"
  shows "ring (2 ^ k) a' (unat r) (Suc c) = ring (2 ^ k) a (unat r) c @ [v]"
proof -
  have s: "slot_of k (r + of_nat c) = (unat r + c) mod 2 ^ k" using assms by (simp add: slot_of_add)
  have "a' = a((unat r + c) mod 2 ^ k := v)" using assms(3,4) s by auto
  then show ?thesis using ring_push[OF assms(2), of a "unat r" v] by simp
qed

lemma ring_read:
  assumes "k < 64"
  shows "ring (2 ^ k) a (unat r) (Suc c) = a (slot_of k r) # ring (2 ^ k) a (unat (r + 1)) c"
proof -
  have "ring (2 ^ k) a (Suc (unat r)) c = ring (2 ^ k) a (unat (r + 1)) c"
    using unat_Suc_mod[OF assms, of r] by (simp add: ring_def)
  then show ?thesis using assms by (simp add: ring_Suc slot_of_mod)
qed

end
