(* ===== verification/Sequenced_SPSC.thy ===== *)
theory Sequenced_SPSC
  imports Fifo_Queue Seq_Ring
begin

text \<open>
  \<^verbatim>\<open>SequencedSPSC\<close> of \<^verbatim>\<open>common/src/containers/sequenced_spsc.hpp\<close>: a ring of 64-byte slots, each
  with a sequence number that says whose turn it is. The template parameter is \<open>2 ^ k\<close>; the
  program instantiates it with \<open>k = 16\<close> (\<^verbatim>\<open>LfqRunner\<close>), \<open>17\<close> (\<^verbatim>\<open>ShmQueue\<close>) and \<open>10\<close> (the
  trader's cancel queue). The last section splits \<^verbatim>\<open>read\<close> where its slot is handed back to the
  producer.
\<close>

section \<open>Model\<close>

definition MAX_DATA_SIZE :: nat where "MAX_DATA_SIZE = 52"

record SequencedSPSC =
  sq_seq :: "(nat, u64) array"
  sq_size :: "(nat, u32) array"
  sq_bytes :: "(nat, u8 list) array"
  sq_writeIdx :: u64
  sq_readIdx :: u64

definition spsc_new :: SequencedSPSC where
  "spsc_new = \<lparr>sq_seq = of_nat, sq_size = (\<lambda>_. 0), sq_bytes = (\<lambda>_. replicate MAX_DATA_SIZE 0),
     sq_writeIdx = 0, sq_readIdx = 0\<rparr>"

definition spsc_write :: "nat \<Rightarrow> u8 list \<Rightarrow> SequencedSPSC \<Rightarrow> bool \<times> SequencedSPSC" where
  "spsc_write k src q =
     (if length src > MAX_DATA_SIZE then (False, q)
      else
        let i = slot_of k (sq_writeIdx q)
        in if sq_seq q i \<noteq> sq_writeIdx q then (False, q)
           else (True, q\<lparr>sq_bytes := (sq_bytes q)(i := src @ drop (length src) (sq_bytes q i)),
                         sq_size := (sq_size q)(i := of_nat (length src)),
                         sq_seq := (sq_seq q)(i := sq_writeIdx q + 1),
                         sq_writeIdx := sq_writeIdx q + 1\<rparr>))"

text \<open>The returned size, the bytes copied to the destination, and the queue.\<close>

definition spsc_read :: "nat \<Rightarrow> u32 \<Rightarrow> SequencedSPSC \<Rightarrow> u32 \<times> u8 list \<times> SequencedSPSC" where
  "spsc_read k maxSize q =
     (let i = slot_of k (sq_readIdx q)
      in if sq_seq q i \<noteq> sq_readIdx q + 1 then (0, [], q)
         else if sq_size q i > maxSize then (0, [], q)
         else (sq_size q i, take (unat (sq_size q i)) (sq_bytes q i),
               q\<lparr>sq_seq := (sq_seq q)(i := sq_readIdx q + push_bit k 1), sq_readIdx := sq_readIdx q + 1\<rparr>))"

text \<open>The callers' view of a read: nothing was there, or the message.\<close>

definition spsc_read_msg :: "nat \<Rightarrow> u32 \<Rightarrow> SequencedSPSC \<Rightarrow> u8 list option \<times> SequencedSPSC" where
  "spsc_read_msg k maxSize q = (case spsc_read k maxSize q of (n, bs, q') \<Rightarrow> (if n = 0 then None else Some bs, q'))"

section \<open>Invariant and abstraction\<close>

definition spsc_count :: "SequencedSPSC \<Rightarrow> nat" where
  "spsc_count q = fill_count (sq_writeIdx q) (sq_readIdx q)"

definition slot_msg :: "SequencedSPSC \<Rightarrow> nat \<Rightarrow> u8 list" where
  "slot_msg q i = take (unat (sq_size q i)) (sq_bytes q i)"

definition spsc_items :: "nat \<Rightarrow> SequencedSPSC \<Rightarrow> u8 list list" where
  "spsc_items k q = ring (2 ^ k) (slot_msg q) (unat (sq_readIdx q)) (spsc_count q)"

definition spsc_msg_ok :: "u32 \<Rightarrow> u8 list \<Rightarrow> bool" where
  "spsc_msg_ok maxSize m \<longleftrightarrow> 0 < length m \<and> length m \<le> MAX_DATA_SIZE \<and> length m \<le> unat maxSize"

definition spsc_inv :: "nat \<Rightarrow> u32 \<Rightarrow> SequencedSPSC \<Rightarrow> bool" where
  "spsc_inv k maxSize q \<longleftrightarrow> seq_ok k (sq_seq q) (sq_readIdx q) (spsc_count q) \<and>
     (\<forall>i. length (sq_bytes q i) = MAX_DATA_SIZE) \<and>
     (\<forall>i. sq_size q i = of_nat (length (slot_msg q i))) \<and>
     (\<forall>m \<in> set (spsc_items k q). spsc_msg_ok maxSize m)"

lemma spsc_new_inv: "k < 64 \<Longrightarrow> spsc_inv k m spsc_new \<and> spsc_items k spsc_new = []"
  by (simp add: spsc_inv_def spsc_new_def spsc_count_def spsc_items_def fill_count_def seq_ok_init slot_msg_def)

lemma length_spsc_items: "length (spsc_items k q) = spsc_count q"
  by (simp add: spsc_items_def)

lemma spsc_writeIdx: "sq_writeIdx q = sq_readIdx q + of_nat (spsc_count q)"
  by (simp add: spsc_count_def flip: fill_count_write)

lemma spsc_write_law:
  assumes inv: "spsc_inv k mx q" and k: "0 < k" "k < 64" and m: "spsc_msg_ok mx src"
    and w: "spsc_write k src q = (b, q')"
  shows "spsc_inv k mx q' \<and> (b \<longleftrightarrow> length (spsc_items k q) < 2 ^ k) \<and>
    spsc_items k q' = (if b then spsc_items k q @ [src] else spsc_items k q)"
proof -
  define c where "c = spsc_count q"
  let ?r = "sq_readIdx q" and ?i = "slot_of k (sq_writeIdx q)"
  have sq: "seq_ok k (sq_seq q) ?r c" using inv by (simp add: spsc_inv_def c_def)
  have wi: "sq_writeIdx q = ?r + of_nat c" using spsc_writeIdx c_def by simp
  have src: "length src \<le> MAX_DATA_SIZE" "0 < length src" using m by (auto simp: spsc_msg_ok_def)
  have free: "sq_seq q ?i = sq_writeIdx q \<longleftrightarrow> c < 2 ^ k" using seq_write_free[OF sq k] wi by simp
  show ?thesis
  proof (cases "c < 2 ^ k")
    case False
    then show ?thesis using w free src inv by (auto simp: spsc_write_def length_spsc_items c_def)
  next
    case True
    have q': "b" "q' = q\<lparr>sq_bytes := (sq_bytes q)(?i := src @ drop (length src) (sq_bytes q ?i)),
                         sq_size := (sq_size q)(?i := of_nat (length src)),
                         sq_seq := (sq_seq q)(?i := sq_writeIdx q + 1),
                         sq_writeIdx := sq_writeIdx q + 1\<rparr>"
      using w free True src by (auto simp: spsc_write_def Let_def)
    have "sq_writeIdx q' = ?r + of_nat (Suc c)" using q'(2) wi by simp
    then have c': "spsc_count q' = Suc c"
      using fill_count_add[OF k(2), of "Suc c" ?r] True q'(2) by (simp only: spsc_count_def) simp
    have u: "unat (of_nat (length src) :: u32) = length src"
      using src(1) by (simp add: MAX_DATA_SIZE_def unat_of_nat)
    have msg: "slot_msg q' ?i = src" "\<And>j. j \<noteq> ?i \<Longrightarrow> slot_msg q' j = slot_msg q j"
      using q'(2) u by (auto simp: slot_msg_def)
    have items: "spsc_items k q' = spsc_items k q @ [src]"
    proof -
      have "sq_readIdx q' = ?r" using q'(2) by simp
      then show ?thesis using ring_write[OF k(2) True, of ?r "slot_msg q'" "slot_msg q" src] msg wi
        by (simp add: spsc_items_def c' c_def[symmetric])
    qed
    have sz: "sq_size q' j = of_nat (length (slot_msg q' j))" for j
    proof (cases "j = ?i")
      case True then show ?thesis using msg(1) q'(2) by simp
    next
      case False then show ?thesis using msg(2)[OF False] q'(2) inv by (simp add: spsc_inv_def)
    qed
    have "spsc_inv k mx q'"
      unfolding spsc_inv_def
    proof (intro conjI allI)
      show "seq_ok k (sq_seq q') (sq_readIdx q') (spsc_count q')"
        unfolding c' using seq_ok_write[OF sq k(2) True] q'(2) wi by simp
      show "length (sq_bytes q' i) = MAX_DATA_SIZE" for i
        using q'(2) src inv by (simp add: spsc_inv_def)
      show "sq_size q' i = of_nat (length (slot_msg q' i))" for i by (rule sz)
      show "\<forall>m \<in> set (spsc_items k q'). spsc_msg_ok mx m" using items inv m by (simp add: spsc_inv_def)
    qed
    then show ?thesis using items True q'(1) by (simp add: length_spsc_items c_def)
  qed
qed

lemma spsc_read_law:
  assumes inv: "spsc_inv k mx q" and k: "k < 64"
    and w: "spsc_read_msg k mx q = (x, q')"
  shows "spsc_inv k mx q' \<and> x = (case spsc_items k q of [] \<Rightarrow> None | m # ms \<Rightarrow> Some m) \<and>
    spsc_items k q' = tl (spsc_items k q)"
proof (cases "spsc_count q")
  case 0
  then have "sq_seq q (slot_of k (sq_readIdx q)) \<noteq> sq_readIdx q + 1"
    using seq_read_ready[of k "sq_seq q" "sq_readIdx q" 0] inv k by (simp add: spsc_inv_def)
  then have "q' = q" "x = None" using w by (simp_all add: spsc_read_msg_def spsc_read_def)
  moreover have "spsc_items k q = []" using 0 by (simp add: spsc_items_def)
  ultimately show ?thesis using inv by simp
next
  case (Suc c)
  let ?r = "sq_readIdx q"
  let ?i = "slot_of k ?r"
  have sq: "seq_ok k (sq_seq q) ?r (Suc c)" using inv Suc by (simp add: spsc_inv_def)
  have items: "spsc_items k q = slot_msg q ?i # ring (2 ^ k) (slot_msg q) (unat (?r + 1)) c"
    using ring_read[OF k] Suc by (simp add: spsc_items_def)
  then have ok: "spsc_msg_ok mx (slot_msg q ?i)" using inv by (simp add: spsc_inv_def)
  have sz: "sq_size q ?i = of_nat (length (slot_msg q ?i))" using inv by (simp add: spsc_inv_def)
  have "length (slot_msg q ?i) < 2 ^ 32" using ok by (simp add: spsc_msg_ok_def MAX_DATA_SIZE_def)
  then have u: "unat (sq_size q ?i) = length (slot_msg q ?i)" using sz by (simp add: unat_of_nat)
  then have n: "sq_size q ?i \<noteq> 0" "\<not> sq_size q ?i > mx"
    using ok by (auto simp: spsc_msg_ok_def word_less_nat_alt)
  have seq: "sq_seq q ?i = ?r + 1" using seq_read_ready[OF sq k] by simp
  have q': "q' = q\<lparr>sq_seq := (sq_seq q)(?i := ?r + push_bit k 1), sq_readIdx := ?r + 1\<rparr>"
    and x: "x = Some (slot_msg q ?i)"
    using w n seq by (auto simp: spsc_read_msg_def spsc_read_def slot_msg_def Let_def)
  have "c < 2 ^ k" using sq by (simp add: seq_ok_def)
  then have c': "spsc_count q' = c"
    using fill_count_add[OF k, of c "?r + 1"] spsc_writeIdx[of q] Suc q'
    by (simp add: spsc_count_def add.assoc)
  have msg: "slot_msg q' = slot_msg q" using q' by (auto simp: slot_msg_def)
  have items': "spsc_items k q' = tl (spsc_items k q)"
    using items c' msg q' by (simp add: spsc_items_def)
  have "spsc_inv k mx q'"
    using seq_ok_read[OF sq k] inv items items' c' msg q'
    by (auto simp: spsc_inv_def)
  then show ?thesis using items items' x by simp
qed

text \<open>The three instances of the program.\<close>

lemma spsc_fifo: "0 < k \<Longrightarrow> k < 64 \<Longrightarrow> fifo (spsc_write k) (spsc_read_msg k mx) (spsc_inv k mx) (spsc_items k) (2 ^ k) (spsc_msg_ok mx)"
  by unfold_locales (use spsc_write_law spsc_read_law in blast)+

interpretation runner_queue: fifo "spsc_write 16" "spsc_read_msg 16 mx" "spsc_inv 16 mx" "spsc_items 16" "2 ^ 16" "spsc_msg_ok mx" for mx
  by (rule spsc_fifo) simp_all

interpretation shm_ring: fifo "spsc_write 17" "spsc_read_msg 17 mx" "spsc_inv 17 mx" "spsc_items 17" "2 ^ 17" "spsc_msg_ok mx" for mx
  by (rule spsc_fifo) simp_all

interpretation cancel_queue: fifo "spsc_write 10" "spsc_read_msg 10 mx" "spsc_inv 10 mx" "spsc_items 10" "2 ^ 10" "spsc_msg_ok mx" for mx
  by (rule spsc_fifo) simp_all

section \<open>What the queue guarantees\<close>

text \<open>FIFO delivery with the queue of the worker threads (\<^verbatim>\<open>LfqRunner\<close>, 65536 slots), for messages of
  1 to 52 bytes that fit the reader's buffer: after any sequence of writes and reads, the
  messages whose write returned true are the messages delivered followed by those still
  stored, in order and byte for byte, whatever the position of the 64-bit counters.\<close>

theorem runner_queue_fifo:
  assumes "\<And>m. Write m \<in> set ops \<Longrightarrow> spsc_msg_ok mx m"
    and "fifo_run (spsc_write 16) (spsc_read_msg 16 mx) ops spsc_new = (q, accepted, delivered)"
  shows "accepted = delivered @ spsc_items 16 q \<and> length (spsc_items 16 q) \<le> 65536"
proof
  have ok: "runner_queue.op_ok mx op" if "op \<in> set ops" for op
    using that assms(1) by (auto simp: runner_queue.op_ok_def split: queue_op.splits)
  have i: "spsc_inv 16 mx spsc_new" "spsc_items 16 spsc_new = []" using spsc_new_inv[of 16 mx] by simp_all
  show "accepted = delivered @ spsc_items 16 q" by (rule runner_queue.run_fifo[OF i ok assms(2)])
  have "spsc_inv 16 mx q"
    using runner_queue.run_account[OF i(1), of spsc_new "[]" "[]" ops q accepted delivered] ok assms(2)
    by (simp add: fifo_run_def)
  then show "length (spsc_items 16 q) \<le> 65536" by (simp add: spsc_inv_def seq_ok_def length_spsc_items)
qed

theorem runner_queue_fifo_witness:
  "\<exists>q accepted delivered. fifo_run (spsc_write 16) (spsc_read_msg 16 8) [Write [1, 2], Read, Write [3]] spsc_new
     = (q, accepted, delivered) \<and> accepted = delivered @ spsc_items 16 q"
proof -
  obtain q a d where r: "fifo_run (spsc_write 16) (spsc_read_msg 16 8) [Write [1, 2], Read, Write [3]] spsc_new = (q, a, d)"
    by (metis prod.exhaust)
  have "spsc_msg_ok 8 m" if "Write m \<in> set [Write [1, 2], Read, Write [3 :: u8]]" for m
    using that by (auto simp: spsc_msg_ok_def MAX_DATA_SIZE_def)
  from runner_queue_fifo[OF this r] r show ?thesis by blast
qed

text \<open>
  \<^verbatim>\<open>read\<close> stores the new sequence number before its return statement loads \<^verbatim>\<open>sloth.size\<close>. Split
  there, another thread's \<^verbatim>\<open>write\<close> may come between the two halves.
\<close>

definition spsc_read_release :: "nat \<Rightarrow> u32 \<Rightarrow> SequencedSPSC \<Rightarrow> (nat \<times> u8 list) option \<times> SequencedSPSC" where
  "spsc_read_release k maxSize q =
     (let i = slot_of k (sq_readIdx q)
      in if sq_seq q i \<noteq> sq_readIdx q + 1 \<or> sq_size q i > maxSize then (None, q)
         else (Some (i, take (unat (sq_size q i)) (sq_bytes q i)),
               q\<lparr>sq_seq := (sq_seq q)(i := sq_readIdx q + push_bit k 1), sq_readIdx := sq_readIdx q + 1\<rparr>))"

definition spsc_read_return :: "(nat \<times> u8 list) option \<Rightarrow> SequencedSPSC \<Rightarrow> u32 \<times> u8 list" where
  "spsc_read_return x q = (case x of None \<Rightarrow> (0, []) | Some (i, bs) \<Rightarrow> (sq_size q i, bs))"

lemma spsc_read_split:
  "spsc_read k mx q = (case spsc_read_release k mx q of (x, q') \<Rightarrow> (fst (spsc_read_return x q'), snd (spsc_read_return x q'), q'))"
  by (simp add: spsc_read_def spsc_read_release_def spsc_read_return_def Let_def)

text \<open>The size a read returns can be that of a later message: on a full queue a producer's
  write between the release of the slot and the return statement succeeds and lands in that
  very slot, so the reader gets the old message's bytes with the new message's length.\<close>

theorem spsc_read_size_race:
  assumes "spsc_inv 17 mx q" "spsc_count q = 2 ^ 17" "spsc_msg_ok mx m"
  shows "\<exists>x q1 q2. spsc_read_release 17 mx q = (x, q1) \<and> spsc_write 17 m q1 = (True, q2) \<and>
    spsc_read_return x q2 = (of_nat (length m), hd (spsc_items 17 q))"
proof -
  let ?i = "slot_of 17 (sq_readIdx q)"
  obtain n bs q1 where rd: "spsc_read 17 mx q = (n, bs, q1)" by (metis prod.exhaust)
  have it: "spsc_items 17 q \<noteq> []" using assms(2) length_spsc_items[of 17 q] by (metis list.size(3) power_not_zero zero_neq_numeral)
  obtain v where m: "spsc_read_msg 17 mx q = (v, q1)" using rd by (simp add: spsc_read_msg_def)
  have law: "spsc_inv 17 mx q1" "v = Some (hd (spsc_items 17 q))" "spsc_items 17 q1 = tl (spsc_items 17 q)"
    using spsc_read_law[OF assms(1) _ m] it by (auto split: list.splits)
  have bs: "n \<noteq> 0" "bs = hd (spsc_items 17 q)" using m rd law(2) by (auto simp: spsc_read_msg_def split: if_splits)
  obtain x where x: "spsc_read_release 17 mx q = (x, q1)"
    using rd spsc_read_split[of 17 mx q] by (auto split: prod.splits)
  have xs: "x = Some (?i, bs)" and q1: "q1 = q\<lparr>sq_seq := (sq_seq q)(?i := sq_readIdx q + push_bit 17 1), sq_readIdx := sq_readIdx q + 1\<rparr>"
    using rd x bs(1) by (auto simp: spsc_read_def spsc_read_release_def Let_def split: if_splits)
  obtain b q2 where w: "spsc_write 17 m q1 = (b, q2)" by (metis prod.exhaust)
  have "length (spsc_items 17 q1) < 2 ^ 17" using law(3) assms(2) by (simp add: length_spsc_items)
  then have b: "b" using spsc_write_law[OF law(1) _ _ assms(3) w] by simp
  have "slot_of 17 (sq_writeIdx q1) = ?i"
    using q1 spsc_writeIdx[of q] assms(2) slot_of_add[of 17 "2 ^ 17" "sq_readIdx q"] by (simp add: slot_of_mod)
  then have "sq_size q2 ?i = of_nat (length m)"
    using w b by (auto simp: spsc_write_def Let_def split: if_splits)
  then show ?thesis using x w b xs bs(2) by (auto simp: spsc_read_return_def)
qed

text \<open>A full ring, for the evaluation of the race.\<close>

definition full_ring :: "nat \<Rightarrow> SequencedSPSC" where
  "full_ring k = \<lparr>sq_seq = (\<lambda>i. of_nat i + 1), sq_size = (\<lambda>_. 1), sq_bytes = (\<lambda>_. replicate MAX_DATA_SIZE 7),
     sq_writeIdx = push_bit k 1, sq_readIdx = 0\<rparr>"

lemma full_ring_inv:
  assumes "0 < k" "k < 64"
  shows "spsc_inv k 8 (full_ring k) \<and> spsc_count (full_ring k) = 2 ^ k"
proof -
  have c: "spsc_count (full_ring k) = 2 ^ k"
    using unat_of_nat_le_pow[OF assms(2), of "2 ^ k"] by (simp add: spsc_count_def full_ring_def fill_count_def)
  moreover have "slot_msg (full_ring k) i = [7]" for i
    by (simp add: slot_msg_def full_ring_def MAX_DATA_SIZE_def take_Cons')
  ultimately show ?thesis using assms
    by (auto simp: spsc_inv_def seq_ok_def full_ring_def spsc_items_def ring_def spsc_msg_ok_def MAX_DATA_SIZE_def)
qed

theorem spsc_read_size_race_witness:
  "\<exists>x q1 q2. spsc_read_release 17 8 (full_ring 17) = (x, q1) \<and> spsc_write 17 [1, 2, 3] q1 = (True, q2) \<and>
    spsc_read_return x q2 = (3, [7])"
proof -
  have "spsc_inv 17 8 (full_ring 17)" "spsc_count (full_ring 17) = 2 ^ 17" "spsc_msg_ok 8 [1, 2, 3]"
    using full_ring_inv[of 17] by (simp_all add: spsc_msg_ok_def MAX_DATA_SIZE_def)
  note r = spsc_read_size_race[OF this]
  have "hd (spsc_items 17 (full_ring 17)) = [7]"
    using full_ring_inv[of 17] ring_read[of 17 "slot_msg (full_ring 17)" "sq_readIdx (full_ring 17)" "2 ^ 17 - 1"]
    by (simp add: spsc_items_def slot_msg_def full_ring_def MAX_DATA_SIZE_def take_Cons')
  then show ?thesis using r by simp
qed

end
