(* ===== verification/Lfq_Runner.thy ===== *)
theory Lfq_Runner
  imports Spin_Wait Sequenced_SPSC
begin

text \<open>
  \<^verbatim>\<open>LfqRunner\<close> of \<^verbatim>\<open>common/src/runner/lfq_runner.hpp\<close>, the worker thread behind every book and the
  gateway: a producer thread calls \<^verbatim>\<open>post\<close>, the worker runs \<^verbatim>\<open>lfqLoop\<close>, and a third thread stops
  it. Each thread is a program counter and a step function with one shared access per step,
  and a run interleaves them in any order, under sequential consistency (the accesses to
  \<^verbatim>\<open>sleeping_\<close> that matter are \<^verbatim>\<open>seq_cst\<close> in the code). The queue is the FIFO list that
  \<open>runner_queue\<close> shows \<^verbatim>\<open>SequencedSPSC<65536>\<close> to be. A futex wait blocks only if the word still
  has the expected value; a wake or a spurious return ends it.
\<close>

section \<open>Threads\<close>

datatype 'm loop_pc =
    L_top | L_read | L_consume 'm | L_next | L_spin | L_load | L_sleep u32 | L_recheck u32
  | L_clear 'm | L_post 'm | L_stop u32 | L_wait u32 | L_blocked u32 | L_awake | L_exit

datatype 'm post_pc = P_idle | P_enter 'm | P_write 'm | P_check | P_bump | P_wake

datatype stop_pc = S_idle | S_enter | S_bump | S_wake | S_join | S_done

record 'm LfqRunner =
  r_queue :: "'m list"
  r_sleeping :: bool
  r_ftx :: u32
  r_started :: bool
  r_stopRequested :: bool
  r_loop :: "'m loop_pc"
  r_waiter :: SpinWait
  r_poster :: "'m post_pc"
  r_postWaiter :: SpinWait
  r_todo :: "'m list"
  r_stopper :: stop_pc
  r_accepted :: "'m list"
  r_delivered :: "'m list"
  r_errors :: nat

text \<open>The state in which the thread has just started, with the messages the producer is going
  to post.\<close>

definition LFQ_CAPACITY :: nat where "LFQ_CAPACITY = 65536"

definition lfq_new :: "'m list \<Rightarrow> 'm LfqRunner" where
  "lfq_new ms = \<lparr>r_queue = [], r_sleeping = False, r_ftx = 0, r_started = True, r_stopRequested = False,
     r_loop = L_top, r_waiter = sw_new SPIN_RETRIES_YIELD, r_poster = P_idle,
     r_postWaiter = sw_new SPIN_RETRIES_YIELD, r_todo = ms, r_stopper = S_idle,
     r_accepted = [], r_delivered = [], r_errors = 0\<rparr>"

definition queue_write :: "'m \<Rightarrow> 'm LfqRunner \<Rightarrow> bool \<times> 'm LfqRunner" where
  "queue_write m s =
     (if length (r_queue s) < LFQ_CAPACITY
      then (True, s\<lparr>r_queue := r_queue s @ [m], r_accepted := r_accepted s @ [m]\<rparr>) else (False, s))"

definition queue_read :: "'m LfqRunner \<Rightarrow> 'm option \<times> 'm LfqRunner" where
  "queue_read s = (case r_queue s of [] \<Rightarrow> (None, s) | m # ms \<Rightarrow> (Some m, s\<lparr>r_queue := ms\<rparr>))"

definition consumer_post :: "'m \<Rightarrow> 'm LfqRunner \<Rightarrow> 'm LfqRunner" where
  "consumer_post m s = s\<lparr>r_delivered := r_delivered s @ [m]\<rparr>"

definition futex_wake :: "'m LfqRunner \<Rightarrow> 'm LfqRunner" where
  "futex_wake s = (case r_loop s of L_blocked v \<Rightarrow> s\<lparr>r_loop := L_awake\<rparr> | _ \<Rightarrow> s)"

definition lfqLoop_step :: "'m LfqRunner \<Rightarrow> 'm LfqRunner option" where
  "lfqLoop_step s = (case r_loop s of
     L_top \<Rightarrow> Some (s\<lparr>r_loop := if r_stopRequested s then L_exit else L_read\<rparr>)
   | L_read \<Rightarrow> (case queue_read s of
       (Some m, s) \<Rightarrow> Some (s\<lparr>r_waiter := sw_reset (r_waiter s), r_loop := L_consume m\<rparr>)
     | (None, s) \<Rightarrow> Some (s\<lparr>r_loop := L_spin\<rparr>))
   | L_consume m \<Rightarrow> Some ((consumer_post m s)\<lparr>r_loop := L_next\<rparr>)
   | L_next \<Rightarrow> (case queue_read s of
       (Some m, s) \<Rightarrow> Some (s\<lparr>r_loop := if r_stopRequested s then L_top else L_consume m\<rparr>)
     | (None, s) \<Rightarrow> Some (s\<lparr>r_loop := L_top\<rparr>))
   | L_spin \<Rightarrow> (case sw_inc (r_waiter s) of (b, w) \<Rightarrow>
       Some (s\<lparr>r_waiter := w, r_loop := if b \<or> r_stopRequested s then L_top else L_load\<rparr>))
   | L_load \<Rightarrow> Some (s\<lparr>r_loop := L_sleep (r_ftx s)\<rparr>)
   | L_sleep v \<Rightarrow> Some (s\<lparr>r_sleeping := True, r_loop := L_recheck v\<rparr>)
   | L_recheck v \<Rightarrow> (case queue_read s of
       (Some m, s) \<Rightarrow> Some (s\<lparr>r_loop := L_clear m\<rparr>)
     | (None, s) \<Rightarrow> Some (s\<lparr>r_loop := L_stop v\<rparr>))
   | L_clear m \<Rightarrow> Some (s\<lparr>r_sleeping := False, r_loop := L_post m\<rparr>)
   | L_post m \<Rightarrow> Some ((consumer_post m s)\<lparr>r_waiter := sw_reset (r_waiter s), r_loop := L_top\<rparr>)
   | L_stop v \<Rightarrow> Some (s\<lparr>r_loop := if r_stopRequested s then L_exit else L_wait v\<rparr>)
   | L_wait v \<Rightarrow> Some (s\<lparr>r_loop := if r_ftx s = v then L_blocked v else L_awake\<rparr>)
   | L_blocked v \<Rightarrow> None
   | L_awake \<Rightarrow> Some (s\<lparr>r_sleeping := False, r_waiter := sw_reset (r_waiter s), r_loop := L_top\<rparr>)
   | L_exit \<Rightarrow> None)"

definition lfq_post_step :: "'m LfqRunner \<Rightarrow> 'm LfqRunner option" where
  "lfq_post_step s = (case r_poster s of
     P_idle \<Rightarrow> (case r_todo s of [] \<Rightarrow> None | m # ms \<Rightarrow> Some (s\<lparr>r_todo := ms, r_poster := P_enter m\<rparr>))
   | P_enter m \<Rightarrow>
       (if r_stopRequested s then Some (s\<lparr>r_poster := P_idle\<rparr>)
        else Some (s\<lparr>r_postWaiter := sw_new SPIN_RETRIES_YIELD, r_poster := P_write m\<rparr>))
   | P_write m \<Rightarrow> (case queue_write m s of
       (True, s) \<Rightarrow> Some (s\<lparr>r_poster := P_check\<rparr>)
     | (False, s) \<Rightarrow> (case sw_inc (r_postWaiter s) of (b, w) \<Rightarrow>
         Some (if b then s\<lparr>r_postWaiter := w\<rparr>
               else s\<lparr>r_postWaiter := w, r_errors := r_errors s + 1, r_poster := P_check\<rparr>)))
   | P_check \<Rightarrow> Some (s\<lparr>r_poster := if r_sleeping s then P_bump else P_idle\<rparr>)
   | P_bump \<Rightarrow> Some (s\<lparr>r_ftx := r_ftx s + 1, r_poster := P_wake\<rparr>)
   | P_wake \<Rightarrow> Some ((futex_wake s)\<lparr>r_poster := P_idle\<rparr>))"

text \<open>The owner requests the stop and then calls \<^verbatim>\<open>stop\<close>, which joins the worker.\<close>

definition lfq_stop_step :: "'m LfqRunner \<Rightarrow> 'm LfqRunner option" where
  "lfq_stop_step s = (case r_stopper s of
     S_idle \<Rightarrow> Some (s\<lparr>r_stopRequested := True, r_stopper := S_enter\<rparr>)
   | S_enter \<Rightarrow> Some (if r_started s then s\<lparr>r_started := False, r_stopper := S_bump\<rparr> else s\<lparr>r_stopper := S_done\<rparr>)
   | S_bump \<Rightarrow> Some (s\<lparr>r_ftx := r_ftx s + 1, r_stopper := S_wake\<rparr>)
   | S_wake \<Rightarrow> Some ((futex_wake s)\<lparr>r_stopper := S_join\<rparr>)
   | S_join \<Rightarrow> (if r_loop s = L_exit then Some (s\<lparr>r_stopper := S_done\<rparr>) else None)
   | S_done \<Rightarrow> None)"

inductive lfq_step :: "'m LfqRunner \<Rightarrow> 'm LfqRunner \<Rightarrow> bool" where
  worker: "lfqLoop_step s = Some s' \<Longrightarrow> lfq_step s s'"
| poster: "lfq_post_step s = Some s' \<Longrightarrow> lfq_step s s'"
| stopper: "lfq_stop_step s = Some s' \<Longrightarrow> lfq_step s s'"
| spurious: "r_loop s = L_blocked v \<Longrightarrow> lfq_step s (s\<lparr>r_loop := L_awake\<rparr>)"

definition lfq_reachable :: "'m list \<Rightarrow> 'm LfqRunner \<Rightarrow> bool" where
  "lfq_reachable ms s \<longleftrightarrow> lfq_step\<^sup>*\<^sup>* (lfq_new ms) s"

lemma lfq_induct [consumes 1, case_names init step]:
  assumes "lfq_reachable ms s" "P (lfq_new ms)" "\<And>s s'. lfq_reachable ms s \<Longrightarrow> P s \<Longrightarrow> lfq_step s s' \<Longrightarrow> P s'"
  shows "P s"
  using assms(1) unfolding lfq_reachable_def
proof (induction rule: rtranclp_induct)
  case (step y z)
  then show ?case using assms(3)[unfolded lfq_reachable_def] by blast
qed (rule assms(2))

lemmas lfq_ops = lfqLoop_step_def lfq_post_step_def lfq_stop_step_def queue_write_def queue_read_def
  consumer_post_def futex_wake_def

section \<open>No lost wake-up\<close>

text \<open>How many times the futex word can still be advanced.\<close>

definition bumps_left :: "'m LfqRunner \<Rightarrow> nat" where
  "bumps_left s = length (r_todo s) + (case r_poster s of P_idle \<Rightarrow> 0 | P_wake \<Rightarrow> 0 | _ \<Rightarrow> 1) +
     (case r_stopper s of S_idle \<Rightarrow> 1 | S_enter \<Rightarrow> 1 | S_bump \<Rightarrow> 1 | _ \<Rightarrow> 0)"

text \<open>What a worker at each point of its loop may rely on, given \<open>sleeping_\<close>, the futex word, whether
  messages are queued, and the positions of the two other threads.\<close>

fun worker_ok :: "'m loop_pc \<Rightarrow> bool \<Rightarrow> u32 \<Rightarrow> bool \<Rightarrow> 'm post_pc \<Rightarrow> stop_pc \<Rightarrow> bool" where
  "worker_ok (L_sleep v) sl f ne p st \<longleftrightarrow> v \<le> f"
| "worker_ok (L_recheck v) sl f ne p st \<longleftrightarrow> v \<le> f \<and> sl"
| "worker_ok (L_stop v) sl f ne p st \<longleftrightarrow> v \<le> f \<and> sl \<and> (ne \<longrightarrow> p = P_check \<or> p = P_bump \<or> v < f)"
| "worker_ok (L_wait v) sl f ne p st \<longleftrightarrow> v \<le> f \<and> sl \<and> (ne \<longrightarrow> p = P_check \<or> p = P_bump \<or> v < f) \<and>
     (st = S_idle \<or> st = S_enter \<or> st = S_bump \<or> v < f)"
| "worker_ok (L_blocked v) sl f ne p st \<longleftrightarrow> sl \<and> (ne \<longrightarrow> p = P_check \<or> p = P_bump \<or> p = P_wake) \<and>
     (st = S_idle \<or> st = S_enter \<or> st = S_bump \<or> st = S_wake)"
| "worker_ok _ sl f ne p st \<longleftrightarrow> True"

definition wake_inv :: "'m LfqRunner \<Rightarrow> bool" where
  "wake_inv s \<longleftrightarrow>
     unat (r_ftx s) + bumps_left s < 2 ^ 32 \<and>
     (r_stopRequested s \<longleftrightarrow> r_stopper s \<noteq> S_idle) \<and>
     (r_started s \<longleftrightarrow> r_stopper s = S_idle \<or> r_stopper s = S_enter) \<and>
     worker_ok (r_loop s) (r_sleeping s) (r_ftx s) (r_queue s \<noteq> []) (r_poster s) (r_stopper s)"

lemma ftx_bump:
  fixes f :: u32
  assumes "unat f + n < 2 ^ 32" "0 < n"
  shows "unat (f + 1) = unat f + 1" "v \<le> f \<Longrightarrow> v \<le> f + 1" "v \<le> f \<Longrightarrow> v < f + 1"
proof -
  show u: "unat (f + 1) = unat f + 1" using assms by (simp add: unat_word_ariths)
  show "v \<le> f \<Longrightarrow> v \<le> f + 1" "v \<le> f \<Longrightarrow> v < f + 1" using u by (simp_all add: word_le_nat_alt word_less_nat_alt)
qed

text \<open>The worker changes neither the futex word nor the other threads.\<close>

lemma worker_frame:
  assumes "lfqLoop_step s = Some s'"
  shows "r_ftx s' = r_ftx s" "bumps_left s' = bumps_left s" "r_stopRequested s' = r_stopRequested s"
    "r_started s' = r_started s" "r_poster s' = r_poster s" "r_stopper s' = r_stopper s"
  using assms
  by (auto simp: lfq_ops bumps_left_def split: loop_pc.splits list.splits prod.splits)

lemma worker_moves:
  assumes "worker_ok (r_loop s) (r_sleeping s) (r_ftx s) (r_queue s \<noteq> []) p st" "lfqLoop_step s = Some s'"
    and "r_stopRequested s \<longleftrightarrow> st \<noteq> S_idle"
  shows "worker_ok (r_loop s') (r_sleeping s') (r_ftx s) (r_queue s' \<noteq> []) p st"
  using assms
  by (cases "r_loop s"; auto simp: lfq_ops split: list.splits prod.splits if_splits)

lemma wake_inv_worker: "wake_inv s \<Longrightarrow> lfqLoop_step s = Some s' \<Longrightarrow> wake_inv s'"
  using worker_moves[of s "r_poster s" "r_stopper s" s'] worker_frame[of s s']
  by (simp add: wake_inv_def)

lemma worker_ok_bump:
  assumes "worker_ok pc sl f ne p st" "unat f + n < 2 ^ 32" "0 < n"
  shows "p = P_bump \<Longrightarrow> worker_ok pc sl (f + 1) ne P_wake st" "st = S_bump \<Longrightarrow> worker_ok pc sl (f + 1) ne p S_wake"
  using assms(1) ftx_bump[OF assms(2,3)] by (cases pc; auto)+

lemma worker_ok_post:
  assumes "worker_ok pc sl f ne p st"
  shows "p = P_idle \<Longrightarrow> worker_ok pc sl f ne (P_enter m) st"
    "p = P_enter m \<Longrightarrow> worker_ok pc sl f ne q st"
    "p = P_write m \<Longrightarrow> worker_ok pc sl f ne' P_check st"
    "p = P_check \<Longrightarrow> worker_ok pc sl f ne (if sl then P_bump else P_idle) st"
    "p = P_wake \<Longrightarrow> (\<And>v. pc \<noteq> L_blocked v) \<Longrightarrow> worker_ok pc sl f ne P_idle st"
  using assms by (cases pc; auto)+

lemma worker_ok_stop:
  assumes "worker_ok pc sl f ne p st"
  shows "st = S_idle \<Longrightarrow> worker_ok pc sl f ne p S_enter"
    "st = S_enter \<Longrightarrow> worker_ok pc sl f ne p S_bump"
    "st = S_wake \<Longrightarrow> (\<And>v. pc \<noteq> L_blocked v) \<Longrightarrow> worker_ok pc sl f ne p S_join"
    "st = S_join \<Longrightarrow> worker_ok pc sl f ne p S_done"
  using assms by (cases pc; auto)+

lemma futex_wake_cases:
  "(\<exists>v. r_loop s = L_blocked v) \<and> futex_wake s = s\<lparr>r_loop := L_awake\<rparr> \<or> (\<forall>v. r_loop s \<noteq> L_blocked v) \<and> futex_wake s = s"
  by (auto simp: futex_wake_def split: loop_pc.splits)

lemma wake_inv_poster:
  assumes inv: "wake_inv s" and st: "lfq_post_step s = Some s'"
  shows "wake_inv s'"
proof -
  have w: "worker_ok (r_loop s) (r_sleeping s) (r_ftx s) (r_queue s \<noteq> []) (r_poster s) (r_stopper s)"
    and b: "unat (r_ftx s) + bumps_left s < 2 ^ 32" using inv by (simp_all add: wake_inv_def)
  note p = worker_ok_post[OF w]
  show ?thesis
  proof (cases "r_poster s")
    case P_bump
    then have n: "0 < bumps_left s" by (simp add: bumps_left_def)
    show ?thesis using inv st P_bump worker_ok_bump(1)[OF w b n P_bump] ftx_bump(1)[OF b n]
      by (auto simp: lfq_post_step_def wake_inv_def bumps_left_def)
  next
    case P_wake
    then show ?thesis using inv st futex_wake_cases[of s] p(5)[OF P_wake]
      by (auto simp: lfq_post_step_def wake_inv_def bumps_left_def)
  next
    case P_idle
    then show ?thesis using inv st p(1)[OF P_idle]
      by (auto simp: lfq_post_step_def wake_inv_def bumps_left_def split: list.splits)
  next
    case (P_enter m)
    then show ?thesis using inv st p(2)[OF P_enter]
      by (auto simp: lfq_post_step_def wake_inv_def bumps_left_def split: if_splits)
  next
    case (P_write m)
    then show ?thesis using inv st p(3)[OF P_write]
      by (auto simp: lfq_post_step_def queue_write_def wake_inv_def bumps_left_def split: if_splits prod.splits)
  next
    case P_check
    then show ?thesis using inv st p(4)[OF P_check]
      by (auto simp: lfq_post_step_def wake_inv_def bumps_left_def)
  qed
qed

lemma wake_inv_stopper:
  assumes inv: "wake_inv s" and st: "lfq_stop_step s = Some s'"
  shows "wake_inv s'"
proof -
  have w: "worker_ok (r_loop s) (r_sleeping s) (r_ftx s) (r_queue s \<noteq> []) (r_poster s) (r_stopper s)"
    and b: "unat (r_ftx s) + bumps_left s < 2 ^ 32" using inv by (simp_all add: wake_inv_def)
  note p = worker_ok_stop[OF w]
  show ?thesis
  proof (cases "r_stopper s")
    case S_bump
    then have n: "0 < bumps_left s" by (simp add: bumps_left_def)
    show ?thesis using inv st S_bump worker_ok_bump(2)[OF w b n S_bump] ftx_bump(1)[OF b n]
      by (auto simp: lfq_stop_step_def wake_inv_def bumps_left_def)
  next
    case S_wake
    then show ?thesis using inv st futex_wake_cases[of s] p(3)[OF S_wake]
      by (auto simp: lfq_stop_step_def wake_inv_def bumps_left_def)
  next
    case S_idle
    then show ?thesis using inv st p(1)[OF S_idle] by (auto simp: lfq_stop_step_def wake_inv_def bumps_left_def)
  next
    case S_enter
    then show ?thesis using inv st p(2)[OF S_enter] by (auto simp: lfq_stop_step_def wake_inv_def bumps_left_def)
  next
    case S_join
    then show ?thesis using inv st p(4)[OF S_join]
      by (auto simp: lfq_stop_step_def wake_inv_def bumps_left_def split: if_splits)
  next
    case S_done
    then show ?thesis using st by (simp add: lfq_stop_step_def)
  qed
qed

lemma wake_inv_reachable:
  assumes "lfq_reachable ms s" "length ms + 1 < 2 ^ 32"
  shows "wake_inv s"
  using assms(1)
proof (induction rule: lfq_induct)
  case init
  then show ?case using assms(2) by (simp add: wake_inv_def lfq_new_def bumps_left_def)
next
  case (step s s')
  from step.hyps(2) show ?case
  proof (cases rule: lfq_step.cases)
    case (spurious v)
    then show ?thesis using step.IH by (auto simp: wake_inv_def bumps_left_def)
  qed (use wake_inv_worker[OF step.IH] wake_inv_poster[OF step.IH] wake_inv_stopper[OF step.IH] in blast)+
qed


text \<open>A run to a sleeping worker: the queue is empty, so after spinning the worker blocks.\<close>

fun run_worker :: "nat \<Rightarrow> 'm LfqRunner \<Rightarrow> 'm LfqRunner" where
  "run_worker 0 s = s"
| "run_worker (Suc n) s = (case lfqLoop_step s of None \<Rightarrow> s | Some s' \<Rightarrow> run_worker n s')"

lemma run_worker_steps: "lfq_step\<^sup>*\<^sup>* s (run_worker n s)"
  by (induction n arbitrary: s)
     (auto split: option.splits intro: converse_rtranclp_into_rtranclp lfq_step.worker)

lemma spin_down:
  assumes "r_loop s = L_top" "r_queue s = []" "\<not> r_stopRequested s"
  shows "\<exists>s'. lfq_step\<^sup>*\<^sup>* s s' \<and> r_loop s' = L_load \<and> r_queue s' = [] \<and> \<not> r_stopRequested s' \<and> r_ftx s' = r_ftx s"
  using assms
proof (induction "spin_budget (r_waiter s)" arbitrary: s)
  case 0
  define s1 where "s1 = s\<lparr>r_loop := L_spin\<rparr>"
  define s2 where "s2 = s1\<lparr>r_waiter := snd (sw_inc (r_waiter s)), r_loop := L_load\<rparr>"
  have "\<not> fst (sw_inc (r_waiter s))" using 0(1) sw_inc_True by simp
  then have "lfq_step s1 s2"
    using 0 by (intro lfq_step.worker, cases "sw_inc (r_waiter s)") (simp add: lfqLoop_step_def s1_def s2_def)
  moreover have "lfq_step s (s\<lparr>r_loop := L_read\<rparr>)" "lfq_step (s\<lparr>r_loop := L_read\<rparr>) s1"
    using 0 by (auto intro!: lfq_step.worker simp: lfqLoop_step_def queue_read_def s1_def)
  ultimately have "lfq_step\<^sup>*\<^sup>* s s2" by (meson converse_rtranclp_into_rtranclp rtranclp.rtrancl_refl)
  then show ?case using 0 by (intro exI[of _ s2]) (simp add: s1_def s2_def)
next
  case (Suc n)
  define s1 where "s1 = s\<lparr>r_loop := L_spin\<rparr>"
  define s2 where "s2 = s1\<lparr>r_waiter := snd (sw_inc (r_waiter s)), r_loop := L_top\<rparr>"
  have i: "fst (sw_inc (r_waiter s))" using Suc(2) sw_inc_True by (metis zero_less_Suc)
  then have "lfq_step s1 s2"
    using Suc by (intro lfq_step.worker, cases "sw_inc (r_waiter s)") (simp add: lfqLoop_step_def s1_def s2_def)
  moreover have "lfq_step s (s\<lparr>r_loop := L_read\<rparr>)" "lfq_step (s\<lparr>r_loop := L_read\<rparr>) s1"
    using Suc by (auto intro!: lfq_step.worker simp: lfqLoop_step_def queue_read_def s1_def)
  ultimately have 1: "lfq_step\<^sup>*\<^sup>* s s2" by (meson converse_rtranclp_into_rtranclp rtranclp.rtrancl_refl)
  have "n = spin_budget (r_waiter s2)" using Suc(2) sw_inc_budget[OF i] by (simp add: s2_def)
  from Suc(1)[OF this] Suc(3-) obtain s' where "lfq_step\<^sup>*\<^sup>* s2 s'" "r_loop s' = L_load" "r_queue s' = []"
    "\<not> r_stopRequested s'" "r_ftx s' = r_ftx s2" by (auto simp: s1_def s2_def)
  with 1 show ?case by (intro exI[of _ s']) (auto simp: s1_def s2_def)
qed

lemma lfq_blocks: "\<exists>s. lfq_reachable ms s \<and> r_loop s = L_blocked 0 \<and> r_queue s = []"
proof -
  obtain s where s: "lfq_step\<^sup>*\<^sup>* (lfq_new ms) s" "r_loop s = L_load" "r_queue s = []" "\<not> r_stopRequested s" "r_ftx s = 0"
    using spin_down[of "lfq_new ms"] by (auto simp: lfq_new_def)
  have "r_loop (run_worker 5 s) = L_blocked 0 \<and> r_queue (run_worker 5 s) = []"
    using s by (simp add: eval_nat_numeral lfqLoop_step_def queue_read_def)
  then show ?thesis using s(1) run_worker_steps[of s 5] unfolding lfq_reachable_def
    by (meson rtranclp_trans)
qed


section \<open>Delivery\<close>

fun in_hand :: "'m loop_pc \<Rightarrow> 'm list" where
  "in_hand (L_consume m) = [m]"
| "in_hand (L_clear m) = [m]"
| "in_hand (L_post m) = [m]"
| "in_hand _ = []"

definition delivery_inv :: "'m LfqRunner \<Rightarrow> bool" where
  "delivery_inv s \<longleftrightarrow> length (r_queue s) \<le> LFQ_CAPACITY \<and>
     (\<exists>lost. r_accepted s = r_delivered s @ in_hand (r_loop s) @ lost @ r_queue s \<and>
        (lost \<noteq> [] \<longrightarrow> r_stopRequested s \<and> (r_loop s = L_top \<or> r_loop s = L_exit)) \<and> length lost \<le> 1) \<and>
     (r_stopRequested s \<longleftrightarrow> r_stopper s \<noteq> S_idle)"

lemma delivery_worker:
  assumes "delivery_inv s" "lfqLoop_step s = Some s'"
  shows "delivery_inv s'"
proof -
  obtain lost where l: "r_accepted s = r_delivered s @ in_hand (r_loop s) @ lost @ r_queue s"
    "lost \<noteq> [] \<longrightarrow> r_stopRequested s \<and> (r_loop s = L_top \<or> r_loop s = L_exit)" "length lost \<le> 1"
    and cap: "length (r_queue s) \<le> LFQ_CAPACITY" and f: "r_stopRequested s \<longleftrightarrow> r_stopper s \<noteq> S_idle"
    using assms(1) by (auto simp: delivery_inv_def)
  have fr: "r_stopRequested s' = r_stopRequested s" "r_stopper s' = r_stopper s" using worker_frame[OF assms(2)] by simp_all
  have acc: "r_accepted s' = r_accepted s" "length (r_queue s') \<le> length (r_queue s)"
    using assms(2) by (auto simp: lfq_ops split: loop_pc.splits list.splits prod.splits)
  have "\<exists>lost'. r_accepted s = r_delivered s' @ in_hand (r_loop s') @ lost' @ r_queue s' \<and>
      (lost' \<noteq> [] \<longrightarrow> r_stopRequested s \<and> (r_loop s' = L_top \<or> r_loop s' = L_exit)) \<and> length lost' \<le> 1"
  proof (cases "r_loop s")
    case L_next
    then have "lost = []" using l(2) by auto
    then show ?thesis using assms(2) l L_next
      by (cases "r_queue s") (auto simp: lfq_ops intro: exI[of _ "[]"])
  next
    case L_top
    then show ?thesis using assms(2) l by (intro exI[of _ lost]) (auto simp: lfq_ops)
  qed (use assms(2) l in \<open>auto simp: lfq_ops split: list.splits prod.splits intro!: exI[of _ "[]"]\<close>)
  then show ?thesis using acc cap f fr by (auto simp: delivery_inv_def)
qed

lemma delivery_other:
  assumes "delivery_inv s" "lfq_post_step s = Some s' \<or> lfq_stop_step s = Some s'"
  shows "delivery_inv s'"
  using assms(2)
proof
  assume p: "lfq_post_step s = Some s'"
  show ?thesis
  proof (cases "r_poster s")
    case P_wake
    then show ?thesis using assms(1) p futex_wake_cases[of s]
      by (auto simp: lfq_post_step_def delivery_inv_def)
  next
    case (P_write m)
    then show ?thesis using assms(1) p
      by (fastforce simp: lfq_post_step_def queue_write_def delivery_inv_def split: if_splits prod.splits)
  qed (use assms(1) p in \<open>auto simp: lfq_post_step_def delivery_inv_def split: list.splits if_splits\<close>)
next
  assume p: "lfq_stop_step s = Some s'"
  show ?thesis
  proof (cases "r_stopper s")
    case S_wake
    then show ?thesis using assms(1) p futex_wake_cases[of s] by (auto simp: lfq_stop_step_def delivery_inv_def)
  qed (use assms(1) p in \<open>auto simp: lfq_stop_step_def delivery_inv_def split: if_splits\<close>)
qed



end
