(* ===== verification/Shm_Transport.thy ===== *)
theory Shm_Transport
  imports Domain_Types Sequenced_SPSC Spin_Wait "HOL-Library.Multiset"
begin

text \<open>
  The shared-memory transport of \<^verbatim>\<open>common/src/transport/shm\<close>: the queue with its control block
  (\<^verbatim>\<open>shm_queue.hpp\<close>), the counted mapping (\<^verbatim>\<open>shm_ptr.hpp\<close>), writer, reader, the reactor that polls
  the readers, and the dispatching \<^verbatim>\<open>ShmTransport\<close>. Handlers are identified by a value of type
  \<^typ>\<open>'h\<close> and a callback is an output. What the other process does to the queue between two
  attempts of a writer is the argument \<open>env\<close>.
\<close>

section \<open>ShmQueue\<close>

record ShmQueue =
  sh_queue :: SequencedSPSC
  sh_futex :: u32
  sh_futexCounter :: u32
  sh_waitFlag :: bool
  sh_refCount :: u32

definition shm_new :: ShmQueue where
  "shm_new = \<lparr>sh_queue = spsc_new, sh_futex = 0, sh_futexCounter = 0, sh_waitFlag = False, sh_refCount = 0\<rparr>"

definition SHM_K :: nat where "SHM_K = 17"

text \<open>Whether a futex wake was issued, and the control block.\<close>

definition shm_notify :: "ShmQueue \<Rightarrow> bool \<times> ShmQueue" where
  "shm_notify q =
     (if sh_waitFlag q
      then let c = sh_futexCounter q + 1 in (True, q\<lparr>sh_futexCounter := c, sh_futex := c\<rparr>)
      else (False, q))"

definition shm_increment :: "ShmQueue \<Rightarrow> ShmQueue" where
  "shm_increment q = q\<lparr>sh_refCount := sh_refCount q + 1\<rparr>"

definition shm_decrement :: "ShmQueue \<Rightarrow> bool \<times> ShmQueue" where
  "shm_decrement q =
     (let old = sh_refCount q
      in if old > 0 then (old = 1, q\<lparr>sh_refCount := old - 1\<rparr>) else (False, q))"

section \<open>ShmUPtr\<close>

text \<open>The shared objects by path; a mapped object outlives the unlinking of its path only for
  those who hold it, which the model does not need: the path goes when the last holder goes.\<close>

type_synonym shm_files = "string \<rightharpoonup> ShmQueue"

definition shm_open :: "string \<Rightarrow> shm_files \<Rightarrow> bool \<times> shm_files" where
  "shm_open name fs =
     (case fs name of
        None \<Rightarrow> (True, fs(name \<mapsto> shm_increment shm_new))
      | Some q \<Rightarrow> (False, fs(name \<mapsto> shm_increment q)))"

definition shm_close :: "string \<Rightarrow> shm_files \<Rightarrow> shm_files" where
  "shm_close name fs =
     (case fs name of
        None \<Rightarrow> fs
      | Some q \<Rightarrow> (case shm_decrement q of (isLast, q') \<Rightarrow> if isLast then fs(name := None) else fs(name \<mapsto> q')))"

section \<open>ShmWriter\<close>

record ShmWriter =
  wr_closed :: bool

text \<open>The retry loop of \<^verbatim>\<open>syncTx\<close> and \<^verbatim>\<open>asyncTx\<close>; the flag says whether a wake was issued.\<close>

function shm_tx_loop ::
  "(ShmQueue \<Rightarrow> ShmQueue) \<Rightarrow> u8 list \<Rightarrow> SpinWait \<Rightarrow> ShmQueue \<Rightarrow> IoResult \<times> bool \<times> ShmQueue" where
  "shm_tx_loop env buffer waiter q =
     (case spsc_write SHM_K buffer (sh_queue q) of
        (True, sq) \<Rightarrow>
          (case shm_notify (q\<lparr>sh_queue := sq\<rparr>) of
             (woken, q') \<Rightarrow> (\<lparr>io_bytes = of_nat (length buffer), io_code = Io_Ok\<rparr>, woken, q'))
      | (False, sq) \<Rightarrow>
          if sh_refCount q < 2 then (\<lparr>io_bytes = 0, io_code = Io_Closed\<rparr>, False, q)
          else
            (case sw_inc waiter of
               (True, w) \<Rightarrow> shm_tx_loop env buffer w (env q)
             | (False, w) \<Rightarrow> (\<lparr>io_bytes = 0, io_code = Io_Error\<rparr>, False, q)))"
  by pat_completeness auto
termination
  by (relation "measure (\<lambda>(env, b, w, q). spin_budget w)")
     (auto, metis fst_conv snd_conv sw_inc_budget lessI)

definition writer_syncTx :: "(ShmQueue \<Rightarrow> ShmQueue) \<Rightarrow> u8 list \<Rightarrow> ShmWriter \<Rightarrow> ShmQueue \<Rightarrow> IoResult \<times> bool \<times> ShmQueue" where
  "writer_syncTx env buffer wr q =
     (if wr_closed wr then (\<lparr>io_bytes = 0, io_code = Io_Error\<rparr>, False, q)
      else shm_tx_loop env buffer (sw_new SPIN_RETRIES_YIELD) q)"

text \<open>The callback's argument, if the callback is called at all.\<close>

definition writer_asyncTx :: "(ShmQueue \<Rightarrow> ShmQueue) \<Rightarrow> u8 list \<Rightarrow> ShmWriter \<Rightarrow> ShmQueue \<Rightarrow> IoResult option \<times> bool \<times> ShmQueue" where
  "writer_asyncTx env buffer wr q =
     (if wr_closed wr then (None, False, q)
      else case shm_tx_loop env buffer (sw_new SPIN_RETRIES_YIELD) q of (r, woken, q') \<Rightarrow> (Some r, woken, q'))"

definition writer_close :: "ShmWriter \<Rightarrow> ShmWriter" where
  "writer_close wr = wr\<lparr>wr_closed := True\<rparr>"

section \<open>ShmReader\<close>

datatype ReaderState = RD_Ready | RD_Active | RD_Closing | RD_Closed
datatype PollResult = Idle | Busy | Vanished

record 'h ShmReader =
  rd_shm :: ShmQueue
  rd_bufSize :: u32
  rd_clb :: "'h option"
  rd_state :: ReaderState

definition reader_new :: "ShmQueue \<Rightarrow> 'h ShmReader" where
  "reader_new q = \<lparr>rd_shm = q, rd_bufSize = 0, rd_clb = None, rd_state = RD_Ready\<rparr>"

text \<open>The moved-to and the moved-from reader.\<close>

definition reader_move :: "'h ShmReader \<Rightarrow> 'h ShmReader \<times> 'h ShmReader" where
  "reader_move other = (other, other\<lparr>rd_state := RD_Closed, rd_clb := None\<rparr>)"

text \<open>The poll result, the calls of the receive handler (its argument and the bytes in the buffer), and
  the reader.\<close>

definition reader_poll :: "'h ShmReader \<Rightarrow> PollResult \<times> ('h option \<times> IoResult \<times> u8 list) list \<times> 'h ShmReader" where
  "reader_poll r =
     (case rd_state r of
        RD_Ready \<Rightarrow> (Idle, [], r)
      | RD_Active \<Rightarrow>
          (case spsc_read SHM_K (rd_bufSize r) (sh_queue (rd_shm r)) of
             (bytes, data, sq) \<Rightarrow>
               let r' = r\<lparr>rd_shm := (rd_shm r)\<lparr>sh_queue := sq\<rparr>\<rparr>
               in if bytes \<noteq> 0 then (Busy, [(rd_clb r, \<lparr>io_bytes = bytes, io_code = Io_Ok\<rparr>, data)], r')
                  else (Idle, [], r'))
      | RD_Closing \<Rightarrow> (Vanished, [], r\<lparr>rd_state := RD_Closed\<rparr>)
      | RD_Closed \<Rightarrow> (Vanished, [], r))"

definition reader_close :: "'h ShmReader \<Rightarrow> bool \<times> 'h ShmReader" where
  "reader_close r =
     (if rd_state r = RD_Ready \<or> rd_state r = RD_Active
      then (case shm_notify (rd_shm r) of (woken, q) \<Rightarrow> (woken, r\<lparr>rd_state := RD_Closing, rd_shm := q\<rparr>))
      else (False, r))"

definition reader_syncRx :: "'h ShmReader \<Rightarrow> IoResult" where
  "reader_syncRx r = \<lparr>io_bytes = 0, io_code = Io_Error\<rparr>"

section \<open>ShmReactor\<close>

text \<open>Readers live in a store; the reactor keeps their addresses.\<close>

record ShmReactor =
  rc_readers :: "nat list"
  rc_started :: bool

definition reactor_add :: "nat \<Rightarrow> ShmReactor \<Rightarrow> ShmReactor" where
  "reactor_add a rc = (if rc_started rc then rc else rc\<lparr>rc_readers := rc_readers rc @ [a]\<rparr>)"

definition reactor_run :: "ShmReactor \<Rightarrow> bool \<times> ShmReactor" where
  "reactor_run rc = (if rc_started rc then (False, rc) else (True, rc\<lparr>rc_started := True\<rparr>))"

definition reader_asyncRx ::
  "nat \<Rightarrow> u32 \<Rightarrow> 'h \<Rightarrow> (nat \<Rightarrow> 'h ShmReader) \<times> ShmReactor \<Rightarrow> (nat \<Rightarrow> 'h ShmReader) \<times> ShmReactor" where
  "reader_asyncRx a bufSize clb s =
     (case s of (rs, rc) \<Rightarrow>
        if rd_state (rs a) \<noteq> RD_Ready then (rs, rc)
        else (rs(a := (rs a)\<lparr>rd_bufSize := bufSize, rd_clb := Some clb, rd_state := RD_Active\<rparr>), reactor_add a rc))"

text \<open>One pass of the polling loop from position \<open>i\<close>: a vanished reader is replaced by the last one
  and the position is polled again (the code decrements \<^verbatim>\<open>i\<close>, which may wrap, and the loop header
  increments it back). The result says whether the loop returned because no reader is left, and
  whether a message was handled.\<close>

type_synonym 'h poll_log = "(nat \<times> PollResult \<times> ('h option \<times> IoResult \<times> u8 list) list) list"

function poll_pass ::
  "nat \<Rightarrow> nat list \<Rightarrow> (nat \<Rightarrow> 'h ShmReader) \<Rightarrow> bool \<Rightarrow> 'h poll_log \<Rightarrow> bool \<times> bool \<times> nat list \<times> (nat \<Rightarrow> 'h ShmReader) \<times> 'h poll_log" where
  "poll_pass i readers rs busy lg =
     (if i \<ge> length readers then (False, busy, readers, rs, lg)
      else
        let a = readers ! i
        in case reader_poll (rs a) of
             (res, calls, r) \<Rightarrow>
               let rs' = rs(a := r); lg' = lg @ [(a, res, calls)]
               in if res = Vanished
                  then let readers' = butlast (readers[i := last readers])
                       in if readers' = [] then (True, busy, [], rs', lg')
                          else poll_pass i readers' rs' busy lg'
                  else poll_pass (i + 1) readers rs' (busy \<or> res = Busy) lg')"
  by pat_completeness auto
termination
  by (relation "measure (\<lambda>(i, readers, rs, busy, lg). length readers - i)") (auto simp: Let_def)

section \<open>ShmTransport\<close>

datatype 'h ShmTransport = TReader "'h ShmReader" | TWriter ShmWriter

definition transport_syncRx :: "'h ShmTransport \<Rightarrow> IoResult" where
  "transport_syncRx t = (case t of TReader r \<Rightarrow> reader_syncRx r | TWriter w \<Rightarrow> \<lparr>io_bytes = 0, io_code = Io_Error\<rparr>)"

definition transport_syncTx :: "(ShmQueue \<Rightarrow> ShmQueue) \<Rightarrow> u8 list \<Rightarrow> 'h ShmTransport \<Rightarrow> ShmQueue \<Rightarrow> IoResult \<times> bool \<times> ShmQueue" where
  "transport_syncTx env buffer t q =
     (case t of TWriter w \<Rightarrow> writer_syncTx env buffer w q | TReader r \<Rightarrow> (\<lparr>io_bytes = 0, io_code = Io_Error\<rparr>, False, q))"

definition transport_asyncTx ::
  "(ShmQueue \<Rightarrow> ShmQueue) \<Rightarrow> u8 list \<Rightarrow> 'h ShmTransport \<Rightarrow> ShmQueue \<Rightarrow> IoResult option \<times> bool \<times> ShmQueue" where
  "transport_asyncTx env buffer t q =
     (case t of TWriter w \<Rightarrow> writer_asyncTx env buffer w q | TReader r \<Rightarrow> (None, False, q))"

definition transport_close :: "'h ShmTransport \<Rightarrow> 'h ShmTransport" where
  "transport_close t = (case t of TReader r \<Rightarrow> TReader (snd (reader_close r)) | TWriter w \<Rightarrow> TWriter (writer_close w))"

section \<open>Properties\<close>

declare shm_tx_loop.simps [simp del] poll_pass.simps [simp del]

lemma shm_tx_ok:
  assumes "spsc_write SHM_K b (sh_queue q) = (True, sq)"
  shows "shm_tx_loop env b w q = (\<lparr>io_bytes = of_nat (length b), io_code = Io_Ok\<rparr>, shm_notify (q\<lparr>sh_queue := sq\<rparr>))"
  using assms by (subst shm_tx_loop.simps) (simp split: prod.splits)

lemma shm_tx_refused:
  assumes "spsc_write SHM_K b (sh_queue q) = (False, sq)" "\<And>q'. env q' = q'"
  shows "shm_tx_loop env b w q =
    (\<lparr>io_bytes = 0, io_code = (if sh_refCount q < 2 then Io_Closed else Io_Error)\<rparr>, False, q)"
proof (induction "spin_budget w" arbitrary: w)
  case 0
  then have "\<not> fst (sw_inc w)" by (simp add: sw_inc_True)
  then show ?case using assms(1) by (subst shm_tx_loop.simps) (auto split: prod.splits bool.splits)
next
  case (Suc n)
  then have i: "fst (sw_inc w)" by (simp add: sw_inc_True)
  then have "n = spin_budget (snd (sw_inc w))" using Suc(2) sw_inc_budget[OF i] by simp
  from Suc(1)[OF this] show ?case using assms i
    by (subst shm_tx_loop.simps) (auto split: prod.splits bool.splits)
qed

text \<open>A transmission into shared memory always returns, whatever the other side does meanwhile,
  and with an idle peer its result tells the state of the ring: \<^verbatim>\<open>Ok\<close> with the full size exactly
  when a slot was free, the message then being the last one stored; otherwise the ring is
  untouched and the code is \<^verbatim>\<open>Closed\<close> when the peer is gone and \<^verbatim>\<open>Error\<close> when it is not.\<close>

theorem shm_syncTx_result:
  assumes "spsc_inv 17 mx (sh_queue q)" "spsc_msg_ok mx b" "\<not> wr_closed wr"
    and "writer_syncTx (\<lambda>q. q) b wr q = (r, woken, q')"
  shows "if length (spsc_items 17 (sh_queue q)) < 2 ^ 17
    then r = \<lparr>io_bytes = of_nat (length b), io_code = Io_Ok\<rparr> \<and> woken = sh_waitFlag q \<and>
      spsc_items 17 (sh_queue q') = spsc_items 17 (sh_queue q) @ [b] \<and> spsc_inv 17 mx (sh_queue q')
    else q' = q \<and> \<not> woken \<and> r = \<lparr>io_bytes = 0, io_code = (if sh_refCount q < 2 then Io_Closed else Io_Error)\<rparr>"
proof -
  obtain ok sq where w: "spsc_write SHM_K b (sh_queue q) = (ok, sq)" by (metis prod.exhaust)
  have law: "spsc_inv 17 mx sq" "ok \<longleftrightarrow> length (spsc_items 17 (sh_queue q)) < 2 ^ 17"
    "spsc_items 17 sq = (if ok then spsc_items 17 (sh_queue q) @ [b] else spsc_items 17 (sh_queue q))"
    using shm_ring.write_law[OF assms(1,2)] w by (auto simp: SHM_K_def)
  have t: "shm_tx_loop (\<lambda>q. q) b (sw_new SPIN_RETRIES_YIELD) q = (r, woken, q')"
    using assms(3,4) by (simp add: writer_syncTx_def)
  show ?thesis
  proof (cases ok)
    case True
    then show ?thesis using t law shm_tx_ok[of b q sq "\<lambda>q. q"] w
      by (auto simp: shm_notify_def Let_def split: if_splits)
  next
    case False
    then show ?thesis using t law shm_tx_refused[of b q sq "\<lambda>q. q"] w by auto
  qed
qed

theorem shm_syncTx_result_witness:
  "\<exists>r woken q'. writer_syncTx (\<lambda>q. q) [1, 2, 3] \<lparr>wr_closed = False\<rparr> shm_new = (r, woken, q') \<and> io_code r = Io_Ok"
proof -
  obtain r woken q' where t: "writer_syncTx (\<lambda>q. q) [1, 2, 3] \<lparr>wr_closed = False\<rparr> shm_new = (r, woken, q')"
    by (metis prod.exhaust)
  have "spsc_inv 17 64 (sh_queue shm_new)" "spsc_items 17 (sh_queue shm_new) = []"
    using spsc_new_inv[of 17 64] by (simp_all add: shm_new_def)
  moreover have "spsc_msg_ok 64 [1, 2, 3]" by (simp add: spsc_msg_ok_def MAX_DATA_SIZE_def)
  ultimately show ?thesis using shm_syncTx_result[OF _ _ _ t, of 64] t by simp
qed

text \<open>A pass of the reactor.\<close>

definition vanishes :: "'h ShmReader \<Rightarrow> bool" where
  "vanishes r \<longleftrightarrow> rd_state r = RD_Closing \<or> rd_state r = RD_Closed"

lemma poll_vanishes: "fst (reader_poll r) = Vanished \<longleftrightarrow> vanishes r"
  by (auto simp: reader_poll_def vanishes_def Let_def split: ReaderState.splits prod.splits)

lemma swap_pop:
  assumes "i < length xs"
  shows "mset (butlast (xs[i := last xs])) = mset xs - {#xs ! i#}"
    "\<And>j. j < i \<Longrightarrow> butlast (xs[i := last xs]) ! j = xs ! j" "length (butlast (xs[i := last xs])) = length xs - 1"
proof -
  have ne: "xs \<noteq> []" using assms by auto
  show "length (butlast (xs[i := last xs])) = length xs - 1" by simp
  show "butlast (xs[i := last xs]) ! j = xs ! j" if "j < i" for j
    using assms that by (simp add: nth_butlast)
  have l: "last (xs[i := last xs]) = last xs"
    using assms ne by (cases "i = length xs - 1") (simp_all add: last_list_update)
  have "xs[i := last xs] \<noteq> []" using ne by simp
  then have "mset (xs[i := last xs]) = mset (butlast (xs[i := last xs])) + {#last xs#}"
    using l by (metis append_butlast_last_id mset.simps(1) mset.simps(2) mset_append add_mset_add_single union_commute)
  moreover have "mset (xs[i := last xs]) = add_mset (last xs) (mset xs - {#xs ! i#})"
    using assms by (rule mset_update)
  ultimately show "mset (butlast (xs[i := last xs])) = mset xs - {#xs ! i#}" by simp
qed

lemma poll_keeps: "reader_poll r = (res, calls, r') \<Longrightarrow> vanishes r' \<longleftrightarrow> vanishes r"
  by (auto simp: reader_poll_def vanishes_def Let_def split: ReaderState.splits prod.splits if_splits)

lemma swap_pop_drop:
  assumes "i < length xs"
  shows "mset (drop i (butlast (xs[i := last xs]))) = mset (drop (Suc i) xs)"
proof -
  let ?ys = "butlast (xs[i := last xs])"
  have "take i ?ys = take i xs"
    using assms swap_pop(2,3)[OF assms] by (intro nth_equalityI) auto
  then have "mset (drop i ?ys) + mset (take i xs) = mset xs - {#xs ! i#}"
    using swap_pop(1)[OF assms] append_take_drop_id[of i ?ys] by (metis mset_append union_commute)
  moreover have "mset xs = mset (take i xs) + add_mset (xs ! i) (mset (drop (Suc i) xs))"
    using assms by (metis id_take_nth_drop mset_append mset.simps(2))
  ultimately show ?thesis by simp
qed

text \<open>What a pass from position \<open>i\<close> has to achieve.\<close>

definition pass_ok :: "nat \<Rightarrow> nat list \<Rightarrow> (nat \<Rightarrow> 'h ShmReader) \<Rightarrow> 'h poll_log \<Rightarrow> nat list \<Rightarrow> (nat \<Rightarrow> 'h ShmReader) \<Rightarrow> 'h poll_log \<Rightarrow> bool" where
  "pass_ok i readers rs lg readers' rs' lg' \<longleftrightarrow>
     set readers' = {a \<in> set readers. \<not> vanishes (rs a)} \<and> distinct readers' \<and>
     (\<exists>new. lg' = lg @ new \<and> mset (map fst new) = mset (drop i readers) \<and>
        (\<forall>e \<in> set new. reader_poll (rs (fst e)) = (fst (snd e), snd (snd e), rs' (fst e)))) \<and>
     (\<forall>a. a \<notin> set (drop i readers) \<longrightarrow> rs' a = rs a)"

lemma pass_ok_step:
  assumes p: "pass_ok i' ys (rs(a := r)) (lg @ [(a, res, calls)]) readers' rs' lg'"
    and poll: "reader_poll (rs a) = (res, calls, r)" and "a \<in> set xs"
    and ys: "set ys = (if vanishes (rs a) then set xs - {a} else set xs)"
    and d: "mset (drop i xs) = add_mset a (mset (drop i' ys))" "a \<notin> set (drop i' ys)"
  shows "pass_ok i xs rs lg readers' rs' lg'"
proof -
  obtain new where n: "lg' = (lg @ [(a, res, calls)]) @ new" "mset (map fst new) = mset (drop i' ys)"
    "\<forall>e \<in> set new. reader_poll ((rs(a := r)) (fst e)) = (fst (snd e), snd (snd e), rs' (fst e))"
    using p by (auto simp: pass_ok_def)
  have rs'a: "rs' a = r" using p d(2) by (auto simp: pass_ok_def)
  have ne: "fst e \<noteq> a" if "e \<in> set new" for e
    using that d(2) mset_eq_setD[OF n(2)] by (metis image_eqI list.set_map)
  have sd: "set (drop i xs) = insert a (set (drop i' ys))" using d(1) by (metis set_mset_add_mset_insert set_mset_mset)
  have "set readers' = {b \<in> set xs. \<not> vanishes (rs b)}"
    using p ys poll_keeps[OF poll] by (auto simp: pass_ok_def split: if_splits)
  moreover have "\<exists>new. lg' = lg @ new \<and> mset (map fst new) = mset (drop i xs) \<and>
        (\<forall>e \<in> set new. reader_poll (rs (fst e)) = (fst (snd e), snd (snd e), rs' (fst e)))"
    using n ne d(1) poll rs'a by (intro exI[of _ "(a, res, calls) # new"]) auto
  moreover have "rs' b = rs b" if "b \<notin> set (drop i xs)" for b
    using that p sd by (auto simp: pass_ok_def)
  ultimately show ?thesis using p by (auto simp: pass_ok_def)
qed

lemma swap_pop_tail:
  assumes i: "i < length xs" and d: "distinct xs"
  shows "distinct (butlast (xs[i := last xs]))" "set (butlast (xs[i := last xs])) = set xs - {xs ! i}"
    "mset (drop i xs) = add_mset (xs ! i) (mset (drop i (butlast (xs[i := last xs]))))" "xs ! i \<notin> set (drop i (butlast (xs[i := last xs])))"
proof -
  let ?ys = "butlast (xs[i := last xs])"
  have m: "mset ?ys = mset (remove1 (xs ! i) xs)" using swap_pop(1)[OF i] by simp
  show "distinct ?ys" using mset_eq_imp_distinct_iff[OF m] d by simp
  show "set ?ys = set xs - {xs ! i}" using mset_eq_setD[OF m] d by simp
  have dr: "drop i xs = xs ! i # drop (Suc i) xs" using i by (simp add: Cons_nth_drop_Suc)
  show "mset (drop i xs) = add_mset (xs ! i) (mset (drop i ?ys))" using dr swap_pop_drop[OF i] by simp
  have "xs ! i \<notin> set (drop (Suc i) xs)" using d dr by (metis distinct.simps(2) distinct_drop)
  then show "xs ! i \<notin> set (drop i ?ys)" using mset_eq_setD[OF swap_pop_drop[OF i]] by simp
qed

text \<open>The last reader vanishes.\<close>

lemma pass_ok_last:
  assumes "butlast (xs[i := last xs]) = []" and i: "i < length xs" and poll: "reader_poll (rs (xs ! i)) = (res, calls, r)" and v: "vanishes (rs (xs ! i))"
  shows "pass_ok i xs rs lg [] (rs(xs ! i := r)) (lg @ [(xs ! i, res, calls)])"
proof -
  have "length (butlast (xs[i := last xs])) = 0" using assms(1) by simp
  then have "length xs = Suc 0" using i by simp
  then obtain a where a: "xs = [a]" by (auto simp: length_Suc_conv)
  then have "i = 0" using i by simp
  then show ?thesis using a poll v by (simp add: pass_ok_def)
qed

lemma poll_pass_spec:
  assumes "poll_pass i readers rs busy lg = (fin, busy', readers', rs', lg')" "distinct readers"
    and "\<forall>j < i. \<not> vanishes (rs (readers ! j))" "i \<le> length readers"
  shows "pass_ok i readers rs lg readers' rs' lg' \<and> (fin \<longrightarrow> readers' = [])"
  using assms
proof (induction i readers rs busy lg rule: poll_pass.induct)
  case (1 i readers rs busy lg)
  let ?a = "readers ! i" and ?ys = "butlast (readers[i := last readers])"
  show ?case
  proof (cases "i \<ge> length readers")
    case True
    have "\<not> vanishes (rs b)" if "b \<in> set readers" for b
      using that "1.prems"(3,4) True by (metis in_set_conv_nth le_antisym)
    then show ?thesis using "1.prems" True by (subst (asm) poll_pass.simps) (auto simp: pass_ok_def)
  next
    case False
    obtain res calls r where poll: "reader_poll (rs ?a) = (res, calls, r)" by (metis prod.exhaust)
    have van: "res = Vanished \<longleftrightarrow> vanishes (rs ?a)" using poll_vanishes[of "rs ?a"] poll by simp
    have dr: "drop i readers = ?a # drop (Suc i) readers" using False by (simp add: Cons_nth_drop_Suc)
    have na: "?a \<notin> set (drop (Suc i) readers)"
      using "1.prems"(2) dr by (metis distinct.simps(2) distinct_drop)
    have ina: "?a \<in> set readers" using False by simp
    show ?thesis
    proof (cases "res = Vanished")
      case True
      note sp = swap_pop_tail[OF _ "1.prems"(2), of i]
      have d: "mset (drop i readers) = add_mset ?a (mset (drop i ?ys))" "?a \<notin> set (drop i ?ys)" using sp(3,4) False by auto
      have j: "\<forall>j < i. \<not> vanishes ((rs(?a := r)) (?ys ! j))"
        using "1.prems"(2,3) False swap_pop(2)[of i readers] by (auto simp: nth_eq_iff_index_eq)
      show ?thesis
      proof (cases "?ys = []")
        case True
        have fin: "readers' = []" "rs' = rs(?a := r)" "lg' = lg @ [(?a, res, calls)]"
          using "1.prems"(1) poll \<open>res = Vanished\<close> False True by (subst (asm) poll_pass.simps; simp add: Let_def)+
        have "i < length readers" "vanishes (rs ?a)" using False van \<open>res = Vanished\<close> by simp_all
        from pass_ok_last[of readers i rs res calls r lg, OF True this(1) poll this(2)] show ?thesis unfolding fin by blast
      next
        case ne: False
        have dist: "distinct ?ys" and set: "set ?ys = set readers - {?a}" and le: "i \<le> length ?ys" using sp(1,2) False by auto
        have eq: "poll_pass i ?ys (rs(?a := r)) busy (lg @ [(?a, res, calls)]) = (fin, busy', readers', rs', lg')"
          using "1.prems"(1) poll \<open>res = Vanished\<close> False ne by (subst (asm) poll_pass.simps) (simp add: Let_def)
        note IH = "1.IH"(1)[OF False refl poll[symmetric] refl refl refl \<open>res = Vanished\<close> refl ne eq dist j le]
        have "set ?ys = (if vanishes (rs ?a) then set readers - {?a} else set readers)" using set van \<open>res = Vanished\<close> by simp
        from pass_ok_step[of i ?ys rs ?a r lg res calls readers' rs' lg' readers i, OF conjunct1[OF IH] poll ina this d]
        show ?thesis using conjunct2[OF IH] by blast
      qed
    next
      case False': False
      have eq: "poll_pass (i + 1) readers (rs(?a := r)) (busy \<or> res = Busy) (lg @ [(?a, res, calls)]) =
          (fin, busy', readers', rs', lg')"
        using "1.prems"(1) poll False' False by (subst (asm) poll_pass.simps) (simp add: Let_def)
      have j: "\<forall>j < i + 1. \<not> vanishes ((rs(?a := r)) (readers ! j))"
        using "1.prems"(3) van poll_keeps[OF poll] False' by (auto simp: less_Suc_eq)
      have le: "i + 1 \<le> length readers" using False by simp
      have d: "mset (drop i readers) = add_mset ?a (mset (drop (i + 1) readers))" "?a \<notin> set (drop (i + 1) readers)"
        using dr na by auto
      note IH = "1.IH"(2)[OF False refl poll[symmetric] refl refl refl False' eq "1.prems"(2) j le]
      have "set readers = (if vanishes (rs ?a) then set readers - {?a} else set readers)" using van False' by simp
      from pass_ok_step[of "i + 1" readers rs ?a r lg res calls readers' rs' lg' readers i, OF conjunct1[OF IH] poll ina this d]
      show ?thesis using conjunct2[OF IH] by blast
    qed
  qed
qed



end
