(* ===== verification/Shm_Wakeup.thy ===== *)
theory Shm_Wakeup
  imports Shm_Transport
begin

text \<open>
  The sleeping protocol of the shared-memory path, at the granularity of shared accesses: the
  reactor thread polls one reader, and after \<^verbatim>\<open>SPIN_RETRIES_WARM\<close> empty polls calls
  \<^verbatim>\<open>ShmQueue::wait\<close>; the peer calls \<^verbatim>\<open>ShmWriter::syncTx\<close>, which ends with \<^verbatim>\<open>ShmQueue::notify\<close>. Unlike
  \<^verbatim>\<open>LfqRunner::lfqLoop\<close>, \<^verbatim>\<open>wait\<close> does not look at the queue again after raising its flag. A write into
  a full ring is tried again (the bounded retry is \<^const>\<open>shm_tx_loop\<close>).
\<close>

datatype reader_pc = R_poll | R_spin | R_load | R_flag u32 | R_wait u32 | R_blocked u32 | R_clear

datatype 'm writer_pc = W_idle | W_write 'm | W_check | W_store | W_wake

record 'm ShmPair =
  p_queue :: "'m list"
  p_futex :: u32
  p_futexCounter :: u32
  p_waitFlag :: bool
  p_reader :: reader_pc
  p_waiter :: SpinWait
  p_writer :: "'m writer_pc"
  p_todo :: "'m list"
  p_received :: "'m list"

definition pair_new :: "'m list \<Rightarrow> 'm ShmPair" where
  "pair_new ms = \<lparr>p_queue = [], p_futex = 0, p_futexCounter = 0, p_waitFlag = False, p_reader = R_poll,
     p_waiter = sw_new SPIN_RETRIES_WARM, p_writer = W_idle, p_todo = ms, p_received = []\<rparr>"

definition pair_reader_step :: "'m ShmPair \<Rightarrow> 'm ShmPair option" where
  "pair_reader_step s = (case p_reader s of
     R_poll \<Rightarrow> (case p_queue s of
       [] \<Rightarrow> Some (s\<lparr>p_reader := R_spin\<rparr>)
     | m # ms \<Rightarrow> Some (s\<lparr>p_queue := ms, p_received := p_received s @ [m], p_waiter := sw_reset (p_waiter s)\<rparr>))
   | R_spin \<Rightarrow> (case sw_inc (p_waiter s) of (b, w) \<Rightarrow> Some (s\<lparr>p_waiter := w, p_reader := if b then R_poll else R_load\<rparr>))
   | R_load \<Rightarrow> Some (s\<lparr>p_reader := R_flag (p_futex s)\<rparr>)
   | R_flag v \<Rightarrow> Some (s\<lparr>p_waitFlag := True, p_reader := R_wait v\<rparr>)
   | R_wait v \<Rightarrow> Some (s\<lparr>p_reader := if p_futex s = v then R_blocked v else R_clear\<rparr>)
   | R_blocked v \<Rightarrow> None
   | R_clear \<Rightarrow> Some (s\<lparr>p_waitFlag := False, p_waiter := sw_reset (p_waiter s), p_reader := R_poll\<rparr>))"

definition pair_writer_step :: "'m ShmPair \<Rightarrow> 'm ShmPair option" where
  "pair_writer_step s = (case p_writer s of
     W_idle \<Rightarrow> (case p_todo s of [] \<Rightarrow> None | m # ms \<Rightarrow> Some (s\<lparr>p_todo := ms, p_writer := W_write m\<rparr>))
   | W_write m \<Rightarrow>
       (if length (p_queue s) < 2 ^ SHM_K then Some (s\<lparr>p_queue := p_queue s @ [m], p_writer := W_check\<rparr>) else Some s)
   | W_check \<Rightarrow> Some (s\<lparr>p_writer := if p_waitFlag s then W_store else W_idle\<rparr>)
   | W_store \<Rightarrow> Some (s\<lparr>p_futexCounter := p_futexCounter s + 1, p_futex := p_futexCounter s + 1, p_writer := W_wake\<rparr>)
   | W_wake \<Rightarrow> Some (case p_reader s of
       R_blocked v \<Rightarrow> s\<lparr>p_reader := R_clear, p_writer := W_idle\<rparr> | _ \<Rightarrow> s\<lparr>p_writer := W_idle\<rparr>))"

inductive pair_step :: "'m ShmPair \<Rightarrow> 'm ShmPair \<Rightarrow> bool" where
  reader: "pair_reader_step s = Some s' \<Longrightarrow> pair_step s s'"
| writer: "pair_writer_step s = Some s' \<Longrightarrow> pair_step s s'"

lemma pair_spin_down:
  assumes "p_reader s = R_poll" "p_queue s = []"
  shows "\<exists>w. pair_step\<^sup>*\<^sup>* s (s\<lparr>p_waiter := w, p_reader := R_load\<rparr>)"
  using assms
proof (induction "spin_budget (p_waiter s)" arbitrary: s)
  case 0
  let ?w = "snd (sw_inc (p_waiter s))"
  have b: "\<not> fst (sw_inc (p_waiter s))" using 0(1) sw_inc_True by simp
  have "pair_step s (s\<lparr>p_reader := R_spin\<rparr>)" using 0 by (intro pair_step.reader) (simp add: pair_reader_step_def)
  moreover have "pair_step (s\<lparr>p_reader := R_spin\<rparr>) (s\<lparr>p_waiter := ?w, p_reader := R_load\<rparr>)"
    using b by (intro pair_step.reader, cases "sw_inc (p_waiter s)") (simp add: pair_reader_step_def)
  ultimately show ?case by (meson converse_rtranclp_into_rtranclp rtranclp.rtrancl_refl)
next
  case (Suc n)
  let ?w = "snd (sw_inc (p_waiter s))"
  have b: "fst (sw_inc (p_waiter s))" using Suc(2) sw_inc_True by (metis zero_less_Suc)
  have "pair_step s (s\<lparr>p_reader := R_spin\<rparr>)" using Suc by (intro pair_step.reader) (simp add: pair_reader_step_def)
  moreover have "pair_step (s\<lparr>p_reader := R_spin\<rparr>) (s\<lparr>p_waiter := ?w, p_reader := R_poll\<rparr>)"
    using b by (intro pair_step.reader, cases "sw_inc (p_waiter s)") (simp add: pair_reader_step_def)
  moreover have "\<exists>w. pair_step\<^sup>*\<^sup>* (s\<lparr>p_waiter := ?w, p_reader := R_poll\<rparr>) (s\<lparr>p_waiter := w, p_reader := R_load\<rparr>)"
    using Suc(1)[of "s\<lparr>p_waiter := ?w, p_reader := R_poll\<rparr>"] Suc(2-) sw_inc_budget[OF b] by simp
  ultimately show ?case by (meson converse_rtranclp_into_rtranclp)
qed

text \<open>C40. The shared-memory path can lose a wake-up: a message written after the reactor's last empty
  poll and before \<^verbatim>\<open>wait\<close> raises its flag wakes nobody. From the initial state there is a run
  after which the peer has sent its only message and has nothing left to do, the message lies
  in the queue, the reactor thread is blocked in the futex, and no thread can take a step.\<close>

theorem shm_wait_loses_wakeup:
  "\<exists>s. pair_step\<^sup>*\<^sup>* (pair_new [m]) s \<and> p_queue s = [m] \<and> p_received s = [] \<and> p_reader s = R_blocked 0 \<and>
     p_writer s = W_idle \<and> p_todo s = [] \<and> (\<forall>s'. \<not> pair_step s s')"
proof -
  obtain w where w: "pair_step\<^sup>*\<^sup>* (pair_new [m]) ((pair_new [m])\<lparr>p_waiter := w, p_reader := R_load\<rparr>)"
    using pair_spin_down[of "pair_new [m]"] by (auto simp: pair_new_def)
  define s0 where "s0 = (pair_new [m])\<lparr>p_waiter := w, p_reader := R_load\<rparr>"
  define s1 where "s1 = s0\<lparr>p_todo := [], p_writer := W_write m\<rparr>"
  define s2 where "s2 = s1\<lparr>p_queue := [m], p_writer := W_check\<rparr>"
  define s3 where "s3 = s2\<lparr>p_writer := W_idle\<rparr>"
  define s4 where "s4 = s3\<lparr>p_reader := R_flag 0\<rparr>"
  define s5 where "s5 = s4\<lparr>p_waitFlag := True, p_reader := R_wait 0\<rparr>"
  define s6 where "s6 = s5\<lparr>p_reader := R_blocked 0\<rparr>"
  note defs = s0_def s1_def s2_def s3_def s4_def s5_def s6_def pair_new_def
  have "pair_step s0 s1" "pair_step s1 s2" "pair_step s2 s3"
    by (intro pair_step.writer; simp add: pair_writer_step_def defs)+
  moreover have "pair_step s3 s4" "pair_step s4 s5" "pair_step s5 s6"
    by (intro pair_step.reader; simp add: pair_reader_step_def defs)+
  ultimately have "pair_step\<^sup>*\<^sup>* s0 s6" by (meson converse_rtranclp_into_rtranclp rtranclp.rtrancl_refl)
  then have "pair_step\<^sup>*\<^sup>* (pair_new [m]) s6" using w unfolding s0_def by (rule rtranclp_trans[rotated])
  moreover have "\<not> pair_step s6 s'" for s'
    by (auto simp: pair_step.simps pair_reader_step_def pair_writer_step_def defs)
  ultimately show ?thesis by (intro exI[of _ s6]) (simp add: defs)
qed

end
