(* ===== verification/Vyukov_MPMC.thy ===== *)
theory Vyukov_MPMC
  imports Fifo_Queue Seq_Ring "HOL-Library.Monad_Syntax"
begin

text \<open>
  \<^verbatim>\<open>VyukovMPMC\<close> of \<^verbatim>\<open>common/src/containers/vyukov_mpmc.hpp\<close> and \<^verbatim>\<open>BufferPool\<close> of
  \<^verbatim>\<open>common/src/containers/buffer_pool.hpp\<close>, which keeps its free buffer indices in such a queue.
  Each call is one atomic step here; the retry loop is kept, as a partial function, and shown
  to end. \<open>Capacity\<close> is \<open>2 ^ k\<close> with \<open>k \<le> 20\<close>, as the static assertions of the class demand.
\<close>

section \<open>The queue\<close>

record 'v VyukovMPMC =
  vy_sequence :: "(nat, u64) array"
  vy_value :: "(nat, 'v) array"
  vy_head :: u64
  vy_tail :: u64

definition vy_new :: "'v \<Rightarrow> 'v VyukovMPMC" where
  "vy_new v = \<lparr>vy_sequence = of_nat, vy_value = (\<lambda>_. v), vy_head = 0, vy_tail = 0\<rparr>"

definition vy_diff :: "u64 \<Rightarrow> u64 \<Rightarrow> int" where
  "vy_diff a b = sint (a - b)"

text \<open>The loop ends with the claimed position, or with \<open>Some None\<close> when the queue is full.\<close>

partial_function (option) vy_claim_tail :: "nat \<Rightarrow> u64 \<Rightarrow> 'v VyukovMPMC \<Rightarrow> (u64 option \<times> 'v VyukovMPMC) option" where
  "vy_claim_tail k tail q =
     (let diff = vy_diff (vy_sequence q (slot_of k tail)) tail
      in if diff = 0
         then if vy_tail q = tail then Some (Some tail, q\<lparr>vy_tail := tail + 1\<rparr>)
              else vy_claim_tail k (vy_tail q) q
         else if diff < 0 then Some (None, q)
         else vy_claim_tail k (vy_tail q) q)"

definition vy_push :: "nat \<Rightarrow> 'v \<Rightarrow> 'v VyukovMPMC \<Rightarrow> (bool \<times> 'v VyukovMPMC) option" where
  "vy_push k item q = do {
     (r, q) \<leftarrow> vy_claim_tail k (vy_tail q) q;
     case r of
       None \<Rightarrow> Some (False, q)
     | Some tail \<Rightarrow>
         let i = slot_of k tail
         in Some (True, q\<lparr>vy_value := (vy_value q)(i := item), vy_sequence := (vy_sequence q)(i := tail + 1)\<rparr>) }"

partial_function (option) vy_claim_head :: "nat \<Rightarrow> u64 \<Rightarrow> 'v VyukovMPMC \<Rightarrow> (u64 option \<times> 'v VyukovMPMC) option" where
  "vy_claim_head k head q =
     (let diff = vy_diff (vy_sequence q (slot_of k head)) (head + 1)
      in if diff = 0
         then if vy_head q = head then Some (Some head, q\<lparr>vy_head := head + 1\<rparr>)
              else vy_claim_head k (vy_head q) q
         else if diff < 0 then Some (None, q)
         else vy_claim_head k (vy_head q) q)"

definition vy_pop :: "nat \<Rightarrow> 'v VyukovMPMC \<Rightarrow> ('v option \<times> 'v VyukovMPMC) option" where
  "vy_pop k q = do {
     (r, q) \<leftarrow> vy_claim_head k (vy_head q) q;
     case r of
       None \<Rightarrow> Some (None, q)
     | Some head \<Rightarrow>
         let i = slot_of k head
         in Some (Some (vy_value q i), q\<lparr>vy_sequence := (vy_sequence q)(i := head + push_bit k 1)\<rparr>) }"

definition vy_empty :: "'v VyukovMPMC \<Rightarrow> bool" where
  "vy_empty q \<longleftrightarrow> vy_head q \<ge> vy_tail q"

definition vy_size :: "'v VyukovMPMC \<Rightarrow> u64" where
  "vy_size q = vy_tail q - vy_head q"

section \<open>Invariant and behaviour\<close>

definition vy_count :: "'v VyukovMPMC \<Rightarrow> nat" where
  "vy_count q = fill_count (vy_tail q) (vy_head q)"

definition vy_items :: "nat \<Rightarrow> 'v VyukovMPMC \<Rightarrow> 'v list" where
  "vy_items k q = ring (2 ^ k) (vy_value q) (unat (vy_head q)) (vy_count q)"

definition vy_inv :: "nat \<Rightarrow> 'v VyukovMPMC \<Rightarrow> bool" where
  "vy_inv k q \<longleftrightarrow> 0 < k \<and> k \<le> 20 \<and> seq_ok k (vy_sequence q) (vy_head q) (vy_count q)"

lemma vy_new_inv: "0 < k \<Longrightarrow> k \<le> 20 \<Longrightarrow> vy_inv k (vy_new v) \<and> vy_items k (vy_new v) = []"
  by (simp add: vy_inv_def vy_new_def vy_count_def vy_items_def fill_count_def seq_ok_init)

lemma vy_tail_eq: "vy_tail q = vy_head q + of_nat (vy_count q)"
  by (simp add: vy_count_def flip: fill_count_write)

lemma length_vy_items [simp]: "length (vy_items k q) = vy_count q"
  by (simp add: vy_items_def)

lemma vy_diff_refl [simp]: "vy_diff a a = 0"
  by (simp add: vy_diff_def)

lemma sint_neg_small:
  assumes "0 < n" "n \<le> 2 ^ 20"
  shows "sint (- of_nat n :: u64) = - int n"
proof -
  have "(- of_nat n :: u64) = word_of_int (- int n)" by simp
  then have "sint (- of_nat n :: u64) = signed_take_bit 63 (- int n)"
    by (simp only: signed_of_int) simp
  also have "\<dots> = - int n" using assms by (intro signed_take_bit_int_eq_self) auto
  finally show ?thesis .
qed

lemma vy_diff_full:
  assumes "0 < k" "k \<le> 20"
  shows "vy_diff (r + 1) (r + 2 ^ k) < 0"
proof -
  have p: "(2 :: nat) ^ k \<le> 2 ^ 20" using assms by (intro power_increasing) auto
  have q: "(2 :: nat) ^ 1 \<le> 2 ^ k" using assms by (intro power_increasing) auto
  have "(r + 1) - (r + 2 ^ k) = - of_nat (2 ^ k - 1 :: nat)" by (simp add: of_nat_diff)
  moreover have "1 < (2 :: int) ^ k" using assms by simp
  ultimately show ?thesis using sint_neg_small[of "2 ^ k - 1"] p q by (simp add: vy_diff_def)
qed

lemma vy_diff_empty: "vy_diff r (r + 1) < 0"
  using sint_neg_small[of 1] by (simp add: vy_diff_def)

text \<open>Called with the current counter, the retry loop ends in its first round.\<close>

lemma vy_claim_tail_ok:
  assumes "vy_inv k q"
  shows "vy_claim_tail k (vy_tail q) q =
    (if vy_count q < 2 ^ k then Some (Some (vy_tail q), q\<lparr>vy_tail := vy_tail q + 1\<rparr>) else Some (None, q))"
proof -
  have i: "0 < k" "k < 64" "k \<le> 20" "seq_ok k (vy_sequence q) (vy_head q) (vy_count q)"
    using assms by (auto simp: vy_inv_def)
  note at = seq_at_write[OF i(4,1,2), folded vy_tail_eq]
  show ?thesis
  proof (cases "vy_count q < 2 ^ k")
    case True
    then show ?thesis using at by (subst vy_claim_tail.simps) (simp add: Let_def)
  next
    case False
    then have "vy_count q = 2 ^ k" using i(4) by (simp add: seq_ok_def)
    then have "vy_diff (vy_sequence q (slot_of k (vy_tail q))) (vy_tail q) < 0"
      using at vy_diff_full[OF i(1,3), of "vy_head q"] vy_tail_eq[of q] by simp
    then show ?thesis using False by (subst vy_claim_tail.simps) (simp add: Let_def)
  qed
qed

lemma vy_claim_head_ok:
  assumes "vy_inv k q"
  shows "vy_claim_head k (vy_head q) q =
    (if 0 < vy_count q then Some (Some (vy_head q), q\<lparr>vy_head := vy_head q + 1\<rparr>) else Some (None, q))"
proof -
  have i: "k < 64" "seq_ok k (vy_sequence q) (vy_head q) (vy_count q)"
    using assms by (auto simp: vy_inv_def)
  show ?thesis using seq_at_read[OF i(2,1)] vy_diff_empty[of "vy_head q"]
    by (subst vy_claim_head.simps) (auto simp: Let_def)
qed

lemma vy_push_law:
  assumes inv: "vy_inv k q"
  shows "\<exists>b q'. vy_push k x q = Some (b, q') \<and> vy_inv k q' \<and> (b \<longleftrightarrow> length (vy_items k q) < 2 ^ k) \<and>
    vy_items k q' = (if b then vy_items k q @ [x] else vy_items k q)"
proof (cases "vy_count q < 2 ^ k")
  case False
  then show ?thesis using vy_claim_tail_ok[OF inv] inv by (auto simp: vy_push_def)
next
  case True
  have i: "k < 64" "seq_ok k (vy_sequence q) (vy_head q) (vy_count q)" using inv by (auto simp: vy_inv_def)
  let ?i = "slot_of k (vy_tail q)"
  define q' where "q' = q\<lparr>vy_tail := vy_tail q + 1, vy_value := (vy_value q)(?i := x),
    vy_sequence := (vy_sequence q)(?i := vy_tail q + 1)\<rparr>"
  have p: "vy_push k x q = Some (True, q')"
    using vy_claim_tail_ok[OF inv] True by (simp add: vy_push_def q'_def Let_def)
  have "vy_tail q' = vy_head q + of_nat (Suc (vy_count q))" using vy_tail_eq[of q] by (simp add: q'_def)
  then have c: "vy_count q' = Suc (vy_count q)"
    using fill_count_add[OF i(1), of "Suc (vy_count q)" "vy_head q"] True
    by (simp only: vy_count_def) (simp add: q'_def)
  have "vy_inv k q'"
    using seq_ok_write[OF i(2,1) True, folded vy_tail_eq] inv unfolding vy_inv_def c by (simp add: q'_def)
  moreover have "vy_items k q' = vy_items k q @ [x]"
    using ring_write[OF i(1) True, of "vy_head q" "vy_value q'" "vy_value q" x, folded vy_tail_eq]
    unfolding vy_items_def c by (simp add: q'_def)
  ultimately show ?thesis using p True by auto
qed

lemma vy_pop_law:
  assumes inv: "vy_inv k q"
  shows "\<exists>q'. vy_pop k q = Some (case vy_items k q of [] \<Rightarrow> None | x # xs \<Rightarrow> Some x, q') \<and> vy_inv k q' \<and>
    vy_items k q' = tl (vy_items k q)"
proof (cases "vy_count q")
  case 0
  then show ?thesis using vy_claim_head_ok[OF inv] inv by (simp add: vy_pop_def vy_items_def)
next
  case (Suc c)
  have i: "k < 64" "seq_ok k (vy_sequence q) (vy_head q) (Suc c)" using inv Suc by (auto simp: vy_inv_def)
  let ?i = "slot_of k (vy_head q)"
  define q' where "q' = q\<lparr>vy_head := vy_head q + 1, vy_sequence := (vy_sequence q)(?i := vy_head q + push_bit k 1)\<rparr>"
  have p: "vy_pop k q = Some (Some (vy_value q ?i), q')"
    using vy_claim_head_ok[OF inv] Suc by (simp add: vy_pop_def q'_def Let_def)
  have "c \<le> 2 ^ k" using i(2) by (simp add: seq_ok_def)
  then have c: "vy_count q' = c"
    using fill_count_add[OF i(1), of c "vy_head q + 1"] vy_tail_eq[of q] Suc
    by (simp add: vy_count_def q'_def add.assoc)
  have items: "vy_items k q = vy_value q ?i # ring (2 ^ k) (vy_value q) (unat (vy_head q + 1)) c"
    using ring_read[OF i(1)] Suc by (simp add: vy_items_def)
  have "vy_inv k q'" using seq_ok_read[OF i(2,1)] inv unfolding vy_inv_def c by (simp add: q'_def)
  moreover have "vy_items k q' = tl (vy_items k q)" using items c by (simp add: vy_items_def q'_def)
  ultimately show ?thesis using p items by simp
qed

text \<open>The queue provides the FIFO contract; a call that did not return would be the default.\<close>

definition vy_enq :: "nat \<Rightarrow> 'v \<Rightarrow> 'v VyukovMPMC \<Rightarrow> bool \<times> 'v VyukovMPMC" where
  "vy_enq k x q = (case vy_push k x q of Some r \<Rightarrow> r | None \<Rightarrow> (False, q))"

definition vy_deq :: "nat \<Rightarrow> 'v VyukovMPMC \<Rightarrow> 'v option \<times> 'v VyukovMPMC" where
  "vy_deq k q = (case vy_pop k q of Some r \<Rightarrow> r | None \<Rightarrow> (None, q))"

interpretation mpmc: fifo "vy_enq k" "vy_deq k" "vy_inv k" "vy_items k" "2 ^ k" "\<lambda>_. True" for k
proof
  fix s x b s'
  assume "vy_inv k s" "vy_enq k x s = (b, s')"
  then show "vy_inv k s' \<and> (b \<longleftrightarrow> length (vy_items k s) < 2 ^ k) \<and>
      vy_items k s' = (if b then vy_items k s @ [x] else vy_items k s)"
    using vy_push_law[of k s x] by (auto simp: vy_enq_def)
next
  fix s r s'
  assume "vy_inv k s" "vy_deq k s = (r, s')"
  then show "vy_inv k s' \<and> r = (case vy_items k s of [] \<Rightarrow> None | x # xs \<Rightarrow> Some x) \<and> vy_items k s' = tl (vy_items k s)"
    using vy_pop_law[of k s] by (auto simp: vy_deq_def)
qed

text \<open>Pushes and pops on the bounded queue terminate and behave as a FIFO queue of \<open>2 ^ k\<close>
  elements: in every state reached by a sequence of calls, \<open>push\<close> returns, and returns true
  exactly when fewer than \<open>2 ^ k\<close> elements are stored, \<open>pop\<close> returns, \<open>size()\<close> is the number of
  elements, and the elements accepted are those delivered followed by those stored.\<close>

theorem vyukov_fifo:
  assumes "0 < k" "k \<le> 20"
    and "fifo_run (vy_enq k) (vy_deq k) ops (vy_new v) = (q, accepted, delivered)"
  shows "accepted = delivered @ vy_items k q \<and> unat (vy_size q) = length (vy_items k q) \<and>
    (\<exists>q'. vy_push k x q = Some (length (vy_items k q) < 2 ^ k, q')) \<and>
    (\<exists>q'. vy_pop k q = Some (case vy_items k q of [] \<Rightarrow> None | y # ys \<Rightarrow> Some y, q'))"
proof -
  have i: "vy_inv k (vy_new v)" "vy_items k (vy_new v) = []" using vy_new_inv[OF assms(1,2), of v] by simp_all
  have ok: "mpmc.op_ok op" for op :: "'a queue_op" by (cases op) (simp_all add: mpmc.op_ok_def)
  have "vy_inv k q"
    by (rule conjunct1[OF mpmc.run_account[OF i(1) _ ok assms(3)[unfolded fifo_run_def], of "vy_new v"]]) simp
  moreover have "accepted = delivered @ vy_items k q" using mpmc.run_fifo[OF i ok assms(3)] .
  moreover have "unat (vy_size q) = length (vy_items k q)" by (simp add: vy_size_def vy_count_def fill_count_def)
  ultimately show ?thesis using vy_push_law[of k q x] vy_pop_law[of k q] by blast
qed

theorem vyukov_fifo_witness:
  "\<exists>q acc del. fifo_run (vy_enq 10) (vy_deq 10) [Write 4, Write 5, Read] (vy_new (0 :: u32)) = (q, acc, del) \<and>
     acc = del @ vy_items 10 q"
proof -
  obtain q acc del where r: "fifo_run (vy_enq 10) (vy_deq 10) [Write 4, Write 5, Read] (vy_new (0 :: u32)) = (q, acc, del)"
    by (metis prod.exhaust)
  show ?thesis using vyukov_fifo[OF _ _ r] r by simp
qed

end
