(* ===== verification/Bus.thy ===== *)
theory Bus
  imports Vyukov_MPMC Spin_Wait
begin

text \<open>
  The buses of \<^verbatim>\<open>common/src/bus\<close>. Message types are tags of type \<^typ>\<open>'k\<close>, a message is a tag with a
  payload, and a \<^verbatim>\<open>Handler\<close> (\<^verbatim>\<open>utils/handler.hpp\<close>) is a value of type \<^typ>\<open>'h\<close> or null. Calling a
  handler is an output; exceptions are the left summand. The boost \<^verbatim>\<open>io_context\<close> behind the system
  bus is a FIFO of tasks.
\<close>

section \<open>MessageBus\<close>

type_synonym ('k, 'h) MessageBus = "'k \<Rightarrow> 'h option"

definition mb_new :: "('k, 'h) MessageBus" where
  "mb_new = (\<lambda>_. None)"

definition mb_subscribe :: "'k \<Rightarrow> 'h \<Rightarrow> ('k, 'h) MessageBus \<Rightarrow> ('k, 'h) MessageBus" where
  "mb_subscribe k h bus = bus(k := Some h)"

definition mb_post :: "'k \<times> 'v \<Rightarrow> ('k, 'h) MessageBus \<Rightarrow> string + 'h \<times> 'k \<times> 'v" where
  "mb_post e bus = (case bus (fst e) of None \<Rightarrow> Inl ''Handler not set'' | Some h \<Rightarrow> Inr (h, e))"

definition mb_missing :: "('k \<Rightarrow> string) \<Rightarrow> 'k list \<Rightarrow> ('k, 'h) MessageBus \<Rightarrow> string" where
  "mb_missing typeName types bus = concat (map (\<lambda>k. if bus k = None then typeName k @ '', '' else []) types)"

definition mb_validate :: "('k \<Rightarrow> string) \<Rightarrow> 'k list \<Rightarrow> ('k, 'h) MessageBus \<Rightarrow> string + unit" where
  "mb_validate typeName types bus =
     (let missing = mb_missing typeName types bus
      in if missing \<noteq> []
         then Inl (''MessageBus validation failed. Missing subscribers for: '' @ take (length missing - 2) missing)
         else Inr ())"

section \<open>SystemBus\<close>

datatype ('k, 'v, 'h) sys_task =
    SubscribeEvent 'k 'h
  | SubscribeValue "'k \<times> 'v" 'h
  | PostEvent "'k \<times> 'v"
  | PostFn 'h

text \<open>The subscriber lists are function-local statics of the class, one per event type.\<close>

record ('k, 'v, 'h) SystemBus =
  sb_tasks :: "('k, 'v, 'h) sys_task list"
  sb_eventSubs :: "'k \<Rightarrow> 'h list"
  sb_valueSubs :: "'k \<times> 'v \<Rightarrow> 'h list"
  sb_stopped :: bool

datatype ('k, 'v, 'h) bus_call = CallEvent 'h "'k \<times> 'v" | CallBack 'h

definition sys_new :: "('k, 'v, 'h) SystemBus" where
  "sys_new = \<lparr>sb_tasks = [], sb_eventSubs = (\<lambda>_. []), sb_valueSubs = (\<lambda>_. []), sb_stopped = False\<rparr>"

definition sys_enqueue :: "('k, 'v, 'h) sys_task \<Rightarrow> ('k, 'v, 'h) SystemBus \<Rightarrow> ('k, 'v, 'h) SystemBus" where
  "sys_enqueue t b = b\<lparr>sb_tasks := sb_tasks b @ [t]\<rparr>"

definition sys_onEvent :: "('k \<Rightarrow> bool) \<Rightarrow> 'k \<times> 'v \<Rightarrow> ('k, 'v, 'h) SystemBus \<Rightarrow> ('k, 'v, 'h) bus_call list" where
  "sys_onEvent hashable e b =
     map (\<lambda>h. CallEvent h e) (sb_eventSubs b (fst e)) @
     (if hashable (fst e) then map CallBack (sb_valueSubs b e) else [])"

definition sys_exec ::
  "('k \<Rightarrow> bool) \<Rightarrow> ('k, 'v, 'h) sys_task \<Rightarrow> ('k, 'v, 'h) SystemBus \<Rightarrow> ('k, 'v, 'h) bus_call list \<times> ('k, 'v, 'h) SystemBus" where
  "sys_exec hashable t b =
     (case t of
        SubscribeEvent k h \<Rightarrow> ([], b\<lparr>sb_eventSubs := (sb_eventSubs b)(k := sb_eventSubs b k @ [h])\<rparr>)
      | SubscribeValue e h \<Rightarrow> ([], b\<lparr>sb_valueSubs := (sb_valueSubs b)(e := sb_valueSubs b e @ [h])\<rparr>)
      | PostEvent e \<Rightarrow> (sys_onEvent hashable e b, b)
      | PostFn f \<Rightarrow> ([CallBack f], b))"

text \<open>\<^verbatim>\<open>ioCtx_.run()\<close> on the tasks that are queued.\<close>

fun sys_run ::
  "('k \<Rightarrow> bool) \<Rightarrow> ('k, 'v, 'h) sys_task list \<Rightarrow> ('k, 'v, 'h) SystemBus \<Rightarrow> ('k, 'v, 'h) bus_call list list \<times> ('k, 'v, 'h) SystemBus" where
  "sys_run hashable [] b = ([], b)"
| "sys_run hashable (t # ts) b =
     (case sys_exec hashable t b of (cs, b') \<Rightarrow> case sys_run hashable ts b' of (css, b'') \<Rightarrow> (cs # css, b''))"

definition sys_stop :: "('k, 'v, 'h) SystemBus \<Rightarrow> ('k, 'v, 'h) SystemBus" where
  "sys_stop b = b\<lparr>sb_stopped := True\<rparr>"

section \<open>BusHub, BusRestrictor and BusLimiter\<close>

record ('k, 'v, 'h) BusHub =
  hub_system :: "('k, 'v, 'h) SystemBus"
  hub_market :: "('k, 'h) MessageBus"

text \<open>\<open>routed\<close> are the types of the market bus, which calls its handler at once; every other message
  is queued on the system bus.\<close>

definition hub_post ::
  "'k list \<Rightarrow> 'k \<times> 'v \<Rightarrow> ('k, 'v, 'h) BusHub \<Rightarrow> string + ('h \<times> 'k \<times> 'v) option \<times> ('k, 'v, 'h) BusHub" where
  "hub_post routed e hub =
     (if fst e \<in> set routed
      then (case mb_post e (hub_market hub) of Inl err \<Rightarrow> Inl err | Inr c \<Rightarrow> Inr (Some c, hub))
      else Inr (None, hub\<lparr>hub_system := sys_enqueue (PostEvent e) (hub_system hub)\<rparr>))"

definition hub_subscribe :: "'k list \<Rightarrow> 'k \<Rightarrow> 'h \<Rightarrow> ('k, 'v, 'h) BusHub \<Rightarrow> ('k, 'v, 'h) BusHub" where
  "hub_subscribe routed k h hub =
     (if k \<in> set routed then hub\<lparr>hub_market := mb_subscribe k h (hub_market hub)\<rparr>
      else hub\<lparr>hub_system := sys_enqueue (SubscribeEvent k h) (hub_system hub)\<rparr>)"

definition hub_subscribeValue :: "'k \<times> 'v \<Rightarrow> 'h \<Rightarrow> ('k, 'v, 'h) BusHub \<Rightarrow> ('k, 'v, 'h) BusHub" where
  "hub_subscribeValue e cb hub = hub\<lparr>hub_system := sys_enqueue (SubscribeValue e cb) (hub_system hub)\<rparr>"

definition hub_run :: "('k \<Rightarrow> bool) \<Rightarrow> ('k \<Rightarrow> string) \<Rightarrow> 'k list \<Rightarrow> ('k, 'v, 'h) BusHub \<Rightarrow>
    string + ('k, 'v, 'h) bus_call list list \<times> ('k, 'v, 'h) BusHub" where
  "hub_run hashable typeName routed hub =
     (case mb_validate typeName routed (hub_market hub) of
        Inl err \<Rightarrow> Inl err
      | Inr _ \<Rightarrow>
          (case sys_run hashable (sb_tasks (hub_system hub)) ((hub_system hub)\<lparr>sb_tasks := []\<rparr>) of
             (css, b) \<Rightarrow> Inr (css, hub\<lparr>hub_system := b\<rparr>)))"

definition restrictor_isAllowed :: "'k list \<Rightarrow> 'k \<Rightarrow> bool" where
  "restrictor_isAllowed allowed k \<longleftrightarrow> k \<in> set allowed"

definition restrictor_post :: "'k list \<Rightarrow> ('k \<times> 'v \<Rightarrow> 's \<Rightarrow> 's) \<Rightarrow> 'k \<times> 'v \<Rightarrow> 's \<Rightarrow> 's" where
  "restrictor_post allowed bus_post e s = (if restrictor_isAllowed allowed (fst e) then bus_post e s else s)"

section \<open>StreamBus\<close>

text \<open>Its queues hold \<^verbatim>\<open>LFQ_CAPACITY * 16\<close>, that is \<open>2 ^ 20\<close>, events.\<close>

definition STREAM_K :: nat where "STREAM_K = 20"

record ('k, 'v, 'h) StreamBus =
  st_queues :: "'k \<Rightarrow> 'v VyukovMPMC"
  st_handlers :: "'k \<Rightarrow> 'h option"
  st_running :: bool
  st_sleeping :: bool
  st_futex :: u32

definition stream_subscribe :: "'k \<Rightarrow> 'h \<Rightarrow> ('k, 'v, 'h) StreamBus \<Rightarrow> string + ('k, 'v, 'h) StreamBus" where
  "stream_subscribe k h b =
     (if st_running b then Inl ''StreamBus subscribe called after start''
      else case st_handlers b k of
             Some _ \<Rightarrow> Inr b
           | None \<Rightarrow> Inr (b\<lparr>st_handlers := (st_handlers b)(k := Some h)\<rparr>))"

definition stream_notify :: "('k, 'v, 'h) StreamBus \<Rightarrow> bool \<times> ('k, 'v, 'h) StreamBus" where
  "stream_notify b = (if st_sleeping b then (True, b\<lparr>st_futex := st_futex b + 1\<rparr>) else (False, b))"

text \<open>The retry loop of \<^verbatim>\<open>post\<close>; \<open>env\<close> is what the consumer does between two attempts.\<close>

function stream_push ::
  "('v VyukovMPMC \<Rightarrow> 'v VyukovMPMC) \<Rightarrow> 'v \<Rightarrow> SpinWait \<Rightarrow> 'v VyukovMPMC \<Rightarrow> (bool \<times> 'v VyukovMPMC) option" where
  "stream_push env v w q =
     (case vy_push STREAM_K v q of
        None \<Rightarrow> None
      | Some (True, q') \<Rightarrow> Some (True, q')
      | Some (False, q') \<Rightarrow> (case sw_inc w of (True, w') \<Rightarrow> stream_push env v w' (env q') | (False, w') \<Rightarrow> Some (False, q')))"
  by pat_completeness auto
termination
  by (relation "measure (\<lambda>(env, v, w, q). spin_budget w)") (auto, metis fst_conv snd_conv sw_inc_budget lessI)

definition stream_post ::
  "('v VyukovMPMC \<Rightarrow> 'v VyukovMPMC) \<Rightarrow> 'k \<times> 'v \<Rightarrow> ('k, 'v, 'h) StreamBus \<Rightarrow> (bool \<times> ('k, 'v, 'h) StreamBus) option" where
  "stream_post env e b =
     (if \<not> st_running b then Some (False, b)
      else case stream_push env (snd e) (sw_new SPIN_RETRIES_YIELD) (st_queues b (fst e)) of
             None \<Rightarrow> None
           | Some (ok, q) \<Rightarrow>
               let b' = b\<lparr>st_queues := (st_queues b)(fst e := q)\<rparr>
               in Some (ok, if ok then snd (stream_notify b') else b'))"

text \<open>\<^verbatim>\<open>process\<close>: the handler is called for every event until a pop fails.\<close>

partial_function (option) stream_drain :: "'v VyukovMPMC \<Rightarrow> 'v list \<Rightarrow> ('v list \<times> 'v VyukovMPMC) option" where
  "stream_drain q out =
     (case vy_pop STREAM_K q of
        None \<Rightarrow> None
      | Some (None, q') \<Rightarrow> Some (out, q')
      | Some (Some v, q') \<Rightarrow> stream_drain q' (out @ [v]))"

definition stream_process ::
  "'k \<Rightarrow> ('k, 'v, 'h) StreamBus \<Rightarrow> (bool \<times> ('h \<times> 'v) list \<times> ('k, 'v, 'h) StreamBus) option" where
  "stream_process k b =
     (case st_handlers b k of
        None \<Rightarrow> Some (False, [], b)
      | Some h \<Rightarrow>
          (case stream_drain (st_queues b k) [] of
             None \<Rightarrow> None
           | Some (vs, q) \<Rightarrow> Some (vs \<noteq> [], map (Pair h) vs, b\<lparr>st_queues := (st_queues b)(k := q)\<rparr>)))"

text \<open>One round of the thread of \<^verbatim>\<open>run\<close>: every type is processed (the fold uses a plain or).\<close>

fun stream_round :: "'k list \<Rightarrow> ('k, 'v, 'h) StreamBus \<Rightarrow> (bool \<times> ('h \<times> 'v) list \<times> ('k, 'v, 'h) StreamBus) option" where
  "stream_round [] b = Some (False, [], b)"
| "stream_round (k # ks) b = do {
     (r, out, b) \<leftarrow> stream_process k b;
     (r', out', b) \<leftarrow> stream_round ks b;
     Some (r \<or> r', out @ out', b) }"

definition stream_stop :: "('k, 'v, 'h) StreamBus \<Rightarrow> ('k, 'v, 'h) StreamBus" where
  "stream_stop b = b\<lparr>st_running := False, st_futex := st_futex b + 1\<rparr>"

definition stream_empty :: "'k list \<Rightarrow> ('k, 'v, 'h) StreamBus \<Rightarrow> bool" where
  "stream_empty types b \<longleftrightarrow> (\<forall>k \<in> set types. vy_empty (st_queues b k))"

section \<open>Delivery on the system bus\<close>

definition subs_before :: "('k, 'v, 'h) sys_task list \<Rightarrow> 'k \<Rightarrow> 'h list" where
  "subs_before ts k = concat (map (\<lambda>t. case t of SubscribeEvent k' h \<Rightarrow> if k' = k then [h] else [] | _ \<Rightarrow> []) ts)"

definition value_subs_before :: "('k, 'v, 'h) sys_task list \<Rightarrow> 'k \<times> 'v \<Rightarrow> 'h list" where
  "value_subs_before ts e = concat (map (\<lambda>t. case t of SubscribeValue e' h \<Rightarrow> if e' = e then [h] else [] | _ \<Rightarrow> []) ts)"

lemma sys_run_subs:
  "sb_eventSubs (snd (sys_run hs ts b)) k = sb_eventSubs b k @ subs_before ts k \<and>
   sb_valueSubs (snd (sys_run hs ts b)) e = sb_valueSubs b e @ value_subs_before ts e"
proof (induction ts arbitrary: b)
  case Nil
  then show ?case by (simp add: subs_before_def value_subs_before_def)
next
  case (Cons t ts)
  obtain cs b' where x: "sys_exec hs t b = (cs, b')" by (cases "sys_exec hs t b")
  have "sb_eventSubs b' k @ subs_before ts k = sb_eventSubs b k @ subs_before (t # ts) k"
    "sb_valueSubs b' e @ value_subs_before ts e = sb_valueSubs b e @ value_subs_before (t # ts) e"
    using x by (auto simp: sys_exec_def subs_before_def value_subs_before_def split: sys_task.splits)
  then show ?case using Cons[of b'] x by (cases "sys_run hs ts b'") simp
qed

lemma sys_run_append:
  "sys_run hs (ts @ us) b = (case sys_run hs ts b of (css, b') \<Rightarrow> case sys_run hs us b' of (dss, b'') \<Rightarrow> (css @ dss, b''))"
  by (induction ts arbitrary: b) (auto split: prod.splits)

lemma length_sys_run [simp]: "length (fst (sys_run hs ts b)) = length ts"
proof (induction ts arbitrary: b)
  case (Cons t ts)
  obtain cs b' where x: "sys_exec hs t b = (cs, b')" by (cases "sys_exec hs t b")
  show ?case using Cons[of b'] x by (cases "sys_run hs ts b'") simp
qed simp

text \<open>An event posted on the system bus reaches exactly the handlers whose subscription was queued
  before it, each once, in the order of subscription: first those of its type, then, for a type
  that can be a map key, the callbacks registered for its value.\<close>

theorem system_bus_delivery:
  "fst (sys_run hashable (ts @ PostEvent e # us) sys_new) ! length ts =
     map (\<lambda>h. CallEvent h e) (subs_before ts (fst e)) @
     (if hashable (fst e) then map CallBack (value_subs_before ts e) else [])"
proof -
  obtain css b where r: "sys_run hashable ts sys_new = (css, b)" by (cases "sys_run hashable ts sys_new")
  obtain dss b' where r': "sys_run hashable us b = (dss, b')" by (cases "sys_run hashable us b")
  have "sb_eventSubs b (fst e) = subs_before ts (fst e)" "sb_valueSubs b e = value_subs_before ts e"
    using sys_run_subs[of hashable ts sys_new "fst e" e] r by (simp_all add: sys_new_def)
  moreover have "length css = length ts" using r length_sys_run[of hashable ts sys_new] by simp
  ultimately show ?thesis using r r' by (simp add: sys_run_append sys_exec_def sys_onEvent_def nth_append)
qed

text \<open>\<^verbatim>\<open>validate\<close> accepts the market bus exactly when every routed type has a handler, and then no
  post of a routed message throws; type names are never empty.\<close>

theorem validated_bus_never_throws:
  assumes "\<And>k. typeName k \<noteq> []"
  shows "mb_validate typeName types bus = Inr () \<longleftrightarrow> (\<forall>k \<in> set types. \<exists>h. \<forall>v. mb_post (k, v) bus = Inr (h, k, v))"
proof -
  have "mb_missing typeName types bus = [] \<longleftrightarrow> (\<forall>k \<in> set types. bus k \<noteq> None)"
    using assms by (induction types) (auto simp: mb_missing_def)
  then show ?thesis by (auto simp: mb_validate_def mb_post_def Let_def split: option.splits)
qed

theorem validated_bus_never_throws_witness:
  "mb_validate (\<lambda>_. ''T'') [1, 2 :: nat] (mb_subscribe 2 ''b'' (mb_subscribe 1 ''a'' mb_new)) = Inr () \<and>
   (\<exists>h. mb_post (2, 7 :: nat) (mb_subscribe (2 :: nat) ''b'' (mb_subscribe 1 ''a'' mb_new)) = Inr (h, 2, 7))"
proof -
  let ?bus = "mb_subscribe (2 :: nat) ''b'' (mb_subscribe 1 ''a'' mb_new)"
  have v: "mb_validate (\<lambda>_. ''T'') [1, 2 :: nat] ?bus = Inr ()"
    by (simp add: mb_validate_def mb_missing_def mb_subscribe_def)
  then have "\<forall>k \<in> set [1, 2]. \<exists>h. \<forall>v :: nat. mb_post (k, v) ?bus = Inr (h, k, v)"
    by (rule validated_bus_never_throws[of "\<lambda>_. ''T''", THEN iffD1, rotated]) simp
  then show ?thesis using v by force
qed

section \<open>Delivery on the stream bus\<close>

declare stream_push.simps [simp del]

lemma stream_drain_all:
  assumes "vy_inv STREAM_K q"
  shows "\<exists>q'. stream_drain q out = Some (out @ vy_items STREAM_K q, q') \<and> vy_inv STREAM_K q' \<and> vy_items STREAM_K q' = []"
  using assms
proof (induction "vy_items STREAM_K q" arbitrary: q out)
  case Nil
  from vy_pop_law[OF Nil(2)] obtain q' where "vy_pop STREAM_K q = Some (None, q')" "vy_inv STREAM_K q'"
    "vy_items STREAM_K q' = []" using Nil(1) by (auto split: list.splits)
  then show ?case using Nil(1) by (subst stream_drain.simps) simp
next
  case (Cons v vs)
  from vy_pop_law[OF Cons(3)] Cons(2) obtain q' where q': "vy_pop STREAM_K q = Some (Some v, q')" "vy_inv STREAM_K q'"
    "vy_items STREAM_K q' = vs" by (metis list.simps(5) list.sel(3))
  from Cons(1)[OF q'(3)[symmetric] q'(2), of "out @ [v]"] show ?case
    using q'(1,3) Cons(2)[symmetric] by (subst stream_drain.simps) simp
qed

text \<open>Processing one event type of the stream bus terminates and hands every queued event to the
  type's handler, in the order of posting; it reports work exactly when there was an event and
  a handler, and leaves the queue of a handled type empty.\<close>

theorem stream_process_drains:
  assumes "vy_inv STREAM_K (st_queues b k)"
  shows "\<exists>b'. stream_process k b =
      Some (st_handlers b k \<noteq> None \<and> vy_items STREAM_K (st_queues b k) \<noteq> [],
            (case st_handlers b k of None \<Rightarrow> [] | Some h \<Rightarrow> map (Pair h) (vy_items STREAM_K (st_queues b k))), b') \<and>
    (st_handlers b k \<noteq> None \<longrightarrow> vy_items STREAM_K (st_queues b' k) = []) \<and>
    vy_inv STREAM_K (st_queues b' k) \<and> (\<forall>k'. k' \<noteq> k \<longrightarrow> st_queues b' k' = st_queues b k')"
  using stream_drain_all[OF assms, of "[]"] assms
  by (cases "st_handlers b k") (auto simp: stream_process_def)

theorem stream_process_drains_witness:
  "\<exists>b'. stream_process True \<lparr>st_queues = (\<lambda>_. vy_new (0 :: u8)), st_handlers = (\<lambda>_. Some ''h''), st_running = True,
     st_sleeping = False, st_futex = 0\<rparr> = Some (False, [], b')"
  using stream_process_drains[of "\<lparr>st_queues = (\<lambda>_. vy_new (0 :: u8)), st_handlers = (\<lambda>_. Some ''h''), st_running = True,
     st_sleeping = False, st_futex = 0\<rparr>" True] vy_new_inv[of STREAM_K "0 :: u8"] by (auto simp: STREAM_K_def)

end
