(* ===== verification/Buffer_Pool.thy ===== *)
theory Buffer_Pool
  imports Vyukov_MPMC
begin

text \<open>
  \<^verbatim>\<open>BufferPool\<close> of \<^verbatim>\<open>common/src/containers/buffer_pool.hpp\<close> with its default parameters, the pool the
  network transports take their write buffers from: indices come back through a queue, and a
  counter supplies the ones that were never used. A \<^verbatim>\<open>BufferPtr\<close> is its index; a null pointer is
  \<^const>\<open>None\<close>.
\<close>

section \<open>Model\<close>

definition BUFFER_CAPACITY :: u32 where "BUFFER_CAPACITY = 128"
definition POOL_SIZE :: u32 where "POOL_SIZE = 1024"

record BufferPool =
  bp_indexQueue :: "u32 VyukovMPMC"
  bp_nextFreeIdx :: u32

definition bp_new :: BufferPool where
  "bp_new = \<lparr>bp_indexQueue = vy_new 0, bp_nextFreeIdx = 0\<rparr>"

definition bp_acquire :: "BufferPool \<Rightarrow> (u32 option \<times> BufferPool) option" where
  "bp_acquire p = do {
     (r, q) \<leftarrow> vy_pop 10 (bp_indexQueue p);
     case r of
       Some index \<Rightarrow> Some (Some index, p\<lparr>bp_indexQueue := q\<rparr>)
     | None \<Rightarrow>
         let index = bp_nextFreeIdx p; p' = p\<lparr>bp_indexQueue := q, bp_nextFreeIdx := index + 1\<rparr>
         in Some (if index \<ge> POOL_SIZE then None else Some index, p') }"

text \<open>The offset of the buffer in the storage, and \<^verbatim>\<open>release\<close>, which only logs a failed push.\<close>

definition bp_offset :: "u32 \<Rightarrow> u32" where
  "bp_offset index = index * BUFFER_CAPACITY"

definition bp_release :: "u32 \<Rightarrow> BufferPool \<Rightarrow> (bool \<times> BufferPool) option" where
  "bp_release index p = do {
     (ok, q) \<leftarrow> vy_push 10 index (bp_indexQueue p);
     Some (ok, p\<lparr>bp_indexQueue := q\<rparr>) }"

section \<open>Invariant\<close>

text \<open>\<open>H\<close> are the indices in use.\<close>

definition bp_inv :: "BufferPool \<Rightarrow> u32 set \<Rightarrow> bool" where
  "bp_inv p H \<longleftrightarrow> vy_inv 10 (bp_indexQueue p) \<and> distinct (vy_items 10 (bp_indexQueue p)) \<and>
     set (vy_items 10 (bp_indexQueue p)) = {i. i < bp_nextFreeIdx p \<and> i < POOL_SIZE} - H \<and>
     H \<subseteq> {i. i < bp_nextFreeIdx p \<and> i < POOL_SIZE}"

lemma bp_new_inv: "bp_inv bp_new {}"
  using vy_new_inv[of 10 "0 :: u32"] by (simp add: bp_inv_def bp_new_def)

lemma card_below: "card {i :: u32. i < n} = unat n"
proof -
  have "{i :: u32. i < n} = (of_nat :: nat \<Rightarrow> u32) ` {..<unat n}"
  proof (intro equalityI subsetI)
    fix i assume "i \<in> {i :: u32. i < n}"
    then show "i \<in> of_nat ` {..<unat n}" by (intro image_eqI[of _ _ "unat i"]) (simp_all add: word_less_nat_alt)
  next
    fix i assume "i \<in> (of_nat :: nat \<Rightarrow> u32) ` {..<unat n}"
    then obtain m where m: "i = of_nat m" "m < unat n" by auto
    then have "m < 2 ^ 32" using unsigned_less[of n, where 'a = nat] by simp
    with m show "i \<in> {i. i < n}" by (simp add: word_less_nat_alt unat_of_nat)
  qed
  moreover have "inj_on (of_nat :: nat \<Rightarrow> u32) {..<unat n}"
  proof (rule inj_onI)
    fix x y :: nat
    assume xy: "x \<in> {..<unat n}" "y \<in> {..<unat n}" "(of_nat x :: u32) = of_nat y"
    have "unat (of_nat k :: u32) = k" if "k < unat n" for k
      using that unsigned_less[of n, where 'a = nat] by (simp add: unat_of_nat)
    with xy show "x = y" by (metis lessThan_iff)
  qed
  ultimately show ?thesis by (simp add: card_image)
qed

lemma bp_card:
  assumes "bp_inv p H"
  shows "length (vy_items 10 (bp_indexQueue p)) + card H = min (unat (bp_nextFreeIdx p)) 1024"
proof -
  let ?S = "{i. i < bp_nextFreeIdx p \<and> i < POOL_SIZE}"
  have "?S = {i. i < min (bp_nextFreeIdx p) POOL_SIZE}" by auto
  then have "card ?S = min (unat (bp_nextFreeIdx p)) 1024"
    using card_below[of "min (bp_nextFreeIdx p) POOL_SIZE"] by (simp add: unat_min POOL_SIZE_def)
  moreover have "length (vy_items 10 (bp_indexQueue p)) = card (?S - H)"
    using assms distinct_card by (fastforce simp: bp_inv_def)
  moreover have "card (?S - H) + card H = card ?S"
    using assms by (simp add: bp_inv_def card_Diff_subset finite_subset[OF _ finite] card_mono)
  ultimately show ?thesis by simp
qed

text \<open>While the counter has not wrapped, an acquired index is new, and an acquire fails only
  when all 1024 buffers are in use.\<close>

lemma bp_acquire_law:
  assumes inv: "bp_inv p H" and nw: "unat (bp_nextFreeIdx p) + 1 < 2 ^ 32"
  shows "\<exists>r p'. bp_acquire p = Some (r, p') \<and> unat (bp_nextFreeIdx p') \<le> unat (bp_nextFreeIdx p) + 1 \<and>
    (case r of None \<Rightarrow> card H = 1024 \<and> bp_inv p' H
     | Some i \<Rightarrow> i \<notin> H \<and> i < POOL_SIZE \<and> bp_inv p' (insert i H))"
proof -
  let ?n = "bp_nextFreeIdx p"
  have n1: "unat (?n + 1) = unat ?n + 1" using nw by (simp add: unat_word_ariths)
  have v: "vy_inv 10 (bp_indexQueue p)" using inv by (simp add: bp_inv_def)
  from vy_pop_law[OF v] obtain q' where q: "vy_inv 10 q'" "vy_items 10 q' = tl (vy_items 10 (bp_indexQueue p))"
    "vy_pop 10 (bp_indexQueue p) = Some (case vy_items 10 (bp_indexQueue p) of [] \<Rightarrow> None | x # xs \<Rightarrow> Some x, q')"
    by blast
  show ?thesis
  proof (cases "vy_items 10 (bp_indexQueue p)")
    case (Cons i is')
    then have "bp_inv (p\<lparr>bp_indexQueue := q'\<rparr>) (insert i H) \<and> i \<notin> H \<and> i < POOL_SIZE"
      using inv q(1,2) by (auto simp: bp_inv_def)
    then show ?thesis using q(3) Cons by (simp add: bp_acquire_def)
  next
    case Nil
    then have H: "H = {i. i < ?n \<and> i < POOL_SIZE}" using inv by (auto simp: bp_inv_def)
    let ?p' = "p\<lparr>bp_indexQueue := q', bp_nextFreeIdx := ?n + 1\<rparr>"
    have less: "i < ?n + 1 \<longleftrightarrow> i < ?n \<or> i = ?n" for i
      using n1 by (auto simp: word_less_nat_alt less_Suc_eq word_unat_eq_iff)
    show ?thesis
    proof (cases "?n \<ge> POOL_SIZE")
      case True
      then have "1024 \<le> unat ?n" by (simp add: POOL_SIZE_def word_le_nat_alt)
      then have "card H = 1024" using bp_card[OF inv] Nil by simp
      moreover have "\<not> ?n < POOL_SIZE" using True by simp
      then have "{i. i < ?n + 1 \<and> i < POOL_SIZE} = H" unfolding H less by blast
      then have "bp_inv ?p' H" using q(1,2) Nil by (simp add: bp_inv_def)
      ultimately show ?thesis using q(3) Nil True n1 by (simp add: bp_acquire_def Let_def)
    next
      case False
      then have "{i. i < ?n + 1 \<and> i < POOL_SIZE} = insert ?n H" unfolding H less by auto
      then have "bp_inv ?p' (insert ?n H)" "?n \<notin> H" using q(1,2) Nil H by (simp_all add: bp_inv_def)
      then show ?thesis using q(3) Nil False n1 by (simp add: bp_acquire_def Let_def)
    qed
  qed
qed

lemma bp_release_law:
  assumes inv: "bp_inv p H" and i: "i \<in> H"
  shows "\<exists>p'. bp_release i p = Some (True, p') \<and> bp_inv p' (H - {i}) \<and> bp_nextFreeIdx p' = bp_nextFreeIdx p"
proof -
  have v: "vy_inv 10 (bp_indexQueue p)" using inv by (simp add: bp_inv_def)
  have "0 < card H" using i by (simp add: card_gt_0_iff finite_subset[OF _ finite]) auto
  then have l: "length (vy_items 10 (bp_indexQueue p)) < 2 ^ 10" using bp_card[OF inv] by simp
  from vy_push_law[OF v, of i] obtain q' where q: "vy_push 10 i (bp_indexQueue p) = Some (True, q')" "vy_inv 10 q'"
    "vy_items 10 q' = vy_items 10 (bp_indexQueue p) @ [i]" using l by auto
  then have "bp_inv (p\<lparr>bp_indexQueue := q'\<rparr>) (H - {i})" using inv i by (auto simp: bp_inv_def)
  then show ?thesis using q(1) by (simp add: bp_release_def)
qed

section \<open>Clients\<close>

text \<open>A transport that keeps the buffers it holds in a list and releases them by position.
  \<^const>\<open>None\<close>: a call did not return; the flag says that every release succeeded.\<close>

datatype buffer_op = AcquireBuf | ReleaseBuf nat

fun bp_step :: "buffer_op \<Rightarrow> BufferPool \<times> u32 list \<times> bool \<Rightarrow> (BufferPool \<times> u32 list \<times> bool) option" where
  "bp_step AcquireBuf (p, held, good) = do {
     (r, p) \<leftarrow> bp_acquire p; Some (p, case r of None \<Rightarrow> held | Some i \<Rightarrow> i # held, good) }"
| "bp_step (ReleaseBuf n) (p, held, good) =
     (if n < length held
      then do { (b, p) \<leftarrow> bp_release (held ! n) p; Some (p, take n held @ drop (Suc n) held, good \<and> b) }
      else Some (p, held, good))"

fun bp_run :: "buffer_op list \<Rightarrow> BufferPool \<times> u32 list \<times> bool \<Rightarrow> (BufferPool \<times> u32 list \<times> bool) option" where
  "bp_run [] s = Some s"
| "bp_run (op # ops) s = do { s \<leftarrow> bp_step op s; bp_run ops s }"

lemma set_remove_nth:
  assumes "distinct xs" "n < length xs"
  shows "set (take n xs @ drop (Suc n) xs) = set xs - {xs ! n}" "distinct (take n xs @ drop (Suc n) xs)"
proof -
  have s: "xs = take n xs @ xs ! n # drop (Suc n) xs" using assms(2) by (rule id_take_nth_drop)
  then have "distinct (take n xs @ xs ! n # drop (Suc n) xs)" using assms(1) by simp
  then show "distinct (take n xs @ drop (Suc n) xs)" by auto
  have "set xs = insert (xs ! n) (set (take n xs @ drop (Suc n) xs))"
    using arg_cong[OF s, of set] by simp
  moreover have "xs ! n \<notin> set (take n xs @ drop (Suc n) xs)"
    using \<open>distinct (take n xs @ xs ! n # drop (Suc n) xs)\<close> by auto
  ultimately show "set (take n xs @ drop (Suc n) xs) = set xs - {xs ! n}" by simp
qed

lemma bp_run_inv:
  assumes "bp_inv p (set held)" "distinct held" "unat (bp_nextFreeIdx p) + length ops < 2 ^ 32"
  shows "\<exists>p' held'. bp_run ops (p, held, g) = Some (p', held', g) \<and> distinct held' \<and> bp_inv p' (set held') \<and>
    unat (bp_nextFreeIdx p') \<le> unat (bp_nextFreeIdx p) + length ops"
  using assms
proof (induction ops arbitrary: p held)
  case (Cons op ops)
  show ?case
  proof (cases op)
    case AcquireBuf
    have nw: "unat (bp_nextFreeIdx p) + 1 < 2 ^ 32" using Cons.prems(3) by simp
    obtain r p1 where a: "bp_acquire p = Some (r, p1)" "unat (bp_nextFreeIdx p1) \<le> unat (bp_nextFreeIdx p) + 1"
      "case r of None \<Rightarrow> card (set held) = 1024 \<and> bp_inv p1 (set held)
       | Some i \<Rightarrow> i \<notin> set held \<and> i < POOL_SIZE \<and> bp_inv p1 (insert i (set held))"
      using bp_acquire_law[OF Cons.prems(1) nw] by blast
    let ?h = "case r of None \<Rightarrow> held | Some i \<Rightarrow> i # held"
    have "bp_inv p1 (set ?h)" "distinct ?h" using a(3) Cons.prems(2) by (auto split: option.splits)
    from Cons.IH[OF this] show ?thesis using a(1,2) Cons.prems(3) AcquireBuf by fastforce
  next
    case (ReleaseBuf n)
    show ?thesis
    proof (cases "n < length held")
      case True
      then have "held ! n \<in> set held" by simp
      from bp_release_law[OF Cons.prems(1) this] obtain p1 where r: "bp_release (held ! n) p = Some (True, p1)"
        "bp_inv p1 (set held - {held ! n})" "bp_nextFreeIdx p1 = bp_nextFreeIdx p" by blast
      note s = set_remove_nth[OF Cons.prems(2) True]
      have "bp_inv p1 (set (take n held @ drop (Suc n) held))" using r(2) s(1) by simp
      from Cons.IH[OF this s(2)] show ?thesis using r(1,3) Cons.prems(3) ReleaseBuf True by fastforce
    next
      case False
      then show ?thesis using Cons.IH[OF Cons.prems(1,2)] Cons.prems(3) ReleaseBuf by fastforce
    qed
  qed
qed auto

section \<open>Properties\<close>

text \<open>For any sequence of fewer than \<open>2 ^ 32\<close> acquires and releases, every call returns, no
  release is refused, the buffers in use at the same time are different and inside the
  storage (each is 128 bytes of the 131072), and the next acquire fails only when 1024
  buffers are in use.\<close>

theorem buffer_pool_distinct:
  assumes "length ops + 1 < 2 ^ 32"
  shows "\<exists>p held. bp_run ops (bp_new, [], True) = Some (p, held, True) \<and> distinct held \<and>
    (\<forall>i \<in> set held. i < POOL_SIZE \<and> unat (bp_offset i) + unat BUFFER_CAPACITY \<le> 128 * 1024) \<and>
    (\<exists>r p'. bp_acquire p = Some (r, p') \<and> (r = None \<longleftrightarrow> length held = 1024))"
proof -
  have "bp_inv bp_new (set [])" "distinct ([] :: u32 list)" using bp_new_inv by simp_all
  then obtain p held where r: "bp_run ops (bp_new, [], True) = Some (p, held, True)" "distinct held"
    "bp_inv p (set held)" "unat (bp_nextFreeIdx p) \<le> length ops"
    using bp_run_inv[of bp_new "[]" ops True] assms by (auto simp: bp_new_def)
  have "unat (bp_nextFreeIdx p) + 1 < 2 ^ 32" using r(4) assms by simp
  from bp_acquire_law[OF r(3) this] obtain x p' where x: "bp_acquire p = Some (x, p')"
    "case x of None \<Rightarrow> card (set held) = 1024 \<and> bp_inv p' (set held)
       | Some i \<Rightarrow> i \<notin> set held \<and> i < POOL_SIZE \<and> bp_inv p' (insert i (set held))" by blast
  have "card (set held) < 1024" if "x = Some i" for i
    using that x(2) bp_card[of p' "insert i (set held)"] by simp
  moreover have "card (set held) = length held" using r(2) by (rule distinct_card)
  ultimately have x': "x = None \<longleftrightarrow> length held = 1024" using x(2) by (cases x) auto
  have "i < POOL_SIZE \<and> unat (bp_offset i) + unat BUFFER_CAPACITY \<le> 128 * 1024" if "i \<in> set held" for i
  proof -
    have i: "i < POOL_SIZE" using r(3) that by (auto simp: bp_inv_def)
    then have "unat i < 1024" by (simp add: POOL_SIZE_def word_less_nat_alt)
    then show ?thesis using i by (simp add: bp_offset_def BUFFER_CAPACITY_def unat_word_ariths)
  qed
  then show ?thesis using r(1,2) x(1) x' by blast
qed

theorem buffer_pool_distinct_witness:
  "\<exists>p held. bp_run [AcquireBuf, AcquireBuf, ReleaseBuf 0, AcquireBuf] (bp_new, [], True) = Some (p, held, True) \<and> distinct held"
  using buffer_pool_distinct[of "[AcquireBuf, AcquireBuf, ReleaseBuf 0, AcquireBuf]"] by auto

lemma bp_acquire_fresh:
  assumes "vy_inv 10 q" "vy_items 10 q = []"
  shows "\<exists>q'. vy_inv 10 q' \<and> vy_items 10 q' = [] \<and>
    bp_acquire \<lparr>bp_indexQueue = q, bp_nextFreeIdx = n\<rparr> =
      Some (if n \<ge> POOL_SIZE then None else Some n, \<lparr>bp_indexQueue = q', bp_nextFreeIdx = n + 1\<rparr>)"
  using vy_pop_law[OF assms(1)] assms(2) by (auto simp: bp_acquire_def Let_def)

lemma bp_run_acquires:
  assumes "vy_inv 10 q" "vy_items 10 q = []"
  shows "\<exists>q'. vy_inv 10 q' \<and> vy_items 10 q' = [] \<and>
    bp_run (replicate m AcquireBuf) (\<lparr>bp_indexQueue = q, bp_nextFreeIdx = n\<rparr>, held, g) =
      Some (\<lparr>bp_indexQueue = q', bp_nextFreeIdx = n + of_nat m\<rparr>,
            rev (filter (\<lambda>i. i < POOL_SIZE) (map (\<lambda>j. n + of_nat j) [0..<m])) @ held, g)"
  using assms
proof (induction m arbitrary: q n held)
  case 0
  then show ?case by auto
next
  case (Suc m)
  from bp_acquire_fresh[OF Suc.prems] obtain q1 where q1: "vy_inv 10 q1" "vy_items 10 q1 = []"
    "bp_acquire \<lparr>bp_indexQueue = q, bp_nextFreeIdx = n\<rparr> =
      Some (if n \<ge> POOL_SIZE then None else Some n, \<lparr>bp_indexQueue = q1, bp_nextFreeIdx = n + 1\<rparr>)" by blast
  let ?h = "if n < POOL_SIZE then n # held else held"
  have e: "map (\<lambda>j. n + of_nat j) [0..<Suc m] = n # map (\<lambda>j. n + 1 + of_nat j) [0..<m]"
    by (simp add: map_upt_Suc add.assoc del: upt_Suc)
  have "bp_step AcquireBuf (\<lparr>bp_indexQueue = q, bp_nextFreeIdx = n\<rparr>, held, g) =
      Some (\<lparr>bp_indexQueue = q1, bp_nextFreeIdx = n + 1\<rparr>, ?h, g)" using q1(3) by (auto simp: not_less)
  then show ?case using Suc.IH[OF q1(1,2), of "n + 1" ?h] e by (auto simp: add.assoc)
qed

text \<open>The bound of the previous property is sharp: the counter is advanced by failed acquires
  too, and after \<open>2 ^ 32\<close> acquires without a release the next one hands out buffer 0 although
  it is in use.\<close>

theorem buffer_pool_wraps:
  "\<exists>p held p'. bp_run (replicate (2 ^ 32) AcquireBuf) (bp_new, [], True) = Some (p, held, True) \<and>
     0 \<in> set held \<and> bp_acquire p = Some (Some 0, p')"
proof -
  define m where "m = (2 :: nat) ^ 32"
  have m: "0 < m" "(of_nat m :: u32) = 0" by (simp_all add: m_def)
  have q: "vy_inv 10 (vy_new (0 :: u32))" "vy_items 10 (vy_new (0 :: u32)) = []" using vy_new_inv[of 10 "0 :: u32"] by simp_all
  from bp_run_acquires[OF q, of m 0 "[]" True] obtain q' where r: "vy_inv 10 q'" "vy_items 10 q' = []"
    "bp_run (replicate m AcquireBuf) (bp_new, [], True) = Some (\<lparr>bp_indexQueue = q', bp_nextFreeIdx = 0\<rparr>,
       rev (filter (\<lambda>i. i < POOL_SIZE) (map of_nat [0..<m])), True)" using m(2) by (auto simp: bp_new_def)
  have "(0 :: u32) \<in> set (rev (filter (\<lambda>i. i < POOL_SIZE) (map of_nat [0..<m])))"
    using m(1) by (auto simp: POOL_SIZE_def intro!: image_eqI[of _ _ 0])
  moreover have "\<exists>p'. bp_acquire \<lparr>bp_indexQueue = q', bp_nextFreeIdx = 0\<rparr> = Some (Some 0, p')"
    using bp_acquire_fresh[OF r(1,2), of 0] by (auto simp: POOL_SIZE_def)
  ultimately show ?thesis using r(3) unfolding m_def by blast
qed

end
