(* ===== verification/Framing.thy ===== *)
theory Framing
  imports Serialization "HOL-Library.Sublist"
begin

text \<open>
  Message framing: \<^verbatim>\<open>FixedSizeFramer\<close> and \<^verbatim>\<open>DummyFramer\<close> of \<^verbatim>\<open>common/src/transport/framing\<close>, over any
  serializer. \<open>ser\<close> gives the bytes of a message, \<open>deser\<close> is the serializer's \<^verbatim>\<open>deserialize\<close> on a
  span, which returns the consumed size and the posted message.
\<close>

section \<open>Models\<close>

definition HEADER_SIZE :: nat where "HEADER_SIZE = 2"

text \<open>\<^verbatim>\<open>little_uint16\<close>.\<close>

definition le16 :: "u16 \<Rightarrow> u8 list" where
  "le16 w = [ucast w, ucast (drop_bit 8 w)]"

definition of_le16 :: "u8 \<Rightarrow> u8 \<Rightarrow> u16" where
  "of_le16 lo hi = ucast lo + 256 * ucast hi"

definition fixed_frame :: "('m \<Rightarrow> u8 list) \<Rightarrow> 'm \<Rightarrow> u8 list" where
  "fixed_frame ser m = le16 (of_nat (length (ser m))) @ ser m"

text \<open>The messages posted so far and the result; the loop reads at \<open>cursor\<close>.\<close>

function fixed_unframe_from ::
  "(u8 list \<Rightarrow> (nat \<times> 'm) outcome) \<Rightarrow> u8 list \<Rightarrow> nat \<Rightarrow> 'm list \<Rightarrow> 'm list \<times> nat outcome" where
  "fixed_unframe_from deser data cursor posted =
     (if cursor + HEADER_SIZE < length data
      then
        let bodySize = unat (of_le16 (data ! cursor) (data ! (cursor + 1)))
        in if bodySize = 0 \<or> bodySize > 1024 then (posted, Unexpected SC_Error)
           else if cursor + HEADER_SIZE + bodySize > length data then (posted, Returned cursor)
           else
             (case deser (take bodySize (drop (cursor + HEADER_SIZE) data)) of
                Returned (msgSize, m) \<Rightarrow>
                  if msgSize \<noteq> bodySize then (posted @ [m], Unexpected SC_Error)
                  else fixed_unframe_from deser data (cursor + (bodySize + HEADER_SIZE)) (posted @ [m])
              | Unexpected e \<Rightarrow> (posted, Unexpected e)
              | Thrown e \<Rightarrow> (posted, Thrown e)
              | NullDeref \<Rightarrow> (posted, NullDeref))
      else (posted, Returned cursor))"
  by pat_completeness auto
termination
  by (relation "measure (\<lambda>(deser, data, cursor, posted). length data - cursor)") (auto simp: HEADER_SIZE_def)

declare fixed_unframe_from.simps [simp del]

definition fixed_unframe :: "(u8 list \<Rightarrow> (nat \<times> 'm) outcome) \<Rightarrow> u8 list \<Rightarrow> 'm list \<times> nat outcome" where
  "fixed_unframe deser data = fixed_unframe_from deser data 0 []"

text \<open>\<^verbatim>\<open>DummyFramer\<close> passes everything that is left to the serializer; a consumed size of zero
  would make it loop forever.\<close>

partial_function (option) dummy_unframe_from ::
  "(u8 list \<Rightarrow> (nat \<times> 'm) outcome) \<Rightarrow> u8 list \<Rightarrow> nat \<Rightarrow> 'm list \<Rightarrow> ('m list \<times> nat outcome) option" where
  "dummy_unframe_from deser data processed posted =
     (if processed < length data
      then
        (case deser (drop processed data) of
           Returned (msgSize, m) \<Rightarrow> dummy_unframe_from deser data (processed + msgSize) (posted @ [m])
         | Unexpected e \<Rightarrow> Some (posted, Unexpected e)
         | Thrown e \<Rightarrow> Some (posted, Thrown e)
         | NullDeref \<Rightarrow> Some (posted, NullDeref))
      else Some (posted, Returned processed))"

definition dummy_unframe :: "(u8 list \<Rightarrow> (nat \<times> 'm) outcome) \<Rightarrow> u8 list \<Rightarrow> ('m list \<times> nat outcome) option" where
  "dummy_unframe deser data = dummy_unframe_from deser data 0 []"

section \<open>Frames\<close>

lemma of_le16_le16: "of_le16 (ucast w) (ucast (drop_bit 8 (w :: u16))) = w"
proof -
  have "unat (of_le16 (ucast w) (ucast (drop_bit 8 w))) = unat w"
  proof -
    have a: "unat (ucast (ucast w :: u8) :: u16) = unat w mod 256"
      by (simp add: unsigned_ucast_eq unsigned_take_bit_eq) (simp add: take_bit_eq_mod)
    have "unat w < 65536" using unsigned_less[of w, where 'a = nat] by simp
    then have "unat w div 256 < 256" by simp
    then have b: "unat (ucast (ucast (drop_bit 8 w) :: u8) :: u16) = unat w div 256"
      by (simp add: unsigned_ucast_eq unsigned_take_bit_eq unsigned_drop_bit_eq) (simp add: take_bit_eq_mod drop_bit_eq_div)
    have "unat w mod 256 + 256 * (unat w div 256) = unat w" by simp
    then show ?thesis using a b \<open>unat w < 65536\<close> unfolding of_le16_def
      by (simp add: unat_word_ariths)
  qed
  then show ?thesis by (simp add: word_unat_eq_iff)
qed

text \<open>The messages a stream may consist of.\<close>

definition frame_ok :: "('m \<Rightarrow> u8 list) \<Rightarrow> (u8 list \<Rightarrow> (nat \<times> 'm) outcome) \<Rightarrow> 'm \<Rightarrow> bool" where
  "frame_ok ser deser m \<longleftrightarrow> 0 < length (ser m) \<and> length (ser m) \<le> 1024 \<and>
     deser (ser m) = Returned (length (ser m), m)"

lemma length_fixed_frame [simp]: "length (fixed_frame ser m) = 2 + length (ser m)"
  by (simp add: fixed_frame_def le16_def)

lemma frame_size:
  assumes "frame_ok ser deser m"
  shows "unat (of_le16 (fixed_frame ser m ! 0) (fixed_frame ser m ! 1)) = length (ser m)"
  using assms of_le16_le16[of "of_nat (length (ser m))"]
  by (simp add: fixed_frame_def le16_def frame_ok_def unat_of_nat)

section \<open>Streams of frames\<close>

text \<open>\<open>split_stream\<close>: the complete frames at the start of \<open>p\<close> and what is left, which is too short for the
  next message.\<close>

definition split_stream :: "('m \<Rightarrow> u8 list) \<Rightarrow> 'm list \<Rightarrow> u8 list \<Rightarrow> 'm list \<Rightarrow> 'm list \<Rightarrow> u8 list \<Rightarrow> bool" where
  "split_stream ser ms p ms1 ms2 rest \<longleftrightarrow> ms = ms1 @ ms2 \<and> p = concat (map (fixed_frame ser) ms1) @ rest \<and>
     (ms2 = [] \<longrightarrow> rest = []) \<and> (ms2 \<noteq> [] \<longrightarrow> length rest < length (fixed_frame ser (hd ms2)))"

lemma unframe_one:
  assumes "frame_ok ser deser m"
  shows "fixed_unframe_from deser (pre @ fixed_frame ser m @ p) (length pre) posted =
    fixed_unframe_from deser ((pre @ fixed_frame ser m) @ p) (length (pre @ fixed_frame ser m)) (posted @ [m])"
proof -
  let ?d = "pre @ fixed_frame ser m @ p"
  have n: "?d ! length pre = fixed_frame ser m ! 0" "?d ! (length pre + 1) = fixed_frame ser m ! 1"
    by (simp_all add: nth_append)
  have dr: "take (length (ser m)) (drop (length pre + HEADER_SIZE) ?d) = ser m"
    by (simp add: fixed_frame_def le16_def HEADER_SIZE_def)
  have b: "unat (of_le16 (?d ! length pre) (?d ! (length pre + 1))) = length (ser m)"
    unfolding n using frame_size[OF assms] .
  have "fixed_unframe_from deser ?d (length pre) posted =
      fixed_unframe_from deser ?d (length pre + (length (ser m) + HEADER_SIZE)) (posted @ [m])"
    using assms by (subst fixed_unframe_from.simps) (simp only: b dr Let_def, simp add: frame_ok_def HEADER_SIZE_def)
  then show ?thesis by (simp add: HEADER_SIZE_def add.commute add.left_commute)
qed

lemma unframe_short:
  assumes "frame_ok ser deser m" "prefix p (fixed_frame ser m)" "p \<noteq> fixed_frame ser m"
  shows "fixed_unframe_from deser (pre @ p) (length pre) posted = (posted, Returned (length pre))"
proof (cases "length p \<le> 2")
  case True
  then show ?thesis by (subst fixed_unframe_from.simps) (simp add: HEADER_SIZE_def)
next
  case False
  have "length p < length (fixed_frame ser m)" using assms(2,3)
    by (metis prefix_length_less strict_prefixI)
  have pn: "p ! 0 = fixed_frame ser m ! 0" "p ! 1 = fixed_frame ser m ! 1"
    using assms(2) False by (auto simp: prefix_def nth_append)
  have n: "(pre @ p) ! length pre = fixed_frame ser m ! 0" "(pre @ p) ! (length pre + 1) = fixed_frame ser m ! 1"
    using pn False by (simp_all add: nth_append)
  have b: "unat (of_le16 ((pre @ p) ! length pre) ((pre @ p) ! (length pre + 1))) = length (ser m)"
    unfolding n using frame_size[OF assms(1)] .
  show ?thesis using assms(1) \<open>length p < length (fixed_frame ser m)\<close>
    by (subst fixed_unframe_from.simps) (simp only: b Let_def, simp add: frame_ok_def HEADER_SIZE_def)
qed

lemma unframe_stream:
  assumes "\<forall>m \<in> set ms. frame_ok ser deser m" "prefix p (concat (map (fixed_frame ser) ms))"
  shows "\<exists>ms1 ms2 rest. split_stream ser ms p ms1 ms2 rest \<and>
    fixed_unframe_from deser (pre @ p) (length pre) posted =
      (posted @ ms1, Returned (length pre + length (concat (map (fixed_frame ser) ms1))))"
  using assms
proof (induction ms arbitrary: p pre posted)
  case Nil
  then show ?case by (subst fixed_unframe_from.simps) (simp add: split_stream_def HEADER_SIZE_def)
next
  case (Cons m ms)
  have m: "frame_ok ser deser m" using Cons.prems by simp
  show ?case
  proof (cases "prefix (fixed_frame ser m) p")
    case True
    then obtain p' where p': "p = fixed_frame ser m @ p'" by (auto simp: prefix_def)
    then have "prefix p' (concat (map (fixed_frame ser) ms))" using Cons.prems(2) by simp
    with Cons.IH[of p' "pre @ fixed_frame ser m" "posted @ [m]"] Cons.prems(1) obtain ms1 ms2 rest where
      r: "split_stream ser ms p' ms1 ms2 rest"
      "fixed_unframe_from deser ((pre @ fixed_frame ser m) @ p') (length (pre @ fixed_frame ser m)) (posted @ [m]) =
        (posted @ m # ms1, Returned (length (pre @ fixed_frame ser m) + length (concat (map (fixed_frame ser) ms1))))"
      by auto
    have "split_stream ser (m # ms) p (m # ms1) ms2 rest" using r(1) p' by (simp add: split_stream_def)
    moreover have "fixed_unframe_from deser (pre @ p) (length pre) posted =
        (posted @ (m # ms1), Returned (length pre + length (concat (map (fixed_frame ser) (m # ms1)))))"
      using r(2) unframe_one[OF m, of pre p' posted] p' by simp
    ultimately show ?thesis by blast
  next
    case False
    then have pr: "prefix p (fixed_frame ser m)"
      using Cons.prems(2) prefix_same_cases[of p "fixed_frame ser m @ concat (map (fixed_frame ser) ms)" "fixed_frame ser m"]
      by auto
    moreover have ne: "p \<noteq> fixed_frame ser m" using False by auto
    ultimately have "length p < length (fixed_frame ser m)" by (metis prefix_length_less strict_prefixI)
    then have "split_stream ser (m # ms) p [] (m # ms) p" by (simp add: split_stream_def)
    then show ?thesis using unframe_short[OF m pr ne, of pre posted] by fastforce
  qed
qed

text \<open>Unframing a received prefix of a stream of framed messages, cut at any byte, posts exactly the
  messages whose frames are complete, in order, returns the number of bytes they take, and
  leaves a remainder shorter than the next frame; serialized messages have 1 to 1024 bytes and
  are read back by the serializer.\<close>

theorem fixed_unframe_stream:
  assumes "\<forall>m \<in> set ms. frame_ok ser deser m" "prefix p (concat (map (fixed_frame ser) ms))"
  shows "\<exists>ms1 ms2 rest. ms = ms1 @ ms2 \<and> p = concat (map (fixed_frame ser) ms1) @ rest \<and>
    fixed_unframe deser p = (ms1, Returned (length p - length rest)) \<and>
    (ms2 \<noteq> [] \<longrightarrow> length rest < length (fixed_frame ser (hd ms2))) \<and> (ms2 = [] \<longrightarrow> rest = [])"
proof -
  obtain ms1 ms2 rest where r: "split_stream ser ms p ms1 ms2 rest"
    "fixed_unframe deser p = (ms1, Returned (length (concat (map (fixed_frame ser) ms1))))"
    using unframe_stream[OF assms, of "[]" "[]"] by (auto simp: fixed_unframe_def)
  then have "length p - length rest = length (concat (map (fixed_frame ser) ms1))" by (simp add: split_stream_def)
  with r show ?thesis unfolding split_stream_def by metis
qed

definition byte_ser :: "u8 \<Rightarrow> u8 list" where
  "byte_ser b = [b]"

definition byte_deser :: "u8 list \<Rightarrow> (nat \<times> u8) outcome" where
  "byte_deser bs = Returned (length bs, hd bs)"

theorem fixed_unframe_stream_witness:
  "\<exists>ms1 ms2 rest. [9, 8] = ms1 @ ms2 \<and> [1, 0, 9, 1] = concat (map (fixed_frame byte_ser) ms1) @ rest \<and>
     fixed_unframe byte_deser [1, 0, 9, 1] = (ms1, Returned (length [1, 0, 9, 1 :: u8] - length rest))"
proof -
  have ok: "\<forall>m \<in> set [9, 8]. frame_ok byte_ser byte_deser m" by (simp add: frame_ok_def byte_ser_def byte_deser_def)
  have f: "fixed_frame byte_ser m = [1, 0, m]" for m by (simp add: fixed_frame_def le16_def byte_ser_def)
  have "prefix [1, 0, 9, 1] (concat (map (fixed_frame byte_ser) [9, 8]))" by (simp add: f)
  from fixed_unframe_stream[OF ok this] show ?thesis by blast
qed

section \<open>No framing\<close>

text \<open>Without framing a message must arrive in one piece: with \<^verbatim>\<open>DummyFramer\<close> over SBE, any part of a
  message that is shorter than the header, or shorter than the block its header announces, is
  an error, which closes the connection.\<close>

theorem dummy_unframe_rejects_fragment:
  assumes "0 < length p" "length p < headerLen \<or> (\<exists>k. templateId p = Some k \<and> length p < blockLen k)"
  shows "dummy_unframe (sbe_deserialize headerLen templateId blockLen get) p = Some ([], Unexpected SC_Error)"
  unfolding dummy_unframe_def using assms
  by (subst dummy_unframe_from.simps) (auto simp: sbe_deserialize_def)

theorem dummy_unframe_rejects_fragment_witness:
  "dummy_unframe (sbe_deserialize 8 (\<lambda>_. Some K_Order) (\<lambda>_. 25) (\<lambda>_ _. S_TokenBindRequest 0)) [17, 0, 4, 0] =
     Some ([], Unexpected SC_Error)"
  by (rule dummy_unframe_rejects_fragment) simp_all

end
