(* ===== verification/Channel.thy ===== *)
theory Channel
  imports Framing Buffer_Pool
begin

text \<open>
  The framed byte channel: \<^verbatim>\<open>SlidingBuffer\<close> (\<^verbatim>\<open>common/src/containers/sliding_buffer.hpp\<close>), the mapping of
  socket errors (\<^verbatim>\<open>boost_network_utils.hpp\<close>) and \<^verbatim>\<open>Channel\<close> (\<^verbatim>\<open>common/src/transport/channel.hpp\<close>). An
  asynchronous read is split where the code splits it: \<^verbatim>\<open>read\<close> offers a span of the buffer, the
  transport stores bytes there, and \<^verbatim>\<open>readHandler\<close> runs with the result. The framer is a parameter.
\<close>

section \<open>SlidingBuffer\<close>

definition MIN_READ_CAPACITY :: nat where "MIN_READ_CAPACITY = 512"
definition DEFAULT_CAPACITY :: nat where "DEFAULT_CAPACITY = 131072"

record SlidingBuffer =
  sl_head :: nat
  sl_tail :: nat
  sl_capacity :: nat
  sl_buffer :: "u8 list"

definition sl_new :: "nat \<Rightarrow> string + SlidingBuffer" where
  "sl_new capacity =
     (if capacity < MIN_READ_CAPACITY then Inl ''Invalid ring buffer capacity''
      else Inr \<lparr>sl_head = 0, sl_tail = 0, sl_capacity = capacity, sl_buffer = replicate capacity 0\<rparr>)"

definition sl_rotate :: "SlidingBuffer \<Rightarrow> string + SlidingBuffer" where
  "sl_rotate b =
     (if sl_tail b = 0 then Inr b
      else if sl_head b < sl_tail b then Inl ''head_ < tail_''
      else
        let dataSize = sl_head b - sl_tail b;
            buf = (if dataSize > 0 then take dataSize (drop (sl_tail b) (sl_buffer b)) @ drop dataSize (sl_buffer b)
                   else sl_buffer b)
        in Inr (b\<lparr>sl_buffer := buf, sl_head := dataSize, sl_tail := 0\<rparr>))"

text \<open>The span offered for writing starts at the head and has \<open>sl_avail\<close> bytes.\<close>

definition sl_span :: "SlidingBuffer \<Rightarrow> string + SlidingBuffer" where
  "sl_span b = (if sl_capacity b - sl_head b < MIN_READ_CAPACITY then sl_rotate b else Inr b)"

definition sl_avail :: "SlidingBuffer \<Rightarrow> nat" where
  "sl_avail b = sl_capacity b - sl_head b"

definition sl_data :: "SlidingBuffer \<Rightarrow> u8 list" where
  "sl_data b = take (sl_head b - sl_tail b) (drop (sl_tail b) (sl_buffer b))"

definition sl_commitWrite :: "nat \<Rightarrow> SlidingBuffer \<Rightarrow> bool \<times> SlidingBuffer" where
  "sl_commitWrite bytes b =
     (if sl_head b + bytes > sl_capacity b then (False, b) else (True, b\<lparr>sl_head := sl_head b + bytes\<rparr>))"

definition sl_reset :: "SlidingBuffer \<Rightarrow> SlidingBuffer" where
  "sl_reset b = b\<lparr>sl_head := 0, sl_tail := 0\<rparr>"

definition sl_commitRead :: "nat \<Rightarrow> SlidingBuffer \<Rightarrow> SlidingBuffer" where
  "sl_commitRead bytes b =
     (let b' = b\<lparr>sl_tail := sl_tail b + bytes\<rparr> in if sl_tail b' = sl_head b' then sl_reset b' else b')"

text \<open>What a transport does with the span.\<close>

definition sl_store :: "u8 list \<Rightarrow> SlidingBuffer \<Rightarrow> SlidingBuffer" where
  "sl_store bs b = b\<lparr>sl_buffer := take (sl_head b) (sl_buffer b) @ bs @ drop (sl_head b + length bs) (sl_buffer b)\<rparr>"

section \<open>Transport results\<close>

datatype boost_error = NoError | OperationAborted | Eof | WouldBlockError | OtherError

fun toIoStatus :: "boost_error \<Rightarrow> IoStatus" where
  "toIoStatus NoError = Io_Ok"
| "toIoStatus OperationAborted = Io_Closed"
| "toIoStatus Eof = Io_Closed"
| "toIoStatus WouldBlockError = Io_WouldBlock"
| "toIoStatus OtherError = Io_Error"

definition tcp_handler :: "boost_error \<Rightarrow> nat \<Rightarrow> IoResult" where
  "tcp_handler ec bytes = \<lparr>io_bytes = of_nat bytes, io_code = toIoStatus ec\<rparr>"

definition udp_handler :: "boost_error \<Rightarrow> nat \<Rightarrow> IoResult" where
  "udp_handler ec bytes = \<lparr>io_bytes = of_nat bytes, io_code = toIoStatus ec\<rparr>"

section \<open>Channel\<close>

record Channel =
  ch_id :: ConnectionId
  ch_status :: ConnectionStatus
  ch_buffer :: SlidingBuffer
  ch_reading :: bool

datatype 'm chan_out = ChPost 'm | ChStatus ConnectionStatusEvent

definition ch_new :: "ConnectionId \<Rightarrow> SlidingBuffer \<Rightarrow> Channel" where
  "ch_new cid b = \<lparr>ch_id = cid, ch_status = Connected, ch_buffer = b, ch_reading = False\<rparr>"

definition ch_read :: "Channel \<Rightarrow> string + Channel" where
  "ch_read ch =
     (if ch_status ch \<noteq> Connected then Inr ch
      else case sl_span (ch_buffer ch) of Inl e \<Rightarrow> Inl e | Inr b \<Rightarrow> Inr (ch\<lparr>ch_buffer := b, ch_reading := True\<rparr>))"

definition ch_onStatus :: "ConnectionStatus \<Rightarrow> Channel \<Rightarrow> 'm chan_out list \<times> Channel" where
  "ch_onStatus st ch =
     ([ChStatus \<lparr>cse_connectionId = ch_id ch, cse_status = st\<rparr>], ch\<lparr>ch_status := st\<rparr>)"

text \<open>\<^verbatim>\<open>readHandler\<close>: an exception of the deserializer escapes with the messages posted before it.\<close>

definition ch_readHandler ::
  "(u8 list \<Rightarrow> 'm list \<times> nat outcome) \<Rightarrow> IoResult \<Rightarrow> Channel \<Rightarrow> string + 'm chan_out list \<times> Channel" where
  "ch_readHandler unframe res ch0 =
     (let ch = ch0\<lparr>ch_reading := False\<rparr> in
      if io_code res \<noteq> Io_Ok
      then Inr (ch_onStatus ConnError (ch\<lparr>ch_buffer := sl_reset (ch_buffer ch)\<rparr>))
      else
        let b = snd (sl_commitWrite (unat (io_bytes res)) (ch_buffer ch))
        in case unframe (sl_data b) of
             (ms, Returned n) \<Rightarrow>
               (case ch_read (ch\<lparr>ch_buffer := sl_commitRead n b\<rparr>) of
                  Inl e \<Rightarrow> Inl e
                | Inr ch' \<Rightarrow> Inr (map ChPost ms, ch'))
           | (ms, Unexpected e) \<Rightarrow>
               (case ch_onStatus ConnError (ch\<lparr>ch_buffer := sl_reset b\<rparr>) of
                  (out, ch') \<Rightarrow> Inr (map ChPost ms @ out, ch'))
           | (ms, Thrown e) \<Rightarrow> Inl e
           | (ms, NullDeref) \<Rightarrow> Inl ''null dereference'')"

text \<open>\<^verbatim>\<open>write\<close>: the bytes handed to the transport with the index of their pool buffer, if any.\<close>

definition ch_write ::
  "('m \<Rightarrow> u8 list) \<Rightarrow> 'm \<Rightarrow> BufferPool \<Rightarrow> Channel \<Rightarrow> ((u32 \<times> u8 list) option \<times> BufferPool) option" where
  "ch_write frame msg pool ch =
     (if ch_status ch \<noteq> Connected then Some (None, pool)
      else do {
        (r, pool) \<leftarrow> bp_acquire pool;
        Some (case r of None \<Rightarrow> None | Some idx \<Rightarrow> Some (idx, frame msg), pool) })"

definition ch_writeHandler :: "IoResult \<Rightarrow> Channel \<Rightarrow> 'm chan_out list \<times> Channel" where
  "ch_writeHandler res ch =
     (if io_code res \<noteq> Io_Ok \<and> io_code res \<noteq> Io_Closed then ch_onStatus ConnError ch else ([], ch))"

text \<open>The completion of a transmission: the buffer goes back first, then the channel is told if it is
  still there.\<close>

definition ch_txDone :: "u32 \<Rightarrow> IoResult \<Rightarrow> BufferPool \<Rightarrow> Channel option \<Rightarrow>
    ('m chan_out list \<times> BufferPool \<times> Channel option) option" where
  "ch_txDone idx res pool ch = do {
     (ok, pool) \<leftarrow> bp_release idx pool;
     Some (case ch of
        None \<Rightarrow> ([], pool, None)
      | Some c \<Rightarrow> (case ch_writeHandler res c of (out, c') \<Rightarrow> (out, pool, Some c'))) }"

definition ch_close :: "Channel \<Rightarrow> Channel" where
  "ch_close ch = ch\<lparr>ch_status := Disconnected\<rparr>"

definition ch_isConnected :: "Channel \<Rightarrow> bool" where
  "ch_isConnected ch \<longleftrightarrow> ch_status ch = Connected"

definition ch_isError :: "Channel \<Rightarrow> bool" where
  "ch_isError ch \<longleftrightarrow> ch_status ch = ConnError"

section \<open>The buffer holds the unread bytes\<close>

definition sl_ok :: "SlidingBuffer \<Rightarrow> bool" where
  "sl_ok b \<longleftrightarrow> sl_tail b \<le> sl_head b \<and> sl_head b \<le> sl_capacity b \<and> length (sl_buffer b) = sl_capacity b"

lemma length_sl_data: "sl_ok b \<Longrightarrow> length (sl_data b) = sl_head b - sl_tail b"
  by (auto simp: sl_ok_def sl_data_def min_def)

lemma sl_span_ok:
  assumes "sl_ok b" "length (sl_data b) + MIN_READ_CAPACITY \<le> sl_capacity b"
  shows "\<exists>b'. sl_span b = Inr b' \<and> sl_ok b' \<and> sl_data b' = sl_data b \<and> MIN_READ_CAPACITY \<le> sl_avail b' \<and>
    sl_capacity b' = sl_capacity b"
proof (cases "sl_capacity b - sl_head b < MIN_READ_CAPACITY")
  case False
  then show ?thesis using assms(1) by (simp add: sl_span_def sl_avail_def)
next
  case True
  have d: "sl_head b - sl_tail b + MIN_READ_CAPACITY \<le> sl_capacity b" using assms length_sl_data by simp
  then have t: "sl_tail b \<noteq> 0" using True by auto
  have le: "sl_tail b \<le> sl_head b" "sl_head b \<le> length (sl_buffer b)" "length (sl_buffer b) = sl_capacity b"
    using assms(1) by (auto simp: sl_ok_def)
  define n where "n = sl_head b - sl_tail b"
  define buf where "buf = (if n > 0 then take n (drop (sl_tail b) (sl_buffer b)) @ drop n (sl_buffer b) else sl_buffer b)"
  have l: "length buf = sl_capacity b" using le by (simp add: buf_def n_def)
  have "take n buf = sl_data b" using le by (simp add: buf_def sl_data_def n_def)
  then show ?thesis using True t le d l
    by (simp add: sl_span_def sl_rotate_def Let_def sl_ok_def sl_avail_def sl_data_def n_def[symmetric] buf_def[symmetric])
qed

lemma sl_receive:
  assumes "sl_ok b" "length bs \<le> sl_avail b"
  shows "\<exists>b'. sl_commitWrite (length bs) (sl_store bs b) = (True, b') \<and> sl_ok b' \<and> sl_data b' = sl_data b @ bs \<and>
    sl_capacity b' = sl_capacity b"
proof -
  have le: "sl_tail b \<le> sl_head b" "sl_head b \<le> sl_capacity b" "length (sl_buffer b) = sl_capacity b"
    "sl_head b + length bs \<le> sl_capacity b" using assms by (auto simp: sl_ok_def sl_avail_def)
  define h where "h = sl_head b - sl_tail b"
  define A where "A = drop (sl_tail b) (take (sl_head b) (sl_buffer b))"
  have A: "A = take h (drop (sl_tail b) (sl_buffer b))" "length A = h" using le by (simp_all add: A_def h_def drop_take)
  have "drop (sl_tail b) (take (sl_head b) (sl_buffer b) @ bs @ drop (sl_head b + length bs) (sl_buffer b)) =
      A @ bs @ drop (sl_head b + length bs) (sl_buffer b)" using le by (simp add: A_def)
  then have "take (h + length bs) (drop (sl_tail b) (take (sl_head b) (sl_buffer b) @ bs @ drop (sl_head b + length bs) (sl_buffer b))) =
      take h (drop (sl_tail b) (sl_buffer b)) @ bs" using A by (metis append_assoc append_eq_conv_conj length_append)
  moreover have "sl_head b + length bs - sl_tail b = h + length bs" using le by (simp add: h_def)
  ultimately show ?thesis using le
    by (simp add: sl_commitWrite_def sl_store_def sl_ok_def sl_data_def h_def[symmetric])
qed

lemma sl_commitRead_ok:
  assumes "sl_ok b" "n \<le> length (sl_data b)"
  shows "sl_ok (sl_commitRead n b) \<and> sl_data (sl_commitRead n b) = drop n (sl_data b) \<and>
    sl_capacity (sl_commitRead n b) = sl_capacity b"
  using assms length_sl_data[OF assms(1)]
  by (auto simp: sl_commitRead_def sl_reset_def sl_ok_def sl_data_def Let_def drop_take add.commute)

section \<open>Reassembly\<close>

text \<open>The transport delivers the received pieces one by one.\<close>

fun ch_feed ::
  "(u8 list \<Rightarrow> 'm list \<times> nat outcome) \<Rightarrow> u8 list list \<Rightarrow> Channel \<Rightarrow> string + 'm chan_out list \<times> Channel" where
  "ch_feed unframe [] ch = Inr ([], ch)"
| "ch_feed unframe (c # cs) ch =
     (case ch_readHandler unframe (tcp_handler NoError (length c)) (ch\<lparr>ch_buffer := sl_store c (ch_buffer ch)\<rparr>) of
        Inl e \<Rightarrow> Inl e
      | Inr (out, ch') \<Rightarrow>
          (case ch_feed unframe cs ch' of Inl e \<Rightarrow> Inl e | Inr (out', ch'') \<Rightarrow> Inr (out @ out', ch'')))"

text \<open>A connected channel waiting for data, with the beginning \<open>d\<close> of a frame in its buffer.\<close>

definition ch_waiting :: "u8 list \<Rightarrow> Channel \<Rightarrow> bool" where
  "ch_waiting d ch \<longleftrightarrow> ch_status ch = Connected \<and> ch_reading ch \<and> sl_ok (ch_buffer ch) \<and>
     sl_capacity (ch_buffer ch) = DEFAULT_CAPACITY \<and> MIN_READ_CAPACITY \<le> sl_avail (ch_buffer ch) \<and> sl_data (ch_buffer ch) = d"

lemma ch_receive:
  assumes w: "ch_waiting d ch" and ok: "\<forall>m \<in> set ms. frame_ok ser deser m"
    and p: "prefix (d @ c) (concat (map (fixed_frame ser) ms))" and c: "length c \<le> MIN_READ_CAPACITY"
  shows "\<exists>ms1 ms2 rest ch'. split_stream ser ms (d @ c) ms1 ms2 rest \<and> ch_waiting rest ch' \<and>
    ch_readHandler (fixed_unframe deser) (tcp_handler NoError (length c)) (ch\<lparr>ch_buffer := sl_store c (ch_buffer ch)\<rparr>) =
      Inr (map ChPost ms1, ch')"
proof -
  let ?b = "ch_buffer ch"
  have b: "sl_ok ?b" "sl_capacity ?b = DEFAULT_CAPACITY" "sl_data ?b = d" "length c \<le> sl_avail ?b"
    using w c by (auto simp: ch_waiting_def)
  obtain b1 where b1: "sl_commitWrite (length c) (sl_store c ?b) = (True, b1)" "sl_ok b1" "sl_data b1 = d @ c"
    "sl_capacity b1 = DEFAULT_CAPACITY" using sl_receive[OF b(1,4)] b(2,3) by auto
  obtain ms1 ms2 rest where s: "split_stream ser ms (d @ c) ms1 ms2 rest"
    and u: "fixed_unframe deser (d @ c) = (ms1, Returned (length (concat (map (fixed_frame ser) ms1))))"
    using unframe_stream[OF ok p, of "[]" "[]"] by (auto simp: fixed_unframe_def)
  define n where "n = length (concat (map (fixed_frame ser) ms1))"
  have dc: "d @ c = concat (map (fixed_frame ser) ms1) @ rest" using s by (simp add: split_stream_def)
  have rest: "length rest < 1026 \<or> rest = []"
  proof (cases ms2)
    case (Cons m ms')
    then have "frame_ok ser deser m" using ok s by (auto simp: split_stream_def)
    then show ?thesis using s Cons by (auto simp: split_stream_def frame_ok_def)
  qed (use s in \<open>simp add: split_stream_def\<close>)
  have "n \<le> length (sl_data b1)" using dc b1(3) by (simp add: n_def)
  note b2 = sl_commitRead_ok[OF b1(2) this]
  have d2: "sl_data (sl_commitRead n b1) = rest" using b2 b1(3) dc by (simp add: n_def)
  then obtain b3 where b3: "sl_span (sl_commitRead n b1) = Inr b3" "sl_ok b3" "sl_data b3 = rest"
    "MIN_READ_CAPACITY \<le> sl_avail b3" "sl_capacity b3 = DEFAULT_CAPACITY"
    using sl_span_ok[of "sl_commitRead n b1"] b2 b1(4) rest
    by (auto simp: DEFAULT_CAPACITY_def MIN_READ_CAPACITY_def)
  have sz: "unat (of_nat (length c) :: u32) = length c" using c by (simp add: MIN_READ_CAPACITY_def unat_of_nat)
  define ch' where "ch' = ch\<lparr>ch_buffer := b3, ch_reading := True\<rparr>"
  have "ch_readHandler (fixed_unframe deser) (tcp_handler NoError (length c)) (ch\<lparr>ch_buffer := sl_store c ?b\<rparr>) =
      Inr (map ChPost ms1, ch')"
    using w b1(1,3) u b3(1) sz
    by (simp add: ch_readHandler_def tcp_handler_def Let_def ch_read_def ch_waiting_def n_def[symmetric] ch'_def)
  moreover have "ch_waiting rest ch'" using w b3 by (simp add: ch_waiting_def ch'_def)
  ultimately show ?thesis using s by blast
qed

lemma ch_feed_stream:
  assumes "ch_waiting d ch" "\<forall>m \<in> set ms. frame_ok ser deser m"
    and "d @ concat cs = concat (map (fixed_frame ser) ms)" "\<forall>c \<in> set cs. length c \<le> MIN_READ_CAPACITY"
    and "ms \<noteq> [] \<longrightarrow> length d < length (fixed_frame ser (hd ms))"
  shows "\<exists>ch'. ch_feed (fixed_unframe deser) cs ch = Inr (map ChPost ms, ch') \<and> ch_waiting [] ch'"
  using assms
proof (induction cs arbitrary: d ch ms)
  case Nil
  then have "ms = []" by (cases ms) auto
  then show ?case using Nil by simp
next
  case (Cons c cs)
  have "prefix (d @ c) (concat (map (fixed_frame ser) ms))" using Cons.prems(3) by (metis append_assoc concat.simps(2) prefixI)
  from ch_receive[OF Cons.prems(1,2) this] Cons.prems(4) obtain ms1 ms2 rest ch1 where
    r: "split_stream ser ms (d @ c) ms1 ms2 rest" "ch_waiting rest ch1"
    "ch_readHandler (fixed_unframe deser) (tcp_handler NoError (length c)) (ch\<lparr>ch_buffer := sl_store c (ch_buffer ch)\<rparr>) =
      Inr (map ChPost ms1, ch1)" by auto
  have ms: "ms = ms1 @ ms2" "d @ c = concat (map (fixed_frame ser) ms1) @ rest"
    "ms2 \<noteq> [] \<longrightarrow> length rest < length (fixed_frame ser (hd ms2))" using r(1) by (simp_all add: split_stream_def)
  have "rest @ concat cs = concat (map (fixed_frame ser) ms2)"
  proof -
    have "(d @ c) @ concat cs = concat (map (fixed_frame ser) ms)" using Cons.prems(3) by simp
    then show ?thesis using ms(1) unfolding ms(2) by simp
  qed
  from Cons.IH[OF r(2) _ this _ ms(3)] Cons.prems(2,4) ms(1) obtain ch' where
    "ch_feed (fixed_unframe deser) cs ch1 = Inr (map ChPost ms2, ch')" "ch_waiting [] ch'" by auto
  then show ?case using r(3) ms(1) by auto
qed

lemma ch_reassembles:
  assumes "\<forall>m \<in> set ms. frame_ok ser deser m" "concat cs = concat (map (fixed_frame ser) ms)"
    and "\<forall>c \<in> set cs. length c \<le> 512" "sl_new DEFAULT_CAPACITY = Inr b" "ch_read (ch_new cid b) = Inr ch"
  shows "\<exists>ch'. ch_feed (fixed_unframe deser) cs ch = Inr (map ChPost ms, ch') \<and> ch_status ch' = Connected \<and>
    ch_reading ch' \<and> sl_data (ch_buffer ch') = [] \<and> 512 \<le> sl_avail (ch_buffer ch')"
proof -
  have "ch_waiting [] ch" using assms(4,5)
    by (auto simp: sl_new_def ch_read_def ch_new_def ch_waiting_def sl_span_def sl_ok_def sl_avail_def sl_data_def
        DEFAULT_CAPACITY_def MIN_READ_CAPACITY_def)
  from ch_feed_stream[OF this assms(1)] assms(2,3) show ?thesis
    by (auto simp: MIN_READ_CAPACITY_def ch_waiting_def)
qed



end
