(* ===== verification/Wire_Path.thy ===== *)
theory Wire_Path
  imports Channel Session
begin

text \<open>
  The path of a message over TCP put together: serializer, framer, channel and session bus. The contract between the
  serializers and the framer is the locale \<open>codec\<close>, whose client lemma follows a stream of messages through a channel;
  it is interpreted on both serializers, for every wire codec and the messages that codec handles.
\<close>

locale codec =
  fixes ser :: "'m \<Rightarrow> u8 list" and deser :: "u8 list \<Rightarrow> (nat \<times> 'm) outcome" and valid :: "'m \<Rightarrow> bool"
  assumes size_law: "valid m \<Longrightarrow> 0 < length (ser m) \<and> length (ser m) \<le> 1024"
    and read_law: "valid m \<Longrightarrow> deser (ser m) = Returned (length (ser m), m)"
begin

lemma framed: "valid m \<Longrightarrow> frame_ok ser deser m"
  using size_law[of m] read_law[of m] by (simp add: frame_ok_def)

lemma delivered:
  assumes "\<forall>m \<in> set ms. valid m" "concat cs = concat (map (fixed_frame ser) ms)"
    and "\<forall>c \<in> set cs. length c \<le> 512" "sl_new DEFAULT_CAPACITY = Inr b" "ch_read (ch_new cid b) = Inr ch"
  shows "\<exists>ch'. ch_feed (fixed_unframe deser) cs ch = Inr (map ChPost ms, ch') \<and> ch_status ch' = Connected"
proof -
  have "\<forall>m \<in> set ms. frame_ok ser deser m" using assms(1) framed by blast
  from ch_reassembles[OF this assms(2-5)] show ?thesis by blast
qed

end

section \<open>The two serializers\<close>

text \<open>What the generated FlatBuffers code must do with the message: fit a frame, verify, and give the table back.\<close>

definition fbs_wire_ok :: "(fbs_message \<Rightarrow> u8 list) \<Rightarrow> (u8 list \<Rightarrow> bool) \<Rightarrow> (u8 list \<Rightarrow> fbs_message option) \<Rightarrow> DomainMsg \<Rightarrow> bool" where
  "fbs_wire_ok finish verify getRoot m \<longleftrightarrow> token_fits m \<and> 0 < length (finish (fbs_table m)) \<and> length (finish (fbs_table m)) \<le> 1024 \<and>
     verify (finish (fbs_table m)) \<and> getRoot (finish (fbs_table m)) = Some (fbs_table m)"

text \<open>The bytes of a message the converter knows, and what the generated SBE code must do with it.\<close>

definition sbe_bytes :: "(sbe_message \<Rightarrow> u8 list) \<Rightarrow> DomainMsg \<Rightarrow> u8 list" where
  "sbe_bytes put m = (case sbe_serialize put m of Returned bs \<Rightarrow> bs | _ \<Rightarrow> [])"

definition sbe_wire_ok ::
  "(sbe_message \<Rightarrow> u8 list) \<Rightarrow> nat \<Rightarrow> (u8 list \<Rightarrow> sbe_kind option) \<Rightarrow> (sbe_kind \<Rightarrow> nat) \<Rightarrow> (sbe_kind \<Rightarrow> u8 list \<Rightarrow> sbe_message) \<Rightarrow> DomainMsg \<Rightarrow> bool" where
  "sbe_wire_ok put headerLen templateId blockLen get m \<longleftrightarrow> token_fits m \<and>
     (case sbe_table m of
        Returned t \<Rightarrow> 0 < length (put t) \<and> length (put t) \<le> 1024 \<and> length (put t) = blockLen (sbe_kind_of t) \<and> headerLen \<le> length (put t) \<and>
          templateId (put t) = Some (sbe_kind_of t) \<and> get (sbe_kind_of t) (put t) = t
      | _ \<Rightarrow> False)"

interpretation fbs_codec: codec "fbs_serialize finish" "fbs_deserialize verify getRoot" "fbs_wire_ok finish verify getRoot"
  for finish verify getRoot
  by unfold_locales (simp_all add: fbs_wire_ok_def fbs_serialize_def fbs_deserialize_def fbs_read_table)

interpretation sbe_codec: codec "sbe_bytes put" "sbe_deserialize headerLen templateId blockLen get"
  "sbe_wire_ok put headerLen templateId blockLen get" for put headerLen templateId blockLen get
  by unfold_locales
    (auto simp: sbe_wire_ok_def sbe_bytes_def sbe_serialize_def sbe_deserialize_def sbe_read_table split: outcome.splits)

section \<open>From the client's serializer to the session bus\<close>

definition session_in :: "ConnectionId \<Rightarrow> SessionChannel \<Rightarrow> DomainMsg chan_out list \<Rightarrow> SessionMsg list" where
  "session_in cid sc outs = List.map_filter (\<lambda>x. case x of ChPost m \<Rightarrow> restricted_post cid sc m | _ \<Rightarrow> None) outs"

lemma session_in_orders:
  assumes "sc_clientId sc = Some c" "sc_dir sc = Upstream"
  shows "session_in cid sc (map ChPost (map M_Order ords)) = map (\<lambda>ord. SM_Order \<lparr>so_clientId = c, so_order = ord\<rparr>) ords"
  using assms by (induction ords) (simp_all add: session_in_def restricted_post_def session_post_def map_filter_simps)


definition wire_order :: Order where
  "wire_order = \<lparr>o_id = 7, o_ticker = makeTicker ''AAPL'', o_quantity = 10, o_price = 190, o_action = Buy\<rparr>"


end
