(* ===== verification/Session_Safety.thy ===== *)
theory Session_Safety
  imports Session
begin

text \<open>
  What the login protocol guarantees in every reachable state: orders carry only client ids that the
  database returned for their connection, and order statuses reach only channels bound to their
  client. The last section shows the disconnect that dereferences a null channel.
\<close>

section \<open>The remaining handlers\<close>

lemma set_bind_session:
  "(k, se') \<in> set (bind_session c cid ss) \<longleftrightarrow>
     (\<exists>se. (k, se) \<in> set ss \<and> se' = (if k = c then se\<lparr>se_downstream := Some cid\<rparr> else se))"
proof
  assume "(k, se') \<in> set (bind_session c cid ss)"
  then show "\<exists>se. (k, se) \<in> set ss \<and> se' = (if k = c then se\<lparr>se_downstream := Some cid\<rparr> else se)"
    by (auto simp: bind_session_def)
next
  assume "\<exists>se. (k, se) \<in> set ss \<and> se' = (if k = c then se\<lparr>se_downstream := Some cid\<rparr> else se)"
  then obtain se where "(k, se) \<in> set ss" "se' = (if k = c then se\<lparr>se_downstream := Some cid\<rparr> else se)" by blast
  then show "(k, se') \<in> set (bind_session c cid ss)"
    unfolding bind_session_def set_map by (intro rev_image_eqI[where x = "(k, se)"]) simp_all
qed

lemma bind_ok:
  assumes ok: "chans_ok V m"
  shows "chans_ok V (snd (ns_postBind r m)) \<and> extends m (snd (ns_postBind r m))"
proof -
  define cid where "cid = stb_connectionId r"
  define m1 where "m1 = m\<lparr>ns_unauthDown := ns_unauthDown m - {cid}\<rparr>"
  have s1: "same_identity m m1" by (auto simp: same_identity_def m1_def)
  note c1 = same_identity_trans[OF s1 same_identity_close[of m1 cid]]
  let ?f = "find (\<lambda>(k, se). se_token se = tb_token (stb_request r)) (ns_sessions m)"
  show ?thesis
  proof (cases "ns_stopRequested m \<or> cid \<notin> ns_unauthDown m \<or> ?f = None \<or> (\<exists>k se. ?f = Some (k, se) \<and> se_downstream se \<noteq> None)")
    case True
    then have "same_identity m (snd (ns_postBind r m))"
      using c1 by (auto simp: ns_postBind_def cid_def[symmetric] Let_def m1_def[symmetric] split: option.splits)
    then show ?thesis using chans_ok_same[OF ok] same_extends by blast
  next
    case False
    then obtain k se where f: "?f = Some (k, se)" "se_downstream se = None" by auto
    have ins: "(k, se) \<in> set (ns_sessions m)" using f(1) by (auto simp: find_Some_iff in_set_conv_nth)
    then have sek: "se_clientId se = k" using ok unfolding chans_ok_alt by fastforce
    define m2 where "m2 = m1\<lparr>ns_sessions := bind_session k cid (ns_sessions m)\<rparr>"
    define m3 where "m3 = upd_chan cid (sc_authenticate k) m2"
    have res: "snd (ns_postBind r m) = m3"
      using False f sek by (simp add: ns_postBind_def cid_def[symmetric] Let_def m1_def m2_def m3_def)
    have h2: "has_identity m2 = has_identity m" by (rule has_identity_cong) (simp add: m2_def m1_def)
    have dn: "has_identity m cid Downstream None" using ok False by (auto simp: chans_ok_alt)
    have id: "has_identity m3 x d c \<longleftrightarrow> (if x = cid then d = Downstream \<and> c = Some k else has_identity m x d c)" for x d c
      unfolding m3_def authenticate_identity h2 using dn by (auto simp: has_identity_iff)
    have "fresh_ids m3" using ok by (simp add: chans_ok_def fresh_ids_def m3_def) (simp add: m2_def m1_def)
    moreover have "\<forall>x c. has_identity m3 x Upstream (Some c) \<longrightarrow> (x, c) \<in> V"
      using ok unfolding chans_ok_alt id by auto
    moreover have "\<forall>x \<in> ns_unauthUp m3. \<exists>c. has_identity m3 x Upstream c"
    proof
      fix x assume "x \<in> ns_unauthUp m3"
      then have "x \<in> ns_unauthUp m" by (simp add: m3_def m2_def m1_def)
      then obtain c where "has_identity m x Upstream c" using ok by (auto simp: chans_ok_alt)
      moreover have "x \<noteq> cid" using calculation dn by (auto simp: has_identity_iff)
      ultimately show "\<exists>c. has_identity m3 x Upstream c" by (auto simp: id)
    qed
    moreover have "\<forall>x \<in> ns_unauthDown m3. has_identity m3 x Downstream None"
      using ok unfolding chans_ok_alt id by (simp add: m3_def m2_def m1_def)
    moreover have "se_clientId s' = k' \<and> (\<forall>d. se_downstream s' = Some d \<longrightarrow> has_identity m3 d Downstream (Some k'))"
      if s': "(k', s') \<in> set (ns_sessions m3)" for k' s'
    proof -
      obtain s0 where s0: "(k', s0) \<in> set (ns_sessions m)" "s' = (if k' = k then s0\<lparr>se_downstream := Some cid\<rparr> else s0)"
        using s' by (auto simp: m3_def m2_def set_bind_session)
      then have "se_clientId s0 = k'" "\<forall>d. se_downstream s0 = Some d \<longrightarrow> has_identity m d Downstream (Some k')"
        using ok unfolding chans_ok_alt by fastforce+
      moreover have "\<not> has_identity m cid Downstream (Some k')" using dn by (auto simp: has_identity_iff)
      ultimately show ?thesis using s0(2) by (auto simp: id)
    qed
    ultimately have "chans_ok V m3" unfolding chans_ok_alt by blast
    moreover have "extends m m3" using dn unfolding extends_def id by (auto simp: has_identity_iff)
    ultimately show ?thesis using res by simp
  qed
qed

text \<open>A channel event only closes and forgets.\<close>

lemma forget_identity:
  "same_identity m (m\<lparr>ns_unauthUp := ns_unauthUp m - {cid}, ns_unauthDown := ns_unauthDown m - {cid}\<rparr>)"
  by (auto simp: same_identity_def)

lemma filter_identity: "same_identity m (m\<lparr>ns_sessions := filter P (ns_sessions m)\<rparr>)"
  by (auto simp: same_identity_def)

lemma forget_chan_identity: "same_identity m (forget_chan cid m)"
  unfolding forget_chan_def Let_def
  by (rule same_identity_trans[OF _ forget_identity]) (simp add: same_identity_close)

lemma channel_ok:
  assumes "ns_postChannel ev m = Some m'"
  shows "same_identity m m'"
proof -
  define cid where "cid = cse_connectionId (chse_event ev)"
  consider "m' = m" | "m' = forget_chan cid m"
    | u d P where "m' = forget_chan cid (upd_chan u sc_close (upd_chan d sc_close (m\<lparr>ns_sessions := filter P (ns_sessions m)\<rparr>)))"
    using assms unfolding ns_postChannel_def cid_def[symmetric] Let_def
    by (auto split: ConnectionStatus.splits option.splits)
  then show ?thesis
  proof cases
    case (3 u d P)
    show ?thesis unfolding 3
      by (rule same_identity_trans[OF same_identity_trans[OF same_identity_trans[OF filter_identity same_identity_close]
          same_identity_close] forget_chan_identity])
  qed (simp_all add: forget_chan_identity)
qed

section \<open>The invariant of the system\<close>

definition ss_inv :: "(string \<Rightarrow> string \<Rightarrow> StatusCode + ClientId) \<Rightarrow> SessionSystem \<Rightarrow> bool" where
  "ss_inv check s \<longleftrightarrow> chans_ok (ss_verified s) (ss_mgr s) \<and>
     (\<forall>r. Q_Response r \<in> set (ss_queue s) \<longrightarrow> slp_ok r \<longrightarrow> (slp_connectionId r, slp_clientId r) \<in> ss_verified s) \<and>
     (\<forall>(cid, ord) \<in> set (ss_orders s). (cid, so_clientId ord) \<in> ss_verified s) \<and>
     (\<forall>(cid, c) \<in> set (ss_statuses s). has_identity (ss_mgr s) cid Downstream (Some c)) \<and>
     (\<forall>(cid, c) \<in> ss_verified s. \<exists>name pw. check name pw = Inr c)"

lemma ss_inv_mgr:
  assumes "ss_inv check s" "chans_ok (ss_verified s) m" "extends (ss_mgr s) m"
    and "s' = s\<lparr>ss_mgr := m, ss_queue := q\<rparr>" "\<And>r. Q_Response r \<in> set q \<Longrightarrow> Q_Response r \<in> set (ss_queue s)"
  shows "ss_inv check s'"
  using assms unfolding ss_inv_def extends_def by auto

lemma ss_recv_inv:
  assumes inv: "ss_inv check s"
  shows "ss_inv check (ss_recv cid msg s)"
proof (cases "ns_chans (ss_mgr s) cid")
  case (Some ch)
  have id: "has_identity (ss_mgr s) cid (sc_dir ch) (sc_clientId ch)" using Some by (simp add: has_identity_iff)
  have V: "(cid, c) \<in> ss_verified s" if "sc_dir ch = Upstream" "sc_clientId ch = Some c" for c
    using inv id that by (auto simp: ss_inv_def chans_ok_alt)
  have ord: "sc_dir ch = Upstream \<and> sc_clientId ch = Some (so_clientId o')"
    if "restricted_post cid ch msg = Some (SM_Order o')" for o'
    using that by (cases "sc_dir ch")
      (auto simp: restricted_post_def session_post_def error_event_def split: DomainMsg.splits option.splits if_splits)
  show ?thesis
    using inv Some V ord unfolding ss_recv_def ss_inv_def
    by (auto split: option.splits SessionMsg.splits if_splits)
qed (use inv in \<open>simp add: ss_recv_def\<close>)

lemma ioError_inv:
  assumes inv: "ss_inv check s"
  shows "ss_inv check (ss_ioError cid s)"
proof (cases "ns_chans (ss_mgr s) cid")
  case (Some ch)
  let ?m = "upd_chan cid (\<lambda>ch. ch\<lparr>sc_status := ConnError\<rparr>) (ss_mgr s)"
  have si: "same_identity (ss_mgr s) ?m" by (rule same_identity_upd) simp
  have "chans_ok (ss_verified s) ?m" using chans_ok_same[OF _ si] inv by (simp add: ss_inv_def)
  then show ?thesis
    by (rule ss_inv_mgr[OF inv _ same_extends[OF si], of _ "ss_queue s @ [Q_Msg (session_status ch \<lparr>cse_connectionId = cid, cse_status = ConnError\<rparr>)]"])
      (simp_all add: ss_ioError_def Some)
qed (use inv in \<open>simp add: ss_ioError_def\<close>)

lemma dispatch_inv:
  assumes inv: "ss_inv check s" and d: "ss_dispatch check s = Some s'"
  shows "ss_inv check s'"
proof (cases "ss_queue s")
  case (Cons q qs)
  have ok: "chans_ok (ss_verified s) (ss_mgr s)" using inv by (simp add: ss_inv_def)
  have sub: "\<And>r. Q_Response r \<in> set qs \<Longrightarrow> Q_Response r \<in> set (ss_queue s)" using Cons by simp
  show ?thesis
  proof (cases q)
    case (Q_Response r)
    have "slp_ok r \<Longrightarrow> (slp_connectionId r, slp_clientId r) \<in> ss_verified s"
      using inv Cons Q_Response by (simp add: ss_inv_def)
    note l = login_ok[OF ok this]
    have "s' = s\<lparr>ss_mgr := snd (ns_postLogin r (ss_mgr s)), ss_queue := qs\<rparr>"
      using d Cons Q_Response by (auto simp: ss_dispatch_def)
    from ss_inv_mgr[OF inv conjunct1[OF l] conjunct2[OF l] this sub] show ?thesis .
  next
    case (Q_Msg sm)
    show ?thesis
    proof (cases sm)
      case (SM_Bind r)
      note l = bind_ok[OF ok, of r]
      have "s' = s\<lparr>ss_mgr := snd (ns_postBind r (ss_mgr s)), ss_queue := qs\<rparr>"
        using d Cons Q_Msg SM_Bind by (auto simp: ss_dispatch_def)
      from ss_inv_mgr[OF inv conjunct1[OF l] conjunct2[OF l] this sub] show ?thesis .
    next
      case (SM_Status ev)
      then obtain m where m: "ns_postChannel ev (ss_mgr s) = Some m" "s' = s\<lparr>ss_mgr := m, ss_queue := qs\<rparr>"
        using d Cons Q_Msg by (auto simp: ss_dispatch_def)
      note si = channel_ok[OF m(1)]
      show ?thesis by (rule ss_inv_mgr[OF inv chans_ok_same[OF ok si] same_extends[OF si] m(2) sub])
    next
      case (SM_Order ord)
      then have "s' = s\<lparr>ss_mgr := ss_mgr s, ss_queue := qs\<rparr>" using d Cons Q_Msg by (simp add: ss_dispatch_def)
      from ss_inv_mgr[OF inv ok same_extends[OF same_identity_refl] this sub] show ?thesis .
    next
      case (SM_Login r)
      define resp where "resp = auth_post check r"
      define V where "V = (if slp_ok resp then insert (slp_connectionId resp, slp_clientId resp) (ss_verified s) else ss_verified s)"
      have s': "s' = s\<lparr>ss_queue := qs @ [Q_Response resp], ss_verified := V\<rparr>"
        using d Cons Q_Msg SM_Login by (auto simp: ss_dispatch_def resp_def V_def Let_def)
      have "ss_verified s \<subseteq> V" by (auto simp: V_def)
      moreover have "slp_ok resp \<Longrightarrow> (slp_connectionId resp, slp_clientId resp) \<in> V" by (simp add: V_def)
      moreover have "slp_ok resp \<Longrightarrow> \<exists>name pw. check name pw = Inr (slp_clientId resp)"
        by (auto simp: resp_def auth_post_def split: sum.splits)
      then have "\<forall>(cid, c) \<in> V. \<exists>name pw. check name pw = Inr c" using inv by (auto simp: V_def ss_inv_def)
      ultimately show ?thesis using inv chans_ok_mono[OF ok, of V] Cons unfolding s' ss_inv_def by auto
    qed
  qed
qed (use inv d in \<open>simp add: ss_dispatch_def\<close>)

lemma status_inv:
  assumes inv: "ss_inv check s"
  shows "ss_inv check (ss_status st s)"
proof -
  have "has_identity (ss_mgr s) cid Downstream (Some (sos_clientId st))"
    if w: "(cid, w) \<in> set (ns_postStatus st (ss_mgr s))" for cid w
  proof -
    obtain se where se: "map_of (ns_sessions (ss_mgr s)) (sos_clientId st) = Some se" "se_downstream se = Some cid"
      using w by (cases "map_of (ns_sessions (ss_mgr s)) (sos_clientId st)")
        (auto simp: ns_postStatus_def write_chan_def split: if_split_asm option.split_asm)
    then have "(sos_clientId st, se) \<in> set (ns_sessions (ss_mgr s))" by (simp add: map_of_SomeD)
    then show ?thesis using inv se(2) unfolding ss_inv_def chans_ok_alt by fastforce
  qed
  then show ?thesis using inv unfolding ss_inv_def ss_status_def by auto
qed

lemma ss_reach_inv: "ss_reach check s \<Longrightarrow> ss_inv check s"
proof (induction rule: ss_reach.induct)
  case init
  then show ?case by (simp add: ss_inv_def ss_new_def chans_ok_def ns_new_def fresh_ids_def)
next
  case (up s)
  have a: "chans_ok (ss_verified s) (acceptUpstream (ss_mgr s)) \<and> extends (ss_mgr s) (acceptUpstream (ss_mgr s))"
    using acceptor_ok[of "ss_verified s" "ss_mgr s" "acceptUpstream (ss_mgr s)"] up by (simp add: ss_inv_def)
  show ?case by (rule ss_inv_mgr[OF up.IH conjunct1[OF a] conjunct2[OF a], of _ "ss_queue s"]) simp_all
next
  case (down s)
  have a: "chans_ok (ss_verified s) (acceptDownstream (ss_mgr s)) \<and> extends (ss_mgr s) (acceptDownstream (ss_mgr s))"
    using acceptor_ok[of "ss_verified s" "ss_mgr s" "acceptDownstream (ss_mgr s)"] down by (simp add: ss_inv_def)
  show ?case by (rule ss_inv_mgr[OF down.IH conjunct1[OF a] conjunct2[OF a], of _ "ss_queue s"]) simp_all
next
  case (close s)
  have a: "chans_ok (ss_verified s) (ns_close (ss_mgr s))"
    using chans_ok_same[OF _ close_ok] close.IH by (simp add: ss_inv_def)
  show ?case by (rule ss_inv_mgr[OF close.IH a same_extends[OF close_ok], of _ "ss_queue s"]) simp_all
qed (simp_all add: ss_recv_inv ioError_inv dispatch_inv status_inv)

section \<open>Properties\<close>

text \<open>C13. Session isolation: in every state reached by any interleaving of connections, messages, errors
  and handlers, each order handed to the gateway carries a client id that the credentials check
  returned for the connection it came in on, and each order status written to the wire went to
  a downstream channel that is bound to the status's client.\<close>

theorem session_isolation:
  assumes "ss_reach check s"
  shows "(\<forall>(cid, ord) \<in> set (ss_orders s). (cid, so_clientId ord) \<in> ss_verified s \<and>
       (\<exists>name pw. check name pw = Inr (so_clientId ord))) \<and>
    (\<forall>(cid, c) \<in> set (ss_statuses s). \<exists>ch. ns_chans (ss_mgr s) cid = Some ch \<and> sc_dir ch = Downstream \<and> sc_clientId ch = Some c)"
  using ss_reach_inv[OF assms] by (fastforce simp: ss_inv_def has_identity_iff)

definition login_msg :: DomainMsg where
  "login_msg = M_LoginRequest \<lparr>lr_name = ''bob'', lr_password = ''pw''\<rparr>"

definition buy_msg :: DomainMsg where
  "buy_msg = M_Order \<lparr>o_id = 1, o_ticker = makeTicker ''AAPL'', o_quantity = 5, o_price = 7, o_action = Buy\<rparr>"

definition any_credentials :: "string \<Rightarrow> string \<Rightarrow> StatusCode + ClientId" where
  "any_credentials name pw = Inr 42"

text \<open>One client connects and logs in; the states after each step of that run.\<close>

definition logged_in :: SessionSystem where
  "logged_in = the (ss_dispatch any_credentials (the (ss_dispatch any_credentials
     (ss_recv 0 login_msg (ss_new\<lparr>ss_mgr := acceptUpstream (ss_mgr ss_new)\<rparr>)))))"

lemmas session_eval = ss_new_def ns_new_def acceptUpstream_def genConnectionId_def ss_recv_def login_msg_def buy_msg_def
  restricted_post_def session_post_def sc_isAuthenticated_def sc_new_def ss_dispatch_def auth_post_def any_credentials_def
  ns_postLogin_def genToken_def upd_chan_def sc_authenticate_def Let_def MAX_CONNECTIONS_def

lemma logged_in_eval:
  "ss_queue logged_in = [] \<and> ns_chans (ss_mgr logged_in) 0 = Some \<lparr>sc_dir = Upstream, sc_clientId = Some 42, sc_status = Connected\<rparr> \<and>
   ns_sessions (ss_mgr logged_in) = [(42, \<lparr>se_clientId = 42, se_token = 0, se_upstream = 0, se_downstream = None\<rparr>)] \<and>
   ss_orders logged_in = [] \<and> ns_stopRequested (ss_mgr logged_in) = False"
  by (simp add: logged_in_def session_eval)

lemma logged_in_reach: "ss_reach any_credentials logged_in"
proof -
  let ?s1 = "ss_new\<lparr>ss_mgr := acceptUpstream (ss_mgr ss_new)\<rparr>"
  let ?s2 = "ss_recv 0 login_msg ?s1"
  have 1: "ss_reach any_credentials ?s2"
    by (intro ss_reach.recv ss_reach.up ss_reach.init) (simp add: ss_new_def ns_new_def)
  have "\<exists>s3. ss_dispatch any_credentials ?s2 = Some s3" by (simp add: session_eval)
  then obtain s3 where s3: "ss_dispatch any_credentials ?s2 = Some s3" by blast
  then have "\<exists>s4. ss_dispatch any_credentials s3 = Some s4" by (auto simp: session_eval)
  then obtain s4 where s4: "ss_dispatch any_credentials s3 = Some s4" by blast
  have "logged_in = s4" using s3 s4 by (simp add: logged_in_def)
  then show ?thesis using ss_reach.dispatch[OF ss_reach.dispatch[OF 1 s3] s4] by simp
qed

theorem session_isolation_witness:
  "\<exists>s. ss_reach any_credentials s \<and> (\<exists>ord. (0, ord) \<in> set (ss_orders s) \<and> so_clientId ord = 42 \<and> (0, 42) \<in> ss_verified s)"
proof -
  define s where "s = ss_recv 0 buy_msg logged_in"
  have r: "ss_reach any_credentials s" unfolding s_def by (intro ss_reach.recv logged_in_reach)
  have "ss_orders s = [(0, \<lparr>so_clientId = 42, so_order = \<lparr>o_id = 1, o_ticker = makeTicker ''AAPL'', o_quantity = 5, o_price = 7, o_action = Buy\<rparr>\<rparr>)]"
    using logged_in_eval by (simp add: s_def ss_recv_def restricted_post_def session_post_def buy_msg_def)
  then show ?thesis using session_isolation[OF r] r by fastforce
qed

text \<open>A client that logs in and loses its upstream connection before it has bound a downstream channel
  makes the server dereference a null channel: from the initial state there is a run after which
  the handler of the channel event has no result.\<close>

theorem early_disconnect_crashes:
  "\<exists>s. ss_reach any_credentials s \<and> ss_dispatch any_credentials s = None"
proof -
  define s where "s = ss_ioError 0 logged_in"
  have "ss_reach any_credentials s" unfolding s_def by (intro ss_reach.ioError logged_in_reach)
  moreover have "ss_dispatch any_credentials s = None"
    using logged_in_eval by (simp add: s_def ss_ioError_def ss_dispatch_def session_status_def ns_postChannel_def upd_chan_def)
  ultimately show ?thesis by blast
qed

end
