(* ===== verification/Object_Bytes.thy ===== *)
theory Object_Bytes
  imports Domain_Types
begin

text \<open>
  Object representations on a little-endian machine: the bytes of integers and characters, as the
  code sees them through \<^verbatim>\<open>reinterpret_cast<uint8_t *>\<close> and \<^verbatim>\<open>memcpy\<close> when an object crosses a ring.
\<close>

definition le32 :: "u32 \<Rightarrow> u8 list" where
  "le32 w = [ucast w, ucast (drop_bit 8 w), ucast (drop_bit 16 w), ucast (drop_bit 24 w)]"

definition of_le32 :: "u8 list \<Rightarrow> u32" where
  "of_le32 b = ucast (b ! 0) OR push_bit 8 (ucast (b ! 1)) OR push_bit 16 (ucast (b ! 2)) OR push_bit 24 (ucast (b ! 3))"

definition char_byte :: "char \<Rightarrow> u8" where
  "char_byte c = of_nat (of_char c)"

definition byte_char :: "u8 \<Rightarrow> char" where
  "byte_char b = char_of (unat b)"

definition le64 :: "u64 \<Rightarrow> u8 list" where
  "le64 w = le32 (ucast w) @ le32 (ucast (drop_bit 32 w))"

definition of_le64 :: "u8 list \<Rightarrow> u64" where
  "of_le64 b = ucast (of_le32 b) OR push_bit 32 (ucast (of_le32 (drop 4 b)))"

lemma of_le32_le32: "of_le32 (le32 w @ xs) = w"
proof (rule bit_word_eqI)
  fix n assume "n < LENGTH(32)"
  then consider "n < 8" | "8 \<le> n" "n < 16" | "16 \<le> n" "n < 24" | "24 \<le> n" "n < 32" by fastforce
  then show "bit (of_le32 (le32 w @ xs)) n = bit w n"
    by cases (auto simp: of_le32_def le32_def bit_simps)
qed

lemma byte_char_byte: "byte_char (char_byte c) = c"
proof -
  have "of_char c < (256 :: nat)" by (simp add: of_char_le_255 le_less_trans)
  then have "unat (of_nat (of_char c) :: u8) = of_char c" by (simp add: unat_of_nat)
  then show ?thesis by (simp add: byte_char_def char_byte_def)
qed

lemma length_le32 [simp]: "length (le32 w) = 4"
  by (simp add: le32_def)

lemma length_le64 [simp]: "length (le64 w) = 8"
  by (simp add: le64_def)

lemma of_le64_le64: "of_le64 (le64 w @ xs) = w"
proof -
  have "of_le32 (le64 w @ xs) = ucast w" "of_le32 (drop 4 (le64 w @ xs)) = ucast (drop_bit 32 w)"
    by (simp_all add: le64_def of_le32_le32)
  moreover have "(ucast (ucast w :: u32) :: u64) OR push_bit 32 (ucast (ucast (drop_bit 32 w) :: u32)) = w"
  proof (rule bit_word_eqI)
    fix n assume "n < LENGTH(64)"
    then show "bit ((ucast (ucast w :: u32) :: u64) OR push_bit 32 (ucast (ucast (drop_bit 32 w) :: u32))) n = bit w n"
      by (cases "n < 32") (auto simp: bit_simps)
  qed
  ultimately show ?thesis by (simp add: of_le64_def)
qed

end
