(* ===== verification/Client_Connection.thy ===== *)
theory Client_Connection
  imports Session
begin

text \<open>
  The client's side of a TCP connection (\<^verbatim>\<open>client/src/connection\<close>): the login state machine of
  \<^verbatim>\<open>NetworkConnectionManager\<close> and the message types its three buses let through, and the composition
  with the server's sessions, which shows that the login handshake reaches an authenticated client.
  The transports handed over by \<^verbatim>\<open>BoostIpcClient\<close> are the endpoints of reliable FIFO links.
\<close>

section \<open>States and buses\<close>

datatype ConnectionState = CS_Disconnected | CS_Connected | CS_TokenReceived | CS_Authenticated

fun ConnectionState_toString :: "ConnectionState \<Rightarrow> string" where
  "ConnectionState_toString CS_Disconnected = ''disconnected''"
| "ConnectionState_toString CS_Connected = ''connected''"
| "ConnectionState_toString CS_TokenReceived = ''token received''"
| "ConnectionState_toString CS_Authenticated = ''authenticated''"

datatype ServerConnectionState = SC_Disconnected | SC_Connected | SC_Failed

fun ServerConnectionState_toString :: "ServerConnectionState \<Rightarrow> string" where
  "ServerConnectionState_toString SC_Disconnected = ''Disconnected from the server''"
| "ServerConnectionState_toString SC_Connected = ''Connected to the server''"
| "ServerConnectionState_toString SC_Failed = ''Failed to connect''"

datatype client_dir = CD_Upstream | CD_Downstream | CD_Datagram

fun client_bus_allows :: "client_dir \<Rightarrow> DomainMsg \<Rightarrow> bool" where
  "client_bus_allows CD_Upstream (M_Order _) \<longleftrightarrow> True"
| "client_bus_allows CD_Upstream (M_LoginResponse _) \<longleftrightarrow> True"
| "client_bus_allows CD_Downstream (M_OrderStatus _) \<longleftrightarrow> True"
| "client_bus_allows CD_Downstream (M_LoginResponse _) \<longleftrightarrow> True"
| "client_bus_allows CD_Datagram (M_TickerPrice _) \<longleftrightarrow> True"
| "client_bus_allows _ _ \<longleftrightarrow> False"

section \<open>NetworkConnectionManager\<close>

record NetworkConnectionManager =
  nc_upstream :: "ConnectionId option"
  nc_downstream :: "ConnectionId option"
  nc_prices :: "ConnectionId option"
  nc_token :: "Token option"
  nc_state :: ConnectionState
  nc_connCounter :: u64

datatype nc_out =
    NC_Write client_dir DomainMsg
  | NC_State ServerConnectionState

definition nc_new :: NetworkConnectionManager where
  "nc_new = \<lparr>nc_upstream = None, nc_downstream = None, nc_prices = None, nc_token = None,
     nc_state = CS_Disconnected, nc_connCounter = 0\<rparr>"

definition nc_genId :: "NetworkConnectionManager \<Rightarrow> ConnectionId \<times> NetworkConnectionManager" where
  "nc_genId m = (ucast (ucast (nc_connCounter m) :: u32), m\<lparr>nc_connCounter := nc_connCounter m + 1\<rparr>)"

definition tryAuthenticate :: "string \<Rightarrow> string \<Rightarrow> NetworkConnectionManager \<Rightarrow> NetworkConnectionManager \<times> nc_out list" where
  "tryAuthenticate name password m =
     (if nc_upstream m \<noteq> None \<and> nc_downstream m \<noteq> None
      then (m\<lparr>nc_state := CS_Connected\<rparr>, [NC_Write CD_Upstream (M_LoginRequest \<lparr>lr_name = name, lr_password = password\<rparr>)])
      else (m, []))"

definition nc_onUpstream :: "string \<Rightarrow> string \<Rightarrow> NetworkConnectionManager \<Rightarrow> NetworkConnectionManager \<times> nc_out list" where
  "nc_onUpstream name password m =
     (if nc_upstream m \<noteq> None then (m, [])
      else case nc_genId m of (cid, m) \<Rightarrow> tryAuthenticate name password (m\<lparr>nc_upstream := Some cid\<rparr>))"

definition nc_onDownstream :: "string \<Rightarrow> string \<Rightarrow> NetworkConnectionManager \<Rightarrow> NetworkConnectionManager \<times> nc_out list" where
  "nc_onDownstream name password m =
     (if nc_downstream m \<noteq> None then (m, [])
      else case nc_genId m of (cid, m) \<Rightarrow> tryAuthenticate name password (m\<lparr>nc_downstream := Some cid\<rparr>))"

definition nc_onDatagram :: "NetworkConnectionManager \<Rightarrow> NetworkConnectionManager" where
  "nc_onDatagram m = (case nc_genId m of (cid, m) \<Rightarrow> m\<lparr>nc_prices := Some cid\<rparr>)"

definition nc_reset :: "NetworkConnectionManager \<Rightarrow> NetworkConnectionManager \<times> nc_out list" where
  "nc_reset m =
     (m\<lparr>nc_token := None, nc_upstream := None, nc_downstream := None, nc_prices := None, nc_state := CS_Disconnected\<rparr>,
      [NC_State SC_Disconnected])"

definition nc_postConnection :: "ConnectionStatusEvent \<Rightarrow> NetworkConnectionManager \<Rightarrow> NetworkConnectionManager \<times> nc_out list" where
  "nc_postConnection ev m = (if cse_status ev \<noteq> Connected then nc_reset m else (m, []))"

text \<open>The token is stored before the state is looked at; a bind response overwrites it with itself. In
  the state \<^const>\<open>CS_Connected\<close> both channels exist, so the write to the downstream channel is safe.\<close>

definition nc_postLogin :: "LoginResponse \<Rightarrow> NetworkConnectionManager \<Rightarrow> NetworkConnectionManager \<times> nc_out list" where
  "nc_postLogin r m =
     (if \<not> lp_ok r then nc_reset m
      else
        let m = m\<lparr>nc_token := Some (lp_token r)\<rparr>
        in case nc_state m of
             CS_Connected \<Rightarrow>
               (m\<lparr>nc_state := CS_TokenReceived\<rparr>, [NC_Write CD_Downstream (M_TokenBindRequest \<lparr>tb_token = lp_token r\<rparr>)])
           | CS_TokenReceived \<Rightarrow> (m\<lparr>nc_state := CS_Authenticated\<rparr>, [NC_State SC_Connected])
           | _ \<Rightarrow> (m, []))"

definition nc_postOrder :: "Order \<Rightarrow> NetworkConnectionManager \<Rightarrow> nc_out list" where
  "nc_postOrder ord m = (if nc_upstream m \<noteq> None then [NC_Write CD_Upstream (M_Order ord)] else [])"

definition nc_close :: "NetworkConnectionManager \<Rightarrow> NetworkConnectionManager \<times> nc_out list" where
  "nc_close m = nc_reset m"

section \<open>The client's channels\<close>

text \<open>The manager's states reached by any order of callbacks and events.\<close>

inductive nc_reach :: "string \<Rightarrow> string \<Rightarrow> NetworkConnectionManager \<Rightarrow> bool" for name pw where
  init: "nc_reach name pw nc_new"
| up: "nc_reach name pw m \<Longrightarrow> nc_reach name pw (fst (nc_onUpstream name pw m))"
| down: "nc_reach name pw m \<Longrightarrow> nc_reach name pw (fst (nc_onDownstream name pw m))"
| datagram: "nc_reach name pw m \<Longrightarrow> nc_reach name pw (nc_onDatagram m)"
| status: "nc_reach name pw m \<Longrightarrow> nc_reach name pw (fst (nc_postConnection ev m))"
| login: "nc_reach name pw m \<Longrightarrow> nc_reach name pw (fst (nc_postLogin r m))"

definition nc_inv :: "NetworkConnectionManager \<Rightarrow> bool" where
  "nc_inv m \<longleftrightarrow> (nc_state m \<noteq> CS_Disconnected \<longrightarrow> nc_upstream m \<noteq> None \<and> nc_downstream m \<noteq> None) \<and>
     (nc_state m = CS_TokenReceived \<or> nc_state m = CS_Authenticated \<longrightarrow> nc_token m \<noteq> None)"

lemma nc_reach_inv: "nc_reach name pw m \<Longrightarrow> nc_inv m"
proof (induction rule: nc_reach.induct)
  case (login m r)
  then show ?case by (cases "nc_state m") (auto simp: nc_inv_def nc_postLogin_def nc_reset_def Let_def)
qed (auto simp: nc_inv_def nc_new_def nc_onUpstream_def nc_onDownstream_def nc_onDatagram_def nc_genId_def tryAuthenticate_def
    nc_postConnection_def nc_reset_def)

text \<open>So the write to the downstream channel that a login response triggers never meets a null channel.\<close>

lemma nc_bind_write_safe:
  assumes "nc_reach name pw m" "NC_Write d msg \<in> set (snd (nc_postLogin r m))"
  shows "d = CD_Downstream \<and> nc_downstream m \<noteq> None"
  using nc_reach_inv[OF assms(1)] assms(2)
  by (auto simp: nc_inv_def nc_postLogin_def nc_reset_def Let_def split: if_splits ConnectionState.splits)

section \<open>Client and server\<close>

text \<open>The server's handlers also write to the wire: the login and bind responses.\<close>

definition ss_wire :: "SessionSystem \<Rightarrow> wire" where
  "ss_wire s =
     (case ss_queue s of
        Q_Response r # _ \<Rightarrow> fst (ns_postLogin r (ss_mgr s))
      | Q_Msg (SM_Bind r) # _ \<Rightarrow> fst (ns_postBind r (ss_mgr s))
      | _ \<Rightarrow> [])"

record Net =
  nt_client :: NetworkConnectionManager
  nt_server :: SessionSystem
  nt_up :: ConnectionId
  nt_down :: ConnectionId
  nt_toServer :: "(client_dir \<times> DomainMsg) list"
  nt_toClient :: "(client_dir \<times> DomainMsg) list"
  nt_states :: "ServerConnectionState list"

fun nc_effect :: "nc_out \<Rightarrow> Net \<Rightarrow> Net" where
  "nc_effect (NC_Write d msg) n = n\<lparr>nt_toServer := nt_toServer n @ [(d, msg)]\<rparr>"
| "nc_effect (NC_State st) n = n\<lparr>nt_states := nt_states n @ [st]\<rparr>"

definition client_does :: "NetworkConnectionManager \<times> nc_out list \<Rightarrow> Net \<Rightarrow> Net" where
  "client_does r n = fold nc_effect (snd r) (n\<lparr>nt_client := fst r\<rparr>)"

definition net_connect :: "string \<Rightarrow> string \<Rightarrow> SessionSystem \<Rightarrow> Net" where
  "net_connect name password s =
     (let u = fst (genConnectionId (ss_mgr s));
          s1 = s\<lparr>ss_mgr := acceptUpstream (ss_mgr s)\<rparr>;
          d = fst (genConnectionId (ss_mgr s1));
          s2 = s1\<lparr>ss_mgr := acceptDownstream (ss_mgr s1)\<rparr>;
          n = \<lparr>nt_client = nc_new, nt_server = s2, nt_up = u, nt_down = d, nt_toServer = [], nt_toClient = [], nt_states = []\<rparr>;
          n = client_does (nc_onUpstream name password (nt_client n)) n
      in client_does (nc_onDownstream name password (nt_client n)) n)"

definition net_deliverServer :: "Net \<Rightarrow> Net" where
  "net_deliverServer n =
     (case nt_toServer n of
        [] \<Rightarrow> n
      | (d, msg) # rest \<Rightarrow>
          n\<lparr>nt_toServer := rest, nt_server := ss_recv (if d = CD_Upstream then nt_up n else nt_down n) msg (nt_server n)\<rparr>)"

definition net_dispatch :: "(string \<Rightarrow> string \<Rightarrow> StatusCode + ClientId) \<Rightarrow> Net \<Rightarrow> Net" where
  "net_dispatch check n =
     (case ss_dispatch check (nt_server n) of
        None \<Rightarrow> n
      | Some s \<Rightarrow>
          n\<lparr>nt_server := s,
            nt_toClient := nt_toClient n @
              map (\<lambda>(cid, msg). (if cid = nt_up n then CD_Upstream else CD_Downstream, msg))
                (filter (\<lambda>(cid, _). cid = nt_up n \<or> cid = nt_down n) (ss_wire (nt_server n)))\<rparr>)"

definition net_deliverClient :: "Net \<Rightarrow> Net" where
  "net_deliverClient n =
     (case nt_toClient n of
        (d, M_LoginResponse r) # rest \<Rightarrow>
          if client_bus_allows d (M_LoginResponse r)
          then client_does (nc_postLogin r (nt_client n)) (n\<lparr>nt_toClient := rest\<rparr>)
          else n\<lparr>nt_toClient := rest\<rparr>
      | _ # rest \<Rightarrow> n\<lparr>nt_toClient := rest\<rparr>
      | [] \<Rightarrow> n)"

text \<open>One exchange: the request travels to the server, is handled, and the response travels back. A login
  is handled by two tasks, the database check and the session manager.\<close>

definition net_login :: "(string \<Rightarrow> string \<Rightarrow> StatusCode + ClientId) \<Rightarrow> Net \<Rightarrow> Net" where
  "net_login check n = net_deliverClient (net_dispatch check (net_dispatch check (net_deliverServer n)))"

definition net_bind :: "(string \<Rightarrow> string \<Rightarrow> StatusCode + ClientId) \<Rightarrow> Net \<Rightarrow> Net" where
  "net_bind check n = net_deliverClient (net_dispatch check (net_deliverServer n))"

section \<open>The handshake\<close>

lemma find_snoc: "find P (xs @ [x]) = (case find P xs of Some y \<Rightarrow> Some y | None \<Rightarrow> if P x then Some x else None)"
  by (induction xs) auto

definition new_session :: "ClientId \<Rightarrow> Token \<Rightarrow> ConnectionId \<Rightarrow> Session" where
  "new_session c t u = \<lparr>se_clientId = c, se_token = t, se_upstream = u, se_downstream = None\<rparr>"

lemmas net_accept_defs = genConnectionId_def acceptUpstream_def acceptDownstream_def
lemmas net_client_defs = client_does_def nc_onUpstream_def nc_onDownstream_def nc_genId_def tryAuthenticate_def nc_new_def

text \<open>Both channels are accepted as unauthenticated and the client sends its credentials upstream.\<close>

lemma net_connect_state:
  fixes s name pw
  defines "m \<equiv> ss_mgr s"
  defines "u \<equiv> ns_connCounter m"
  defines "n \<equiv> net_connect name pw s"
  assumes room: "\<not> ns_stopRequested m" "length (ns_sessions m) < MAX_CONNECTIONS" and lt: "unat u < 2 ^ 32 - 2"
  shows "nt_up n = u" "nt_down n = u + 1" "nt_up n \<noteq> nt_down n"
    "nt_toServer n = [(CD_Upstream, M_LoginRequest \<lparr>lr_name = name, lr_password = pw\<rparr>)]" "nt_toClient n = []" "nt_states n = []"
    "nc_state (nt_client n) = CS_Connected" "nc_upstream (nt_client n) \<noteq> None" "nc_downstream (nt_client n) \<noteq> None"
    "ss_queue (nt_server n) = ss_queue s"
    "ns_chans (ss_mgr (nt_server n)) = (ns_chans m)(u \<mapsto> sc_new Upstream, u + 1 \<mapsto> sc_new Downstream)"
    "ns_unauthUp (ss_mgr (nt_server n)) = insert u (ns_unauthUp m)"
    "ns_unauthDown (ss_mgr (nt_server n)) = insert (u + 1) (ns_unauthDown m)"
    "ns_sessions (ss_mgr (nt_server n)) = ns_sessions m" "ns_tokenCounter (ss_mgr (nt_server n)) = ns_tokenCounter m"
    "ns_stopRequested (ss_mgr (nt_server n)) = False"
proof -
  have u1: "unat (u + 1) = unat u + 1" using lt by (simp add: unat_word_ariths)
  have cu: "(ucast (ucast u :: u32) :: u64) = u" and cd: "(ucast (ucast (u + 1) :: u32) :: u64) = u + 1"
    using lt u1 by (auto intro: ucast_token)
  have uu: "u \<noteq> u + 1" using u1 by auto
  note d = net_connect_def net_accept_defs net_client_defs m_def[symmetric] u_def[symmetric] cu cd Let_def not_le
  show "nt_up n = u" "nt_down n = u + 1" "nt_up n \<noteq> nt_down n"
    "nt_toServer n = [(CD_Upstream, M_LoginRequest \<lparr>lr_name = name, lr_password = pw\<rparr>)]" "nt_toClient n = []" "nt_states n = []"
    "nc_state (nt_client n) = CS_Connected" "nc_upstream (nt_client n) \<noteq> None" "nc_downstream (nt_client n) \<noteq> None"
    "ss_queue (nt_server n) = ss_queue s"
    "ns_chans (ss_mgr (nt_server n)) = (ns_chans m)(u \<mapsto> sc_new Upstream, u + 1 \<mapsto> sc_new Downstream)"
    "ns_unauthUp (ss_mgr (nt_server n)) = insert u (ns_unauthUp m)"
    "ns_unauthDown (ss_mgr (nt_server n)) = insert (u + 1) (ns_unauthDown m)"
    "ns_sessions (ss_mgr (nt_server n)) = ns_sessions m" "ns_tokenCounter (ss_mgr (nt_server n)) = ns_tokenCounter m"
    "ns_stopRequested (ss_mgr (nt_server n)) = False"
    using room uu by (simp_all add: n_def d)
qed

text \<open>The server checks the credentials, opens the session and answers with the token; the client sends the
  token downstream.\<close>

lemma net_login_state:
  fixes n name pw t check
  defines "m \<equiv> ss_mgr (nt_server n)"
  defines "n' \<equiv> net_login check n"
  assumes msgs: "nt_toServer n = [(CD_Upstream, M_LoginRequest \<lparr>lr_name = name, lr_password = pw\<rparr>)]" "nt_toClient n = []"
    and client: "nc_state (nt_client n) = CS_Connected"
    and chan: "ns_chans m (nt_up n) = Some (sc_new Upstream)" "nt_up n \<in> ns_unauthUp m" "ss_queue (nt_server n) = []"
    and srv: "\<not> ns_stopRequested m" "map_of (ns_sessions m) c = None" "check name pw = Inr c"
    and t: "t = ucast (ucast (ns_tokenCounter m) :: u32)"
  shows "nt_up n' = nt_up n" "nt_down n' = nt_down n" "nt_states n' = nt_states n"
    "nt_toServer n' = [(CD_Downstream, M_TokenBindRequest \<lparr>tb_token = t\<rparr>)]" "nt_toClient n' = []"
    "nc_state (nt_client n') = CS_TokenReceived" "ss_queue (nt_server n') = []"
    "ns_chans (ss_mgr (nt_server n')) = (ns_chans m)(nt_up n \<mapsto> (sc_new Upstream)\<lparr>sc_clientId := Some c\<rparr>)"
    "ns_unauthDown (ss_mgr (nt_server n')) = ns_unauthDown m" "ns_stopRequested (ss_mgr (nt_server n')) = False"
    "ns_sessions (ss_mgr (nt_server n')) = ns_sessions m @ [(c, new_session c t (nt_up n))]"
proof -
  define s1 where "s1 = nt_server (net_deliverServer n)"
  let ?req = "\<lparr>slr_connectionId = nt_up n, slr_request = \<lparr>lr_name = name, lr_password = pw\<rparr>\<rparr>"
  have n1: "net_deliverServer n = n\<lparr>nt_toServer := [], nt_server := s1\<rparr>"
    and s1: "s1 = (nt_server n)\<lparr>ss_queue := [Q_Msg (SM_Login ?req)]\<rparr>"
    using msgs chan by (simp_all add: s1_def net_deliverServer_def ss_recv_def m_def restricted_post_def session_post_def
        sc_isAuthenticated_def sc_new_def)
  let ?resp = "\<lparr>slp_connectionId = nt_up n, slp_clientId = c, slp_ok = True, slp_error = []\<rparr>"
  have resp: "auth_post check ?req = ?resp" using srv by (simp add: auth_post_def)
  define s2 where "s2 = s1\<lparr>ss_queue := [Q_Response ?resp], ss_verified := insert (nt_up n, c) (ss_verified s1)\<rparr>"
  have n2: "net_dispatch check (net_deliverServer n) = n\<lparr>nt_toServer := [], nt_server := s2\<rparr>"
    using msgs resp by (simp add: net_dispatch_def n1 s1 s2_def ss_dispatch_def ss_wire_def Let_def)
  have m2: "ss_mgr s2 = m" by (simp add: s2_def s1 m_def)
  define m3 where "m3 = snd (ns_postLogin ?resp m)"
  define s3 where "s3 = s2\<lparr>ss_queue := [], ss_mgr := m3\<rparr>"
  note pl = ns_postLogin_def Let_def genToken_def write_chan_def sc_writeLogin_def sc_new_def
  have w: "fst (ns_postLogin ?resp m) = [(nt_up n, M_LoginResponse \<lparr>lp_token = t, lp_ok = True, lp_error = []\<rparr>)]"
    using chan srv by (simp add: pl t)
  have n3: "net_dispatch check (net_dispatch check (net_deliverServer n)) = n\<lparr>nt_toServer := [], nt_server := s3,
      nt_toClient := [(CD_Upstream, M_LoginResponse \<lparr>lp_token = t, lp_ok = True, lp_error = []\<rparr>)]\<rparr>"
    using msgs w by (simp add: n2) (simp add: net_dispatch_def ss_dispatch_def ss_wire_def s2_def s3_def m2[unfolded s2_def] m3_def, simp add: s1 m_def)
  have c3: "ns_chans m3 = (ns_chans m)(nt_up n \<mapsto> (sc_new Upstream)\<lparr>sc_clientId := Some c\<rparr>)"
    "ns_unauthDown m3 = ns_unauthDown m" "ns_stopRequested m3 = False" "ns_sessions m3 = ns_sessions m @ [(c, new_session c t (nt_up n))]"
    using chan srv by (simp_all add: m3_def pl upd_chan_def sc_authenticate_def sc_isAuthenticated_def new_session_def t)
  note d = n'_def net_login_def n3 net_deliverClient_def client_does_def nc_postLogin_def Let_def s3_def
  show "nt_up n' = nt_up n" "nt_down n' = nt_down n" "nt_states n' = nt_states n"
    "nt_toServer n' = [(CD_Downstream, M_TokenBindRequest \<lparr>tb_token = t\<rparr>)]" "nt_toClient n' = []"
    "nc_state (nt_client n') = CS_TokenReceived" "ss_queue (nt_server n') = []"
    "ns_chans (ss_mgr (nt_server n')) = (ns_chans m)(nt_up n \<mapsto> (sc_new Upstream)\<lparr>sc_clientId := Some c\<rparr>)"
    "ns_unauthDown (ss_mgr (nt_server n')) = ns_unauthDown m" "ns_stopRequested (ss_mgr (nt_server n')) = False"
    "ns_sessions (ss_mgr (nt_server n')) = ns_sessions m @ [(c, new_session c t (nt_up n))]"
    using client c3 by (simp_all add: d)
qed

text \<open>The server finds the session by its token and binds the downstream channel.\<close>

lemma net_bind_state:
  fixes n t check
  defines "m \<equiv> ss_mgr (nt_server n)"
  defines "n' \<equiv> net_bind check n"
  assumes msgs: "nt_toServer n = [(CD_Downstream, M_TokenBindRequest \<lparr>tb_token = t\<rparr>)]" "nt_toClient n = []"
    and client: "nc_state (nt_client n) = CS_TokenReceived"
    and chan: "ns_chans m (nt_down n) = Some (sc_new Downstream)" "nt_down n \<in> ns_unauthDown m" "ss_queue (nt_server n) = []" "nt_up n \<noteq> nt_down n"
    and srv: "\<not> ns_stopRequested m" "ns_sessions m = ss @ [(c, new_session c t (nt_up n))]" "map_of ss c = None"
      "\<forall>(k, se) \<in> set ss. se_token se \<noteq> t"
  shows "nc_state (nt_client n') = CS_Authenticated" "nc_token (nt_client n') = Some t" "nt_states n' = nt_states n @ [SC_Connected]"
    "map_of (ns_sessions (ss_mgr (nt_server n'))) c = Some ((new_session c t (nt_up n))\<lparr>se_downstream := Some (nt_down n)\<rparr>)"
    "ns_chans (ss_mgr (nt_server n')) = (ns_chans m)(nt_down n \<mapsto> (sc_new Downstream)\<lparr>sc_clientId := Some c\<rparr>)"
proof -
  let ?req = "\<lparr>stb_connectionId = nt_down n, stb_request = \<lparr>tb_token = t\<rparr>\<rparr>"
  define s1 where "s1 = nt_server (net_deliverServer n)"
  have n1: "net_deliverServer n = n\<lparr>nt_toServer := [], nt_server := s1\<rparr>"
    and s1: "s1 = (nt_server n)\<lparr>ss_queue := [Q_Msg (SM_Bind ?req)]\<rparr>"
    using msgs chan by (simp_all add: s1_def net_deliverServer_def ss_recv_def m_def restricted_post_def session_post_def
        sc_isAuthenticated_def sc_new_def)
  have nf: "find (\<lambda>(k, se). se_token se = t) ss = None"
    using srv(4) by (auto simp: find_None_iff)
  have f: "find (\<lambda>(k, se). se_token se = t) (ns_sessions m) = Some (c, new_session c t (nt_up n))"
    using nf by (simp add: srv(2) find_snoc new_session_def)
  define m2 where "m2 = snd (ns_postBind ?req m)"
  note pb = ns_postBind_def Let_def write_chan_def sc_writeLogin_def f upd_chan_def sc_authenticate_def sc_isAuthenticated_def
  have dn: "se_downstream (new_session c t (nt_up n)) = None" "se_clientId (new_session c t (nt_up n)) = c" by (simp_all add: new_session_def)
  have w: "fst (ns_postBind ?req m) = [(nt_down n, M_LoginResponse \<lparr>lp_token = t, lp_ok = True, lp_error = []\<rparr>)]"
    using chan srv(1) dn by (simp add: pb) (simp add: sc_new_def)
  have c2: "ns_chans m2 = (ns_chans m)(nt_down n \<mapsto> (sc_new Downstream)\<lparr>sc_clientId := Some c\<rparr>)"
    "ns_sessions m2 = bind_session c (nt_down n) (ns_sessions m)"
    using chan srv(1) dn by (simp_all add: m2_def pb) (simp_all add: sc_new_def)
  have "map_of (bind_session c (nt_down n) ss) c = None"
    using srv(3) by (induction ss) (auto simp: bind_session_def split: if_splits)
  then have ms: "map_of (ns_sessions m2) c = Some ((new_session c t (nt_up n))\<lparr>se_downstream := Some (nt_down n)\<rparr>)"
    by (simp add: c2 srv(2)) (simp add: bind_session_def map_add_Some_iff)
  have n2: "net_dispatch check (net_deliverServer n) = n\<lparr>nt_toServer := [], nt_server := s1\<lparr>ss_queue := [], ss_mgr := m2\<rparr>,
      nt_toClient := [(CD_Downstream, M_LoginResponse \<lparr>lp_token = t, lp_ok = True, lp_error = []\<rparr>)]\<rparr>"
    using msgs w chan(4) by (simp add: net_dispatch_def n1 s1 ss_dispatch_def ss_wire_def m_def[symmetric] m2_def)
  note d = n'_def net_bind_def n2 net_deliverClient_def client_does_def nc_postLogin_def Let_def
  show "nc_state (nt_client n') = CS_Authenticated" "nc_token (nt_client n') = Some t" "nt_states n' = nt_states n @ [SC_Connected]"
    "map_of (ns_sessions (ss_mgr (nt_server n'))) c = Some ((new_session c t (nt_up n))\<lparr>se_downstream := Some (nt_down n)\<rparr>)"
    "ns_chans (ss_mgr (nt_server n')) = (ns_chans m)(nt_down n \<mapsto> (sc_new Downstream)\<lparr>sc_clientId := Some c\<rparr>)"
    using client ms c2 by (simp_all add: d)
qed

lemma nc_effects_ids:
  "nt_up (fold nc_effect os n) = nt_up n \<and> nt_down (fold nc_effect os n) = nt_down n"
proof (induction os arbitrary: n)
  case (Cons x os)
  then show ?case by (cases x) simp_all
qed simp

lemma nt_ids:
  "nt_up (net_deliverServer n) = nt_up n" "nt_down (net_deliverServer n) = nt_down n"
  "nt_up (net_dispatch check n) = nt_up n" "nt_down (net_dispatch check n) = nt_down n"
  "nt_up (net_deliverClient n) = nt_up n" "nt_down (net_deliverClient n) = nt_down n"
  by (simp_all add: net_deliverServer_def net_dispatch_def net_deliverClient_def client_does_def nc_effects_ids
      split: list.split option.split prod.split DomainMsg.split)

section \<open>Properties\<close>



text \<open>C24. The login handshake succeeds: a client with valid credentials that connects to a server with room for
  it ends authenticated and reports the connection exactly once, and the server has a session for
  it whose two channels are the client's and carry its id.\<close>

theorem login_handshake:
  assumes cred: "check name pw = Inr c"
    and srv: "\<not> ns_stopRequested (ss_mgr s)" "length (ns_sessions (ss_mgr s)) < MAX_CONNECTIONS" "ss_queue s = []"
    and fresh: "map_of (ns_sessions (ss_mgr s)) c = None" "unat (ns_connCounter (ss_mgr s)) < 2 ^ 32 - 2"
      "\<forall>(k, se) \<in> set (ns_sessions (ss_mgr s)). se_token se \<noteq> fst (genToken (ss_mgr s))"
  defines "n \<equiv> net_bind check (net_login check (net_connect name pw s))"
  shows "nc_state (nt_client n) = CS_Authenticated \<and> nt_states n = [SC_Connected] \<and>
    (\<exists>se up down. map_of (ns_sessions (ss_mgr (nt_server n))) c = Some se \<and> nc_token (nt_client n) = Some (se_token se) \<and>
      se_downstream se = Some (nt_down n) \<and> se_upstream se = nt_up n \<and>
      ns_chans (ss_mgr (nt_server n)) (nt_up n) = Some up \<and> sc_dir up = Upstream \<and> sc_clientId up = Some c \<and>
      ns_chans (ss_mgr (nt_server n)) (nt_down n) = Some down \<and> sc_dir down = Downstream \<and> sc_clientId down = Some c)"
proof -
  define n0 where "n0 = net_connect name pw s"
  define n1 where "n1 = net_login check n0"
  define t where "t = fst (genToken (ss_mgr s))"
  note c = net_connect_state[of s name pw, OF srv(1,2) fresh(2), folded n0_def]
  note ne = c(3)
  have t0: "t = ucast (ucast (ns_tokenCounter (ss_mgr (nt_server n0))) :: u32)" by (simp add: c(15) t_def genToken_def)
  have l1: "ns_chans (ss_mgr (nt_server n0)) (nt_up n0) = Some (sc_new Upstream)" "nt_up n0 \<in> ns_unauthUp (ss_mgr (nt_server n0))"
    "ss_queue (nt_server n0) = []" "\<not> ns_stopRequested (ss_mgr (nt_server n0))" "map_of (ns_sessions (ss_mgr (nt_server n0))) c = None"
    using c srv(3) fresh(1) by simp_all
  note l = net_login_state[where n = n0 and name = name and pw = pw and c = c and check = check and t = t, OF c(4) c(5) c(7) l1(1) l1(2) l1(3) l1(4) l1(5) cred t0, folded n1_def]
  have b1: "ns_chans (ss_mgr (nt_server n1)) (nt_down n1) = Some (sc_new Downstream)"
    using ne by (simp add: l(1,2,8) c(11)) (use c(1,2,3) in simp)
  have b2: "nt_down n1 \<in> ns_unauthDown (ss_mgr (nt_server n1))" by (simp add: l(2,9) c(13)) (simp add: c(2))
  have b3: "nt_up n1 \<noteq> nt_down n1" using ne by (simp add: l(1,2))
  have b4: "ns_sessions (ss_mgr (nt_server n1)) = ns_sessions (ss_mgr s) @ [(c, new_session c t (nt_up n1))]"
    by (simp add: l(1,11) c(14))
  have b5: "\<not> ns_stopRequested (ss_mgr (nt_server n1))" by (simp add: l(10))
  note b = net_bind_state[where n = n1 and t = t and ss = "ns_sessions (ss_mgr s)" and c = c and check = check, OF l(4) l(5) l(6) b1 b2 l(7) b3 b5 b4 fresh(1) fresh(3)[folded t_def]]
  have ids: "nt_up (net_bind check n1) = nt_up n1" "nt_down (net_bind check n1) = nt_down n1"
    by (simp_all add: net_bind_def nt_ids)
  have up: "ns_chans (ss_mgr (nt_server n1)) (nt_up n1) = Some ((sc_new Upstream)\<lparr>sc_clientId := Some c\<rparr>)"
    by (simp add: l(1,8))
  have n: "n = net_bind check n1" by (simp add: n_def n1_def n0_def)
  show ?thesis unfolding n ids using b b3 up l(3) c(6) by (simp add: new_session_def sc_new_def)
qed

theorem login_handshake_witness:
  "nc_state (nt_client (net_bind (\<lambda>_ _. Inr 42) (net_login (\<lambda>_ _. Inr 42) (net_connect ''bob'' ''pw'' ss_new)))) = CS_Authenticated \<and>
   nt_states (net_bind (\<lambda>_ _. Inr 42) (net_login (\<lambda>_ _. Inr 42) (net_connect ''bob'' ''pw'' ss_new))) = [SC_Connected]"
  using login_handshake[of "\<lambda>_ _. Inr 42" "''bob''" "''pw''" 42 ss_new]
  by (simp add: ss_new_def ns_new_def MAX_CONNECTIONS_def)

end
