(* ===== verification/Trusted_Session.thy ===== *)
theory Trusted_Session
  imports Object_Bytes Shm_Transport Client_Connection
begin

text \<open>
  Orders over shared memory: the managers for a trusted client,
  \<^verbatim>\<open>server/src/session/trusted_session_manager.hpp\<close> and
  \<^verbatim>\<open>client/src/connection/trusted_connection_manager.hpp\<close>, with the endpoints that open the two rings,
  \<^verbatim>\<open>ShmServer\<close> and \<^verbatim>\<open>ShmClient\<close>. Messages cross the ring as their object representation: the fields in
  little-endian order followed by three padding bytes of any value. The last section composes a
  client, the upstream ring and a server, and shows that orders arrive once, in order and intact.
\<close>

section \<open>Object representations\<close>

fun action_byte :: "OrderAction \<Rightarrow> u8" where
  "action_byte Dummy = 0"
| "action_byte Buy = 1"
| "action_byte Sell = 2"
| "action_byte Modify = 4"
| "action_byte Cancel = 8"

definition byte_action :: "u8 \<Rightarrow> OrderAction option" where
  "byte_action b =
     (if b = 0 then Some Dummy else if b = 1 then Some Buy else if b = 2 then Some Sell
      else if b = 4 then Some Modify else if b = 8 then Some Cancel else None)"

fun state_byte :: "OrderState \<Rightarrow> u8" where
  "state_byte Accepted = 0"
| "state_byte Rejected = 1"
| "state_byte Cancelled = 2"
| "state_byte Partial = 3"
| "state_byte Full = 4"

definition byte_state :: "u8 \<Rightarrow> OrderState option" where
  "byte_state b =
     (if b = 0 then Some Accepted else if b = 1 then Some Rejected else if b = 2 then Some Cancelled
      else if b = 3 then Some Partial else if b = 4 then Some Full else None)"

definition ORDER_SIZE :: nat where "ORDER_SIZE = 20"

definition order_bytes :: "u8 list \<Rightarrow> Order \<Rightarrow> u8 list" where
  "order_bytes pad ord =
     le32 (o_id ord) @ map char_byte (ticker_toString (o_ticker ord)) @ le32 (o_quantity ord) @ le32 (o_price ord) @
     [action_byte (o_action ord)] @ pad"

text \<open>The object in twenty bytes, \<^const>\<open>None\<close> when the action byte is no enumerator.\<close>

definition order_of_bytes :: "u8 list \<Rightarrow> Order option" where
  "order_of_bytes b =
     map_option (\<lambda>a. \<lparr>o_id = of_le32 b, o_ticker = Ticker (byte_char (b ! 4)) (byte_char (b ! 5)) (byte_char (b ! 6)) (byte_char (b ! 7)),
       o_quantity = of_le32 (drop 8 b), o_price = of_le32 (drop 12 b), o_action = a\<rparr>) (byte_action (b ! 16))"

definition status_bytes :: "u8 list \<Rightarrow> OrderStatus \<Rightarrow> u8 list" where
  "status_bytes pad st =
     le32 (os_orderId st) @ le32 (os_systemOrderId st) @ le32 (os_quantity st) @ le32 (os_fillPrice st) @
     [state_byte (os_state st)] @ pad"

definition status_of_bytes :: "u8 list \<Rightarrow> OrderStatus option" where
  "status_of_bytes b =
     map_option (\<lambda>s. \<lparr>os_orderId = of_le32 b, os_systemOrderId = of_le32 (drop 4 b), os_quantity = of_le32 (drop 8 b),
       os_fillPrice = of_le32 (drop 12 b), os_state = s\<rparr>) (byte_state (b ! 16))"

lemma byte_action_byte: "byte_action (action_byte a) = Some a"
  by (cases a) (simp_all add: byte_action_def)

lemma byte_state_byte: "byte_state (state_byte s) = Some s"
  by (cases s) (simp_all add: byte_state_def)

lemma length_order_bytes: "length pad = 3 \<Longrightarrow> length (order_bytes pad ord) = ORDER_SIZE"
  by (cases "o_ticker ord") (simp add: order_bytes_def le32_def ORDER_SIZE_def)

lemma order_of_order_bytes: "order_of_bytes (order_bytes pad ord @ rest) = Some ord"
proof (cases "o_ticker ord")
  case (Ticker a b c d)
  have l: "length (le32 w) = 4" for w by (simp add: le32_def)
  let ?bs = "order_bytes pad ord @ rest"
  have parts: "?bs = le32 (o_id ord) @ map char_byte [a, b, c, d] @ le32 (o_quantity ord) @ le32 (o_price ord) @
      [action_byte (o_action ord)] @ pad @ rest"
    using Ticker by (simp add: order_bytes_def)
  have "of_le32 ?bs = o_id ord" unfolding parts by (rule of_le32_le32)
  moreover have "drop 8 ?bs = le32 (o_quantity ord) @ le32 (o_price ord) @ [action_byte (o_action ord)] @ pad @ rest"
    "drop 12 ?bs = le32 (o_price ord) @ [action_byte (o_action ord)] @ pad @ rest"
    "?bs ! 16 = action_byte (o_action ord)"
    "?bs ! 4 = char_byte a" "?bs ! 5 = char_byte b" "?bs ! 6 = char_byte c" "?bs ! 7 = char_byte d"
    unfolding parts by (simp_all add: le32_def)
  ultimately show ?thesis using Ticker
    by (simp add: order_of_bytes_def byte_action_byte byte_char_byte of_le32_le32)
qed

lemma status_of_status_bytes: "status_of_bytes (status_bytes pad st) = Some st"
proof -
  have "drop 4 (status_bytes pad st) = le32 (os_systemOrderId st) @ le32 (os_quantity st) @ le32 (os_fillPrice st) @ [state_byte (os_state st)] @ pad"
    "drop 8 (status_bytes pad st) = le32 (os_quantity st) @ le32 (os_fillPrice st) @ [state_byte (os_state st)] @ pad"
    "drop 12 (status_bytes pad st) = le32 (os_fillPrice st) @ [state_byte (os_state st)] @ pad"
    "status_bytes pad st ! 16 = state_byte (os_state st)"
    by (simp_all add: status_bytes_def le32_def)
  moreover have "of_le32 (status_bytes pad st) = os_orderId st" unfolding status_bytes_def by (rule of_le32_le32)
  ultimately show ?thesis by (simp add: status_of_bytes_def byte_state_byte of_le32_le32)
qed

section \<open>TrustedSessionManager\<close>

text \<open>The upstream reader is named by its place in the reactor's store, the object under \<^verbatim>\<open>order_\<close> by its bytes.
  A write through a null channel is \<^const>\<open>None\<close>.\<close>

record TrustedSessionManager =
  ts_order :: "u8 list"
  ts_up :: "nat option"
  ts_down :: "ShmWriter option"
  ts_stopRequested :: bool

datatype ts_out = TS_Order ClientId "Order option" | TS_Error InternalError

type_synonym readers = "(nat \<Rightarrow> unit ShmReader) \<times> ShmReactor"

definition ts_new :: TrustedSessionManager where
  "ts_new = \<lparr>ts_order = replicate ORDER_SIZE 0, ts_up = None, ts_down = None, ts_stopRequested = False\<rparr>"

definition ts_acceptUpstream :: "nat \<Rightarrow> unit ShmReader \<Rightarrow> readers \<times> TrustedSessionManager \<Rightarrow> readers \<times> TrustedSessionManager" where
  "ts_acceptUpstream a t s =
     (case s of ((rs, rc), m) \<Rightarrow> (reader_asyncRx a (of_nat ORDER_SIZE) () (rs(a := fst (reader_move t)), rc), m\<lparr>ts_up := Some a\<rparr>))"

definition ts_acceptDownstream :: "ShmWriter \<Rightarrow> TrustedSessionManager \<Rightarrow> TrustedSessionManager" where
  "ts_acceptDownstream w m = m\<lparr>ts_down := Some w\<rparr>"

definition ts_close :: "readers \<times> TrustedSessionManager \<Rightarrow> readers \<times> TrustedSessionManager" where
  "ts_close s =
     (case s of ((rs, rc), m) \<Rightarrow>
        ((case ts_up m of None \<Rightarrow> rs | Some a \<Rightarrow> rs(a := snd (reader_close (rs a))), rc),
         m\<lparr>ts_down := map_option writer_close (ts_down m)\<rparr>))"

definition ts_postChannel :: "ChannelStatusEvent \<Rightarrow> readers \<times> TrustedSessionManager \<Rightarrow> readers \<times> TrustedSessionManager" where
  "ts_postChannel ev s =
     (if ts_stopRequested (snd s) then s
      else case cse_status (chse_event ev) of Connected \<Rightarrow> s | Disconnected \<Rightarrow> ts_close s | ConnError \<Rightarrow> ts_close s)"

text \<open>The reader has copied its data over the order object before it calls the handler.\<close>

definition ts_received :: "u8 list \<Rightarrow> TrustedSessionManager \<Rightarrow> TrustedSessionManager" where
  "ts_received data m = m\<lparr>ts_order := data @ drop (length data) (ts_order m)\<rparr>"

definition ts_postIo :: "IoResult \<Rightarrow> TrustedSessionManager \<Rightarrow> ts_out list" where
  "ts_postIo res m =
     (if ts_stopRequested m then []
      else if \<not> io_ok res then [TS_Error \<lparr>ie_code = SC_Error, ie_what = ''Failed to read from shm''\<rparr>]
      else [TS_Order 0 (order_of_bytes (ts_order m))])"

definition ts_postStatus ::
  "u8 list \<Rightarrow> (ShmQueue \<Rightarrow> ShmQueue) \<Rightarrow> ServerOrderStatus \<Rightarrow> ShmQueue \<Rightarrow> TrustedSessionManager \<Rightarrow> (ts_out list \<times> ShmQueue) option" where
  "ts_postStatus pad env status q m =
     (if ts_stopRequested m then Some ([], q)
      else case ts_down m of
             None \<Rightarrow> None
           | Some w \<Rightarrow>
               (case writer_syncTx env (status_bytes pad (sos_orderStatus status)) w q of
                  (res, woken, q') \<Rightarrow>
                    Some (if io_ok res then [] else [TS_Error \<lparr>ie_code = SC_Error, ie_what = ''Failed to write ServerOrderStatus to shm''\<rparr>], q')))"

section \<open>TrustedConnectionManager\<close>

record TrustedConnectionManager =
  tc_up :: "ShmWriter option"
  tc_down :: "nat option"
  tc_prices :: "nat option"
  tc_status :: "u8 list"

datatype tc_out = TC_Status "OrderStatus option" | TC_State ServerConnectionState

definition tc_new :: TrustedConnectionManager where
  "tc_new = \<lparr>tc_up = None, tc_down = None, tc_prices = None, tc_status = replicate 20 0\<rparr>"

definition tc_notify :: "TrustedConnectionManager \<Rightarrow> tc_out list" where
  "tc_notify m = (if tc_up m \<noteq> None \<and> tc_down m \<noteq> None then [TC_State SC_Connected] else [])"

definition tc_onUpstream :: "ShmWriter \<Rightarrow> TrustedConnectionManager \<Rightarrow> tc_out list \<times> TrustedConnectionManager" where
  "tc_onUpstream w m =
     (if tc_up m \<noteq> None then ([], m) else let m = m\<lparr>tc_up := Some w\<rparr> in (tc_notify m, m))"

definition tc_onDownstream :: "nat \<Rightarrow> unit ShmReader \<Rightarrow> readers \<times> TrustedConnectionManager \<Rightarrow> tc_out list \<times> readers \<times> TrustedConnectionManager" where
  "tc_onDownstream a t s =
     (case s of ((rs, rc), m) \<Rightarrow>
        if tc_down m \<noteq> None then ([], s)
        else let m = m\<lparr>tc_down := Some a\<rparr>
             in (tc_notify m, reader_asyncRx a 20 () (rs(a := fst (reader_move t)), rc), m))"

definition tc_onDatagram :: "nat \<Rightarrow> TrustedConnectionManager \<Rightarrow> TrustedConnectionManager" where
  "tc_onDatagram a m = (if tc_prices m \<noteq> None then m else m\<lparr>tc_prices := Some a\<rparr>)"

text \<open>\<^verbatim>\<open>reset\<close> closes the channels and keeps them.\<close>

definition close_reader :: "nat option \<Rightarrow> (nat \<Rightarrow> unit ShmReader) \<Rightarrow> nat \<Rightarrow> unit ShmReader" where
  "close_reader a rs = (case a of None \<Rightarrow> rs | Some a \<Rightarrow> rs(a := snd (reader_close (rs a))))"

definition tc_reset :: "readers \<times> TrustedConnectionManager \<Rightarrow> tc_out list \<times> readers \<times> TrustedConnectionManager" where
  "tc_reset s =
     (case s of ((rs, rc), m) \<Rightarrow>
        ([TC_State SC_Disconnected], (close_reader (tc_prices m) (close_reader (tc_down m) rs), rc),
         m\<lparr>tc_up := map_option writer_close (tc_up m)\<rparr>))"

definition tc_postIo :: "IoResult \<Rightarrow> readers \<times> TrustedConnectionManager \<Rightarrow> tc_out list \<times> readers \<times> TrustedConnectionManager" where
  "tc_postIo res s =
     (if io_code res = Io_Ok then ([TC_Status (status_of_bytes (tc_status (snd s)))], s) else tc_reset s)"

definition tc_postOrder ::
  "u8 list \<Rightarrow> (ShmQueue \<Rightarrow> ShmQueue) \<Rightarrow> Order \<Rightarrow> ShmQueue \<Rightarrow> readers \<times> TrustedConnectionManager \<Rightarrow>
     (bool \<times> ShmQueue \<times> tc_out list \<times> readers \<times> TrustedConnectionManager) option" where
  "tc_postOrder pad env ord q s =
     (case tc_up (snd s) of
        None \<Rightarrow> None
      | Some w \<Rightarrow>
          (case writer_syncTx env (order_bytes pad ord) w q of
             (res, woken, q') \<Rightarrow> Some (if io_ok res then (True, q', [], s) else (False, q', tc_reset s))))"

definition tc_postConnection :: "ConnectionStatusEvent \<Rightarrow> readers \<times> TrustedConnectionManager \<Rightarrow> tc_out list \<times> readers \<times> TrustedConnectionManager" where
  "tc_postConnection ev s = (if cse_status ev \<noteq> Connected then tc_reset s else ([], s))"

section \<open>ShmServer and ShmClient\<close>

text \<open>\<^verbatim>\<open>initialize\<close> opens both rings and hands the endpoints to the manager; \<^verbatim>\<open>run\<close> starts the reactor once.
  The result says whether the reactor thread was started, which posts \<^verbatim>\<open>ComponentReady\<close>.\<close>

definition shm_server_start ::
  "string \<Rightarrow> string \<Rightarrow> shm_files \<times> readers \<times> TrustedSessionManager \<Rightarrow> bool \<times> shm_files \<times> readers \<times> TrustedSessionManager" where
  "shm_server_start upName downName s =
     (case s of (fs, (rs, rc), m) \<Rightarrow>
        if rc_started rc then (False, s)
        else
          let fs1 = snd (shm_open upName fs);
              ((rs', rc'), m1) = ts_acceptUpstream 0 (reader_new (the (fs1 upName))) ((rs, rc), m);
              fs2 = snd (shm_open downName fs1);
              m2 = ts_acceptDownstream \<lparr>wr_closed = False\<rparr> m1;
              (started, rc2) = reactor_run rc'
          in (started, fs2, (rs', rc2), m2))"

definition shm_client_start ::
  "string \<Rightarrow> string \<Rightarrow> shm_files \<times> readers \<times> TrustedConnectionManager \<Rightarrow> bool \<times> tc_out list \<times> shm_files \<times> readers \<times> TrustedConnectionManager" where
  "shm_client_start upName downName s =
     (case s of (fs, rd, m) \<Rightarrow>
        let fs1 = snd (shm_open upName fs);
            (o1, m1) = tc_onUpstream \<lparr>wr_closed = False\<rparr> m;
            fs2 = snd (shm_open downName fs1);
            (o2, (rs', rc'), m2) = tc_onDownstream 0 (reader_new (the (fs2 downName))) (rd, m1);
            (started, rc2) = reactor_run rc'
        in (started, o1 @ o2, fs2, (rs', rc2), m2))"

section \<open>A client, the upstream ring and a server\<close>

record Trusted =
  tr_client :: TrustedConnectionManager
  tr_clientReaders :: readers
  tr_ring :: ShmQueue
  tr_server :: TrustedSessionManager
  tr_reader :: "unit ShmReader"
  tr_accepted :: "Order list"
  tr_out :: "ts_out list"

definition tr_start :: Trusted where
  "tr_start =
     (let q = shm_increment (shm_increment shm_new)
      in \<lparr>tr_client = snd (tc_onUpstream \<lparr>wr_closed = False\<rparr> tc_new), tr_clientReaders = (\<lambda>_. reader_new q, \<lparr>rc_readers = [], rc_started = True\<rparr>),
          tr_ring = q, tr_server = ts_new\<lparr>ts_up := Some 0, ts_down := Some \<lparr>wr_closed = False\<rparr>\<rparr>,
          tr_reader = (fst (reader_asyncRx 0 (of_nat ORDER_SIZE) () (\<lambda>_. reader_new q, \<lparr>rc_readers = [], rc_started = False\<rparr>))) 0,
          tr_accepted = [], tr_out = []\<rparr>)"

text \<open>The client posts an order; \<open>accepted\<close> collects those whose write succeeded.\<close>

definition tr_post :: "u8 list \<Rightarrow> Order \<Rightarrow> Trusted \<Rightarrow> Trusted" where
  "tr_post pad ord t =
     (case tc_postOrder pad (\<lambda>q. q) ord (tr_ring t) (tr_clientReaders t, tr_client t) of
        None \<Rightarrow> t
      | Some (sent, q, _, rd, m) \<Rightarrow>
          t\<lparr>tr_ring := q, tr_clientReaders := rd, tr_client := m, tr_accepted := tr_accepted t @ (if sent then [ord] else [])\<rparr>)"

fun tr_handle :: "unit option \<times> IoResult \<times> u8 list \<Rightarrow> Trusted \<Rightarrow> Trusted" where
  "tr_handle (_, res, data) t =
     (let m = ts_received data (tr_server t) in t\<lparr>tr_server := m, tr_out := tr_out t @ ts_postIo res m\<rparr>)"

text \<open>The server's reactor polls the reader, which reads the ring the client wrote.\<close>

definition tr_poll :: "Trusted \<Rightarrow> Trusted" where
  "tr_poll t =
     (case reader_poll ((tr_reader t)\<lparr>rd_shm := tr_ring t\<rparr>) of
        (_, calls, r) \<Rightarrow> fold tr_handle calls (t\<lparr>tr_reader := r, tr_ring := rd_shm r\<rparr>))"

inductive tr_reach :: "Trusted \<Rightarrow> bool" where
  start: "tr_reach tr_start"
| post: "tr_reach t \<Longrightarrow> length pad = 3 \<Longrightarrow> tr_reach (tr_post pad ord t)"
| poll: "tr_reach t \<Longrightarrow> tr_reach (tr_poll t)"

definition tr_inv :: "Trusted \<Rightarrow> bool" where
  "tr_inv t \<longleftrightarrow> spsc_inv 17 20 (sh_queue (tr_ring t)) \<and> (\<forall>b \<in> set (spsc_items 17 (sh_queue (tr_ring t))). length b = ORDER_SIZE) \<and>
     rd_state (tr_reader t) = RD_Active \<and> rd_bufSize (tr_reader t) = 20 \<and> \<not> ts_stopRequested (tr_server t) \<and>
     length (ts_order (tr_server t)) = ORDER_SIZE \<and>
     map (\<lambda>ord. TS_Order 0 (Some ord)) (tr_accepted t) =
       tr_out t @ map (\<lambda>b. TS_Order 0 (order_of_bytes b)) (spsc_items 17 (sh_queue (tr_ring t)))"

lemma tr_inv_start: "tr_inv tr_start"
  using spsc_new_inv[of 17 20]
  by (simp add: tr_inv_def tr_start_def Let_def shm_increment_def shm_new_def reader_asyncRx_def reader_new_def ts_new_def ORDER_SIZE_def)

lemma shm_notify_queue [simp]: "sh_queue (snd (shm_notify q)) = sh_queue q"
  by (simp add: shm_notify_def Let_def)

lemma shm_tx_law:
  assumes "spsc_inv 17 mx (sh_queue q)" "spsc_msg_ok mx b"
  shows "case writer_syncTx (\<lambda>q. q) b wr q of (r, woken, q') \<Rightarrow> spsc_inv 17 mx (sh_queue q') \<and>
    spsc_items 17 (sh_queue q') = spsc_items 17 (sh_queue q) @ (if io_ok r then [b] else []) \<and>
    (io_ok r \<longleftrightarrow> \<not> wr_closed wr \<and> length (spsc_items 17 (sh_queue q)) < 2 ^ 17)"
proof -
  obtain ok sq where w: "spsc_write SHM_K b (sh_queue q) = (ok, sq)" by (metis prod.exhaust)
  have law: "spsc_inv 17 mx sq" "spsc_items 17 sq = spsc_items 17 (sh_queue q) @ (if ok then [b] else [])"
    "ok \<longleftrightarrow> length (spsc_items 17 (sh_queue q)) < 2 ^ 17"
    using shm_ring.write_law[OF assms] w by (auto simp: SHM_K_def)
  show ?thesis
  proof (cases ok)
    case True
    then show ?thesis using law assms(1) shm_tx_ok[of b q sq "\<lambda>q. q"] w
      by (simp add: writer_syncTx_def io_ok_def shm_notify_def Let_def)
  next
    case False
    then show ?thesis using law assms(1) shm_tx_refused[of b q sq "\<lambda>q. q"] w
      by (simp add: writer_syncTx_def io_ok_def)
  qed
qed

lemma tr_inv_post:
  assumes inv: "tr_inv t" and pad: "length pad = 3"
  shows "tr_inv (tr_post pad ord t)"
proof (cases "tc_up (tr_client t)")
  case (Some wr)
  have "spsc_msg_ok 20 (order_bytes pad ord)"
    using length_order_bytes[OF pad, of ord] by (simp add: spsc_msg_ok_def ORDER_SIZE_def MAX_DATA_SIZE_def)
  note law = shm_tx_law[of 20 "tr_ring t", OF _ this, of wr]
  have "order_of_bytes (order_bytes pad ord) = Some ord" using order_of_order_bytes[of pad ord "[]"] by simp
  then show ?thesis using inv law Some length_order_bytes[OF pad, of ord]
    by (auto simp: tr_post_def tc_postOrder_def tr_inv_def tc_reset_def split: prod.splits)
qed (use inv in \<open>simp add: tr_post_def tc_postOrder_def\<close>)

lemma tr_poll_law:
  assumes inv: "tr_inv t"
  shows "tr_inv (tr_poll t) \<and> spsc_items 17 (sh_queue (tr_ring (tr_poll t))) = tl (spsc_items 17 (sh_queue (tr_ring t))) \<and>
    tr_accepted (tr_poll t) = tr_accepted t"
proof -
  let ?q = "sh_queue (tr_ring t)"
  obtain bytes data sq where r: "spsc_read SHM_K 20 ?q = (bytes, data, sq)" by (metis prod.exhaust)
  have m: "spsc_read_msg 17 20 ?q = ((if bytes = 0 then None else Some data), sq)"
    using r by (simp add: spsc_read_msg_def SHM_K_def)
  have law: "spsc_inv 17 20 sq" "(if bytes = 0 then None else Some data) = (case spsc_items 17 ?q of [] \<Rightarrow> None | x # xs \<Rightarrow> Some x)"
    "spsc_items 17 sq = tl (spsc_items 17 ?q)"
    using shm_ring.read_law[OF _ m] inv by (simp_all add: tr_inv_def)
  show ?thesis
  proof (cases "spsc_items 17 ?q")
    case Nil
    then have "bytes = 0" using law(2) by (simp split: if_splits)
    then show ?thesis using law inv r Nil by (simp add: tr_poll_def tr_inv_def reader_poll_def Let_def)
  next
    case (Cons x xs)
    then have d: "bytes \<noteq> 0" "data = x" using law(2) by (auto split: if_splits)
    have "length x = ORDER_SIZE" using inv Cons by (simp add: tr_inv_def)
    then have "x @ drop (length x) (ts_order (tr_server t)) = x" using inv by (simp add: tr_inv_def)
    then show ?thesis using law inv r d Cons \<open>length x = ORDER_SIZE\<close>
      by (simp add: tr_poll_def tr_inv_def reader_poll_def Let_def ts_postIo_def ts_received_def io_ok_def)
  qed
qed

lemma tr_reach_inv: "tr_reach t \<Longrightarrow> tr_inv t"
  by (induction rule: tr_reach.induct) (simp_all add: tr_inv_start tr_inv_post tr_poll_law)

text \<open>C25. Over shared memory, in every state reached by any interleaving of client posts and server polls, the
  server has posted exactly the orders whose write succeeded, intact, in order and without
  duplicates, apart from a suffix that is still stored in the ring.\<close>

theorem trusted_orders_in_order:
  assumes "tr_reach t"
  shows "\<exists>pending. map (\<lambda>ord. TS_Order 0 (Some ord)) (tr_accepted t) = tr_out t @ pending \<and>
    length pending = length (spsc_items 17 (sh_queue (tr_ring t)))"
  using tr_reach_inv[OF assms] by (auto simp: tr_inv_def)

theorem trusted_orders_in_order_witness:
  "\<exists>t. tr_reach t \<and> tr_out t = [TS_Order 0 (Some \<lparr>o_id = 1, o_ticker = makeTicker ''AAPL'', o_quantity = 5, o_price = 7, o_action = Buy\<rparr>)]"
proof -
  define ord where "ord = \<lparr>o_id = 1, o_ticker = makeTicker ''AAPL'', o_quantity = 5, o_price = 7, o_action = Buy\<rparr>"
  define t1 where "t1 = tr_post [0, 0, 0] ord tr_start"
  define t where "t = tr_poll t1"
  have r1: "tr_reach t1" unfolding t1_def by (intro tr_reach.intros) simp
  then have r: "tr_reach t" unfolding t_def by (rule tr_reach.poll)
  let ?q = "tr_ring tr_start"
  have up: "tc_up (tr_client tr_start) = Some \<lparr>wr_closed = False\<rparr>"
    by (simp add: tr_start_def Let_def tc_onUpstream_def tc_new_def)
  have q0: "spsc_inv 17 20 (sh_queue ?q)" "spsc_items 17 (sh_queue ?q) = []" "tr_accepted tr_start = []"
    using spsc_new_inv[of 17 20] by (simp_all add: tr_start_def Let_def shm_increment_def shm_new_def)
  have "spsc_msg_ok 20 (order_bytes [0, 0, 0] ord)"
    using length_order_bytes[of "[0, 0, 0]" ord] by (simp add: spsc_msg_ok_def ORDER_SIZE_def MAX_DATA_SIZE_def)
  from shm_tx_law[OF q0(1) this, of "\<lparr>wr_closed = False\<rparr>"] q0
  have a1: "tr_accepted t1 = [ord]" "length (spsc_items 17 (sh_queue (tr_ring t1))) = 1"
    by (auto simp: t1_def tr_post_def tc_postOrder_def up split: prod.splits)
  have "tr_accepted t = [ord]" "length (spsc_items 17 (sh_queue (tr_ring t))) = 0"
    using tr_poll_law[OF tr_reach_inv[OF r1]] a1 by (simp_all add: t_def)
  then have "tr_out t = [TS_Order 0 (Some ord)]" using trusted_orders_in_order[OF r] by simp
  then show ?thesis using r ord_def by blast
qed

end
