(* ===== verification/Telemetry.thy ===== *)
theory Telemetry
  imports Object_Bytes Text_Utils Shm_Transport
begin

text \<open>
  Telemetry: the packed message of \<^verbatim>\<open>telemetry_types.hpp\<close> with its 48-byte union, the constructors of
  \<^verbatim>\<open>telemetry_utils.hpp\<close>, the adapter that sends messages through a shared ring, the latency
  histogram \<^verbatim>\<open>RttTracker\<close> and the monitor's \<^verbatim>\<open>LatencyTracker\<close>. A fresh message has an indeterminate union,
  the argument \<open>junk\<close>. The product of a cycle count with \<^verbatim>\<open>nsPerCycle\<close> is a double; its conversion to
  nanoseconds is the parameter \<open>toNs\<close>. The percentages and averages of the printed histogram are
  doubles as well and are left out.
\<close>

section \<open>Messages\<close>

datatype Source = Src_Server | Src_Client

datatype TelemetryType = Tm_Startup | Tm_OrderLatency | Tm_Runtime | Tm_Profiling | Tm_Log

record TelemetryMsg =
  tm_type :: TelemetryType
  tm_source :: Source
  tm_componentId :: u16
  tm_data :: "u8 list"

text \<open>The union's members, by their offsets in the packed structure.\<close>

definition init_pid :: "u8 list \<Rightarrow> u32" where "init_pid d = of_le32 d"
definition init_coreId :: "u8 list \<Rightarrow> u32" where "init_coreId d = of_le32 (drop 4 d)"
definition init_buildInfo :: "u8 list \<Rightarrow> string" where "init_buildInfo d = map byte_char (take 40 (drop 8 d))"
definition ord_id :: "u8 list \<Rightarrow> u32" where "ord_id d = of_le32 d"
definition ord_created :: "u8 list \<Rightarrow> u64" where "ord_created d = of_le64 (drop 4 d)"
definition ord_fulfilled :: "u8 list \<Rightarrow> u64" where "ord_fulfilled d = of_le64 (drop 12 d)"
definition ord_notified :: "u8 list \<Rightarrow> u64" where "ord_notified d = of_le64 (drop 20 d)"
definition ord_ordersPlaced :: "u8 list \<Rightarrow> u64" where "ord_ordersPlaced d = of_le64 (drop 28 d)"
definition ord_ordersFulfilled :: "u8 list \<Rightarrow> u64" where "ord_ordersFulfilled d = of_le64 (drop 36 d)"
definition met_ts :: "u8 list \<Rightarrow> u64" where "met_ts d = of_le64 d"
definition met_rps :: "u8 list \<Rightarrow> u64" where "met_rps d = of_le64 (drop 8 d)"
definition met_avgLatNs :: "u8 list \<Rightarrow> u64" where "met_avgLatNs d = of_le64 (drop 16 d)"
definition prof_field :: "nat \<Rightarrow> u8 list \<Rightarrow> u64" where "prof_field i d = of_le64 (drop (8 * i) d)"
definition log_level :: "u8 list \<Rightarrow> u8" where "log_level d = d ! 0"
definition log_msg :: "u8 list \<Rightarrow> string" where "log_msg d = map byte_char (take 47 (drop 1 d))"

text \<open>\<^verbatim>\<open>strncpy(dst, src, n - 1)\<close> followed by \<^verbatim>\<open>dst[n - 1] = 0\<close> for a C string \<open>src\<close>.\<close>

definition strncpy :: "nat \<Rightarrow> string \<Rightarrow> u8 list" where
  "strncpy n src = (let s = take (n - 1) (fromArray src) in map char_byte s @ replicate (n - length s) 0)"

definition createBaseMsg :: "u8 list \<Rightarrow> TelemetryType \<Rightarrow> Source \<Rightarrow> u16 \<Rightarrow> TelemetryMsg" where
  "createBaseMsg junk ty src compId = \<lparr>tm_type = ty, tm_source = src, tm_componentId = compId, tm_data = junk\<rparr>"

definition put :: "u8 list \<Rightarrow> TelemetryMsg \<Rightarrow> TelemetryMsg" where
  "put bs msg = msg\<lparr>tm_data := bs @ drop (length bs) (tm_data msg)\<rparr>"

definition createStartupMsg :: "u8 list \<Rightarrow> Source \<Rightarrow> u16 \<Rightarrow> u32 \<Rightarrow> u32 \<Rightarrow> string \<Rightarrow> TelemetryMsg" where
  "createStartupMsg junk src compId pid coreId build =
     put (le32 pid @ le32 coreId @ strncpy 40 build) (createBaseMsg junk Tm_Startup src compId)"

definition createOrderLatencyMsg ::
  "u8 list \<Rightarrow> Source \<Rightarrow> u16 \<Rightarrow> u32 \<Rightarrow> u64 \<Rightarrow> u64 \<Rightarrow> u64 \<Rightarrow> u64 \<Rightarrow> u64 \<Rightarrow> TelemetryMsg" where
  "createOrderLatencyMsg junk src compId oid start fulfilled notified placed fulf =
     put (le32 oid @ le64 start @ le64 fulfilled @ le64 notified @ le64 placed @ le64 fulf)
       (createBaseMsg junk Tm_OrderLatency src compId)"

definition createRuntimeMsg :: "u8 list \<Rightarrow> Source \<Rightarrow> u16 \<Rightarrow> u64 \<Rightarrow> u64 \<Rightarrow> u64 \<Rightarrow> TelemetryMsg" where
  "createRuntimeMsg junk src compId ts rps avgLatNs =
     put (le64 ts @ le64 rps @ le64 avgLatNs) (createBaseMsg junk Tm_Runtime src compId)"

definition createProfilingMsg :: "u8 list \<Rightarrow> Source \<Rightarrow> u16 \<Rightarrow> u64 \<Rightarrow> u64 \<Rightarrow> u64 \<Rightarrow> u64 \<Rightarrow> TelemetryMsg" where
  "createProfilingMsg junk src compId spins wait wake maxCall =
     put (le64 spins @ le64 wait @ le64 wake @ le64 maxCall) (createBaseMsg junk Tm_Profiling src compId)"

definition createLogMsg :: "u8 list \<Rightarrow> Source \<Rightarrow> u16 \<Rightarrow> u8 \<Rightarrow> string \<Rightarrow> TelemetryMsg" where
  "createLogMsg junk src compId level txt =
     put (level # strncpy 47 txt) (createBaseMsg junk Tm_Log src compId)"

definition TelemetryMsg_toString :: "TelemetryMsg \<Rightarrow> string" where
  "TelemetryMsg_toString msg =
     (let header = ''Source:'' @ (if tm_source msg = Src_Server then ''Server'' else ''Client'') @ '' | ''; d = tm_data msg
      in header @ (case tm_type msg of
           Tm_Startup \<Rightarrow> ''Startup: Pid:'' @ show_word (init_pid d) @ '' Core:'' @ show_word (init_coreId d) @
             '' Build:'' @ fromArray (init_buildInfo d)
         | Tm_OrderLatency \<Rightarrow> ''Order: ID:'' @ show_word (ord_id d) @ '' Created:'' @ show_word (ord_created d) @
             '' Fulfilled:'' @ show_word (ord_fulfilled d) @ '' Notified:'' @ show_word (ord_notified d) @
             '' Placed:'' @ show_word (ord_ordersPlaced d) @ '' Fulfilled:'' @ show_word (ord_ordersFulfilled d)
         | Tm_Runtime \<Rightarrow> ''Metrics: TS:'' @ show_word (met_ts d) @ '' RPS:'' @ show_word (met_rps d) @
             '' AvgLat:'' @ show_word (met_avgLatNs d) @ ''ns''
         | Tm_Profiling \<Rightarrow> ''Profiling: Spins:'' @ show_word (prof_field 0 d) @ '' FtxWait:'' @ show_word (prof_field 1 d) @
             '' FtxWake:'' @ show_word (prof_field 2 d) @ '' MaxCall:'' @ show_word (prof_field 3 d) @ ''ns''
         | Tm_Log \<Rightarrow> ''LOG: Level:'' @ show_word (log_level d) @ '' Msg:'' @ fromArray (log_msg d)))"

section \<open>The wire form and the adapter\<close>

fun type_byte :: "TelemetryType \<Rightarrow> u8" where
  "type_byte Tm_Startup = 0"
| "type_byte Tm_OrderLatency = 1"
| "type_byte Tm_Runtime = 2"
| "type_byte Tm_Profiling = 3"
| "type_byte Tm_Log = 4"

definition byte_type :: "u8 \<Rightarrow> TelemetryType option" where
  "byte_type b =
     (if b = 0 then Some Tm_Startup else if b = 1 then Some Tm_OrderLatency else if b = 2 then Some Tm_Runtime
      else if b = 3 then Some Tm_Profiling else if b = 4 then Some Tm_Log else None)"

fun source_byte :: "Source \<Rightarrow> u8" where
  "source_byte Src_Server = 0"
| "source_byte Src_Client = 1"

definition telemetry_bytes :: "TelemetryMsg \<Rightarrow> u8 list" where
  "telemetry_bytes msg =
     [type_byte (tm_type msg), source_byte (tm_source msg), ucast (tm_componentId msg), ucast (drop_bit 8 (tm_componentId msg))] @ tm_data msg"

text \<open>The object in 52 bytes, \<^const>\<open>None\<close> when the type or the source is no enumerator.\<close>

definition telemetry_of_bytes :: "u8 list \<Rightarrow> TelemetryMsg option" where
  "telemetry_of_bytes b =
     (case byte_type (b ! 0) of
        None \<Rightarrow> None
      | Some ty \<Rightarrow>
          if b ! 1 > 1 then None
          else Some \<lparr>tm_type = ty, tm_source = (if b ! 1 = 0 then Src_Server else Src_Client),
                     tm_componentId = ucast (b ! 2) OR push_bit 8 (ucast (b ! 3)), tm_data = take 48 (drop 4 b)\<rparr>)"

record TelemetryAdapter =
  ta_producer :: bool
  ta_msg :: "u8 list"
  ta_transport :: "unit ShmTransport"

definition ta_new :: "bool \<Rightarrow> ShmQueue \<Rightarrow> TelemetryAdapter" where
  "ta_new producer q =
     \<lparr>ta_producer = producer, ta_msg = replicate 52 0,
      ta_transport = (if producer then TWriter \<lparr>wr_closed = False\<rparr> else TReader (reader_new q))\<rparr>"

definition ta_start :: "TelemetryAdapter \<Rightarrow> TelemetryAdapter" where
  "ta_start a =
     (if ta_producer a then a
      else case ta_transport a of
             TReader r \<Rightarrow>
               a\<lparr>ta_transport := TReader (if rd_state r \<noteq> RD_Ready then r
                  else r\<lparr>rd_bufSize := 52, rd_clb := Some (), rd_state := RD_Active\<rparr>)\<rparr>
           | TWriter w \<Rightarrow> a)"

definition ta_close :: "TelemetryAdapter \<Rightarrow> TelemetryAdapter" where
  "ta_close a = a\<lparr>ta_transport := transport_close (ta_transport a)\<rparr>"

text \<open>A failed write is logged and forgotten.\<close>

definition ta_postMsg :: "(ShmQueue \<Rightarrow> ShmQueue) \<Rightarrow> TelemetryMsg \<Rightarrow> ShmQueue \<Rightarrow> TelemetryAdapter \<Rightarrow> bool \<times> ShmQueue" where
  "ta_postMsg env msg q a =
     (case transport_syncTx env (telemetry_bytes msg) (ta_transport a) q of (res, _, q') \<Rightarrow> (io_ok res, q'))"

definition ta_received :: "u8 list \<Rightarrow> TelemetryAdapter \<Rightarrow> TelemetryAdapter" where
  "ta_received data a = a\<lparr>ta_msg := data @ drop (length data) (ta_msg a)\<rparr>"

definition ta_postIo :: "IoResult \<Rightarrow> TelemetryAdapter \<Rightarrow> TelemetryMsg option list" where
  "ta_postIo res a = (if \<not> io_ok res then [] else [telemetry_of_bytes (ta_msg a)])"

section \<open>RttTracker\<close>

record RttStats =
  rt_samples :: "(u64 \<times> u64) list"
  rt_globalMax :: u64

definition rtt_new :: "u64 list \<Rightarrow> RttStats" where
  "rtt_new ranges = \<lparr>rt_samples = replicate (length ranges + 1) (0, 0), rt_globalMax = 0\<rparr>"

text \<open>The bucket is counted in eight bits.\<close>

definition getRange :: "u64 list \<Rightarrow> u64 \<Rightarrow> u8" where
  "getRange ranges ns = fold (\<lambda>r bucket. bucket + (if ns \<ge> r then 1 else 0)) ranges 0"

definition logRtt :: "u64 list \<Rightarrow> u64 \<Rightarrow> RttStats \<Rightarrow> RttStats" where
  "logRtt ranges ns s =
     (let bucket = unat (getRange ranges ns); (total, size) = rt_samples s ! bucket
      in \<lparr>rt_samples = (rt_samples s)[bucket := (total + ns, size + 1)],
          rt_globalMax = (if ns > rt_globalMax s then ns else rt_globalMax s)\<rparr>)"

definition getStats :: "RttStats \<Rightarrow> RttStats" where
  "getStats s = \<lparr>rt_samples = map (\<lambda>i. rt_samples s ! i) [0..<length (rt_samples s)], rt_globalMax = rt_globalMax s\<rparr>"

definition rtt_volume :: "RttStats \<Rightarrow> u64" where
  "rtt_volume s = fold (\<lambda>(_, size) total. total + size) (rt_samples s) 0"

definition rtt_reset :: "RttStats \<Rightarrow> RttStats" where
  "rtt_reset s = \<lparr>rt_samples = map (\<lambda>_. (0, 0)) (rt_samples s), rt_globalMax = 0\<rparr>"

text \<open>The micro sign is two bytes in UTF-8.\<close>

definition toScale :: "u64 \<Rightarrow> string" where
  "toScale ns =
     (if ns < 1000 then show_word ns @ ''ns''
      else if ns < 1000000 then show_word (ns div 1000) @ [CHR 0xC2, CHR 0xB5] @ ''s''
      else if ns < 1000000000 then show_word (ns div 1000000) @ ''ms''
      else show_word (ns div 1000000000) @ ''s'')"

section \<open>LatencyTracker\<close>

definition lt_post :: "(u64 \<Rightarrow> u64) \<Rightarrow> u64 list \<Rightarrow> TelemetryMsg \<Rightarrow> RttStats \<Rightarrow> RttStats" where
  "lt_post toNs ranges msg s =
     (case tm_type msg of
        Tm_OrderLatency \<Rightarrow> logRtt ranges (toNs (ord_notified (tm_data msg) - ord_created (tm_data msg))) s
      | _ \<Rightarrow> s)"

text \<open>The timer: the requests per second that are printed, and the cleared histogram. A rate of zero divides by zero, the value
  \<^verbatim>\<open>None\<close>.\<close>

definition lt_onTimer :: "u64 \<Rightarrow> RttStats \<Rightarrow> (u64 option \<times> RttStats) option" where
  "lt_onTimer monitorRate s =
     (let stats = getStats s; volume = rtt_volume stats
      in if volume \<noteq> 0
         then if monitorRate = 0 then None else Some (Some (volume * 1000 div monitorRate), rtt_reset s)
         else Some (None, s))"

section \<open>Messages survive the ring\<close>

lemma byte_type_byte: "byte_type (type_byte t) = Some t"
  by (cases t) (simp_all add: byte_type_def)

lemma ucast16_bytes: "ucast (ucast w :: u8) OR push_bit 8 (ucast (ucast (drop_bit 8 w) :: u8)) = (w :: u16)"
proof (rule bit_word_eqI)
  fix n assume "n < LENGTH(16)"
  then show "bit ((ucast (ucast w :: u8) :: u16) OR push_bit 8 (ucast (ucast (drop_bit 8 w) :: u8))) n = bit w n"
    by (cases "n < 8") (auto simp: bit_simps)
qed

lemma telemetry_of_telemetry_bytes:
  assumes "length (tm_data msg) = 48"
  shows "telemetry_of_bytes (telemetry_bytes msg) = Some msg"
proof -
  have src: "(if source_byte (tm_source msg) = 0 then Src_Server else Src_Client) = tm_source msg" "\<not> source_byte (tm_source msg) > 1"
    by (cases "tm_source msg"; simp)+
  show ?thesis using assms src by (simp add: telemetry_of_bytes_def telemetry_bytes_def byte_type_byte ucast16_bytes)
qed

lemma latency_fields:
  fixes junk src compId oid c f n p fu
  defines "d \<equiv> tm_data (createOrderLatencyMsg junk src compId oid c f n p fu)"
  shows "ord_id d = oid" "ord_created d = c" "ord_fulfilled d = f" "ord_notified d = n" "ord_ordersPlaced d = p" "ord_ordersFulfilled d = fu"
proof -
  define r where "r = drop 44 junk"
  have d: "d = le32 oid @ le64 c @ le64 f @ le64 n @ le64 p @ le64 fu @ r"
    by (simp add: d_def createOrderLatencyMsg_def put_def createBaseMsg_def r_def)
  have parts: "drop 4 d = le64 c @ le64 f @ le64 n @ le64 p @ le64 fu @ r" "drop 12 d = le64 f @ le64 n @ le64 p @ le64 fu @ r"
    "drop 20 d = le64 n @ le64 p @ le64 fu @ r" "drop 28 d = le64 p @ le64 fu @ r" "drop 36 d = le64 fu @ r"
    by (simp_all add: d)
  show "ord_id d = oid" "ord_created d = c" "ord_fulfilled d = f" "ord_notified d = n" "ord_ordersPlaced d = p" "ord_ordersFulfilled d = fu"
    unfolding ord_id_def ord_created_def ord_fulfilled_def ord_notified_def ord_ordersPlaced_def ord_ordersFulfilled_def parts
    by (simp_all only: of_le64_le64) (simp add: d of_le32_le32)
qed

lemma latency_base:
  "tm_type (createOrderLatencyMsg junk src compId oid c f n p fu) = Tm_OrderLatency"
  "tm_source (createOrderLatencyMsg junk src compId oid c f n p fu) = src"
  "tm_componentId (createOrderLatencyMsg junk src compId oid c f n p fu) = compId"
  by (simp_all add: createOrderLatencyMsg_def put_def createBaseMsg_def)

lemma length_latency: "length junk = 48 \<Longrightarrow> length (tm_data (createOrderLatencyMsg junk src compId oid c f n p fu)) = 48"
  by (simp add: createOrderLatencyMsg_def put_def createBaseMsg_def)

text \<open>A latency report sent by the trade engine reaches the monitor's tracker unchanged: decoding the 52
  bytes that cross the ring gives back the message, and the tracker logs the round trip from the
  creation to the notification of the order.\<close>

theorem telemetry_roundtrip:
  assumes "length junk = 48"
  shows "\<exists>msg. telemetry_of_bytes (telemetry_bytes (createOrderLatencyMsg junk src compId oid c f n p fu)) = Some msg \<and>
    tm_source msg = src \<and> tm_componentId msg = compId \<and> ord_id (tm_data msg) = oid \<and>
    ord_ordersPlaced (tm_data msg) = p \<and> ord_ordersFulfilled (tm_data msg) = fu \<and>
    lt_post toNs ranges msg s = logRtt ranges (toNs (n - c)) s"
  using assms
  by (simp add: telemetry_of_telemetry_bytes length_latency latency_fields latency_base lt_post_def)

theorem telemetry_roundtrip_witness:
  "\<exists>msg. telemetry_of_bytes (telemetry_bytes (createOrderLatencyMsg (replicate 48 0) Src_Client 0 7 100 0 150 2 1)) = Some msg \<and>
    ord_id (tm_data msg) = 7 \<and> lt_post (\<lambda>x. 2 * x) [1000] msg (rtt_new [1000]) = logRtt [1000] 100 (rtt_new [1000])"
  using telemetry_roundtrip[of "replicate 48 0" Src_Client 0 7 100 0 150 2 1 "\<lambda>x. 2 * x" "[1000]" "rtt_new [1000]"] by auto

section \<open>The histogram\<close>

lemma getRange_count:
  assumes "length ranges < 256"
  shows "unat (getRange ranges ns) = length (filter (\<lambda>r. r \<le> ns) ranges)"
proof -
  have "fold (\<lambda>r b. b + (if ns \<ge> r then 1 else 0)) rs (b :: u8) = b + of_nat (length (filter (\<lambda>r. r \<le> ns) rs))" for rs b
    by (induction rs arbitrary: b) (simp_all add: algebra_simps)
  then have "getRange ranges ns = of_nat (length (filter (\<lambda>r. r \<le> ns) ranges))" by (simp add: getRange_def)
  moreover have "length (filter (\<lambda>r. r \<le> ns) ranges) < 256" using assms length_filter_le le_less_trans by blast
  ultimately show ?thesis by (simp add: unat_of_nat)
qed

definition in_bucket :: "u64 list \<Rightarrow> nat \<Rightarrow> u64 list \<Rightarrow> u64 list" where
  "in_bucket ranges i ns = filter (\<lambda>x. length (filter (\<lambda>r. r \<le> x) ranges) = i) ns"

lemma logRtt_fold:
  assumes "length ranges < 256" "length (rt_samples s) = length ranges + 1"
  shows "length (rt_samples (fold (logRtt ranges) ns s)) = length ranges + 1 \<and>
    (\<forall>i \<le> length ranges. rt_samples (fold (logRtt ranges) ns s) ! i =
      (fst (rt_samples s ! i) + sum_list (in_bucket ranges i ns), snd (rt_samples s ! i) + of_nat (length (in_bucket ranges i ns))))"
  using assms(2)
proof (induction ns arbitrary: s)
  case (Cons x ns)
  define b where "b = length (filter (\<lambda>r. r \<le> x) ranges)"
  have b: "b \<le> length ranges" "unat (getRange ranges x) = b"
    using getRange_count[OF assms(1), of x] by (simp_all add: b_def)
  have l: "length (rt_samples (logRtt ranges x s)) = length ranges + 1"
    using Cons.prems by (simp add: logRtt_def Let_def split: prod.splits)
  have at: "rt_samples (logRtt ranges x s) ! i =
      (if i = b then (fst (rt_samples s ! b) + x, snd (rt_samples s ! b) + 1) else rt_samples s ! i)" if "i \<le> length ranges" for i
    using that Cons.prems b by (simp add: logRtt_def Let_def nth_list_update split: prod.splits)
  have ib: "in_bucket ranges i (x # ns) = (if i = b then x # in_bucket ranges i ns else in_bucket ranges i ns)" for i
    by (auto simp: in_bucket_def b_def)
  show ?case using Cons.IH[OF l] at ib by (simp add: algebra_simps)
qed (simp add: in_bucket_def)

lemma rtt_max: "rt_globalMax (fold (logRtt ranges) ns s) = foldl max (rt_globalMax s) ns"
proof (induction ns arbitrary: s)
  case (Cons x ns)
  have "rt_globalMax (logRtt ranges x s) = max (rt_globalMax s) x"
    by (auto simp: logRtt_def Let_def max_def split: prod.splits)
  then show ?case using Cons.IH by simp
qed simp

text \<open>The latency histogram: after any sequence of measurements, the bucket \<open>i\<close> holds the sum and the number of
  those that reach exactly \<open>i\<close> of the range limits (modulo \<open>2 ^ 64\<close>), and the recorded maximum is the
  largest of all.\<close>

theorem rtt_histogram:
  assumes "length ranges < 256" "i \<le> length ranges"
  shows "rt_samples (fold (logRtt ranges) ns (rtt_new ranges)) ! i =
      (sum_list (in_bucket ranges i ns), of_nat (length (in_bucket ranges i ns))) \<and>
    rt_globalMax (fold (logRtt ranges) ns (rtt_new ranges)) = foldl max 0 ns"
proof -
  have "length (rt_samples (rtt_new ranges)) = length ranges + 1" "rt_samples (rtt_new ranges) ! i = (0, 0)" "rt_globalMax (rtt_new ranges) = 0"
    using assms(2) by (simp_all add: rtt_new_def del: replicate.simps)
  then show ?thesis using logRtt_fold[OF assms(1), of "rtt_new ranges" ns] assms(2) rtt_max[of ranges ns "rtt_new ranges"] by simp
qed

theorem rtt_histogram_witness:
  "rt_samples (fold (logRtt [10000, 100000]) [5, 20000, 7] (rtt_new [10000, 100000])) ! 0 = (12, 2) \<and>
   rt_globalMax (fold (logRtt [10000, 100000]) [5, 20000, 7] (rtt_new [10000, 100000])) = 20000"
  using rtt_histogram[of "[10000, 100000]" 0 "[5, 20000, 7]"] by (simp add: in_bucket_def)

end
