(* ===== verification/Trade_Engine.thy ===== *)
theory Trade_Engine
  imports Telemetry Slot_Id_Pool
begin

text \<open>
  The client's trade engine (\<^verbatim>\<open>client/src/execution/trade_engine.hpp\<close>) with its market data and the price
  fluctuation of \<^verbatim>\<open>common/src/utils/market_utils.hpp\<close>. What the random generator draws and what the
  cycle counter shows are arguments. The iteration order of the ticker map is the order of the
  list that models it. The worker thread's loop is one step at a time; the pause instructions
  between two steps and the printed statistics are left out.
\<close>

section \<open>Random prices\<close>

text \<open>\<^verbatim>\<open>RNG::generate\<close>: some value between the bounds, selected by the draw \<open>d\<close>.\<close>

definition rng_generate :: "nat \<Rightarrow> int \<Rightarrow> int \<Rightarrow> int" where
  "rng_generate d lo hi = (let (lo, hi) = (if lo > hi then (hi, lo) else (lo, hi)) in lo + int d mod (hi - lo + 1))"

definition PRICE_FLUCTUATION_RATE :: int where "PRICE_FLUCTUATION_RATE = 5"

definition price_delta :: "u32 \<Rightarrow> int" where
  "price_delta price = uint price * PRICE_FLUCTUATION_RATE div 100"

definition fluctuateThePrice :: "nat \<Rightarrow> u32 \<Rightarrow> u32" where
  "fluctuateThePrice d price =
     (let delta = price_delta price; fluctuation = rng_generate d 0 (delta * 2) - delta
      in price + word_of_int fluctuation)"

section \<open>State\<close>

record ClientOrder =
  co_order :: Order
  co_created :: u64
  co_sysOId :: SlotId

definition co_isValid :: "ClientOrder \<Rightarrow> bool" where
  "co_isValid r \<longleftrightarrow> co_created r \<noteq> 0 \<and> slot_isValid SystemOrderId_cap (co_sysOId r)"

record TradeEngine =
  te_market :: "(Ticker \<times> u32) list"
  te_cursor :: nat
  te_idPool :: SlotIdPool
  te_orders :: "(u32, ClientOrder) array"
  te_placed :: u64
  te_fulfilled :: u64
  te_cancelled :: u64
  te_started :: bool
  te_trading :: bool
  te_toCancel :: SequencedSPSC
  te_stopRequested :: bool

datatype te_out = TE_Order Order | TE_Telemetry TelemetryMsg | TE_Ready

section \<open>Operations\<close>

text \<open>\<^verbatim>\<open>loadMarketData\<close>: a failed query throws; an empty table calls \<^verbatim>\<open>error()\<close> on a result that holds a value,
  which is undefined. The first price of a ticker stays.\<close>

datatype load_error = LoadThrow string | LoadUndefined

fun emplace :: "TickerPrice \<Rightarrow> (Ticker \<times> u32) list \<Rightarrow> (Ticker \<times> u32) list" where
  "emplace p m = (if tp_ticker p \<in> fst ` set m then m else m @ [(tp_ticker p, tp_price p)])"

definition te_loadMarketData :: "StatusCode + TickerPrice list \<Rightarrow> load_error + (Ticker \<times> u32) list" where
  "te_loadMarketData result =
     (case result of
        Inl e \<Rightarrow> Inl (LoadThrow (StatusCode_toString e))
      | Inr [] \<Rightarrow> Inl LoadUndefined
      | Inr prices \<Rightarrow> Inr (fold emplace prices []))"

definition zero_order :: ClientOrder where
  "zero_order = \<lparr>co_order = \<lparr>o_id = 0, o_ticker = makeTicker [], o_quantity = 0, o_price = 0, o_action = Dummy\<rparr>,
     co_created = 0, co_sysOId = 0\<rparr>"

definition te_new :: "(Ticker \<times> u32) list \<Rightarrow> TradeEngine" where
  "te_new market = \<lparr>te_market = market, te_cursor = 0, te_idPool = new_pool, te_orders = (\<lambda>_. zero_order), te_placed = 0, te_fulfilled = 0,
     te_cancelled = 0, te_started = False, te_trading = False, te_toCancel = spsc_new, te_stopRequested = False\<rparr>"

definition te_start :: "TradeEngine \<Rightarrow> te_out list \<times> TradeEngine" where
  "te_start e = (if te_started e then ([], e) else ([TE_Ready], e\<lparr>te_started := True\<rparr>))"

definition te_tradeStart :: "TradeEngine \<Rightarrow> TradeEngine" where
  "te_tradeStart e = (if te_trading e then e else e\<lparr>te_trading := True\<rparr>)"

definition te_tradeStop :: "TradeEngine \<Rightarrow> TradeEngine" where
  "te_tradeStop e = (if \<not> te_trading e then e else e\<lparr>te_trading := False\<rparr>)"

definition te_sendNew :: "nat \<Rightarrow> nat \<Rightarrow> nat \<Rightarrow> u64 \<Rightarrow> TradeEngine \<Rightarrow> bool \<times> te_out list \<times> TradeEngine" where
  "te_sendNew rp ra rq now e =
     (let cursor = (if te_cursor e = length (te_market e) then 0 else te_cursor e);
          (ticker, price) = te_market e ! cursor;
          newPrice = fluctuateThePrice rp price;
          action = (if rng_generate ra 0 1 = 0 then Buy else Sell);
          quantity = word_of_int (rng_generate rq 1 100);
          (v, pool) = pool_acquire (te_idPool e);
          e = e\<lparr>te_cursor := cursor + 1, te_idPool := pool\<rparr>
      in if \<not> slot_isValid SystemOrderId_cap v then (False, [], e)
         else
           let ord = \<lparr>o_id = v, o_ticker = ticker, o_quantity = quantity, o_price = newPrice, o_action = action\<rparr>
           in (True, [TE_Order ord],
               e\<lparr>te_orders := (te_orders e)(slot_index SystemOrderId_cap v := \<lparr>co_order = ord, co_created = now, co_sysOId = v\<rparr>),
                 te_placed := te_placed e + 1\<rparr>))"

definition te_sendCancel :: "u64 \<Rightarrow> TradeEngine \<Rightarrow> bool \<times> te_out list \<times> TradeEngine" where
  "te_sendCancel now e =
     (case spsc_read_msg 10 4 (te_toCancel e) of
        (None, q) \<Rightarrow> (False, [], e\<lparr>te_toCancel := q\<rparr>)
      | (Some b, q) \<Rightarrow>
          let idx = of_le32 b; r = te_orders e idx; ord = co_order r
          in (True,
              [TE_Order \<lparr>o_id = co_sysOId r, o_ticker = o_ticker ord, o_quantity = o_quantity ord, o_price = o_price ord, o_action = Cancel\<rparr>],
              e\<lparr>te_toCancel := q, te_orders := (te_orders e)(idx := r\<lparr>co_created := now\<rparr>)\<rparr>))"

text \<open>One turn of the trading loop; the first component says whether the loop goes on.\<close>

definition te_loop_step :: "nat \<Rightarrow> nat \<Rightarrow> nat \<Rightarrow> u64 \<Rightarrow> TradeEngine \<Rightarrow> bool \<times> te_out list \<times> TradeEngine" where
  "te_loop_step rp ra rq now e =
     (if te_stopRequested e then (False, [], e)
      else if \<not> te_trading e then (True, [], e)
      else case te_sendCancel now e of
             (True, out, e') \<Rightarrow> (True, out, e')
           | (False, out, e') \<Rightarrow> te_sendNew rp ra rq now e')"

definition te_postStatus :: "u8 list \<Rightarrow> nat \<Rightarrow> u64 \<Rightarrow> OrderStatus \<Rightarrow> TradeEngine \<Rightarrow> te_out list \<times> TradeEngine" where
  "te_postStatus junk rc cycl s e =
     (let soid = os_orderId s; i = slot_index SystemOrderId_cap soid; r = te_orders e i
      in if te_stopRequested e then ([], e)
         else if \<not> slot_isValid SystemOrderId_cap soid then ([], e)
         else if \<not> co_isValid r then ([], e)
         else
           let e = e\<lparr>te_orders := (te_orders e)(i := r\<lparr>co_sysOId := os_systemOrderId s\<rparr>)\<rparr>;
               msg = createOrderLatencyMsg junk Src_Client 0 (os_orderId s) (co_created r) 0 cycl (te_placed e) (te_fulfilled e);
               e = (case os_state s of
                      Accepted \<Rightarrow> if rng_generate rc 0 1 = 1 then e\<lparr>te_toCancel := snd (spsc_write 10 (le32 i) (te_toCancel e))\<rparr> else e
                    | Full \<Rightarrow> e\<lparr>te_fulfilled := te_fulfilled e + 1, te_idPool := pool_release soid (te_idPool e)\<rparr>
                    | Cancelled \<Rightarrow> e\<lparr>te_cancelled := te_cancelled e + 1, te_idPool := pool_release soid (te_idPool e)\<rparr>
                    | Rejected \<Rightarrow> e\<lparr>te_idPool := pool_release soid (te_idPool e)\<rparr>
                    | Partial \<Rightarrow> e)
           in ([TE_Telemetry msg], e))"

definition te_postPrice :: "TickerPrice \<Rightarrow> TradeEngine \<Rightarrow> TradeEngine" where
  "te_postPrice p e =
     (if tp_ticker p \<in> fst ` set (te_market e)
      then e\<lparr>te_market := map (\<lambda>(t, pr). (t, if t = tp_ticker p then tp_price p else pr)) (te_market e)\<rparr>
      else e)"

section \<open>Prices stay within five percent\<close>

lemma price_delta_bounds: "0 \<le> price_delta p" "price_delta p \<le> 214748364" "price_delta p \<le> uint p"
proof -
  have a: "0 \<le> a * 5 div 100 \<and> a * 5 div 100 \<le> 214748364 \<and> a * 5 div 100 \<le> a" if "0 \<le> a" "a < 4294967296" for a :: int
    using that by auto
  have "0 \<le> uint p" "uint p < 4294967296" using unsigned_less[of p, where 'a = int] by simp_all
  from a[OF this] show "0 \<le> price_delta p" "price_delta p \<le> 214748364" "price_delta p \<le> uint p"
    by (simp_all only: price_delta_def PRICE_FLUCTUATION_RATE_def)
qed

lemma fluctuation_bounds:
  assumes "uint p + price_delta p < 2 ^ 32"
  shows "\<bar>uint (fluctuateThePrice d p) - uint p\<bar> \<le> price_delta p"
proof -
  define x where "x = int d mod (price_delta p * 2 + 1)"
  have x: "0 \<le> x" "x \<le> price_delta p * 2"
    using price_delta_bounds[of p] pos_mod_sign[of "price_delta p * 2 + 1" "int d"] pos_mod_bound[of "price_delta p * 2 + 1" "int d"]
    unfolding x_def by linarith+
  have f: "fluctuateThePrice d p = p + word_of_int (x - price_delta p)"
    using price_delta_bounds(1)[of p] by (simp add: fluctuateThePrice_def rng_generate_def Let_def x_def)
  have r: "0 \<le> uint p + (x - price_delta p)" "uint p + (x - price_delta p) < 2 ^ 32"
    using x price_delta_bounds[of p] assms by linarith+
  have "fluctuateThePrice d p = word_of_int (uint p + (x - price_delta p))" by (simp add: f)
  then have "uint (fluctuateThePrice d p) = (uint p + (x - price_delta p)) mod 2 ^ 32"
    by (simp only: uint_word_of_int) simp
  also have "\<dots> = uint p + (x - price_delta p)" using r by simp
  finally show ?thesis using x by linarith
qed

section \<open>Orders in flight\<close>

definition is_final :: "OrderState \<Rightarrow> bool" where
  "is_final st \<longleftrightarrow> st = Full \<or> st = Cancelled \<or> st = Rejected"

text \<open>The engine facing a server that keeps the contract of its statuses: a status names an order in flight,
  a final one ends it, and any other carries the system id. \<open>fl\<close> are the ids in flight, \<open>rej\<close>
  counts the rejections, which the engine does not.\<close>

inductive te_reach :: "TradeEngine \<Rightarrow> u32 list \<Rightarrow> nat \<Rightarrow> bool" where
  init: "te_reach (te_new market) [] 0"
| start: "te_reach e fl rej \<Longrightarrow> te_reach (snd (te_start e)) fl rej"
| trade: "te_reach e fl rej \<Longrightarrow> te_reach (te_tradeStart e) fl rej"
| pause: "te_reach e fl rej \<Longrightarrow> te_reach (te_tradeStop e) fl rej"
| new: "te_reach e fl rej \<Longrightarrow> now \<noteq> 0 \<Longrightarrow> te_sendNew rp ra rq now e = (True, [TE_Order ord], e') \<Longrightarrow> te_reach e' (o_id ord # fl) rej"
| full: "te_reach e fl rej \<Longrightarrow> te_sendNew rp ra rq now e = (False, out, e') \<Longrightarrow> te_reach e' fl rej"
| cancel: "te_reach e fl rej \<Longrightarrow> now \<noteq> 0 \<Longrightarrow> te_sendCancel now e = (b, out, e') \<Longrightarrow> te_reach e' fl rej"
| update: "te_reach e fl rej \<Longrightarrow> os_orderId s \<in> set fl \<Longrightarrow> \<not> is_final (os_state s) \<Longrightarrow> slot_isValid SystemOrderId_cap (os_systemOrderId s) \<Longrightarrow>
     te_reach (snd (te_postStatus junk rc cycl s e)) fl rej"
| final: "te_reach e fl rej \<Longrightarrow> os_orderId s \<in> set fl \<Longrightarrow> is_final (os_state s) \<Longrightarrow>
     te_reach (snd (te_postStatus junk rc cycl s e)) (remove1 (os_orderId s) fl) (if os_state s = Rejected then rej + 1 else rej)"
| price: "te_reach e fl rej \<Longrightarrow> te_reach (te_postPrice p e) fl rej"

abbreviation idx :: "u32 \<Rightarrow> u32" where
  "idx v \<equiv> slot_index SystemOrderId_cap v"

definition rec_ok :: "(u32 \<Rightarrow> ClientOrder) \<Rightarrow> u32 \<Rightarrow> bool" where
  "rec_ok f v \<longleftrightarrow> slot_isValid SystemOrderId_cap v \<and> o_id (co_order (f (idx v))) = v \<and> co_isValid (f (idx v))"

lemma rec_ok_upd:
  assumes "rec_ok f v" "idx v = i \<Longrightarrow> co_order r = co_order (f i) \<and> co_isValid r"
  shows "rec_ok (f(i := r)) v"
  using assms by (auto simp: rec_ok_def)

definition te_inv :: "TradeEngine \<Rightarrow> u32 list \<Rightarrow> nat \<Rightarrow> bool" where
  "te_inv e fl rej \<longleftrightarrow> slot_pool_inv (te_idPool e) (idx ` set fl) \<and> distinct (map idx fl) \<and> \<not> te_stopRequested e \<and>
     (\<forall>v \<in> set fl. rec_ok (te_orders e) v) \<and>
     te_placed e = te_fulfilled e + te_cancelled e + of_nat rej + of_nat (length fl)"

lemma te_inv_new:
  assumes inv: "te_inv e fl rej" and now: "now \<noteq> 0" and st: "te_sendNew rp ra rq now e = (True, [TE_Order ord], e')"
  shows "te_inv e' (o_id ord # fl) rej"
proof -
  obtain v pool where a: "pool_acquire (te_idPool e) = (v, pool)" by (cases "pool_acquire (te_idPool e)")
  have v: "slot_isValid SystemOrderId_cap v" and ord: "o_id ord = v" and e': "te_idPool e' = pool" "te_stopRequested e' = te_stopRequested e"
    "te_orders e' = (te_orders e)(idx v := \<lparr>co_order = ord, co_created = now, co_sysOId = v\<rparr>)"
    "te_placed e' = te_placed e + 1" "te_fulfilled e' = te_fulfilled e" "te_cancelled e' = te_cancelled e"
    using st a by (auto simp: te_sendNew_def Let_def split: if_splits prod.splits)
  have l: "idx v \<notin> idx ` set fl" "slot_pool_inv pool (insert (idx v) (idx ` set fl))"
    using sys_ids.acquire_law[OF _ a v] inv by (auto simp: te_inv_def)
  have "rec_ok (te_orders e') w" if "w \<in> set fl" for w
  proof -
    have "idx w \<noteq> idx v" using l(1) that by (metis image_eqI)
    then show ?thesis unfolding e' using inv that by (intro rec_ok_upd) (simp_all add: te_inv_def)
  qed
  moreover have "rec_ok (te_orders e') v" using v now ord by (simp add: e' rec_ok_def co_isValid_def)
  ultimately show ?thesis using inv l e' ord by (simp add: te_inv_def)
qed

lemma te_inv_full:
  assumes inv: "te_inv e fl rej" and st: "te_sendNew rp ra rq now e = (False, out, e')"
  shows "te_inv e' fl rej"
proof -
  obtain v pool where a: "pool_acquire (te_idPool e) = (v, pool)" by (cases "pool_acquire (te_idPool e)")
  have v: "\<not> slot_isValid SystemOrderId_cap v" and e': "te_idPool e' = pool" "te_stopRequested e' = te_stopRequested e" "te_orders e' = te_orders e"
    "te_placed e' = te_placed e" "te_fulfilled e' = te_fulfilled e" "te_cancelled e' = te_cancelled e"
    using st a by (auto simp: te_sendNew_def Let_def split: if_splits prod.splits)
  show ?thesis using sys_ids.exhausted_law[OF _ a v] inv e' by (simp add: te_inv_def)
qed

lemma te_inv_cancel:
  assumes inv: "te_inv e fl rej" and now: "now \<noteq> 0" and st: "te_sendCancel now e = (b, out, e')"
  shows "te_inv e' fl rej"
proof (cases "spsc_read_msg 10 4 (te_toCancel e)")
  case (Pair m q)
  show ?thesis
  proof (cases m)
    case (Some bs)
    have "rec_ok ((te_orders e)(of_le32 bs := (te_orders e (of_le32 bs))\<lparr>co_created := now\<rparr>)) v" if "v \<in> set fl" for v
    proof (rule rec_ok_upd)
      show ok: "rec_ok (te_orders e) v" using inv that by (simp add: te_inv_def)
      show "idx v = of_le32 bs \<Longrightarrow> co_order ((te_orders e (of_le32 bs))\<lparr>co_created := now\<rparr>) = co_order (te_orders e (of_le32 bs)) \<and>
          co_isValid ((te_orders e (of_le32 bs))\<lparr>co_created := now\<rparr>)"
        using ok now by (simp add: rec_ok_def co_isValid_def)
    qed
    then show ?thesis using st inv Pair Some by (auto simp: te_sendCancel_def te_inv_def Let_def)
  qed (use st inv Pair in \<open>auto simp: te_sendCancel_def te_inv_def\<close>)
qed

lemma te_status_valid:
  assumes inv: "te_inv e fl rej" and s: "os_orderId s \<in> set fl"
  shows "te_postStatus junk rc cycl s e =
    (let e = e\<lparr>te_orders := (te_orders e)(idx (os_orderId s) := (te_orders e (idx (os_orderId s)))\<lparr>co_sysOId := os_systemOrderId s\<rparr>)\<rparr>;
         msg = createOrderLatencyMsg junk Src_Client 0 (os_orderId s) (co_created (te_orders e (idx (os_orderId s)))) 0 cycl (te_placed e) (te_fulfilled e);
         e = (case os_state s of
                Accepted \<Rightarrow> if rng_generate rc 0 1 = 1 then e\<lparr>te_toCancel := snd (spsc_write 10 (le32 (idx (os_orderId s))) (te_toCancel e))\<rparr> else e
              | Full \<Rightarrow> e\<lparr>te_fulfilled := te_fulfilled e + 1, te_idPool := pool_release (os_orderId s) (te_idPool e)\<rparr>
              | Cancelled \<Rightarrow> e\<lparr>te_cancelled := te_cancelled e + 1, te_idPool := pool_release (os_orderId s) (te_idPool e)\<rparr>
              | Rejected \<Rightarrow> e\<lparr>te_idPool := pool_release (os_orderId s) (te_idPool e)\<rparr>
              | Partial \<Rightarrow> e)
     in ([TE_Telemetry msg], e))"
  using inv s by (simp add: te_postStatus_def te_inv_def rec_ok_def Let_def)

lemma te_inv_update:
  assumes inv: "te_inv e fl rej" and s: "os_orderId s \<in> set fl" "\<not> is_final (os_state s)" "slot_isValid SystemOrderId_cap (os_systemOrderId s)"
  shows "te_inv (snd (te_postStatus junk rc cycl s e)) fl rej"
proof -
  let ?i = "idx (os_orderId s)"
  have own: "rec_ok (te_orders e) (os_orderId s)" using inv s(1) by (simp add: te_inv_def)
  have "rec_ok ((te_orders e)(?i := (te_orders e ?i)\<lparr>co_sysOId := os_systemOrderId s\<rparr>)) v" if "v \<in> set fl" for v
  proof (rule rec_ok_upd)
    show "rec_ok (te_orders e) v" using inv that by (simp add: te_inv_def)
  qed (use own s(3) in \<open>simp add: rec_ok_def co_isValid_def\<close>)
  then show ?thesis unfolding te_status_valid[OF inv s(1)] using inv s(2)
    by (cases "os_state s") (simp_all add: te_inv_def is_final_def Let_def)
qed

lemma remove1_map_idx:
  assumes "distinct (map idx fl)" "v \<in> set fl"
  shows "idx ` set (remove1 v fl) = idx ` set fl - {idx v}" "distinct (map idx (remove1 v fl))" "set (remove1 v fl) = set fl - {v}"
    "length (remove1 v fl) = length fl - 1" "0 < length fl"
proof -
  have d: "distinct fl" "inj_on idx (set fl)" using assms(1) by (simp_all add: distinct_map)
  show r: "set (remove1 v fl) = set fl - {v}" using d(1) by (rule set_remove1_eq)
  then show "idx ` set (remove1 v fl) = idx ` set fl - {idx v}"
    using d(2) assms(2) by (simp add: inj_on_image_set_diff[of _ "set fl"])
  show "distinct (map idx (remove1 v fl))"
    using d r by (auto simp: distinct_map intro: inj_on_subset)
  show "length (remove1 v fl) = length fl - 1" "0 < length fl" using assms(2) by (auto simp: length_remove1)
qed

lemma te_inv_final:
  assumes inv: "te_inv e fl rej" and s: "os_orderId s \<in> set fl" "is_final (os_state s)"
  shows "te_inv (snd (te_postStatus junk rc cycl s e)) (remove1 (os_orderId s) fl) (if os_state s = Rejected then rej + 1 else rej)"
proof -
  let ?v = "os_orderId s" and ?e = "snd (te_postStatus junk rc cycl s e)"
  have d: "distinct (map idx fl)" using inv by (simp add: te_inv_def)
  note rm = remove1_map_idx[OF d s(1)]
  have pool: "slot_pool_inv (pool_release ?v (te_idPool e)) (idx ` set fl - {idx ?v})"
    using sys_ids.release_law[of "te_idPool e" "idx ` set fl" ?v] inv s(1) by (simp add: te_inv_def)
  have e: "te_idPool ?e = pool_release ?v (te_idPool e)" "te_stopRequested ?e = te_stopRequested e" "te_placed ?e = te_placed e"
    "te_orders ?e = (te_orders e)(idx ?v := (te_orders e (idx ?v))\<lparr>co_sysOId := os_systemOrderId s\<rparr>)"
    "te_fulfilled ?e = te_fulfilled e + (if os_state s = Full then 1 else 0)" "te_cancelled ?e = te_cancelled e + (if os_state s = Cancelled then 1 else 0)"
    unfolding te_status_valid[OF inv s(1)] using s(2) by (auto simp: is_final_def Let_def)
  have other: "idx w \<noteq> idx ?v" if "w \<in> set fl" "w \<noteq> ?v" for w
    using d that s(1) by (auto simp: distinct_map dest: inj_onD)
  have len: "(of_nat (length fl) :: u64) = of_nat (length fl - 1) + 1"
    using rm(5) by (metis One_nat_def Suc_pred of_nat_Suc add.commute)
  have acc: "te_placed ?e = te_fulfilled ?e + te_cancelled ?e + of_nat (if os_state s = Rejected then rej + 1 else rej) + of_nat (length fl - 1)"
    using inv s(2) len unfolding e te_inv_def by (auto simp: is_final_def)
  have recs: "rec_ok (te_orders ?e) w" if w: "w \<in> set (remove1 ?v fl)" for w
    unfolding e
  proof (rule rec_ok_upd)
    show "rec_ok (te_orders e) w" using inv w by (simp add: rm(3) te_inv_def)
  qed (use other w in \<open>auto simp: rm(3)\<close>)
  show ?thesis unfolding te_inv_def
  proof (intro conjI ballI recs)
    show "slot_pool_inv (te_idPool ?e) (idx ` set (remove1 ?v fl))" using pool by (simp only: e(1) rm(1))
    show "distinct (map idx (remove1 ?v fl))" by (rule rm(2))
    show "\<not> te_stopRequested ?e" using inv by (simp add: e(2) te_inv_def)
    show "te_placed ?e = te_fulfilled ?e + te_cancelled ?e + of_nat (if os_state s = Rejected then rej + 1 else rej) + of_nat (length (remove1 ?v fl))"
      using acc by (simp only: rm(4))
  qed
qed

lemma te_inv_cong:
  assumes "te_inv e fl rej" "te_idPool e' = te_idPool e" "te_stopRequested e' = te_stopRequested e" "te_orders e' = te_orders e"
    "te_placed e' = te_placed e" "te_fulfilled e' = te_fulfilled e" "te_cancelled e' = te_cancelled e"
  shows "te_inv e' fl rej"
  using assms by (simp add: te_inv_def)

lemma te_reach_inv: "te_reach e fl rej \<Longrightarrow> te_inv e fl rej"
proof (induction rule: te_reach.induct)
  case (init market)
  show ?case using slot_pool_inv_new by (simp add: te_inv_def te_new_def)
next
  case (start e fl rej)
  show ?case by (rule te_inv_cong[OF start.IH]) (simp_all add: te_start_def)
next
  case (trade e fl rej)
  show ?case by (rule te_inv_cong[OF trade.IH]) (simp_all add: te_tradeStart_def)
next
  case (pause e fl rej)
  show ?case by (rule te_inv_cong[OF pause.IH]) (simp_all add: te_tradeStop_def)
next
  case (price e fl rej p)
  show ?case by (rule te_inv_cong[OF price.IH]) (simp_all add: te_postPrice_def)
qed (rule te_inv_new te_inv_full te_inv_cancel te_inv_update te_inv_final; assumption)+

text \<open>C26. Orders in flight: facing a server whose statuses name orders in flight and end each of them once, the
  engine never has two orders with the same slot in flight, finds the order of each id in its own
  record, and its counters account for every order placed (modulo \<open>2 ^ 64\<close>): it was fulfilled,
  cancelled, rejected, or is in flight.\<close>

theorem engine_orders_in_flight:
  assumes "te_reach e fl rej"
  shows "distinct (map (slot_index SystemOrderId_cap) fl) \<and>
    (\<forall>v \<in> set fl. o_id (co_order (te_orders e (slot_index SystemOrderId_cap v))) = v) \<and>
    te_placed e = te_fulfilled e + te_cancelled e + of_nat rej + of_nat (length fl)"
  using te_reach_inv[OF assms] by (simp add: te_inv_def rec_ok_def)

theorem engine_orders_in_flight_witness:
  "\<exists>e v. te_reach e [v] 0 \<and> te_placed e = 1 \<and> o_id (co_order (te_orders e (slot_index SystemOrderId_cap v))) = v"
proof -
  define e0 where "e0 = te_new [(makeTicker ''AAPL'', 100)]"
  obtain v pool where a: "pool_acquire new_pool = (v, pool)" by (cases "pool_acquire new_pool")
  have "card (idx_below POOL_CAPACITY) \<noteq> card {}" using card_idx_below[of POOL_CAPACITY] unat_pool_capacity by simp
  then have "{} \<noteq> idx_below POOL_CAPACITY" by metis
  then have v: "slot_isValid SystemOrderId_cap v" using pool_acquire_invalid[OF slot_pool_inv_new] a by fastforce
  have "\<exists>ord e. te_sendNew 0 0 0 1 e0 = (True, [TE_Order ord], e)"
    using v a by (simp add: te_sendNew_def e0_def te_new_def Let_def)
  then obtain ord e where st: "te_sendNew 0 0 0 1 e0 = (True, [TE_Order ord], e)" by (elim exE)
  have reach: "te_reach e [o_id ord] 0" using te_reach.new[OF te_reach.init _ st[unfolded e0_def]] by simp
  have "te_fulfilled e = 0" "te_cancelled e = 0"
    using st v a by (auto simp: te_sendNew_def e0_def te_new_def Let_def)
  then show ?thesis using engine_orders_in_flight[OF reach] reach by auto
qed

end
