(* ===== verification/App_Config.thy ===== *)
theory App_Config
  imports Text_Utils
begin

text \<open>
  The configurations of the three programs: \<^verbatim>\<open>server_config.cpp\<close>, \<^verbatim>\<open>client_config.cpp\<close> and
  \<^verbatim>\<open>monitor_config.cpp\<close>. The property tree of Boost is the parameter: \<open>getS\<close> gives the text of a key
  and \<open>getN\<close> the number it is read as, \<^const>\<open>None\<close> when the key is missing or its text is no such
  number, which makes \<^verbatim>\<open>get\<close> throw and \<^verbatim>\<open>get_optional\<close> empty. Values are cut to the width of the
  field they are stored in.
\<close>

datatype cfg_error = CfgKey string | CfgCores | CfgList string

type_synonym 'a cfg = "cfg_error + 'a"

fun cbind :: "'a cfg \<Rightarrow> ('a \<Rightarrow> 'b cfg) \<Rightarrow> 'b cfg" where
  "cbind (Inl e) f = Inl e"
| "cbind (Inr x) f = f x"

definition cfg_get :: "(string \<Rightarrow> 'a option) \<Rightarrow> string \<Rightarrow> 'a cfg" where
  "cfg_get get key = (case get key of None \<Rightarrow> Inl (CfgKey key) | Some v \<Rightarrow> Inr v)"

definition cfg_check :: "bool \<Rightarrow> unit cfg" where
  "cfg_check bad = (if bad then Inl CfgCores else Inr ())"

text \<open>\<^verbatim>\<open>utils::split<CoreId>\<close>, each number stored in 16 bits.\<close>

definition cfg_cores :: "string \<Rightarrow> u16 list cfg" where
  "cfg_cores txt = (case split_int txt of Inl e \<Rightarrow> Inl (CfgList e) | Inr xs \<Rightarrow> Inr (map word_of_int xs))"

text \<open>The optional list of application cores, checked against the cores read before.\<close>

definition cfg_app :: "(string \<Rightarrow> string option) \<Rightarrow> u16 option \<Rightarrow> u16 option \<Rightarrow> u16 list cfg" where
  "cfg_app getS coreSystem coreNetwork =
     (case getS ''cpu.cores_app'' of
        None \<Rightarrow> Inr []
      | Some txt \<Rightarrow>
          cbind (cfg_cores txt) (\<lambda>cores.
          cbind (cfg_check (\<exists>c. coreSystem = Some c \<and> c \<in> set cores)) (\<lambda>_.
          cbind (cfg_check (\<exists>c. coreNetwork = Some c \<and> c \<in> set cores)) (\<lambda>_. Inr cores))))"

record ServerConfig =
  sv_url :: string
  sv_portTcpUp :: u16
  sv_portTcpDown :: u16
  sv_portUdp :: u16
  sv_coreSystem :: "u16 option"
  sv_coreNetwork :: "u16 option"
  sv_coreGateway :: "u16 option"
  sv_coresApp :: "u16 list"
  sv_priceFeedRate :: u32
  sv_monitorRate :: u32
  sv_telemetryRate :: u32
  sv_logOutput :: string

definition load_core :: "(string \<Rightarrow> u64 option) \<Rightarrow> string \<Rightarrow> u16 option list \<Rightarrow> u16 option cfg" where
  "load_core getN key others =
     (case getN key of
        None \<Rightarrow> Inr None
      | Some n \<Rightarrow>
          let core = ucast n
          in cbind (cfg_check (Some core \<in> set others)) (\<lambda>_. cbind (cfg_check (n = 0)) (\<lambda>_. Inr (Some core))))"

text \<open>\<^verbatim>\<open>get_optional<uint16_t>\<close> is empty for a number that does not fit.\<close>

definition get16 :: "(string \<Rightarrow> u64 option) \<Rightarrow> string \<Rightarrow> u64 option" where
  "get16 getN key = (case getN key of Some n \<Rightarrow> if n < 2 ^ 16 then Some n else None | None \<Rightarrow> None)"

definition load_ServerConfig :: "(string \<Rightarrow> string option) \<Rightarrow> (string \<Rightarrow> u64 option) \<Rightarrow> ServerConfig cfg" where
  "load_ServerConfig getS getN =
     cbind (cfg_get getS ''network.url'') (\<lambda>url.
     cbind (cfg_get getN ''network.port_tcp_up'') (\<lambda>up.
     cbind (cfg_get getN ''network.port_tcp_down'') (\<lambda>down.
     cbind (cfg_get getN ''network.port_udp'') (\<lambda>udp.
     cbind (load_core (get16 getN) ''cpu.core_system'' []) (\<lambda>sys.
     cbind (load_core (get16 getN) ''cpu.core_network'' [sys]) (\<lambda>net.
     cbind (load_core (get16 getN) ''cpu.core_gateway'' [sys, net]) (\<lambda>gate.
     cbind (cfg_app getS sys net) (\<lambda>cores.
     cbind (cfg_get getN ''rates.price_feed_rate_us'') (\<lambda>feed.
     cbind (cfg_get getN ''rates.monitor_rate_ms'') (\<lambda>mon.
     cbind (cfg_get getN ''rates.telemetry_ms'') (\<lambda>tel.
     cbind (cfg_get getS ''log.output'') (\<lambda>out.
     Inr \<lparr>sv_url = url, sv_portTcpUp = ucast up, sv_portTcpDown = ucast down, sv_portUdp = ucast udp,
       sv_coreSystem = sys, sv_coreNetwork = net, sv_coreGateway = gate, sv_coresApp = cores,
       sv_priceFeedRate = ucast feed, sv_monitorRate = ucast mon, sv_telemetryRate = ucast tel, sv_logOutput = out\<rparr>))))))))))))"

record ClientConfig =
  cl_url :: string
  cl_portTcpUp :: u16
  cl_portTcpDown :: u16
  cl_portUdp :: u16
  cl_coreSystem :: "u16 option"
  cl_coreNetwork :: "u16 option"
  cl_coresApp :: "u16 list"
  cl_tradeRate :: u32
  cl_monitorRate :: u32
  cl_telemetryTate :: u32
  cl_name :: string
  cl_password :: string
  cl_logOutput :: string

definition load_ClientConfig :: "(string \<Rightarrow> string option) \<Rightarrow> (string \<Rightarrow> u64 option) \<Rightarrow> ClientConfig cfg" where
  "load_ClientConfig getS getN =
     cbind (cfg_get getS ''network.url'') (\<lambda>url.
     cbind (cfg_get getN ''network.port_tcp_up'') (\<lambda>up.
     cbind (cfg_get getN ''network.port_tcp_down'') (\<lambda>down.
     cbind (cfg_get getN ''network.port_udp'') (\<lambda>udp.
     cbind (load_core getN ''cpu.core_system'' []) (\<lambda>sys.
     cbind (load_core getN ''cpu.core_network'' [sys]) (\<lambda>net.
     cbind (cfg_app getS sys net) (\<lambda>cores.
     cbind (cfg_get getN ''rates.trade_rate_us'') (\<lambda>trade.
     cbind (cfg_get getN ''rates.monitor_rate_ms'') (\<lambda>mon.
     cbind (cfg_get getN ''rates.telemetry_ms'') (\<lambda>tel.
     cbind (cfg_get getS ''credentials.name'') (\<lambda>name.
     cbind (cfg_get getS ''credentials.password'') (\<lambda>pw.
     cbind (cfg_get getS ''log.output'') (\<lambda>out.
     Inr \<lparr>cl_url = url, cl_portTcpUp = ucast up, cl_portTcpDown = ucast down, cl_portUdp = ucast udp,
       cl_coreSystem = sys, cl_coreNetwork = net, cl_coresApp = cores,
       cl_tradeRate = ucast trade, cl_monitorRate = ucast mon, cl_telemetryTate = ucast tel,
       cl_name = name, cl_password = pw, cl_logOutput = out\<rparr>)))))))))))))"

record MonitorConfig =
  mn_coreSystem :: "u16 option"
  mn_logOutput :: string

definition load_MonitorConfig :: "(string \<Rightarrow> string option) \<Rightarrow> (string \<Rightarrow> u64 option) \<Rightarrow> MonitorConfig cfg" where
  "load_MonitorConfig getS getN =
     cbind (cfg_get getS ''log.output'') (\<lambda>out. Inr \<lparr>mn_coreSystem = map_option ucast (getN ''cpu.core_system''), mn_logOutput = out\<rparr>)"

section \<open>Which cores a configuration can name\<close>

lemma ucast_u16_eq:
  assumes "(n :: u64) < 2 ^ 16" "m < 2 ^ 16"
  shows "(ucast n :: u16) = ucast m \<longleftrightarrow> n = m"
proof -
  have "unat n < 2 ^ 16" "unat m < 2 ^ 16" using assms by (simp_all add: word_less_nat_alt)
  then have "unat (ucast n :: u16) = unat n" "unat (ucast m :: u16) = unat m"
    by (simp_all add: unsigned_ucast_eq take_bit_nat_eq_self)
  then show ?thesis by (metis word_unat_eq_iff)
qed

lemma cbind_Inr: "cbind m f = Inr y \<longleftrightarrow> (\<exists>x. m = Inr x \<and> f x = Inr y)"
  by (cases m) auto

lemma cfg_check_Inr [simp]: "cfg_check b = Inr u \<longleftrightarrow> \<not> b"
  by (simp add: cfg_check_def)

lemma load_core_ok:
  assumes "load_core (get16 getN) key others = Inr (Some c)"
  shows "Some c \<notin> set others \<and> c \<noteq> 0"
proof -
  obtain n where n: "get16 getN key = Some n" "c = ucast n" "Some c \<notin> set others" "n \<noteq> 0"
    using assms by (auto simp: load_core_def Let_def cbind_Inr split: option.splits)
  then have "n < 2 ^ 16" by (auto simp: get16_def split: option.splits if_splits)
  then have "(ucast n :: u16) \<noteq> 0" using n(4) by (simp add: ucast_u16_eq[where m = 0, simplified])
  then show ?thesis using n by simp
qed

lemma cfg_app_ok:
  assumes "cfg_app getS sys net = Inr cores"
  shows "(\<forall>c. sys = Some c \<longrightarrow> c \<notin> set cores) \<and> (\<forall>c. net = Some c \<longrightarrow> c \<notin> set cores)"
  using assms by (auto simp: cfg_app_def cbind_Inr split: option.splits)

text \<open>A server configuration that is accepted pins its threads apart: the system, network and gateway cores
  differ from each other and from core zero, and neither the system nor the network core is an
  application core.\<close>

theorem server_cores_apart:
  assumes "load_ServerConfig getS getN = Inr cfg"
  shows "distinct (filter (\<lambda>c. c \<noteq> None) [sv_coreSystem cfg, sv_coreNetwork cfg, sv_coreGateway cfg]) \<and>
    Some 0 \<notin> {sv_coreSystem cfg, sv_coreNetwork cfg, sv_coreGateway cfg} \<and>
    sv_coreSystem cfg \<notin> Some ` set (sv_coresApp cfg) \<and> sv_coreNetwork cfg \<notin> Some ` set (sv_coresApp cfg)"
proof -
  obtain sys net gate cores where l: "load_core (get16 getN) ''cpu.core_system'' [] = Inr sys" "load_core (get16 getN) ''cpu.core_network'' [sys] = Inr net"
      "load_core (get16 getN) ''cpu.core_gateway'' [sys, net] = Inr gate" "cfg_app getS sys net = Inr cores"
    and c: "sv_coreSystem cfg = sys" "sv_coreNetwork cfg = net" "sv_coreGateway cfg = gate" "sv_coresApp cfg = cores"
    using assms unfolding load_ServerConfig_def by (auto simp: cbind_Inr)
  have "sys = Some c \<Longrightarrow> c \<noteq> 0" for c using load_core_ok[of getN _ "[]" c] l(1) by blast
  moreover have "net = Some c \<Longrightarrow> c \<noteq> 0 \<and> sys \<noteq> Some c" for c using load_core_ok[of getN _ "[sys]" c] l(2) by auto
  moreover have "gate = Some c \<Longrightarrow> c \<noteq> 0 \<and> sys \<noteq> Some c \<and> net \<noteq> Some c" for c
    using load_core_ok[of getN _ "[sys, net]" c] l(3) by auto
  ultimately show ?thesis unfolding c using cfg_app_ok[OF l(4)] by (cases sys; cases net; cases gate) auto
qed

text \<open>The repository's own configuration, with the application cores and the gateway core as arguments.\<close>

fun sample_text :: "string \<Rightarrow> string \<Rightarrow> string option" where
  "sample_text cores key =
     (if key = ''network.url'' then Some ''127.0.0.1'' else if key = ''cpu.cores_app'' then Some cores
      else if key = ''log.output'' then Some ''server_log.txt'' else None)"

fun sample_num :: "u64 \<Rightarrow> string \<Rightarrow> u64 option" where
  "sample_num gate key =
     (if key = ''network.port_tcp_up'' then Some 8080 else if key = ''network.port_tcp_down'' then Some 8081
      else if key = ''network.port_udp'' then Some 8082 else if key = ''cpu.core_network'' then Some 3
      else if key = ''cpu.core_gateway'' then Some gate else if key = ''rates.price_feed_rate_us'' then Some 1000
      else if key = ''rates.monitor_rate_ms'' then Some 1000 else if key = ''rates.telemetry_ms'' then Some 100 else None)"

lemma sample_cores: "cfg_cores ''5'' = Inr [5]"
proof -
  have "split_tokens ''5'' = [''5'']" by (subst split_tokens.simps, simp, subst split_tokens.simps, simp)
  then show ?thesis by (simp add: cfg_cores_def split_int_def stoi_def is_space_def is_digit_def read_nat_def digit_val_def Let_def)
qed

lemma sample_load:
  assumes "gate < 2 ^ 16" "gate \<noteq> 0" "gate \<noteq> 3"
  shows "\<exists>cfg. load_ServerConfig (sample_text ''5'') (sample_num gate) = Inr cfg \<and> sv_coreGateway cfg = Some (ucast gate) \<and>
    sv_coresApp cfg = [5] \<and> sv_coreNetwork cfg = Some 3"
proof -
  have "(ucast gate :: u16) \<noteq> 3" using ucast_u16_eq[OF assms(1), of 3] assms(3) by simp
  then show ?thesis using assms(1,2)
    by (simp add: load_ServerConfig_def cfg_get_def load_core_def get16_def cfg_app_def sample_cores cfg_check_def Let_def)
qed

theorem server_cores_apart_witness:
  "\<exists>cfg. load_ServerConfig (sample_text ''5'') (sample_num 4) = Inr cfg \<and> sv_coreNetwork cfg = Some 3 \<and> sv_coreNetwork cfg \<notin> Some ` set (sv_coresApp cfg)"
  using sample_load[of 4] server_cores_apart[of "sample_text ''5''" "sample_num 4"] by auto

text \<open>The gateway core is not compared with the application cores: this accepted configuration pins both threads to
  core five.\<close>

lemma gateway_core_shared:
  "\<exists>cfg. load_ServerConfig (sample_text ''5'') (sample_num 5) = Inr cfg \<and> sv_coreGateway cfg = Some 5 \<and> 5 \<in> set (sv_coresApp cfg)"
  using sample_load[of 5] by auto

end
