(* ===== verification/Commands.thy ===== *)
theory Commands
  imports Text_Utils
begin

text \<open>
  Console commands of the three programs (\<^verbatim>\<open>command.hpp\<close> and \<^verbatim>\<open>command_parser.hpp\<close> of the server, the client
  and the monitor). A parser posts the commands it recognises; the monitor's also runs the parsers
  of the other two, so one line may post several commands. A \<^verbatim>\<open>std::map\<close> is its list of entries in
  key order.
\<close>

section \<open>Server\<close>

datatype ServerCommand = PriceFeed_Start | PriceFeed_Stop | SrvTelemetry_Start | SrvTelemetry_Stop | SrvShutdown

fun ServerCommand_toString :: "ServerCommand \<Rightarrow> string" where
  "ServerCommand_toString PriceFeed_Start = ''price feed start''"
| "ServerCommand_toString PriceFeed_Stop = ''price feed stop''"
| "ServerCommand_toString SrvTelemetry_Start = ''telemetry start''"
| "ServerCommand_toString SrvTelemetry_Stop = ''telemetry stop''"
| "ServerCommand_toString SrvShutdown = ''shutdown''"

definition server_commands :: "(string \<times> ServerCommand) list" where
  "server_commands = [(''p+'', PriceFeed_Start), (''p-'', PriceFeed_Stop), (''q'', SrvShutdown),
     (''t+'', SrvTelemetry_Start), (''t-'', SrvTelemetry_Stop)]"

definition server_parse :: "string \<Rightarrow> bool \<times> ServerCommand list" where
  "server_parse cmd = (case map_of server_commands cmd of None \<Rightarrow> (False, []) | Some c \<Rightarrow> (True, [c]))"

definition server_serialize :: "ServerCommand \<Rightarrow> string" where
  "server_serialize c = (case find (\<lambda>(_, x). x = c) server_commands of None \<Rightarrow> [] | Some (k, _) \<Rightarrow> k)"

section \<open>Client\<close>

datatype ClientCommand = CmdStart | CmdStop | ClTelemetry_Start | ClTelemetry_Stop | ClShutdown

fun ClientCommand_toString :: "ClientCommand \<Rightarrow> string" where
  "ClientCommand_toString CmdStart = ''start''"
| "ClientCommand_toString CmdStop = ''stop''"
| "ClientCommand_toString ClTelemetry_Start = ''telemetry start''"
| "ClientCommand_toString ClTelemetry_Stop = ''telemetry stop''"
| "ClientCommand_toString ClShutdown = ''shutdown''"

definition client_commands :: "(string \<times> ClientCommand) list" where
  "client_commands = [(''q'', ClShutdown), (''s+'', CmdStart), (''s-'', CmdStop), (''t+'', ClTelemetry_Start), (''t-'', ClTelemetry_Stop)]"

definition client_parse :: "string \<Rightarrow> bool \<times> ClientCommand list" where
  "client_parse cmd = (case map_of client_commands cmd of None \<Rightarrow> (False, []) | Some c \<Rightarrow> (True, [c]))"

definition client_serialize :: "ClientCommand \<Rightarrow> string" where
  "client_serialize c = (case find (\<lambda>(_, x). x = c) client_commands of None \<Rightarrow> [] | Some (k, _) \<Rightarrow> k)"

section \<open>Monitor\<close>

datatype MonitorCommand = MonShutdown

fun MonitorCommand_toString :: "MonitorCommand \<Rightarrow> string" where
  "MonitorCommand_toString MonShutdown = ''shutdown''"

datatype mon_post = MP_Client ClientCommand | MP_Server ServerCommand | MP_Monitor MonitorCommand

definition monitor_commands :: "(string \<times> MonitorCommand) list" where
  "monitor_commands = [(''q'', MonShutdown)]"

text \<open>The bitwise or evaluates both parsers.\<close>

definition monitor_parse :: "string \<Rightarrow> bool \<times> mon_post list" where
  "monitor_parse cmd =
     (let (bc, pc) = client_parse cmd; (bs, ps) = server_parse cmd;
          ret = (bc \<or> bs); out = map MP_Client pc @ map MP_Server ps
      in case map_of monitor_commands cmd of
           None \<Rightarrow> (ret, out)
         | Some c \<Rightarrow> (True, out @ [MP_Monitor c]))"

definition monitor_serialize :: "MonitorCommand \<Rightarrow> string" where
  "monitor_serialize c = (case find (\<lambda>(_, x). x = c) monitor_commands of None \<Rightarrow> [] | Some (k, _) \<Rightarrow> k)"

fun post_serialize :: "mon_post \<Rightarrow> string" where
  "post_serialize (MP_Client c) = client_serialize c"
| "post_serialize (MP_Server c) = server_serialize c"
| "post_serialize (MP_Monitor c) = monitor_serialize c"

text \<open>\<^verbatim>\<open>deserialize\<close> makes a string of the bytes.\<close>

definition server_deserialize :: "u8 list \<Rightarrow> bool \<times> ServerCommand list" where
  "server_deserialize data = server_parse (map (\<lambda>b. char_of (unat b)) data)"

definition client_deserialize :: "u8 list \<Rightarrow> bool \<times> ClientCommand list" where
  "client_deserialize data = client_parse (map (\<lambda>b. char_of (unat b)) data)"

definition monitor_deserialize :: "u8 list \<Rightarrow> bool \<times> mon_post list" where
  "monitor_deserialize data = monitor_parse (map (\<lambda>b. char_of (unat b)) data)"

section \<open>ConsoleReader\<close>

text \<open>One check of the console: an empty line, or no input at all, posts nothing.\<close>

definition inputCheck :: "(string \<Rightarrow> bool \<times> 'c list) \<Rightarrow> string option \<Rightarrow> 'c list" where
  "inputCheck parse input =
     (case input of None \<Rightarrow> [] | Some line \<Rightarrow> if line \<noteq> [] then snd (parse line) else [])"

section \<open>Round trips\<close>

lemmas command_defs = server_parse_def client_parse_def monitor_parse_def server_serialize_def client_serialize_def
  monitor_serialize_def server_commands_def client_commands_def monitor_commands_def

lemma server_parse_serialize: "server_parse (server_serialize c) = (True, [c])"
  by (cases c) (simp_all add: command_defs)

lemma client_parse_serialize: "client_parse (client_serialize c) = (True, [c])"
  by (cases c) (simp_all add: command_defs)

text \<open>Commands survive a round trip through their text: the line a command is serialized to makes each
  program's parser post it, and every line the monitor accepts posts only commands that are
  serialized to that line.\<close>

theorem command_roundtrip:
  "server_parse (server_serialize sc) = (True, [sc]) \<and> client_parse (client_serialize cc) = (True, [cc]) \<and>
   MP_Server sc \<in> set (snd (monitor_parse (server_serialize sc))) \<and> MP_Client cc \<in> set (snd (monitor_parse (client_serialize cc))) \<and>
   post_serialize ` set (snd (monitor_parse line)) \<subseteq> {line} \<and> (fst (monitor_parse line) \<longleftrightarrow> snd (monitor_parse line) \<noteq> [])"
proof (intro conjI)
  show "server_parse (server_serialize sc) = (True, [sc])" "client_parse (client_serialize cc) = (True, [cc])"
    by (rule server_parse_serialize client_parse_serialize)+
  show "MP_Server sc \<in> set (snd (monitor_parse (server_serialize sc)))"
    using server_parse_serialize[of sc] by (auto simp: monitor_parse_def Let_def split: prod.splits option.splits)
  show "MP_Client cc \<in> set (snd (monitor_parse (client_serialize cc)))"
    using client_parse_serialize[of cc] by (auto simp: monitor_parse_def Let_def split: prod.splits option.splits)
  show "post_serialize ` set (snd (monitor_parse line)) \<subseteq> {line}"
    by (auto simp: command_defs Let_def split: option.splits if_splits)
  show "fst (monitor_parse line) \<longleftrightarrow> snd (monitor_parse line) \<noteq> []"
    by (auto simp: command_defs Let_def split: option.splits if_splits)
qed

end
