(* ===== verification/Control_Center.thy ===== *)
theory Control_Center
  imports Commands Client_Connection
begin

text \<open>
  The control centers of the server, the client and the monitor (\<^verbatim>\<open>control_center.hpp\<close>, \<^verbatim>\<open>events.hpp\<close>): which
  component reports make them start the transport, what errors and commands do, and the order in
  which they shut their components down. The three share one contract on their mask of ready
  components, the locale below. What the components do when started or stopped is an output.
\<close>

section \<open>Events\<close>

datatype ServerComponent = SCoordinator | SGateway | SIpc | STime

fun ServerComponent_bit :: "ServerComponent \<Rightarrow> u8" where
  "ServerComponent_bit SCoordinator = 1"
| "ServerComponent_bit SGateway = 2"
| "ServerComponent_bit SIpc = 4"
| "ServerComponent_bit STime = 8"

fun ServerComponent_toString :: "ServerComponent \<Rightarrow> string" where
  "ServerComponent_toString SCoordinator = ''Coordinator''"
| "ServerComponent_toString SGateway = ''Gateway''"
| "ServerComponent_toString SIpc = ''Ipc''"
| "ServerComponent_toString STime = ''Time''"

definition SERVER_INTERNAL_READY :: u8 where
  "SERVER_INTERNAL_READY = ServerComponent_bit SCoordinator OR ServerComponent_bit SGateway OR ServerComponent_bit STime"

definition SERVER_ALL_READY :: u8 where
  "SERVER_ALL_READY = SERVER_INTERNAL_READY OR ServerComponent_bit SIpc"

definition ChannelStatusEvent_toString :: "ChannelStatusEvent \<Rightarrow> string" where
  "ChannelStatusEvent_toString ev =
     ''ChannelStatusEvent '' @ show_word (case chse_clientId ev of None \<Rightarrow> 0 | Some c \<Rightarrow> c) @ '' '' @
     ''ConnectionStatusEvent '' @ show_word (cse_connectionId (chse_event ev)) @ '' '' @
     (case cse_status (chse_event ev) of Disconnected \<Rightarrow> ''disconnected'' | Connected \<Rightarrow> ''connected'' | ConnError \<Rightarrow> ''error'')"

datatype ClientComponent = CEngine | CIpc | CTime

fun ClientComponent_bit :: "ClientComponent \<Rightarrow> u8" where
  "ClientComponent_bit CEngine = 1"
| "ClientComponent_bit CIpc = 2"
| "ClientComponent_bit CTime = 4"

fun ClientComponent_toString :: "ClientComponent \<Rightarrow> string" where
  "ClientComponent_toString CEngine = ''Engine''"
| "ClientComponent_toString CIpc = ''Ipc''"
| "ClientComponent_toString CTime = ''Time''"

definition CLIENT_INTERNAL_READY :: u8 where
  "CLIENT_INTERNAL_READY = ClientComponent_bit CEngine OR ClientComponent_bit CTime"

definition CLIENT_ALL_READY :: u8 where
  "CLIENT_ALL_READY = CLIENT_INTERNAL_READY OR ClientComponent_bit CIpc"

datatype MonitorComponent = MIpc | MTime

fun MonitorComponent_bit :: "MonitorComponent \<Rightarrow> u8" where
  "MonitorComponent_bit MIpc = 1"
| "MonitorComponent_bit MTime = 2"

fun MonitorComponent_toString :: "MonitorComponent \<Rightarrow> string" where
  "MonitorComponent_toString MIpc = ''Ipc''"
| "MonitorComponent_toString MTime = ''Time''"

definition MONITOR_INTERNAL_READY :: u8 where
  "MONITOR_INTERNAL_READY = MonitorComponent_bit MTime"

definition MONITOR_ALL_READY :: u8 where
  "MONITOR_ALL_READY = MONITOR_INTERNAL_READY OR MonitorComponent_bit MIpc"

section \<open>The server's control center\<close>

datatype cc_action =
    StartIpc | AllStarted
  | StartGateway | StartCoordinator | StartEngine | StartTelemetry | RunBus
  | RequestStop | StopIpc | StopCoordinator | StopGateway | CloseSessions
  | StopEngine | CloseTelemetry | CloseConnections | StopReactor | StopBus
  | TradeStart | TradeStop | ThrowError string

record ServerCC =
  scc_readyMask :: u8
  scc_stopRequested :: bool

definition scc_new :: ServerCC where
  "scc_new = \<lparr>scc_readyMask = 0, scc_stopRequested = False\<rparr>"

definition scc_stop :: "ServerCC \<Rightarrow> cc_action list \<times> ServerCC" where
  "scc_stop s = ([RequestStop, StopIpc, StopCoordinator, StopGateway, CloseSessions, StopBus], s\<lparr>scc_stopRequested := True\<rparr>)"

text \<open>\<^verbatim>\<open>start\<close>: no tickers throw; \<open>validated\<close> says whether every market message has a handler, and \<^verbatim>\<open>run\<close> throws
  when not, which stops the server.\<close>

definition scc_start :: "bool \<Rightarrow> bool \<Rightarrow> ServerCC \<Rightarrow> cc_action list \<times> ServerCC" where
  "scc_start noTickers validated s =
     (if noTickers then ([ThrowError ''No ticker data loaded from db''], s)
      else if validated then ([StartGateway, StartCoordinator, RunBus], s)
      else case scc_stop s of (acts, s') \<Rightarrow> ([StartGateway, StartCoordinator] @ acts, s'))"

definition scc_postReady :: "ServerComponent \<Rightarrow> ServerCC \<Rightarrow> cc_action list \<times> ServerCC" where
  "scc_postReady c s =
     (let mask = scc_readyMask s OR ServerComponent_bit c
      in (if mask = SERVER_INTERNAL_READY then [StartIpc] else if mask = SERVER_ALL_READY then [AllStarted] else [],
          s\<lparr>scc_readyMask := mask\<rparr>))"

definition scc_postError :: "InternalError \<Rightarrow> ServerCC \<Rightarrow> cc_action list \<times> ServerCC" where
  "scc_postError err s = scc_stop s"

text \<open>Of the commands only \<^verbatim>\<open>Shutdown\<close> is handled here; the price feed handles its own.\<close>

definition scc_command :: "ServerCommand \<Rightarrow> ServerCC \<Rightarrow> cc_action list \<times> ServerCC" where
  "scc_command c s = (if c = SrvShutdown then scc_stop s else ([], s))"

text \<open>The subscriptions of the constructor. \<open>SE_Calibrated\<close> is the task that measures the clock and reports it.\<close>

datatype scc_event = SE_Ready ServerComponent | SE_Price TickerPrice | SE_Error InternalError | SE_Command ServerCommand | SE_Signal | SE_Calibrated

fun scc_on :: "scc_event \<Rightarrow> ServerCC \<Rightarrow> cc_action list \<times> scc_event list \<times> ServerCC" where
  "scc_on (SE_Ready c) s = (case scc_postReady c s of (acts, s') \<Rightarrow> (acts, [], s'))"
| "scc_on (SE_Price p) s = ([], [], s)"
| "scc_on (SE_Error e) s = (case scc_postError e s of (acts, s') \<Rightarrow> (acts, [], s'))"
| "scc_on (SE_Command c) s = (case scc_command c s of (acts, s') \<Rightarrow> (acts, [], s'))"
| "scc_on SE_Signal s = (case scc_stop s of (acts, s') \<Rightarrow> (acts, [], s'))"
| "scc_on SE_Calibrated s = ([], [SE_Ready STime], s)"

section \<open>The client's control center\<close>

record ClientCC =
  ccc_readyMask :: u8
  ccc_state :: ServerConnectionState
  ccc_stopRequested :: bool

definition ccc_new :: ClientCC where
  "ccc_new = \<lparr>ccc_readyMask = 0, ccc_state = SC_Disconnected, ccc_stopRequested = False\<rparr>"

text \<open>The starts of the client and of the monitor only log what \<^verbatim>\<open>run\<close> throws.\<close>

definition ccc_start :: "bool \<Rightarrow> ClientCC \<Rightarrow> cc_action list \<times> ClientCC" where
  "ccc_start validated s = ([StartEngine, StartTelemetry] @ (if validated then [RunBus] else []), s)"

definition ccc_stop :: "ClientCC \<Rightarrow> cc_action list \<times> ClientCC" where
  "ccc_stop s = ([RequestStop, StopIpc, StopEngine, CloseTelemetry, CloseConnections, StopBus], s\<lparr>ccc_stopRequested := True\<rparr>)"

definition ccc_postReady :: "ClientComponent \<Rightarrow> ClientCC \<Rightarrow> cc_action list \<times> ClientCC" where
  "ccc_postReady c s =
     (let mask = ccc_readyMask s OR ClientComponent_bit c
      in (if mask = CLIENT_INTERNAL_READY then [StartIpc] else if mask = CLIENT_ALL_READY then [AllStarted] else [],
          s\<lparr>ccc_readyMask := mask\<rparr>))"

definition ccc_postState :: "ServerConnectionState \<Rightarrow> ClientCC \<Rightarrow> cc_action list \<times> ClientCC" where
  "ccc_postState ev s =
     (let s = s\<lparr>ccc_state := ev\<rparr>
      in case ev of SC_Disconnected \<Rightarrow> ccc_stop s | SC_Connected \<Rightarrow> ([], s) | SC_Failed \<Rightarrow> ccc_stop s)"

definition ccc_postError :: "InternalError \<Rightarrow> ClientCC \<Rightarrow> cc_action list \<times> ClientCC" where
  "ccc_postError err s = ccc_stop s"

definition ccc_tradeStart :: "ClientCC \<Rightarrow> cc_action list" where
  "ccc_tradeStart s = (if ccc_state s \<noteq> SC_Connected then [] else [TradeStart])"

definition ccc_command :: "ClientCommand \<Rightarrow> ClientCC \<Rightarrow> cc_action list \<times> ClientCC" where
  "ccc_command c s =
     (case c of CmdStart \<Rightarrow> (ccc_tradeStart s, s) | CmdStop \<Rightarrow> ([TradeStop], s) | ClShutdown \<Rightarrow> ccc_stop s | _ \<Rightarrow> ([], s))"

datatype ccc_event = CE_Ready ClientComponent | CE_State ServerConnectionState | CE_Error InternalError | CE_Command ClientCommand | CE_Signal | CE_Calibrated

fun ccc_on :: "ccc_event \<Rightarrow> ClientCC \<Rightarrow> cc_action list \<times> ccc_event list \<times> ClientCC" where
  "ccc_on (CE_Ready c) s = (case ccc_postReady c s of (acts, s') \<Rightarrow> (acts, [], s'))"
| "ccc_on (CE_State st) s = (case ccc_postState st s of (acts, s') \<Rightarrow> (acts, [], s'))"
| "ccc_on (CE_Error e) s = (case ccc_postError e s of (acts, s') \<Rightarrow> (acts, [], s'))"
| "ccc_on (CE_Command c) s = (case ccc_command c s of (acts, s') \<Rightarrow> (acts, [], s'))"
| "ccc_on CE_Signal s = (case ccc_stop s of (acts, s') \<Rightarrow> (acts, [], s'))"
| "ccc_on CE_Calibrated s = ([], [CE_Ready CTime], s)"

section \<open>The monitor's control center\<close>

record MonitorCC =
  mcc_readyMask :: u8
  mcc_stopRequested :: bool

definition mcc_new :: MonitorCC where
  "mcc_new = \<lparr>mcc_readyMask = 0, mcc_stopRequested = False\<rparr>"

definition mcc_start :: "bool \<Rightarrow> MonitorCC \<Rightarrow> cc_action list \<times> MonitorCC" where
  "mcc_start validated s = ([StartTelemetry] @ (if validated then [RunBus] else []), s)"

definition mcc_stop :: "MonitorCC \<Rightarrow> cc_action list \<times> MonitorCC" where
  "mcc_stop s = ([RequestStop, StopReactor, CloseTelemetry, StopBus], s\<lparr>mcc_stopRequested := True\<rparr>)"

definition mcc_postReady :: "MonitorComponent \<Rightarrow> MonitorCC \<Rightarrow> cc_action list \<times> MonitorCC" where
  "mcc_postReady c s =
     (let mask = mcc_readyMask s OR MonitorComponent_bit c
      in (if mask = MONITOR_INTERNAL_READY then [StartIpc] else if mask = MONITOR_ALL_READY then [AllStarted] else [],
          s\<lparr>mcc_readyMask := mask\<rparr>))"

text \<open>The monitor creates a signal set but never waits on it, so signals end the process.\<close>

datatype mcc_event = ME_Ready MonitorComponent | ME_Command MonitorCommand | ME_Calibrated

fun mcc_on :: "mcc_event \<Rightarrow> MonitorCC \<Rightarrow> cc_action list \<times> mcc_event list \<times> MonitorCC" where
  "mcc_on (ME_Ready c) s = (case mcc_postReady c s of (acts, s') \<Rightarrow> (acts, [], s'))"
| "mcc_on (ME_Command MonShutdown) s = (case mcc_stop s of (acts, s') \<Rightarrow> (acts, [], s'))"
| "mcc_on ME_Calibrated s = ([], [ME_Ready MTime], s)"

section \<open>The readiness contract\<close>

text \<open>A center collects the bits of the components that reported. \<open>I\<close> are the components that must be ready
  before the transport starts, \<open>ipc\<close> is the transport.\<close>

locale readiness =
  fixes bit_of :: "'c \<Rightarrow> nat"
    and I :: "'c set"
    and ipc :: 'c
    and ready :: "'c \<Rightarrow> 's \<Rightarrow> cc_action list \<times> 's"
    and mask :: "'s \<Rightarrow> u8"
  assumes inj_bit: "inj bit_of"
    and ipc_out: "ipc \<notin> I"
    and mask_law: "bit (mask (snd (ready c s))) n \<longleftrightarrow> bit (mask s) n \<or> n = bit_of c"
    and start_law: "StartIpc \<in> set (fst (ready c s)) \<longleftrightarrow> (\<forall>n. bit (mask (snd (ready c s))) n \<longleftrightarrow> n \<in> bit_of ` I)"
    and done_law: "AllStarted \<in> set (fst (ready c s)) \<longleftrightarrow> (\<forall>n. bit (mask (snd (ready c s))) n \<longleftrightarrow> n \<in> bit_of ` insert ipc I)"
begin

definition run :: "'c list \<Rightarrow> 's \<Rightarrow> 's" where
  "run cs s = fold (\<lambda>c s. snd (ready c s)) cs s"

lemma run_mask: "bit (mask (run cs s)) n \<longleftrightarrow> bit (mask s) n \<or> n \<in> bit_of ` set cs"
  by (induction cs arbitrary: s) (auto simp: run_def mask_law)

lemma bits_eq: "(\<forall>n. n \<in> bit_of ` A \<longleftrightarrow> n \<in> bit_of ` B) \<longleftrightarrow> A = B"
  using inj_bit by (metis inj_image_eq_iff subset_antisym subsetI)

lemma starts_when_ready:
  assumes "mask s = 0"
  shows "StartIpc \<in> set (fst (ready c (run cs s))) \<longleftrightarrow> set (c # cs) = I"
    and "AllStarted \<in> set (fst (ready c (run cs s))) \<longleftrightarrow> set (c # cs) = insert ipc I"
proof -
  have m: "bit (mask (snd (ready c (run cs s)))) n \<longleftrightarrow> n \<in> bit_of ` set (c # cs)" for n
    using assms by (auto simp: mask_law run_mask)
  show "StartIpc \<in> set (fst (ready c (run cs s))) \<longleftrightarrow> set (c # cs) = I"
    unfolding start_law m by (rule bits_eq)
  show "AllStarted \<in> set (fst (ready c (run cs s))) \<longleftrightarrow> set (c # cs) = insert ipc I"
    unfolding done_law m by (rule bits_eq)
qed

end

lemma single_bits:
  "bit (1 :: u8) n \<longleftrightarrow> n = 0" "bit (2 :: u8) n \<longleftrightarrow> n = 1" "bit (4 :: u8) n \<longleftrightarrow> n = 2" "bit (8 :: u8) n \<longleftrightarrow> n = 3"
proof -
  have p: "(2 :: u8) = push_bit 1 1" "(4 :: u8) = push_bit 2 1" "(8 :: u8) = push_bit 3 1" by simp_all
  show "bit (1 :: u8) n \<longleftrightarrow> n = 0" by (simp add: bit_1_iff)
  show "bit (2 :: u8) n \<longleftrightarrow> n = 1" "bit (4 :: u8) n \<longleftrightarrow> n = 2" "bit (8 :: u8) n \<longleftrightarrow> n = 3"
    unfolding p bit_push_bit_iff bit_1_iff by auto
qed

fun server_pos :: "ServerComponent \<Rightarrow> nat" where
  "server_pos SCoordinator = 0"
| "server_pos SGateway = 1"
| "server_pos SIpc = 2"
| "server_pos STime = 3"

fun client_pos :: "ClientComponent \<Rightarrow> nat" where
  "client_pos CEngine = 0"
| "client_pos CIpc = 1"
| "client_pos CTime = 2"

fun monitor_pos :: "MonitorComponent \<Rightarrow> nat" where
  "monitor_pos MIpc = 0"
| "monitor_pos MTime = 1"

lemma component_bits:
  "bit (ServerComponent_bit sc) n \<longleftrightarrow> n = server_pos sc"
  "bit (ClientComponent_bit cc) n \<longleftrightarrow> n = client_pos cc"
  "bit (MonitorComponent_bit mc) n \<longleftrightarrow> n = monitor_pos mc"
proof -
  show "bit (ServerComponent_bit sc) n \<longleftrightarrow> n = server_pos sc"
    by (cases sc) (simp_all only: ServerComponent_bit.simps server_pos.simps single_bits)
  show "bit (ClientComponent_bit cc) n \<longleftrightarrow> n = client_pos cc"
    by (cases cc) (simp_all only: ClientComponent_bit.simps client_pos.simps single_bits)
  show "bit (MonitorComponent_bit mc) n \<longleftrightarrow> n = monitor_pos mc"
    by (cases mc) (simp_all only: MonitorComponent_bit.simps monitor_pos.simps single_bits)
qed

lemma ready_bits:
  "bit SERVER_INTERNAL_READY n \<longleftrightarrow> n \<in> server_pos ` {SCoordinator, SGateway, STime}"
  "bit SERVER_ALL_READY n \<longleftrightarrow> n \<in> server_pos ` {SIpc, SCoordinator, SGateway, STime}"
  "bit CLIENT_INTERNAL_READY n \<longleftrightarrow> n \<in> client_pos ` {CEngine, CTime}"
  "bit CLIENT_ALL_READY n \<longleftrightarrow> n \<in> client_pos ` {CIpc, CEngine, CTime}"
  "bit MONITOR_INTERNAL_READY n \<longleftrightarrow> n \<in> monitor_pos ` {MTime}"
  "bit MONITOR_ALL_READY n \<longleftrightarrow> n \<in> monitor_pos ` {MIpc, MTime}"
  unfolding SERVER_INTERNAL_READY_def SERVER_ALL_READY_def CLIENT_INTERNAL_READY_def CLIENT_ALL_READY_def
    MONITOR_INTERNAL_READY_def MONITOR_ALL_READY_def bit_or_iff component_bits by auto

lemma ready_differ:
  "SERVER_INTERNAL_READY \<noteq> SERVER_ALL_READY" "CLIENT_INTERNAL_READY \<noteq> CLIENT_ALL_READY" "MONITOR_INTERNAL_READY \<noteq> MONITOR_ALL_READY"
  by (simp_all add: SERVER_INTERNAL_READY_def SERVER_ALL_READY_def CLIENT_INTERNAL_READY_def CLIENT_ALL_READY_def
      MONITOR_INTERNAL_READY_def MONITOR_ALL_READY_def)

lemma mask_eq: "(m :: u8) = k \<longleftrightarrow> (\<forall>n. bit m n \<longleftrightarrow> bit k n)"
  using bit_word_eqI by blast

lemma pos_inj: "inj server_pos" "inj client_pos" "inj monitor_pos"
proof -
  have "server_pos x = server_pos y \<Longrightarrow> x = y" for x y by (cases x; cases y; simp)
  then show "inj server_pos" by (rule injI)
  have "client_pos x = client_pos y \<Longrightarrow> x = y" for x y by (cases x; cases y; simp)
  then show "inj client_pos" by (rule injI)
  have "monitor_pos x = monitor_pos y \<Longrightarrow> x = y" for x y by (cases x; cases y; simp)
  then show "inj monitor_pos" by (rule injI)
qed

interpretation server_ready: readiness server_pos "{SCoordinator, SGateway, STime}" SIpc scc_postReady scc_readyMask
proof (unfold_locales, rule pos_inj)
  fix c n and s :: ServerCC
  show "bit (scc_readyMask (snd (scc_postReady c s))) n \<longleftrightarrow> bit (scc_readyMask s) n \<or> n = server_pos c"
    by (simp add: scc_postReady_def Let_def bit_or_iff component_bits)
  show "StartIpc \<in> set (fst (scc_postReady c s)) \<longleftrightarrow>
      (\<forall>n. bit (scc_readyMask (snd (scc_postReady c s))) n \<longleftrightarrow> n \<in> server_pos ` {SCoordinator, SGateway, STime})"
    unfolding ready_bits(1)[symmetric] mask_eq[symmetric] by (simp add: scc_postReady_def Let_def)
  show "AllStarted \<in> set (fst (scc_postReady c s)) \<longleftrightarrow>
      (\<forall>n. bit (scc_readyMask (snd (scc_postReady c s))) n \<longleftrightarrow> n \<in> server_pos ` {SIpc, SCoordinator, SGateway, STime})"
    unfolding ready_bits(2)[symmetric] mask_eq[symmetric] using ready_differ(1) by (auto simp: scc_postReady_def Let_def)
qed simp

interpretation client_ready: readiness client_pos "{CEngine, CTime}" CIpc ccc_postReady ccc_readyMask
proof (unfold_locales, rule pos_inj)
  fix c n and s :: ClientCC
  show "bit (ccc_readyMask (snd (ccc_postReady c s))) n \<longleftrightarrow> bit (ccc_readyMask s) n \<or> n = client_pos c"
    by (simp add: ccc_postReady_def Let_def bit_or_iff component_bits)
  show "StartIpc \<in> set (fst (ccc_postReady c s)) \<longleftrightarrow> (\<forall>n. bit (ccc_readyMask (snd (ccc_postReady c s))) n \<longleftrightarrow> n \<in> client_pos ` {CEngine, CTime})"
    unfolding ready_bits(3)[symmetric] mask_eq[symmetric] by (simp add: ccc_postReady_def Let_def)
  show "AllStarted \<in> set (fst (ccc_postReady c s)) \<longleftrightarrow> (\<forall>n. bit (ccc_readyMask (snd (ccc_postReady c s))) n \<longleftrightarrow> n \<in> client_pos ` {CIpc, CEngine, CTime})"
    unfolding ready_bits(4)[symmetric] mask_eq[symmetric] using ready_differ(2) by (auto simp: ccc_postReady_def Let_def)
qed simp

interpretation monitor_ready: readiness monitor_pos "{MTime}" MIpc mcc_postReady mcc_readyMask
proof (unfold_locales, rule pos_inj)
  fix c n and s :: MonitorCC
  show "bit (mcc_readyMask (snd (mcc_postReady c s))) n \<longleftrightarrow> bit (mcc_readyMask s) n \<or> n = monitor_pos c"
    by (simp add: mcc_postReady_def Let_def bit_or_iff component_bits)
  show "StartIpc \<in> set (fst (mcc_postReady c s)) \<longleftrightarrow> (\<forall>n. bit (mcc_readyMask (snd (mcc_postReady c s))) n \<longleftrightarrow> n \<in> monitor_pos ` {MTime})"
    unfolding ready_bits(5)[symmetric] mask_eq[symmetric] by (simp add: mcc_postReady_def Let_def)
  show "AllStarted \<in> set (fst (mcc_postReady c s)) \<longleftrightarrow> (\<forall>n. bit (mcc_readyMask (snd (mcc_postReady c s))) n \<longleftrightarrow> n \<in> monitor_pos ` {MIpc, MTime})"
    unfolding ready_bits(6)[symmetric] mask_eq[symmetric] using ready_differ(3) by (auto simp: mcc_postReady_def Let_def)
qed simp

section \<open>Properties\<close>

text \<open>Start-up order: whatever the order and number of the component reports, a report makes the server open its
  transport exactly when the components reported so far are the coordinator, the gateway and the
  clock, and makes the client open its own exactly when they are the engine and the clock; the
  server counts as started exactly when the transport has reported too.\<close>

theorem ipc_starts_when_ready:
  "(StartIpc \<in> set (fst (scc_postReady c (fold (\<lambda>c s. snd (scc_postReady c s)) cs scc_new))) \<longleftrightarrow> set (c # cs) = {SCoordinator, SGateway, STime}) \<and>
   (AllStarted \<in> set (fst (scc_postReady c (fold (\<lambda>c s. snd (scc_postReady c s)) cs scc_new))) \<longleftrightarrow> set (c # cs) = {SIpc, SCoordinator, SGateway, STime}) \<and>
   (StartIpc \<in> set (fst (ccc_postReady d (fold (\<lambda>c s. snd (ccc_postReady c s)) ds ccc_new))) \<longleftrightarrow> set (d # ds) = {CEngine, CTime})"
  using server_ready.starts_when_ready[of scc_new c cs] client_ready.starts_when_ready(1)[of ccc_new d ds]
  unfolding server_ready.run_def client_ready.run_def by (simp add: scc_new_def ccc_new_def)

end
