(* ===== verification/Server_Startup.thy ===== *)
theory Server_Startup
  imports Control_Center Market_Data
begin

text \<open>
  Starting the server: \<^verbatim>\<open>ControlCenter::start\<close>, \<^verbatim>\<open>OrderGateway::start\<close>, \<^verbatim>\<open>Coordinator::startWorkers\<close> and the thread function of
  \<^verbatim>\<open>LfqRunner::run\<close> up to its loop, as atomic steps of the main thread, the gateway thread and the \<open>n\<close> worker
  threads in any interleaving. The system bus queues what is posted to it and handles nothing until the main thread
  has reached \<^verbatim>\<open>bus_.run()\<close>. The clock calibration is a task the constructor has queued. \<open>su_log\<close> records the reports handled so far.
\<close>

section \<open>Steps\<close>

text \<open>A thread of a runner: created, past \<^verbatim>\<open>started_.store(true)\<close>, past its ready callback.\<close>

datatype thread_phase = T_none | T_spawned | T_started | T_ready

datatype start_pc = P_gateway | P_worker nat | P_run

datatype sys_work = Calibrate | Report ServerComponent

record Startup =
  su_pc :: start_pc
  su_workers :: "thread_phase list"
  su_counter :: u32
  su_gateway :: thread_phase
  su_queue :: "sys_work list"
  su_cc :: ServerCC
  su_actions :: "cc_action list"
  su_log :: "ServerComponent list"

definition startup_new :: Startup where
  "startup_new = \<lparr>su_pc = P_gateway, su_workers = [], su_counter = 0, su_gateway = T_none, su_queue = [Calibrate],
     su_cc = scc_new, su_actions = [], su_log = []\<rparr>"

text \<open>The main thread starts the gateway, then one worker after the other, then runs the bus.\<close>

definition main_step :: "nat \<Rightarrow> Startup \<Rightarrow> Startup option" where
  "main_step n s =
     (case su_pc s of
        P_gateway \<Rightarrow> Some (s\<lparr>su_gateway := T_spawned, su_pc := P_worker 0\<rparr>)
      | P_worker i \<Rightarrow>
          if i < n then Some (s\<lparr>su_workers := su_workers s @ [T_spawned], su_pc := P_worker (i + 1)\<rparr>)
          else Some (s\<lparr>su_pc := P_run\<rparr>)
      | P_run \<Rightarrow> None)"

text \<open>The ready callback of the workers counts them; the last one reports.\<close>

definition worker_step :: "nat \<Rightarrow> nat \<Rightarrow> Startup \<Rightarrow> Startup option" where
  "worker_step n i s =
     (if i < length (su_workers s)
      then case su_workers s ! i of
             T_spawned \<Rightarrow> Some (s\<lparr>su_workers := (su_workers s)[i := T_started]\<rparr>)
           | T_started \<Rightarrow>
               Some (s\<lparr>su_workers := (su_workers s)[i := T_ready], su_counter := su_counter s + 1,
                 su_queue := su_queue s @ (if unat (su_counter s + 1) = n then [Report SCoordinator] else [])\<rparr>)
           | _ \<Rightarrow> None
      else None)"

definition gateway_step :: "Startup \<Rightarrow> Startup option" where
  "gateway_step s =
     (case su_gateway s of
        T_spawned \<Rightarrow> Some (s\<lparr>su_gateway := T_started\<rparr>)
      | T_started \<Rightarrow> Some (s\<lparr>su_gateway := T_ready, su_queue := su_queue s @ [Report SGateway]\<rparr>)
      | _ \<Rightarrow> None)"

definition dispatch_step :: "Startup \<Rightarrow> Startup option" where
  "dispatch_step s =
     (case (su_pc s, su_queue s) of
        (P_run, Calibrate # q) \<Rightarrow> Some (s\<lparr>su_queue := q @ [Report STime]\<rparr>)
      | (P_run, Report c # q) \<Rightarrow>
          (case scc_postReady c (su_cc s) of
             (acts, cc) \<Rightarrow> Some (s\<lparr>su_queue := q, su_cc := cc, su_actions := su_actions s @ acts, su_log := su_log s @ [c]\<rparr>))
      | _ \<Rightarrow> None)"

inductive startup_step :: "nat \<Rightarrow> Startup \<Rightarrow> Startup \<Rightarrow> bool" for n where
  main: "main_step n s = Some s' \<Longrightarrow> startup_step n s s'"
| worker: "worker_step n i s = Some s' \<Longrightarrow> startup_step n s s'"
| gateway: "gateway_step s = Some s' \<Longrightarrow> startup_step n s s'"
| dispatch: "dispatch_step s = Some s' \<Longrightarrow> startup_step n s s'"

inductive startup_reach :: "nat \<Rightarrow> Startup \<Rightarrow> bool" for n where
  init: "startup_reach n startup_new"
| step: "startup_reach n s \<Longrightarrow> startup_step n s s' \<Longrightarrow> startup_reach n s'"

section \<open>Reports\<close>

text \<open>How often a component has reported, handled or still queued.\<close>

definition reports :: "Startup \<Rightarrow> ServerComponent \<Rightarrow> nat" where
  "reports s c = count_list (su_log s) c + count_list (su_queue s) (Report c)"

definition ready_workers :: "Startup \<Rightarrow> nat" where
  "ready_workers s = count_list (su_workers s) T_ready"

definition created :: "nat \<Rightarrow> Startup \<Rightarrow> nat" where
  "created n s = (case su_pc s of P_gateway \<Rightarrow> 0 | P_worker i \<Rightarrow> i | P_run \<Rightarrow> n)"

definition startup_inv :: "nat \<Rightarrow> Startup \<Rightarrow> bool" where
  "startup_inv n s \<longleftrightarrow> length (su_workers s) = created n s \<and> created n s \<le> n \<and> T_none \<notin> set (su_workers s) \<and>
     (su_gateway s = T_none \<longleftrightarrow> su_pc s = P_gateway) \<and> unat (su_counter s) = ready_workers s \<and>
     reports s SCoordinator = (if ready_workers s = n then 1 else 0) \<and> reports s SGateway = (if su_gateway s = T_ready then 1 else 0) \<and>
     reports s STime + count_list (su_queue s) Calibrate = 1 \<and> reports s SIpc = 0 \<and>
     (su_log s \<noteq> [] \<longrightarrow> su_pc s = P_run) \<and> su_cc s = server_ready.run (su_log s) scc_new"

lemma ready_workers_le: "ready_workers s \<le> length (su_workers s)"
  by (simp add: ready_workers_def count_le_length)

lemma count_list_update:
  "i < length xs \<Longrightarrow> count_list (xs[i := y]) x + (if xs ! i = x then 1 else 0) = count_list xs x + (if y = x then 1 else 0)"
proof (induction xs arbitrary: i)
  case (Cons a xs)
  show ?case
  proof (cases i)
    case (Suc k)
    then show ?thesis using Cons.IH[of k] Cons.prems by auto
  qed auto
qed simp

lemma startup_inv_new: "0 < n \<Longrightarrow> startup_inv n startup_new"
  by (simp add: startup_inv_def startup_new_def created_def ready_workers_def reports_def server_ready.run_def)

lemma startup_inv_main:
  assumes inv: "startup_inv n s" and st: "main_step n s = Some s'"
  shows "startup_inv n s'"
proof (cases "su_pc s")
  case P_gateway
  then have "s' = s\<lparr>su_gateway := T_spawned, su_pc := P_worker 0\<rparr>" using st by (simp add: main_step_def)
  then show ?thesis using inv P_gateway by (auto simp: startup_inv_def created_def ready_workers_def reports_def)
next
  case (P_worker i)
  show ?thesis
  proof (cases "i < n")
    case True
    then have "s' = s\<lparr>su_workers := su_workers s @ [T_spawned], su_pc := P_worker (i + 1)\<rparr>"
      using st P_worker by (simp add: main_step_def)
    then show ?thesis using inv P_worker True by (auto simp: startup_inv_def created_def ready_workers_def reports_def)
  next
    case False
    then have "s' = s\<lparr>su_pc := P_run\<rparr>" using st P_worker by (simp add: main_step_def)
    then show ?thesis using inv P_worker False by (auto simp: startup_inv_def created_def ready_workers_def reports_def)
  qed
next
  case P_run
  then show ?thesis using st by (simp add: main_step_def)
qed

lemma startup_inv_gateway:
  assumes inv: "startup_inv n s" and st: "gateway_step s = Some s'"
  shows "startup_inv n s'"
proof (cases "su_gateway s")
  case T_spawned
  then have "s' = s\<lparr>su_gateway := T_started\<rparr>" using st by (simp add: gateway_step_def)
  then show ?thesis using inv T_spawned by (simp add: startup_inv_def created_def ready_workers_def reports_def)
next
  case T_started
  then have "s' = s\<lparr>su_gateway := T_ready, su_queue := su_queue s @ [Report SGateway]\<rparr>" using st by (simp add: gateway_step_def)
  then show ?thesis using inv T_started by (simp add: startup_inv_def created_def ready_workers_def reports_def)
qed (use st in \<open>simp_all add: gateway_step_def\<close>)

lemma startup_inv_worker:
  assumes inv: "startup_inv n s" and n: "n < 2 ^ 16" and st: "worker_step n i s = Some s'"
  shows "startup_inv n s'"
proof -
  have i: "i < length (su_workers s)" using st by (simp add: worker_step_def split: if_splits)
  consider "su_workers s ! i = T_spawned" | "su_workers s ! i = T_started"
    using st i by (cases "su_workers s ! i") (simp_all add: worker_step_def)
  then show ?thesis
  proof cases
    case 1
    then have s': "s' = s\<lparr>su_workers := (su_workers s)[i := T_started]\<rparr>" using st i by (simp add: worker_step_def)
    have "count_list ((su_workers s)[i := T_started]) T_ready = count_list (su_workers s) T_ready"
      using count_list_update[OF i, of T_started T_ready] 1 by simp
    moreover have "T_none \<notin> set ((su_workers s)[i := T_started])"
      using inv set_update_subset_insert[of "su_workers s" i T_started] by (auto simp: startup_inv_def)
    ultimately show ?thesis using inv s' by (simp add: startup_inv_def created_def ready_workers_def reports_def)
  next
    case 2
    then have s': "s' = s\<lparr>su_workers := (su_workers s)[i := T_ready], su_counter := su_counter s + 1,
        su_queue := su_queue s @ (if unat (su_counter s + 1) = n then [Report SCoordinator] else [])\<rparr>"
      using st i by (simp add: worker_step_def)
    have r: "ready_workers s' = Suc (ready_workers s)"
      using count_list_update[OF i, of T_ready T_ready] 2 by (simp add: s' ready_workers_def)
    have lt: "ready_workers s < n" using ready_workers_le[of s'] inv unfolding r by (simp add: s' startup_inv_def)
    then have c: "unat (su_counter s + 1) = Suc (ready_workers s)"
      using inv n by (simp add: startup_inv_def unat_word_ariths)
    have "T_none \<notin> set ((su_workers s)[i := T_ready])"
      using inv set_update_subset_insert[of "su_workers s" i T_ready] by (auto simp: startup_inv_def)
    moreover have "count_list ((su_workers s)[i := T_ready]) T_ready = Suc (ready_workers s)"
      using r by (simp add: ready_workers_def s')
    ultimately show ?thesis
      using inv c lt by (simp add: startup_inv_def s' created_def reports_def ready_workers_def)
  qed
qed

lemma startup_inv_dispatch:
  assumes inv: "startup_inv n s" and st: "dispatch_step s = Some s'"
  shows "startup_inv n s'"
proof -
  have pc: "su_pc s = P_run" using st by (auto simp: dispatch_step_def split: start_pc.splits list.splits)
  obtain w q where q: "su_queue s = w # q" using st pc by (cases "su_queue s") (auto simp: dispatch_step_def)
  show ?thesis
  proof (cases w)
    case Calibrate
    then have "s' = s\<lparr>su_queue := q @ [Report STime]\<rparr>" using st pc q by (simp add: dispatch_step_def)
    then show ?thesis using inv q Calibrate by (simp add: startup_inv_def created_def ready_workers_def reports_def)
  next
    case (Report c)
    obtain acts cc where r: "scc_postReady c (su_cc s) = (acts, cc)" by fastforce
    then have s': "s' = s\<lparr>su_queue := q, su_cc := cc, su_actions := su_actions s @ acts, su_log := su_log s @ [c]\<rparr>"
      using st pc q Report by (simp add: dispatch_step_def)
    have "reports s' x = reports s x" for x using q Report by (simp add: reports_def s')
    moreover have "cc = server_ready.run (su_log s @ [c]) scc_new"
      using inv r by (simp add: startup_inv_def server_ready.run_def)
    ultimately show ?thesis using inv pc q Report
      unfolding startup_inv_def by (simp add: s' created_def ready_workers_def)
  qed
qed

lemma startup_reach_inv: "startup_reach n s \<Longrightarrow> 0 < n \<Longrightarrow> n < 2 ^ 16 \<Longrightarrow> startup_inv n s"
proof (induction rule: startup_reach.induct)
  case init then show ?case by (simp add: startup_inv_new)
next
  case (step s s')
  from step(2) show ?case
    by cases (use step startup_inv_main startup_inv_worker startup_inv_gateway startup_inv_dispatch in blast)+
qed

section \<open>Every run ends\<close>

text \<open>The work left: each step of each thread uses some of it up.\<close>

fun phase_work :: "thread_phase \<Rightarrow> nat" where
  "phase_work T_none = 0"
| "phase_work T_spawned = 4"
| "phase_work T_started = 3"
| "phase_work T_ready = 0"

fun task_work :: "sys_work \<Rightarrow> nat" where
  "task_work Calibrate = 3"
| "task_work (Report c) = 1"

definition work_left :: "nat \<Rightarrow> Startup \<Rightarrow> nat" where
  "work_left n s =
     (case su_pc s of P_gateway \<Rightarrow> 6 * (n + 2) | P_worker i \<Rightarrow> 6 * (n + 1 - i) | P_run \<Rightarrow> 0) +
     sum_list (map phase_work (su_workers s)) + phase_work (su_gateway s) + sum_list (map task_work (su_queue s))"

lemma sum_list_update_nat:
  fixes f :: "'a \<Rightarrow> nat"
  shows "i < length xs \<Longrightarrow> sum_list (map f (xs[i := y])) + f (xs ! i) = sum_list (map f xs) + f y"
proof (induction xs arbitrary: i)
  case (Cons a xs)
  then show ?case by (cases i) fastforce+
qed simp

lemma worker_uses_work:
  assumes "worker_step n i s = Some s'"
  shows "work_left n s' < work_left n s"
proof -
  have i: "i < length (su_workers s)" using assms by (simp add: worker_step_def split: if_splits)
  have upd: "sum_list (map phase_work ((su_workers s)[i := ph])) + phase_work (su_workers s ! i) =
      sum_list (map phase_work (su_workers s)) + phase_work ph" for ph
    by (rule sum_list_update_nat[OF i])
  show ?thesis
    using assms i upd[of T_started] upd[of T_ready]
    by (cases "su_workers s ! i") (auto simp: worker_step_def work_left_def)
qed

lemma startup_uses_work:
  assumes "startup_step n s s'" "startup_inv n s"
  shows "work_left n s' < work_left n s"
  using assms(1)
proof cases
  case main
  then show ?thesis
    using assms(2)
    by (cases "su_pc s") (auto simp: main_step_def work_left_def startup_inv_def created_def split: if_splits)
next
  case (worker i)
  then show ?thesis by (rule worker_uses_work)
next
  case gateway
  then show ?thesis by (cases "su_gateway s") (auto simp: gateway_step_def work_left_def)
next
  case dispatch
  then show ?thesis
    by (auto simp: dispatch_step_def work_left_def split: start_pc.splits list.splits sys_work.splits prod.splits)
qed

text \<open>A state without a step.\<close>

definition settled :: "nat \<Rightarrow> Startup \<Rightarrow> bool" where
  "settled n s \<longleftrightarrow> (\<forall>s'. \<not> startup_step n s s')"

lemma settles:
  assumes "startup_reach n s" "0 < n" "n < 2 ^ 16"
  shows "\<exists>s'. (startup_step n)\<^sup>*\<^sup>* s s' \<and> startup_reach n s' \<and> settled n s'"
  using assms
proof (induction "work_left n s" arbitrary: s rule: less_induct)
  case less
  show ?case
  proof (cases "settled n s")
    case False
    then obtain s1 where st: "startup_step n s s1" by (auto simp: settled_def)
    then have "work_left n s1 < work_left n s" using startup_uses_work startup_reach_inv less.prems by blast
    from less.hyps[OF this startup_reach.step[OF less.prems(1) st] less.prems(2,3)] st show ?thesis
      by (meson converse_rtranclp_into_rtranclp)
  qed (use less.prems in blast)
qed

lemma settled_phases:
  assumes inv: "startup_inv n s" and st: "settled n s"
  shows "su_pc s = P_run" "su_queue s = []" "su_gateway s = T_ready" "set (su_workers s) \<subseteq> {T_ready}"
proof -
  have none: "main_step n s = None" "worker_step n i s = None" "gateway_step s = None" "dispatch_step s = None" for i
    using st startup_step.intros[where n = n] unfolding settled_def by (meson option.exhaust)+
  show pc: "su_pc s = P_run" using none(1) by (cases "su_pc s") (auto simp: main_step_def split: if_splits)
  show "su_queue s = []" using none(4) pc by (auto simp: dispatch_step_def split: list.splits sys_work.splits prod.splits)
  show "su_gateway s = T_ready"
    using none(3) inv pc by (cases "su_gateway s") (auto simp: gateway_step_def startup_inv_def)
  have "su_workers s ! i = T_ready" if "i < length (su_workers s)" for i
  proof -
    have "su_workers s ! i \<noteq> T_none" using inv nth_mem[OF that] unfolding startup_inv_def by metis
    then show ?thesis using none(2)[of i] that by (cases "su_workers s ! i") (auto simp: worker_step_def)
  qed
  then show "set (su_workers s) \<subseteq> {T_ready}" by (auto simp: in_set_conv_nth)
qed

section \<open>When the transport starts\<close>

lemma count_full: "count_list xs x = length xs \<longleftrightarrow> set xs \<subseteq> {x}"
proof (induction xs)
  case (Cons a xs)
  show ?case using Cons.IH count_le_length[of xs x] by auto
qed simp

text \<open>The actions of the control center on a log of distinct internal reports.\<close>

fun ready_actions :: "ServerComponent list \<Rightarrow> ServerCC \<Rightarrow> cc_action list" where
  "ready_actions [] cc = []"
| "ready_actions (c # cs) cc = fst (scc_postReady c cc) @ ready_actions cs (snd (scc_postReady c cc))"

lemma ready_actions_append: "ready_actions (cs @ ds) cc = ready_actions cs cc @ ready_actions ds (server_ready.run cs cc)"
  by (induction cs arbitrary: cc) (simp_all add: server_ready.run_def)

lemma fst_ready_start: "count_list (fst (scc_postReady c cc)) StartIpc = (if StartIpc \<in> set (fst (scc_postReady c cc)) then 1 else 0)"
  by (simp add: scc_postReady_def Let_def)

lemma ready_actions_count:
  assumes "distinct cs" "SIpc \<notin> set cs"
  shows "count_list (ready_actions cs scc_new) StartIpc = (if set cs = {SCoordinator, SGateway, STime} then 1 else 0)"
  using assms
proof (induction cs rule: rev_induct)
  case Nil then show ?case by simp
next
  case (snoc c cs)
  have m: "scc_readyMask scc_new = 0" by (simp add: scc_new_def)
  have "\<not> set (c # cs) = {SCoordinator, SGateway, STime} \<or> \<not> set cs = {SCoordinator, SGateway, STime}"
    using snoc.prems by auto
  moreover have "set cs = {SCoordinator, SGateway, STime} \<Longrightarrow> False"
    using snoc.prems by (cases c) auto
  ultimately show ?case
    using snoc server_ready.starts_when_ready(1)[OF m, of c cs]
    by (auto simp: ready_actions_append fst_ready_start)
qed

definition startup_acts :: "Startup \<Rightarrow> bool" where
  "startup_acts s \<longleftrightarrow> su_actions s = ready_actions (su_log s) scc_new"

lemma startup_reach_acts:
  assumes "startup_reach n s" "0 < n" "n < 2 ^ 16"
  shows "startup_acts s"
  using assms(1)
proof (induction rule: startup_reach.induct)
  case init then show ?case by (simp add: startup_acts_def startup_new_def)
next
  case (step s s')
  have cc: "su_cc s = server_ready.run (su_log s) scc_new"
    using startup_reach_inv[OF step(1) assms(2,3)] by (simp add: startup_inv_def)
  from step(2) show ?case
  proof cases
    case main then show ?thesis using step.IH by (auto simp: startup_acts_def main_step_def split: start_pc.splits if_splits)
  next
    case (worker i)
    then show ?thesis using step.IH by (auto simp: startup_acts_def worker_step_def split: if_splits thread_phase.splits)
  next
    case gateway then show ?thesis using step.IH by (auto simp: startup_acts_def gateway_step_def split: thread_phase.splits)
  next
    case dispatch
    then show ?thesis using step.IH cc
      by (auto simp: startup_acts_def dispatch_step_def ready_actions_append split: start_pc.splits list.splits sys_work.splits prod.splits)
  qed
qed

text \<open>Each component reports at most once, so the log is distinct; a report in the log means its threads are there.\<close>

lemma startup_log:
  assumes inv: "startup_inv n s"
  shows "distinct (su_log s)" "SIpc \<notin> set (su_log s)"
    "SCoordinator \<in> set (su_log s) \<Longrightarrow> su_pc s = P_run \<and> length (su_workers s) = n \<and> set (su_workers s) \<subseteq> {T_ready}"
    "SGateway \<in> set (su_log s) \<Longrightarrow> su_gateway s = T_ready"
proof -
  have r: "reports s c \<le> 1" for c using inv by (cases c) (auto simp: startup_inv_def)
  have "count_list (su_log s) c \<le> 1" for c using r[of c] by (simp add: reports_def)
  then have "count_list (su_log s) c = (if c \<in> set (su_log s) then 1 else 0)" for c
    by (metis count_notin le_antisym less_one not_le count_list_0_iff)
  then show "distinct (su_log s)" by (simp add: distinct_count_atmost_1 count_mset_0_iff flip: count_mset)
  show "SIpc \<notin> set (su_log s)" using inv by (simp add: startup_inv_def reports_def count_list_0_iff)
  show "SGateway \<in> set (su_log s) \<Longrightarrow> su_gateway s = T_ready"
    using inv by (auto simp: startup_inv_def reports_def count_list_0_iff split: if_splits)
  show "su_pc s = P_run \<and> length (su_workers s) = n \<and> set (su_workers s) \<subseteq> {T_ready}" if "SCoordinator \<in> set (su_log s)"
  proof -
    have pc: "su_pc s = P_run" using inv that by (auto simp: startup_inv_def)
    then have len: "length (su_workers s) = n" using inv by (simp add: startup_inv_def created_def)
    have "ready_workers s = n"
      using inv that by (auto simp: startup_inv_def reports_def count_list_0_iff split: if_splits)
    then show ?thesis using pc len count_full[of "su_workers s" T_ready] by (simp add: ready_workers_def)
  qed
qed

section \<open>Properties\<close>

text \<open>Starting the server, in every interleaving of the main thread, the gateway thread and the \<open>n\<close> workers: when the
  control center starts the transport, all workers exist and have entered their loops and the gateway runs, so
  every order that the coordinator routes with the loaded tickers finds its worker; the transport
  is started at most once; and every start-up ends, in a state in which the transport has been started exactly
  once.\<close>

theorem server_startup:
  assumes reach: "startup_reach (length (worker_cores cores)) s" and cores: "length cores < 2 ^ 16"
    and data: "loadMarketData cores tickers = Inr data"
  shows "(StartIpc \<in> set (su_actions s) \<longrightarrow> su_gateway s = T_ready \<and> set (su_workers s) \<subseteq> {T_ready} \<and>
      (\<forall>ioe w ev. coordinator_post False data ioe = ToWorker w ev \<longrightarrow> unat w < length (su_workers s))) \<and>
    count_list (su_actions s) StartIpc \<le> 1 \<and>
    (\<exists>s'. (startup_step (length (worker_cores cores)))\<^sup>*\<^sup>* s s' \<and> settled (length (worker_cores cores)) s') \<and>
    (settled (length (worker_cores cores)) s \<longrightarrow> count_list (su_actions s) StartIpc = 1)"
proof -
  let ?n = "length (worker_cores cores)"
  have n: "0 < ?n" "?n < 2 ^ 16" using cores by (auto simp: worker_cores_def)
  note inv = startup_reach_inv[OF reach n]
  note log = startup_log[OF inv]
  have acts: "count_list (su_actions s) StartIpc = (if set (su_log s) = {SCoordinator, SGateway, STime} then 1 else 0)"
    using startup_reach_acts[OF reach n] ready_actions_count[OF log(1,2)] by (simp add: startup_acts_def)
  have ids: "unat w < ?n" if "coordinator_post False data ioe = ToWorker w ev" for ioe w ev
    using that loadMarketData_ids[OF data] by (auto simp: coordinator_post_def split: option.splits)
  have started: "StartIpc \<in> set (su_actions s) \<Longrightarrow> set (su_log s) = {SCoordinator, SGateway, STime}"
    using acts by (metis count_list_0_iff zero_neq_one)
  have "set (su_log s) = {SCoordinator, SGateway, STime}" if "settled ?n s"
  proof -
    note ph = settled_phases[OF inv that]
    have "ready_workers s = ?n"
      using ph inv count_full[of "su_workers s" T_ready] by (simp add: ready_workers_def startup_inv_def created_def)
    then have "count_list (su_log s) c = (if c = SIpc then 0 else 1)" for c
      using inv ph by (cases c) (auto simp: startup_inv_def reports_def)
    then have "c \<in> set (su_log s) \<longleftrightarrow> c \<noteq> SIpc" for c by (metis count_list_0_iff zero_neq_one)
    moreover have "c \<noteq> SIpc \<longleftrightarrow> c \<in> {SCoordinator, SGateway, STime}" for c by (cases c) auto
    ultimately show ?thesis by auto
  qed
  then show ?thesis
    using acts started log(3,4) ids settles[OF reach n] by auto
qed

text \<open>A server with two workers: from its initial state the start-up ends with the transport started once.\<close>

theorem server_startup_witness:
  "\<exists>s. (startup_step 2)\<^sup>*\<^sup>* startup_new s \<and> settled 2 s"
proof -
  have "length (worker_cores [2, 3]) = 2" "length [2, 3 :: CoreId] < 2 ^ 16" by (simp_all add: worker_cores_def)
  moreover obtain data where "loadMarketData [2, 3] (Inr []) = Inr data" by (simp add: loadMarketData_def Let_def)
  ultimately show ?thesis
    using server_startup[of "[2, 3]" startup_new "Inr []" data] startup_reach.init[of 2] by simp
qed

end
