(* ===== verification/Huge_Memory.thy ===== *)
theory Huge_Memory
  imports Prelude
begin

unbundle bit_operations_syntax

text \<open>
  Memory in huge pages: \<^verbatim>\<open>common/src/utils/memory_utils.hpp\<close> and \<^verbatim>\<open>common/src/containers/huge_array.hpp\<close>, the array under
  the node pools of the books, the record table and the id pool. The operating system's answers to
  \<^verbatim>\<open>mmap\<close> are a parameter: an address or an error. The state has the mapped blocks, the contents of memory by
  address, the array objects with their pointers, and a log of the \<^verbatim>\<open>munmap\<close> calls.
\<close>

section \<open>Sizes\<close>

definition HUGE_PAGE_SIZE :: u64 where "HUGE_PAGE_SIZE = 2 * 1024 * 1024"

definition alignHuge :: "u64 \<Rightarrow> u64" where
  "alignHuge sz = (sz + HUGE_PAGE_SIZE - 1) AND NOT (HUGE_PAGE_SIZE - 1)"

section \<open>Allocation\<close>

datatype errno = ENOMEM | EOther nat

text \<open>The loop of \<^verbatim>\<open>warmMemory\<close>: every eighth 8-byte word is read and written back.\<close>

function warm_from :: "nat \<Rightarrow> nat \<Rightarrow> nat list" where
  "warm_from iterations i = (if i < iterations then i # warm_from iterations (i + 8) else [])"
  by pat_completeness auto
termination
  by (relation "measure (\<lambda>(n, i). n - i)") auto

declare warm_from.simps [simp del]

definition rewrite_word :: "nat \<Rightarrow> nat \<Rightarrow> (nat \<Rightarrow> u8) \<Rightarrow> nat \<Rightarrow> u8" where
  "rewrite_word addr i bytes =
     fold (\<lambda>k bytes. bytes(addr + 8 * i + k := bytes (addr + 8 * i + k))) [0..<8] bytes"

definition zero_range :: "nat \<Rightarrow> u64 \<Rightarrow> (nat \<Rightarrow> u8) \<Rightarrow> nat \<Rightarrow> u8" where
  "zero_range addr sz bytes = (\<lambda>a. if addr \<le> a \<and> a < addr + unat sz then 0 else bytes a)"

definition warmMemory :: "nat \<Rightarrow> u64 \<Rightarrow> bool \<Rightarrow> (nat \<Rightarrow> u8) \<Rightarrow> nat \<Rightarrow> u8" where
  "warmMemory addr sz wr bytes =
     (let iterations = unat sz div 8;
          bytes = fold (rewrite_word addr) (warm_from iterations 0) bytes
      in if wr then zero_range addr sz bytes else bytes)"

text \<open>An array of \<open>ha_ByteSize\<close> bytes holds a pointer, null after it was moved from. The log has the address and
  the length of each \<^verbatim>\<open>munmap\<close> and the length of the block that was mapped at the address then.\<close>

record HugeArray =
  ha_ByteSize :: u64
  ha_data :: "nat option"

record HugeHeap =
  hh_blocks :: "nat \<rightharpoonup> u64"
  hh_bytes :: "nat \<Rightarrow> u8"
  hh_arrays :: "nat \<rightharpoonup> HugeArray"
  hh_unmapped :: "(nat \<times> u64 \<times> u64 option) list"

definition mapAnonymousShm :: "errno + nat \<Rightarrow> u64 \<Rightarrow> HugeHeap \<Rightarrow> errno + (nat \<times> bool) \<times> HugeHeap" where
  "mapAnonymousShm anon sz h =
     (let sz = alignHuge sz
      in case anon of
           Inl e \<Rightarrow> Inl e
         | Inr a \<Rightarrow> Inr ((a, True), h\<lparr>hh_blocks := (hh_blocks h)(a \<mapsto> sz)\<rparr>))"

text \<open>\<^verbatim>\<open>allocHuge\<close>: \<open>huge\<close> and \<open>std\<close> are the results of the two \<^verbatim>\<open>mmap\<close> calls. A failed \<^verbatim>\<open>mlock\<close> is only logged.\<close>

definition mmap_result :: "errno + nat \<Rightarrow> errno + nat \<Rightarrow> errno + nat" where
  "mmap_result huge std = (if huge = Inl ENOMEM then std else huge)"

definition allocHuge :: "errno + nat \<Rightarrow> errno + nat \<Rightarrow> u64 \<Rightarrow> HugeHeap \<Rightarrow> errno + nat \<times> HugeHeap" where
  "allocHuge huge std sz h =
     (let sz = alignHuge sz
      in case mmap_result huge std of
           Inl e \<Rightarrow> Inl e
         | Inr a \<Rightarrow> Inr (a, h\<lparr>hh_blocks := (hh_blocks h)(a \<mapsto> sz), hh_bytes := warmMemory a sz True (hh_bytes h)\<rparr>))"

definition freeHuge :: "nat option \<Rightarrow> u64 \<Rightarrow> HugeHeap \<Rightarrow> HugeHeap" where
  "freeHuge ptr sz h =
     (case ptr of
        None \<Rightarrow> h
      | Some a \<Rightarrow>
          let aligned_size = (sz + HUGE_PAGE_SIZE - 1) AND NOT (HUGE_PAGE_SIZE - 1)
          in h\<lparr>hh_blocks := (hh_blocks h)(a := None),
               hh_unmapped := hh_unmapped h @ [(a, aligned_size, hh_blocks h a)]\<rparr>)"

section \<open>Arrays\<close>

definition array_new :: "errno + nat \<Rightarrow> errno + nat \<Rightarrow> u64 \<Rightarrow> nat \<Rightarrow> HugeHeap \<Rightarrow> errno + HugeHeap" where
  "array_new huge std sz x h =
     (case allocHuge huge std sz h of
        Inl e \<Rightarrow> Inl e
      | Inr (a, h) \<Rightarrow> Inr (h\<lparr>hh_arrays := (hh_arrays h)(x \<mapsto> \<lparr>ha_ByteSize = sz, ha_data = Some a\<rparr>)\<rparr>))"

definition array_moveNew :: "nat \<Rightarrow> nat \<Rightarrow> HugeHeap \<Rightarrow> HugeHeap" where
  "array_moveNew x y h =
     (case hh_arrays h y of
        None \<Rightarrow> h
      | Some other \<Rightarrow> h\<lparr>hh_arrays := (hh_arrays h)(x \<mapsto> other, y \<mapsto> other\<lparr>ha_data := None\<rparr>)\<rparr>)"

definition array_moveAssign :: "nat \<Rightarrow> nat \<Rightarrow> HugeHeap \<Rightarrow> HugeHeap" where
  "array_moveAssign x y h =
     (case (hh_arrays h x, hh_arrays h y) of
        (Some this, Some other) \<Rightarrow>
          if x \<noteq> y \<and> ha_ByteSize this = ha_ByteSize other
          then (if ha_data this \<noteq> None then freeHuge (ha_data this) (ha_ByteSize this) h else h)
                 \<lparr>hh_arrays := (hh_arrays h)(x \<mapsto> this\<lparr>ha_data := ha_data other\<rparr>, y \<mapsto> other\<lparr>ha_data := None\<rparr>)\<rparr>
          else h
      | _ \<Rightarrow> h)"

definition array_destroy :: "nat \<Rightarrow> HugeHeap \<Rightarrow> HugeHeap" where
  "array_destroy x h =
     (case hh_arrays h x of
        None \<Rightarrow> h
      | Some this \<Rightarrow> (freeHuge (ha_data this) (ha_ByteSize this) h)\<lparr>hh_arrays := (hh_arrays h)(x := None)\<rparr>)"

definition array_clear :: "nat \<Rightarrow> HugeHeap \<Rightarrow> HugeHeap" where
  "array_clear x h =
     (case hh_arrays h x of
        None \<Rightarrow> h
      | Some this \<Rightarrow>
          (case ha_data this of
             None \<Rightarrow> h
           | Some a \<Rightarrow> h\<lparr>hh_bytes := zero_range a (ha_ByteSize this) (hh_bytes h)\<rparr>))"

text \<open>Programs over array objects: an object is built under an unused name, and only arrays of one type are
  assigned to each other, which the compiler checks.\<close>

datatype array_op =
    A_new nat u64 "errno + nat" "errno + nat"
  | A_moveNew nat nat
  | A_moveAssign nat nat
  | A_clear nat
  | A_destroy nat

fun array_exec :: "array_op \<Rightarrow> HugeHeap \<Rightarrow> HugeHeap" where
  "array_exec (A_new x sz huge std) h =
     (if hh_arrays h x \<noteq> None then h else (case array_new huge std sz x h of Inl e \<Rightarrow> h | Inr h' \<Rightarrow> h'))"
| "array_exec (A_moveNew x y) h = (if hh_arrays h x \<noteq> None then h else array_moveNew x y h)"
| "array_exec (A_moveAssign x y) h = array_moveAssign x y h"
| "array_exec (A_clear x) h = array_clear x h"
| "array_exec (A_destroy x) h = array_destroy x h"

definition heap_new :: "(nat \<Rightarrow> u8) \<Rightarrow> HugeHeap" where
  "heap_new bytes = \<lparr>hh_blocks = Map.empty, hh_bytes = bytes, hh_arrays = Map.empty, hh_unmapped = []\<rparr>"

text \<open>What \<^verbatim>\<open>mmap\<close> promises: a new mapping overlaps no mapping that is still there.\<close>

definition block_bytes :: "nat \<Rightarrow> u64 \<Rightarrow> nat set" where
  "block_bytes a n = {a..<a + unat n}"

definition mmap_fresh :: "nat \<Rightarrow> u64 \<Rightarrow> HugeHeap \<Rightarrow> bool" where
  "mmap_fresh a n h \<longleftrightarrow>
     hh_blocks h a = None \<and> (\<forall>b m. hh_blocks h b = Some m \<longrightarrow> block_bytes a n \<inter> block_bytes b m = {})"

fun mmap_fresh_op :: "array_op \<Rightarrow> HugeHeap \<Rightarrow> bool" where
  "mmap_fresh_op (A_new x sz huge std) h =
     (case mmap_result huge std of Inl e \<Rightarrow> True | Inr a \<Rightarrow> mmap_fresh a (alignHuge sz) h)"
| "mmap_fresh_op _ h = True"

fun mmap_fresh_run :: "array_op list \<Rightarrow> HugeHeap \<Rightarrow> bool" where
  "mmap_fresh_run [] h = True"
| "mmap_fresh_run (op # ops) h = (mmap_fresh_op op h \<and> mmap_fresh_run ops (array_exec op h))"

section \<open>Rounding to huge pages\<close>

lemma huge_mask: "HUGE_PAGE_SIZE - 1 = (mask 21 :: u64)"
  by (simp add: HUGE_PAGE_SIZE_def mask_eq_exp_minus_1)

lemma and_not_mask: "(x :: u64) AND NOT (mask n) = push_bit n (drop_bit n x)"
  by (rule bit_eqI) (auto simp: bit_simps)

lemma unat_and_not_mask: "unat ((x :: u64) AND NOT (mask 21)) = unat x div 2 ^ 21 * 2 ^ 21"
proof -
  have "unat (drop_bit 21 x) * 2 ^ 21 = unat x div 2 ^ 21 * 2 ^ 21"
    by (simp only: unat_drop_bit_eq) (simp only: drop_bit_eq_div)
  moreover have "\<dots> \<le> unat x" by (rule div_times_less_eq_dividend)
  moreover have "unat x < 2 ^ 64" using unsigned_less [of x] by simp
  ultimately show ?thesis
    by (simp add: and_not_mask push_bit_eq_mult unat_word_ariths)
qed

text \<open>Rounding gives the least multiple of 2 MB that is not below the size, unless the sum wraps.\<close>

lemma alignHuge_spec:
  assumes "unat sz + 2 ^ 21 \<le> 2 ^ 64"
  shows "unat (alignHuge sz) = (unat sz + (2 ^ 21 - 1)) div 2 ^ 21 * 2 ^ 21"
proof -
  have "unat (sz + HUGE_PAGE_SIZE - 1) = unat sz + (2 ^ 21 - 1)"
  proof -
    have "sz + HUGE_PAGE_SIZE - 1 = sz + 2097151" by (simp add: HUGE_PAGE_SIZE_def)
    then show ?thesis using assms by (simp only: unat_word_ariths) simp
  qed
  then show ?thesis by (simp add: alignHuge_def huge_mask unat_and_not_mask)
qed

lemma alignHuge_bounds:
  assumes "unat sz + 2 ^ 21 \<le> 2 ^ 64"
  shows "unat sz \<le> unat (alignHuge sz)" and "unat (alignHuge sz) < unat sz + 2 ^ 21"
    and "2 ^ 21 dvd unat (alignHuge sz)"
proof -
  show "unat sz \<le> unat (alignHuge sz)" unfolding alignHuge_spec [OF assms] by simp
  show "unat (alignHuge sz) < unat sz + 2 ^ 21" unfolding alignHuge_spec [OF assms] by simp
  show "2 ^ 21 dvd unat (alignHuge sz)" unfolding alignHuge_spec [OF assms] by (rule dvd_triv_right)
qed

lemma freeHuge_aligned:
  "freeHuge (Some a) sz h =
     h\<lparr>hh_blocks := (hh_blocks h)(a := None), hh_unmapped := hh_unmapped h @ [(a, alignHuge sz, hh_blocks h a)]\<rparr>"
  by (simp add: freeHuge_def alignHuge_def Let_def)


section \<open>Warming\<close>

lemma warm_from_bounds: "i \<in> set (warm_from n j) \<Longrightarrow> i < n"
  by (induction n j rule: warm_from.induct) (subst (asm) (2) warm_from.simps, auto split: if_splits)

lemma rewrite_word_id [simp]: "rewrite_word addr i bytes = bytes"
  by (simp add: rewrite_word_def upt_conv_Cons)

lemma fold_rewrite_word [simp]: "fold (rewrite_word addr) is bytes = bytes"
  by (induction "is") simp_all

lemma warmMemory_eq: "warmMemory addr sz wr bytes = (if wr then zero_range addr sz bytes else bytes)"
  by (simp add: warmMemory_def)

text \<open>The words the warming loop touches lie in the block.\<close>

lemma warm_in_block:
  assumes "i \<in> set (warm_from (unat sz div 8) 0)" and "k < 8"
  shows "addr + 8 * i + k \<in> block_bytes addr sz"
proof -
  have "8 * (i + 1) \<le> 8 * (unat sz div 8)" using warm_from_bounds [OF assms(1)] by simp
  then have "8 * (i + 1) \<le> unat sz" by (meson div_times_less_eq_dividend le_trans mult.commute times_div_less_eq_dividend)
  then show ?thesis using assms(2) by (simp add: block_bytes_def)
qed


section \<open>Ownership\<close>

definition array_owns :: "HugeHeap \<Rightarrow> nat \<Rightarrow> nat \<Rightarrow> u64 \<Rightarrow> bool" where
  "array_owns h x a sz \<longleftrightarrow> hh_arrays h x = Some \<lparr>ha_ByteSize = sz, ha_data = Some a\<rparr>"

text \<open>Every pointer of an array is to a block of the rounded size, no two arrays have the same pointer, every
  block has an owner, blocks do not overlap, and every \<^verbatim>\<open>munmap\<close> released the whole of a mapped block.\<close>

definition heap_ok :: "HugeHeap \<Rightarrow> bool" where
  "heap_ok h \<longleftrightarrow>
     (\<forall>x a sz. array_owns h x a sz \<longrightarrow> hh_blocks h a = Some (alignHuge sz)) \<and>
     (\<forall>x y a sz sz'. array_owns h x a sz \<longrightarrow> array_owns h y a sz' \<longrightarrow> x = y) \<and>
     (\<forall>a n. hh_blocks h a = Some n \<longrightarrow> (\<exists>x sz. array_owns h x a sz)) \<and>
     (\<forall>a n b m. hh_blocks h a = Some n \<longrightarrow> hh_blocks h b = Some m \<longrightarrow> a \<noteq> b \<longrightarrow>
        block_bytes a n \<inter> block_bytes b m = {}) \<and>
     (\<forall>a n mapped. (a, n, mapped) \<in> set (hh_unmapped h) \<longrightarrow> mapped = Some n)"

lemma heap_okD:
  assumes "heap_ok h"
  shows owns_block: "array_owns h x a sz \<Longrightarrow> hh_blocks h a = Some (alignHuge sz)"
    and owns_unique: "array_owns h x a sz \<Longrightarrow> array_owns h y a sz' \<Longrightarrow> x = y"
    and block_owned: "hh_blocks h a = Some n \<Longrightarrow> \<exists>x sz. array_owns h x a sz"
    and blocks_disjoint: "hh_blocks h a = Some n \<Longrightarrow> hh_blocks h b = Some m \<Longrightarrow> a \<noteq> b \<Longrightarrow>
      block_bytes a n \<inter> block_bytes b m = {}"
    and unmapped_exact: "(a, n, mapped) \<in> set (hh_unmapped h) \<Longrightarrow> mapped = Some n"
  using assms unfolding heap_ok_def by blast+

lemma heap_new_ok: "heap_ok (heap_new bytes)"
  by (simp add: heap_ok_def heap_new_def array_owns_def)

text \<open>A heap is well formed whenever its blocks are those of a well-formed heap and its owners the same up to the
  names of the arrays.\<close>

lemma heap_okI:
  assumes "\<And>x a sz. array_owns h x a sz \<Longrightarrow> hh_blocks h a = Some (alignHuge sz)"
    and "\<And>x y a sz sz'. array_owns h x a sz \<Longrightarrow> array_owns h y a sz' \<Longrightarrow> x = y"
    and "\<And>a n. hh_blocks h a = Some n \<Longrightarrow> \<exists>x sz. array_owns h x a sz"
    and "\<And>a n b m. hh_blocks h a = Some n \<Longrightarrow> hh_blocks h b = Some m \<Longrightarrow> a \<noteq> b \<Longrightarrow>
      block_bytes a n \<inter> block_bytes b m = {}"
    and "\<And>a n mapped. (a, n, mapped) \<in> set (hh_unmapped h) \<Longrightarrow> mapped = Some n"
  shows "heap_ok h"
  unfolding heap_ok_def by (intro conjI allI impI; rule assms; assumption)

lemma heap_ok_rename:
  assumes ok: "heap_ok h" and inj: "inj r"
    and own: "\<And>x a sz. array_owns h' x a sz \<longleftrightarrow> (\<exists>y. x = r y \<and> array_owns h y a sz)"
    and bl: "hh_blocks h' = hh_blocks h" and un: "hh_unmapped h' = hh_unmapped h"
  shows "heap_ok h'"
proof (rule heap_okI)
  fix x y a sz sz' assume "array_owns h' x a sz" "array_owns h' y a sz'"
  then show "x = y" using own heap_okD(2) [OF ok] by metis
qed (use own bl un heap_okD(1,3,4,5) [OF ok] in metis)+

text \<open>Releasing the block of an array that then points nowhere.\<close>

lemma heap_ok_release:
  assumes ok: "heap_ok h" and x: "array_owns h x a sz"
    and own: "\<And>y b sz'. array_owns h' y b sz' \<longleftrightarrow> array_owns h y b sz' \<and> y \<noteq> x"
    and bl: "hh_blocks h' = (hh_blocks h)(a := None)"
    and un: "hh_unmapped h' = hh_unmapped h @ [(a, alignHuge sz, hh_blocks h a)]"
  shows "heap_ok h'"
proof (rule heap_okI)
  note D = heap_okD [OF ok]
  fix y b sz' assume "array_owns h' y b sz'"
  then have "array_owns h y b sz'" "y \<noteq> x" by (simp_all add: own)
  then have "b \<noteq> a" using D(2) x by blast
  then show "hh_blocks h' b = Some (alignHuge sz')" using D(1) \<open>array_owns h y b sz'\<close> by (simp add: bl)
next
  fix b n assume "hh_blocks h' b = Some n"
  then have b: "hh_blocks h b = Some n" "b \<noteq> a" by (simp_all add: bl split: if_splits)
  then obtain y sz' where y: "array_owns h y b sz'" using heap_okD(3) [OF ok] by blast
  have "y \<noteq> x" using x y b(2) by (auto simp: array_owns_def)
  then show "\<exists>y sz'. array_owns h' y b sz'" using y own by blast
next
  fix b n mapped assume "(b, n, mapped) \<in> set (hh_unmapped h')"
  then consider "(b, n, mapped) \<in> set (hh_unmapped h)" | "n = alignHuge sz" "mapped = hh_blocks h a"
    by (auto simp: un)
  then show "mapped = Some n"
    by cases (use heap_okD(5) [OF ok] heap_okD(1) [OF ok x] in simp_all)
next
  fix y z b s1 s2 assume "array_owns h' y b s1" "array_owns h' z b s2"
  then have "array_owns h y b s1" "array_owns h z b s2" by (simp_all add: own)
  then show "y = z" by (rule heap_okD(2) [OF ok])
next
  fix b n c m assume "hh_blocks h' b = Some n" "hh_blocks h' c = Some m" "b \<noteq> c"
  then show "block_bytes b n \<inter> block_bytes c m = {}"
    by (intro heap_okD(4) [OF ok]) (simp_all add: bl split: if_splits)
qed

text \<open>A fresh block for an array that pointed nowhere.\<close>

lemma heap_ok_acquire:
  assumes ok: "heap_ok h" and x: "\<And>a sz. \<not> array_owns h x a sz" and fresh: "mmap_fresh a (alignHuge sz) h"
    and own: "\<And>y b sz'. array_owns h' y b sz' \<longleftrightarrow> array_owns h y b sz' \<or> (y = x \<and> b = a \<and> sz' = sz)"
    and bl: "hh_blocks h' = (hh_blocks h)(a \<mapsto> alignHuge sz)"
    and un: "hh_unmapped h' = hh_unmapped h"
  shows "heap_ok h'"
proof (rule heap_okI)
  note D = heap_okD [OF ok]
  have none: "hh_blocks h a = None" using fresh by (simp add: mmap_fresh_def)
  have free: "\<not> array_owns h y a sz'" for y sz' using D(1) none by fastforce
  fix y b sz' assume "array_owns h' y b sz'"
  then show "hh_blocks h' b = Some (alignHuge sz')" using D(1) free by (auto simp: bl own)
next
  have free: "\<not> array_owns h y a sz'" for y sz' using heap_okD(1) [OF ok] fresh by (fastforce simp: mmap_fresh_def)
  fix y z b s1 s2 assume "array_owns h' y b s1" "array_owns h' z b s2"
  then show "y = z" using heap_okD(2) [OF ok] free by (auto simp: own)
next
  fix b n assume "hh_blocks h' b = Some n"
  then show "\<exists>y sz'. array_owns h' y b sz'" using heap_okD(3) [OF ok] by (fastforce simp: bl own split: if_splits)
next
  fix b n c m assume "hh_blocks h' b = Some n" "hh_blocks h' c = Some m" "b \<noteq> c"
  then show "block_bytes b n \<inter> block_bytes c m = {}"
    using heap_okD(4) [OF ok] fresh by (fastforce simp: bl mmap_fresh_def split: if_splits)
next
  fix b n mapped assume "(b, n, mapped) \<in> set (hh_unmapped h')"
  then show "mapped = Some n" using heap_okD(5) [OF ok] by (simp add: un)
qed


lemma heap_ok_bytes: "heap_ok (h\<lparr>hh_bytes := m\<rparr>) = heap_ok h"
  by (simp add: heap_ok_def array_owns_def)

lemma owns_iff: "array_owns h x a sz \<longleftrightarrow> (\<exists>ar. hh_arrays h x = Some ar \<and> ha_ByteSize ar = sz \<and> ha_data ar = Some a)"
  by (auto simp: array_owns_def intro: HugeArray.equality)

lemma array_destroy_ok:
  assumes "heap_ok h"
  shows "heap_ok (array_destroy x h)"
proof (cases "hh_arrays h x")
  case None
  then show ?thesis using assms by (simp add: array_destroy_def)
next
  case (Some this)
  show ?thesis
  proof (cases "ha_data this")
    case None
    have "array_destroy x h = h\<lparr>hh_arrays := (hh_arrays h)(x := None)\<rparr>"
      using Some None by (simp add: array_destroy_def freeHuge_def)
    then show ?thesis using Some None
      by (intro heap_ok_rename [OF assms, of id]) (auto simp: owns_iff)
  next
    case a: (Some a)
    have "array_destroy x h =
        (freeHuge (Some a) (ha_ByteSize this) h)\<lparr>hh_arrays := (hh_arrays h)(x := None)\<rparr>"
      using Some a by (simp add: array_destroy_def)
    then show ?thesis using Some a
      by (intro heap_ok_release [OF assms, of x a "ha_ByteSize this"])
        (auto simp: owns_iff freeHuge_aligned)
  qed
qed

text \<open>Moving is a destruction of the target followed by a change of names.\<close>

lemma array_moveNew_ok:
  assumes "heap_ok h" and "hh_arrays h x = None"
  shows "heap_ok (array_moveNew x y h)"
proof (cases "hh_arrays h y")
  case None
  then show ?thesis using assms by (simp add: array_moveNew_def)
next
  case (Some other)
  let ?r = "id(x := y, y := x)"
  have "inj ?r" by (auto simp: inj_def)
  moreover have "array_owns (array_moveNew x y h) z a sz \<longleftrightarrow> (\<exists>w. z = ?r w \<and> array_owns h w a sz)" for z a sz
    using Some assms(2) by (auto simp: array_moveNew_def owns_iff)
  moreover have "hh_blocks (array_moveNew x y h) = hh_blocks h" "hh_unmapped (array_moveNew x y h) = hh_unmapped h"
    using Some by (simp_all add: array_moveNew_def)
  ultimately show ?thesis by (rule heap_ok_rename [OF assms(1)])
qed

lemma array_moveAssign_ok:
  assumes "heap_ok h"
  shows "heap_ok (array_moveAssign x y h)"
proof (cases "\<exists>this other. hh_arrays h x = Some this \<and> hh_arrays h y = Some other \<and> x \<noteq> y \<and>
    ha_ByteSize this = ha_ByteSize other")
  case False
  then have "array_moveAssign x y h = h" by (auto simp: array_moveAssign_def split: option.splits)
  then show ?thesis using assms by simp
next
  case True
  then obtain this other where eq: "hh_arrays h x = Some this" "hh_arrays h y = Some other" "x \<noteq> y"
    "ha_ByteSize this = ha_ByteSize other" by blast
  have "array_moveAssign x y h = array_moveNew x y (array_destroy x h)"
    using eq by (cases "ha_data this")
      (auto simp: array_moveAssign_def array_moveNew_def array_destroy_def freeHuge_def Let_def fun_eq_iff
        intro!: HugeHeap.equality HugeArray.equality)
  moreover have "hh_arrays (array_destroy x h) x = None"
    using eq(1) by (simp add: array_destroy_def)
  ultimately show ?thesis using array_moveNew_ok [OF array_destroy_ok [OF assms]] by simp
qed


lemma array_new_cases:
  "array_new huge std sz x h = Inl e \<longleftrightarrow> mmap_result huge std = Inl e"
  "array_new huge std sz x h = Inr h' \<longleftrightarrow>
     (\<exists>a. mmap_result huge std = Inr a \<and>
       h' = h\<lparr>hh_blocks := (hh_blocks h)(a \<mapsto> alignHuge sz),
              hh_bytes := zero_range a (alignHuge sz) (hh_bytes h),
              hh_arrays := (hh_arrays h)(x \<mapsto> \<lparr>ha_ByteSize = sz, ha_data = Some a\<rparr>)\<rparr>)"
  by (auto simp: array_new_def allocHuge_def Let_def warmMemory_eq split: sum.splits)

lemma array_new_ok:
  assumes "heap_ok h" and "hh_arrays h x = None" and "mmap_fresh_op (A_new x sz huge std) h"
    and "array_new huge std sz x h = Inr h'"
  shows "heap_ok h'"
proof -
  obtain a where a: "mmap_result huge std = Inr a"
    and h': "h' = h\<lparr>hh_blocks := (hh_blocks h)(a \<mapsto> alignHuge sz),
      hh_bytes := zero_range a (alignHuge sz) (hh_bytes h),
      hh_arrays := (hh_arrays h)(x \<mapsto> \<lparr>ha_ByteSize = sz, ha_data = Some a\<rparr>)\<rparr>"
    using assms(4) unfolding array_new_cases by blast
  have "mmap_fresh a (alignHuge sz) h" using assms(3) a by simp
  then show ?thesis using assms(2)
    by (intro heap_ok_acquire [OF assms(1), of x a sz]) (auto simp: owns_iff h')
qed

lemma array_clear_ok: "heap_ok h \<Longrightarrow> heap_ok (array_clear x h)"
  by (auto simp: array_clear_def heap_ok_bytes split: option.splits)

lemma array_exec_ok:
  assumes "heap_ok h" and "mmap_fresh_op op h"
  shows "heap_ok (array_exec op h)"
proof (cases op)
  case (A_new x sz huge std)
  then show ?thesis
    using assms(1) array_new_ok [OF assms(1) _ assms(2) [unfolded A_new]] by (simp split: sum.splits)
qed (use assms in \<open>auto intro: array_moveNew_ok array_moveAssign_ok array_clear_ok array_destroy_ok\<close>)

lemma array_run_ok: "heap_ok h \<Longrightarrow> mmap_fresh_run ops h \<Longrightarrow> heap_ok (fold array_exec ops h)"
  by (induction ops arbitrary: h) (simp_all add: array_exec_ok)

lemma owns_bytes_subset:
  assumes "unat sz + 2 ^ 21 \<le> 2 ^ 64"
  shows "block_bytes a sz \<subseteq> block_bytes a (alignHuge sz)"
  using alignHuge_bounds(1) [OF assms] by (auto simp: block_bytes_def)

text \<open>A new array reads zero throughout, and neither building nor clearing an array changes a byte of another.\<close>

lemma array_new_zero:
  assumes "array_new huge std sz x h = Inr h'" and "array_owns h' x a sz" and "b \<in> block_bytes a (alignHuge sz)"
  shows "hh_bytes h' b = 0"
  using assms unfolding array_new_cases by (auto simp: array_owns_def zero_range_def block_bytes_def)

lemma array_exec_isolated:
  assumes ok: "heap_ok h" and fresh: "mmap_fresh_op op h" and y: "array_owns h y a sz" and b: "b \<in> block_bytes a (alignHuge sz)"
    and other: "op \<noteq> A_clear y"
    and sizes: "\<And>x ar. hh_arrays h x = Some ar \<Longrightarrow> unat (ha_ByteSize ar) + 2 ^ 21 \<le> 2 ^ 64"
  shows "hh_bytes (array_exec op h) b = hh_bytes h b"
proof (cases op)
  case (A_new x s huge std)
  show ?thesis
  proof (cases "mmap_result huge std")
    case (Inr c)
    then have "block_bytes c (alignHuge s) \<inter> block_bytes a (alignHuge sz) = {}"
      using fresh A_new heap_okD(1) [OF ok y] by (simp add: mmap_fresh_def)
    then have "b \<notin> block_bytes c (alignHuge s)" using b by blast
    then show ?thesis using A_new Inr
      by (auto simp: array_new_def allocHuge_def Let_def warmMemory_eq zero_range_def block_bytes_def)
  qed (simp add: A_new array_new_def allocHuge_def Let_def)
next
  case (A_clear x)
  show ?thesis
  proof (cases "\<exists>c s. array_owns h x c s")
    case True
    then obtain c s where x: "array_owns h x c s" by blast
    have ne: "c \<noteq> a" using heap_okD(2) [OF ok x] y other A_clear by blast
    have "block_bytes c (alignHuge s) \<inter> block_bytes a (alignHuge sz) = {}"
      by (rule heap_okD(4) [OF ok heap_okD(1) [OF ok x] heap_okD(1) [OF ok y] ne])
    moreover have "block_bytes c s \<subseteq> block_bytes c (alignHuge s)"
      using sizes x by (intro owns_bytes_subset) (auto simp: owns_iff)
    ultimately have "b \<notin> block_bytes c s" using b by blast
    then show ?thesis using x
      by (auto simp: A_clear array_clear_def owns_iff zero_range_def block_bytes_def)
  qed (auto simp: A_clear array_clear_def owns_iff split: option.splits)
qed (auto simp: array_moveNew_def array_moveAssign_def array_destroy_def freeHuge_def Let_def split: option.splits)

section \<open>What the arrays promise\<close>

text \<open>C35. Ownership of huge-page blocks: after any sequence of constructions, moves, clears and destructions of
  arrays, with \<^verbatim>\<open>mmap\<close> handing out mappings that overlap no live one, every array's pointer is to a mapped block of the
  rounded size, two arrays never share a byte, every mapped block has exactly one owner (so none
  leaks, and when the arrays are gone the memory is unmapped), and every \<^verbatim>\<open>munmap\<close> had the address and
  the full length of a block mapped then (no double free, no partial release).
\<close>

theorem huge_array_ownership:
  assumes "mmap_fresh_run ops (heap_new bytes)"
  defines "h \<equiv> fold array_exec ops (heap_new bytes)"
  shows "(\<forall>x a sz. array_owns h x a sz \<longrightarrow> hh_blocks h a = Some (alignHuge sz)) \<and>
    (\<forall>x y a b sz sz'. array_owns h x a sz \<longrightarrow> array_owns h y b sz' \<longrightarrow> x \<noteq> y \<longrightarrow>
       block_bytes a (alignHuge sz) \<inter> block_bytes b (alignHuge sz') = {}) \<and>
    (\<forall>a \<in> dom (hh_blocks h). \<exists>!x. \<exists>sz. array_owns h x a sz) \<and>
    (hh_arrays h = Map.empty \<longrightarrow> hh_blocks h = Map.empty) \<and>
    (\<forall>(a, n, mapped) \<in> set (hh_unmapped h). mapped = Some n)"
proof (intro conjI)
  have ok: "heap_ok h" unfolding h_def by (rule array_run_ok [OF heap_new_ok assms(1)])
  note D = heap_okD [OF ok]
  show "\<forall>x a sz. array_owns h x a sz \<longrightarrow> hh_blocks h a = Some (alignHuge sz)" using D(1) by blast
  show "\<forall>x y a b sz sz'. array_owns h x a sz \<longrightarrow> array_owns h y b sz' \<longrightarrow> x \<noteq> y \<longrightarrow>
       block_bytes a (alignHuge sz) \<inter> block_bytes b (alignHuge sz') = {}"
    using D(1,2,4) by blast
  show "\<forall>a \<in> dom (hh_blocks h). \<exists>!x. \<exists>sz. array_owns h x a sz" using D(2,3) by blast
  show "hh_arrays h = Map.empty \<longrightarrow> hh_blocks h = Map.empty"
  proof (intro impI ext)
    fix a assume "hh_arrays h = Map.empty"
    then have "\<not> array_owns h x a sz" for x sz by (simp add: array_owns_def)
    then show "hh_blocks h a = None" using D(3) by (metis not_None_eq)
  qed
  show "\<forall>(a, n, mapped) \<in> set (hh_unmapped h). mapped = Some n" using D(5) by blast
qed


lemma alignHuge_values: "alignHuge 100 = 2097152" "alignHuge 2097153 = 4194304"
  by (simp_all add: alignHuge_def HUGE_PAGE_SIZE_def)

lemmas array_op_defs =
  array_new_def allocHuge_def mmap_result_def array_moveNew_def array_destroy_def freeHuge_aligned heap_new_def

theorem huge_array_ownership_witness:
  "\<exists>!x. \<exists>sz. array_owns (fold array_exec
       [A_new 0 100 (Inl ENOMEM) (Inr 4096), A_moveNew 1 0, A_new 2 2097153 (Inr 8388608) (Inl ENOMEM), A_destroy 1]
       (heap_new (\<lambda>_. 7))) x 8388608 sz"
proof -
  let ?ops = "[A_new 0 100 (Inl ENOMEM) (Inr 4096), A_moveNew 1 0, A_new 2 2097153 (Inr 8388608) (Inl ENOMEM), A_destroy 1]"
  have "mmap_fresh_run ?ops (heap_new (\<lambda>_. 7))"
    by (simp add: array_op_defs alignHuge_values mmap_fresh_def block_bytes_def)
  note own = huge_array_ownership [OF this, THEN conjunct2, THEN conjunct2, THEN conjunct1]
  have "8388608 \<in> dom (hh_blocks (fold array_exec ?ops (heap_new (\<lambda>_. 7))))"
    by (simp add: array_op_defs alignHuge_values)
  then show ?thesis by (rule bspec [OF own])
qed

end
