(* ===== verification/Shm_Open.thy ===== *)
theory Shm_Open
  imports Shm_Transport
begin

text \<open>
  Opening and closing a shared object at the granularity of system calls: \<^verbatim>\<open>mapFileHuge\<close> and \<^verbatim>\<open>warmMemory\<close> of
  \<^verbatim>\<open>common/src/utils/memory_utils.hpp\<close> inside the constructor and the destructor of \<^verbatim>\<open>ShmUPtr\<close> (\<^verbatim>\<open>shm_ptr.hpp\<close>). Several
  processes open one path; a path names an inode, an inode has the contents of a \<^verbatim>\<open>ShmQueue\<close>. Which
  system calls fail is an argument of the step. Run one at a time, the steps implement \<^const>\<open>shm_open\<close>
  and \<^const>\<open>shm_close\<close>; interleaved they do not.
\<close>

section \<open>Contents\<close>

text \<open>A new file reads zero, which is not what the constructor of the queue leaves.\<close>

definition shm_zero :: ShmQueue where
  "shm_zero = \<lparr>sh_queue = \<lparr>sq_seq = (\<lambda>_. 0), sq_size = (\<lambda>_. 0), sq_bytes = (\<lambda>_. replicate MAX_DATA_SIZE 0),
     sq_writeIdx = 0, sq_readIdx = 0\<rparr>, sh_futex = 0, sh_futexCounter = 0, sh_waitFlag = False, sh_refCount = 0\<rparr>"

text \<open>\<^verbatim>\<open>warmMemory\<close> reads and writes back one 8-byte word in 64 bytes: the sequence number of each slot, then, each
  on its own cache line, the indices and the control block; the rest is padding.\<close>

definition SHM_SLOTS :: nat where "SHM_SLOTS = 131072"

definition WARM_CELLS :: nat where "WARM_CELLS = 163840"

definition cell_get :: "nat \<Rightarrow> ShmQueue \<Rightarrow> u64" where
  "cell_get j q =
     (if j < SHM_SLOTS then sq_seq (sh_queue q) j
      else if j = SHM_SLOTS then sq_writeIdx (sh_queue q)
      else if j = SHM_SLOTS + 1 then sq_readIdx (sh_queue q)
      else if j = SHM_SLOTS + 2 then ucast (sh_futex q)
      else if j = SHM_SLOTS + 3 then ucast (sh_futexCounter q)
      else if j = SHM_SLOTS + 4 then (if sh_waitFlag q then 1 else 0)
      else if j = SHM_SLOTS + 5 then ucast (sh_refCount q)
      else 0)"

definition cell_set :: "nat \<Rightarrow> u64 \<Rightarrow> ShmQueue \<Rightarrow> ShmQueue" where
  "cell_set j v q =
     (if j < SHM_SLOTS then q\<lparr>sh_queue := (sh_queue q)\<lparr>sq_seq := (sq_seq (sh_queue q))(j := v)\<rparr>\<rparr>
      else if j = SHM_SLOTS then q\<lparr>sh_queue := (sh_queue q)\<lparr>sq_writeIdx := v\<rparr>\<rparr>
      else if j = SHM_SLOTS + 1 then q\<lparr>sh_queue := (sh_queue q)\<lparr>sq_readIdx := v\<rparr>\<rparr>
      else if j = SHM_SLOTS + 2 then q\<lparr>sh_futex := ucast v\<rparr>
      else if j = SHM_SLOTS + 3 then q\<lparr>sh_futexCounter := ucast v\<rparr>
      else if j = SHM_SLOTS + 4 then q\<lparr>sh_waitFlag := (v \<noteq> 0)\<rparr>
      else if j = SHM_SLOTS + 5 then q\<lparr>sh_refCount := ucast v\<rparr>
      else q)"

section \<open>Steps\<close>

text \<open>The place of a process in the constructor or destructor; the flag is \<^verbatim>\<open>existed\<close>, the number the mapped inode.\<close>

datatype shm_pc =
    P_stat
  | P_open bool
  | P_trunc bool nat
  | P_mmap bool nat
  | P_warm bool nat nat
  | P_back bool nat nat u64
  | P_zero nat
  | P_lock bool nat
  | P_construct nat
  | P_increment nat
  | P_held nat
  | P_unlink bool
  | P_done
  | P_failed

record ShmSys =
  sy_dir :: "nat option"
  sy_next :: nat
  sy_inode :: "(nat, ShmQueue) array"
  sy_pc :: "(nat, shm_pc) array"

definition shm_sys_new :: ShmSys where
  "shm_sys_new = \<lparr>sy_dir = None, sy_next = 0, sy_inode = (\<lambda>_. shm_zero), sy_pc = (\<lambda>_. P_stat)\<rparr>"

definition goto :: "nat \<Rightarrow> shm_pc \<Rightarrow> ShmSys \<Rightarrow> ShmSys" where
  "goto p c s = s\<lparr>sy_pc := (sy_pc s)(p := c)\<rparr>"

definition upd_inode :: "nat \<Rightarrow> (ShmQueue \<Rightarrow> ShmQueue) \<Rightarrow> ShmSys \<Rightarrow> ShmSys" where
  "upd_inode i f s = s\<lparr>sy_inode := (sy_inode s)(i := f (sy_inode s i))\<rparr>"

text \<open>\<^verbatim>\<open>mapFileHuge\<close>: \<^verbatim>\<open>stat\<close>, \<^verbatim>\<open>open\<close> with \<^verbatim>\<open>O_CREAT\<close>, \<^verbatim>\<open>ftruncate\<close> by the creator, \<^verbatim>\<open>mmap\<close>.\<close>

definition mapFileHuge_step :: "bool \<Rightarrow> nat \<Rightarrow> ShmSys \<Rightarrow> ShmSys" where
  "mapFileHuge_step fail p s = (case sy_pc s p of
     P_stat \<Rightarrow> goto p (P_open (sy_dir s \<noteq> None)) s
   | P_open existed \<Rightarrow>
       if fail then goto p P_failed s
       else (case sy_dir s of
               Some i \<Rightarrow> goto p (P_trunc existed i) s
             | None \<Rightarrow>
                 goto p (P_trunc existed (sy_next s))
                   (s\<lparr>sy_dir := Some (sy_next s), sy_inode := (sy_inode s)(sy_next s := shm_zero), sy_next := sy_next s + 1\<rparr>))
   | P_trunc existed i \<Rightarrow> if \<not> existed \<and> fail then goto p P_failed s else goto p (P_mmap existed i) s
   | P_mmap existed i \<Rightarrow> if fail then goto p P_failed s else goto p (P_warm existed i 0) s
   | _ \<Rightarrow> s)"

definition warmMemory_step :: "nat \<Rightarrow> ShmSys \<Rightarrow> ShmSys" where
  "warmMemory_step p s = (case sy_pc s p of
     P_warm existed i j \<Rightarrow>
       if j < WARM_CELLS then goto p (P_back existed i j (cell_get j (sy_inode s i))) s
       else goto p (if existed then P_lock True i else P_zero i) s
   | P_back existed i j v \<Rightarrow> goto p (P_warm existed i (j + 1)) (upd_inode i (cell_set j v) s)
   | P_zero i \<Rightarrow> goto p (P_lock False i) (upd_inode i (\<lambda>_. shm_zero) s)
   | _ \<Rightarrow> s)"

text \<open>The constructor: mapping, warming (with the fill of zeros only for the creator), locking, placement new for
  the creator, the count.\<close>

definition ShmUPtr_step :: "bool \<Rightarrow> nat \<Rightarrow> ShmSys \<Rightarrow> ShmSys" where
  "ShmUPtr_step fail p s = (case sy_pc s p of
     P_lock existed i \<Rightarrow>
       if fail then goto p P_failed s else goto p (if existed then P_increment i else P_construct i) s
   | P_construct i \<Rightarrow> goto p (P_increment i) (upd_inode i (\<lambda>_. shm_new) s)
   | P_increment i \<Rightarrow> goto p (P_held i) (upd_inode i shm_increment s)
   | P_warm existed i j \<Rightarrow> warmMemory_step p s
   | P_back existed i j v \<Rightarrow> warmMemory_step p s
   | P_zero i \<Rightarrow> warmMemory_step p s
   | _ \<Rightarrow> mapFileHuge_step fail p s)"

definition ShmUPtr_close_step :: "nat \<Rightarrow> ShmSys \<Rightarrow> ShmSys" where
  "ShmUPtr_close_step p s = (case sy_pc s p of
     P_held i \<Rightarrow> (case shm_decrement (sy_inode s i) of (isLast, q) \<Rightarrow> goto p (P_unlink isLast) (upd_inode i (\<lambda>_. q) s))
   | P_unlink isLast \<Rightarrow> goto p P_done (if isLast then s\<lparr>sy_dir := None\<rparr> else s)
   | _ \<Rightarrow> s)"


text \<open>What a process that holds the object does with it.\<close>

definition sys_write :: "nat \<Rightarrow> u8 list \<Rightarrow> ShmSys \<Rightarrow> bool \<times> ShmSys" where
  "sys_write p m s = (case sy_pc s p of
     P_held i \<Rightarrow>
       (case spsc_write SHM_K m (sh_queue (sy_inode s i)) of
          (ok, sq) \<Rightarrow> (ok, upd_inode i (\<lambda>q. q\<lparr>sh_queue := sq\<rparr>) s))
   | _ \<Rightarrow> (False, s))"

inductive sys_step :: "ShmSys \<Rightarrow> ShmSys \<Rightarrow> bool" where
  ctor: "sys_step s (ShmUPtr_step fail p s)"
| dtor: "sys_step s (ShmUPtr_close_step p s)"
| send: "sys_write p m s = (ok, s') \<Longrightarrow> sys_step s s'"

lemmas ctor_defs = ShmUPtr_step_def mapFileHuge_step_def warmMemory_step_def

section \<open>One process at a time\<close>

lemma ucast_widen_narrow: "ucast (ucast x :: u64) = (x :: u32)"
  by (rule bit_word_eqI) (simp add: bit_simps)

lemma cell_set_get: "cell_set j (cell_get j q) q = q"
  by (simp add: cell_set_def cell_get_def ucast_widen_narrow)

lemma goto_simps [simp]:
  "sy_pc (goto p c s) = (sy_pc s)(p := c)" "sy_dir (goto p c s) = sy_dir s" "sy_next (goto p c s) = sy_next s"
  "sy_inode (goto p c s) = sy_inode s"
  by (simp_all add: goto_def)

lemma upd_inode_simps [simp]:
  "sy_pc (upd_inode i f s) = sy_pc s" "sy_dir (upd_inode i f s) = sy_dir s" "sy_next (upd_inode i f s) = sy_next s"
  "sy_inode (upd_inode i f s) = (sy_inode s)(i := f (sy_inode s i))"
  by (simp_all add: upd_inode_def)

lemma goto_goto [simp]: "goto p c (goto p d s) = goto p c s"
  by (simp add: goto_def)

lemma goto_same: "sy_pc s p = c \<Longrightarrow> goto p c s = s"
  by (simp add: goto_def fun_upd_idem)

lemma upd_inode_same: "f (sy_inode s i) = sy_inode s i \<Longrightarrow> upd_inode i f s = s"
  by (simp add: upd_inode_def fun_upd_idem)

lemma upd_inode_goto: "upd_inode i f (goto p c s) = goto p c (upd_inode i f s)"
  by (simp add: goto_def upd_inode_def)

lemma upd_inode_upd_inode [simp]: "upd_inode i f (upd_inode i g s) = upd_inode i (f \<circ> g) s"
  by (simp add: upd_inode_def)

lemma funpow_step: "f s = t \<Longrightarrow> (f ^^ n) t = u \<Longrightarrow> (f ^^ Suc n) s = u"
  by (simp only: funpow_Suc_right o_apply)

text \<open>Without interference the warming loop changes nothing.\<close>

lemma warm_pass:
  assumes "sy_pc s p = P_warm existed i j" and "j \<le> WARM_CELLS"
  shows "(ShmUPtr_step False p ^^ (2 * (WARM_CELLS - j))) s = goto p (P_warm existed i WARM_CELLS) s"
  using assms
proof (induction "WARM_CELLS - j" arbitrary: s j)
  case 0
  then show ?case by (simp add: goto_same)
next
  case (Suc n)
  define v where "v = cell_get j (sy_inode s i)"
  let ?s1 = "goto p (P_back existed i j v) s" and ?s2 = "goto p (P_warm existed i (j + 1)) s"
  have "ShmUPtr_step False p s = ?s1" using Suc by (simp add: ctor_defs v_def)
  moreover have "ShmUPtr_step False p ?s1 = ?s2"
    by (simp add: ctor_defs upd_inode_goto upd_inode_same v_def cell_set_get)
  moreover have "(ShmUPtr_step False p ^^ (2 * n)) ?s2 = goto p (P_warm existed i WARM_CELLS) ?s2"
  proof -
    have n: "n = WARM_CELLS - (j + 1)" and "j + 1 \<le> WARM_CELLS" using Suc(2,4) by auto
    then have "(ShmUPtr_step False p ^^ (2 * (WARM_CELLS - (j + 1)))) ?s2 = goto p (P_warm existed i WARM_CELLS) ?s2"
      by (intro Suc(1)) simp_all
    then show ?thesis by (simp only: n)
  qed
  moreover have "2 * (WARM_CELLS - j) = Suc (Suc (2 * n))" using Suc(2) by simp
  ultimately show ?case by (metis funpow_step goto_goto)
qed


text \<open>The whole constructor and the whole destructor of one process, the others standing still.\<close>

definition sys_open_result :: "nat \<Rightarrow> ShmSys \<Rightarrow> ShmSys" where
  "sys_open_result p s = (case sy_dir s of
     Some i \<Rightarrow> goto p (P_held i) (upd_inode i shm_increment s)
   | None \<Rightarrow> goto p (P_held (sy_next s))
       (s\<lparr>sy_dir := Some (sy_next s), sy_inode := (sy_inode s)(sy_next s := shm_increment shm_new), sy_next := sy_next s + 1\<rparr>))"

lemma funpow_append: "(f ^^ m) s = t \<Longrightarrow> (f ^^ n) t = u \<Longrightarrow> (f ^^ (n + m)) s = u"
  by (simp add: funpow_add)

lemma map_steps:
  assumes "sy_pc s p = P_stat"
  shows "(ShmUPtr_step False p ^^ 4) s = (case sy_dir s of
     Some i \<Rightarrow> goto p (P_warm True i 0) s
   | None \<Rightarrow> goto p (P_warm False (sy_next s) 0)
       (s\<lparr>sy_dir := Some (sy_next s), sy_inode := (sy_inode s)(sy_next s := shm_zero), sy_next := sy_next s + 1\<rparr>))"
  using assms by (cases "sy_dir s") (simp_all add: numeral_eq_Suc ctor_defs goto_def)

lemma final_steps:
  "sy_pc s p = P_warm True i WARM_CELLS \<Longrightarrow>
     (ShmUPtr_step False p ^^ 3) s = goto p (P_held i) (upd_inode i shm_increment s)"
  "sy_pc s p = P_warm False i WARM_CELLS \<Longrightarrow>
     (ShmUPtr_step False p ^^ 5) s = goto p (P_held i) (upd_inode i (\<lambda>_. shm_increment shm_new) s)"
  by (simp_all add: numeral_eq_Suc ctor_defs upd_inode_goto comp_def)

lemma ctor_solo:
  assumes "sy_pc s p = P_stat"
  shows "\<exists>n. (ShmUPtr_step False p ^^ n) s = sys_open_result p s"
proof (cases "sy_dir s")
  case (Some i)
  note a = map_steps [OF assms, unfolded Some option.case]
  note b = warm_pass [of "goto p (P_warm True i 0) s" p True i 0, simplified goto_goto]
  have "(ShmUPtr_step False p ^^ (2 * WARM_CELLS)) (goto p (P_warm True i 0) s) = goto p (P_warm True i WARM_CELLS) s"
    using b by simp
  note c = funpow_append [OF funpow_append [OF a this] final_steps(1)]
  show ?thesis using c by (force simp: sys_open_result_def Some upd_inode_goto)
next
  case None
  let ?s = "s\<lparr>sy_dir := Some (sy_next s), sy_inode := (sy_inode s)(sy_next s := shm_zero), sy_next := sy_next s + 1\<rparr>"
  let ?i = "sy_next s"
  note a = map_steps [OF assms, unfolded None option.case]
  have "(ShmUPtr_step False p ^^ (2 * WARM_CELLS)) (goto p (P_warm False ?i 0) ?s) = goto p (P_warm False ?i WARM_CELLS) ?s"
    using warm_pass [of "goto p (P_warm False ?i 0) ?s" p False ?i 0] by simp
  note c = funpow_append [OF funpow_append [OF a this] final_steps(2)]
  have "(ShmUPtr_step False p ^^ (5 + (2 * WARM_CELLS + 4))) s = sys_open_result p s"
    by (subst c) (auto simp: sys_open_result_def None upd_inode_def goto_def intro!: ShmSys.equality)
  then show ?thesis by blast
qed

lemma dtor_solo:
  assumes "sy_pc s p = P_held i"
  shows "(ShmUPtr_close_step p ^^ 2) s = (case shm_decrement (sy_inode s i) of
    (isLast, q) \<Rightarrow> goto p P_done ((if isLast then s\<lparr>sy_dir := None\<rparr> else s)\<lparr>sy_inode := (sy_inode s)(i := q)\<rparr>))"
  using assms
  by (cases "shm_decrement (sy_inode s i)") (simp add: numeral_eq_Suc ShmUPtr_close_step_def goto_def upd_inode_def)


text \<open>
  Run alone, the constructor of \<^verbatim>\<open>ShmUPtr\<close> terminates and leaves the files as \<^const>\<open>shm_open\<close> does, and the destructor
  as \<^const>\<open>shm_close\<close> does.
\<close>

definition sys_files :: "string \<Rightarrow> ShmSys \<Rightarrow> shm_files" where
  "sys_files name s = (\<lambda>n. if n = name then map_option (sy_inode s) (sy_dir s) else None)"

lemma shm_open_refines:
  assumes "sy_pc s p = P_stat"
  shows "\<exists>n k. sy_pc ((ShmUPtr_step False p ^^ n) s) p = P_held k \<and>
    sys_files name ((ShmUPtr_step False p ^^ n) s) = snd (shm_open name (sys_files name s))"
proof -
  obtain n where n: "(ShmUPtr_step False p ^^ n) s = sys_open_result p s" using ctor_solo [OF assms] by blast
  have "sys_files name (sys_open_result p s) = snd (shm_open name (sys_files name s))"
    by (cases "sy_dir s") (auto simp: sys_files_def sys_open_result_def shm_open_def fun_eq_iff)
  moreover have "\<exists>k. sy_pc (sys_open_result p s) p = P_held k"
    by (cases "sy_dir s") (simp_all add: sys_open_result_def)
  ultimately show ?thesis using n by metis
qed

lemma shm_close_refines:
  assumes "sy_pc s p = P_held i" and "sy_dir s = Some i"
  shows "sys_files name ((ShmUPtr_close_step p ^^ 2) s) = shm_close name (sys_files name s)"
  using assms
  by (cases "shm_decrement (sy_inode s i)")
    (auto simp: dtor_solo sys_files_def shm_close_def fun_eq_iff)

text \<open>Runs in which constructors and destructors do not overlap; the operating system has fewer than
  \<open>PID_MAX_LIMIT\<close> processes.\<close>

definition PID_MAX_LIMIT :: nat where "PID_MAX_LIMIT = 2 ^ 22"

inductive serial_step :: "ShmSys \<Rightarrow> ShmSys \<Rightarrow> bool" where
  opens: "p < PID_MAX_LIMIT \<Longrightarrow> sy_pc s p = P_stat \<Longrightarrow> (ShmUPtr_step False p ^^ n) s = s' \<Longrightarrow> sy_pc s' p = P_held i \<Longrightarrow> serial_step s s'"
| closes: "p < PID_MAX_LIMIT \<Longrightarrow> sy_pc s p = P_held i \<Longrightarrow> (ShmUPtr_close_step p ^^ 2) s = s' \<Longrightarrow> serial_step s s'"

definition holders :: "ShmSys \<Rightarrow> nat set" where
  "holders s = {p. \<exists>i. sy_pc s p = P_held i}"

definition serial_ok :: "ShmSys \<Rightarrow> bool" where
  "serial_ok s \<longleftrightarrow> holders s \<subseteq> {..<PID_MAX_LIMIT} \<and>
     (case sy_dir s of
        None \<Rightarrow> holders s = {}
      | Some i \<Rightarrow> holders s \<noteq> {} \<and> (\<forall>p \<in> holders s. sy_pc s p = P_held i) \<and>
          sh_refCount (sy_inode s i) = of_nat (card (holders s)))"

lemma held_stays: "sy_pc s p = P_held i \<Longrightarrow> (ShmUPtr_step False p ^^ n) s = s"
  by (induction n) (simp_all add: ctor_defs)

lemma opens_unique:
  assumes "sy_pc s p = P_stat" and "(ShmUPtr_step False p ^^ n) s = s'" and "sy_pc s' p = P_held i"
  shows "s' = sys_open_result p s"
proof -
  obtain m where m: "(ShmUPtr_step False p ^^ m) s = sys_open_result p s" using ctor_solo [OF assms(1)] by blast
  obtain k where k: "sy_pc (sys_open_result p s) p = P_held k" by (cases "sy_dir s") (simp_all add: sys_open_result_def)
  show ?thesis
  proof (cases "m \<le> n")
    case True
    then have "s' = (ShmUPtr_step False p ^^ (n - m)) (sys_open_result p s)"
      using assms(2) m by (metis funpow_add le_add_diff_inverse2 o_apply)
    then show ?thesis by (simp add: held_stays [OF k])
  next
    case False
    then have "sys_open_result p s = (ShmUPtr_step False p ^^ (m - n)) s'"
      using assms(2) m by (metis funpow_add le_add_diff_inverse2 nat_le_linear o_apply)
    then show ?thesis by (simp add: held_stays [OF assms(3)])
  qed
qed


lemma serial_ok_card:
  assumes "serial_ok s"
  shows "finite (holders s)" and "card (holders s) \<le> 2 ^ 22"
proof -
  have sub: "holders s \<subseteq> {..<PID_MAX_LIMIT}" using assms by (simp add: serial_ok_def)
  show "finite (holders s)" by (rule finite_subset [OF sub]) simp
  show "card (holders s) \<le> 2 ^ 22" using card_mono [OF _ sub] by (simp add: PID_MAX_LIMIT_def)
qed

lemma holders_goto: "holders (goto p c s) = (if \<exists>i. c = P_held i then insert p (holders s) else holders s - {p})"
  by (auto simp: holders_def)

lemma serial_open_ok:
  assumes ok: "serial_ok s" and p: "p < PID_MAX_LIMIT" and st: "sy_pc s p = P_stat"
  shows "serial_ok (sys_open_result p s)"
proof -
  note fin = serial_ok_card(1) [OF ok]
  have new: "p \<notin> holders s" using st by (simp add: holders_def)
  have H: "holders (sys_open_result p s) = insert p (holders s)"
    by (cases "sy_dir s") (auto simp: sys_open_result_def holders_def)
  show ?thesis
  proof (cases "sy_dir s")
    case None
    then have "holders s = {}" using ok by (simp add: serial_ok_def)
    then show ?thesis unfolding serial_ok_def H using None p
      by (simp add: sys_open_result_def shm_increment_def shm_new_def)
  next
    case (Some i)
    have "\<forall>r \<in> holders s. sy_pc s r = P_held i" and "sh_refCount (sy_inode s i) = of_nat (card (holders s))"
      and "holders s \<subseteq> {..<PID_MAX_LIMIT}"
      using ok Some by (simp_all add: serial_ok_def)
    then show ?thesis unfolding serial_ok_def H using Some p new fin
      by (auto simp: sys_open_result_def shm_increment_def)
  qed
qed

lemma unat_few: "n \<le> 2 ^ 22 \<Longrightarrow> unat (of_nat n :: u32) = n"
  by (simp add: unat_of_nat)

lemma serial_close_ok:
  assumes ok: "serial_ok s" and held: "sy_pc s p = P_held i"
  shows "serial_ok ((ShmUPtr_close_step p ^^ 2) s)"
proof -
  note fin = serial_ok_card [OF ok]
  have p: "p \<in> holders s" using held by (auto simp: holders_def)
  then obtain d where d: "sy_dir s = Some d" using ok by (auto simp: serial_ok_def split: option.splits)
  have all: "\<forall>r \<in> holders s. sy_pc s r = P_held d" and rc: "sh_refCount (sy_inode s d) = of_nat (card (holders s))"
    and lim: "holders s \<subseteq> {..<PID_MAX_LIMIT}"
    using ok d by (simp_all add: serial_ok_def)
  have i: "i = d" using all p held by auto
  define c where "c = card (holders s)"
  have c: "0 < c" "unat (of_nat c :: u32) = c"
    using p fin unat_few by (auto simp: c_def card_gt_0_iff)
  then have nz: "(of_nat c :: u32) \<noteq> 0" by (metis less_numeral_extra(3) unat_0)
  have one: "(of_nat c :: u32) = 1 \<longleftrightarrow> c = 1" using c(2) by (metis of_nat_1 unat_1)
  have pred: "(of_nat c - 1 :: u32) = of_nat (c - 1)" using c(1) by (simp add: of_nat_diff)
  define q where "q = (sy_inode s d)\<lparr>sh_refCount := of_nat (c - 1)\<rparr>"
  have dec: "shm_decrement (sy_inode s d) = (c = 1, q)"
    using nz by (simp add: shm_decrement_def rc flip: c_def) (simp add: q_def one pred word_gt_0)
  let ?s' = "(ShmUPtr_close_step p ^^ 2) s"
  have s': "?s' = goto p P_done ((if c = 1 then s\<lparr>sy_dir := None\<rparr> else s)\<lparr>sy_inode := (sy_inode s)(d := q)\<rparr>)"
    using dtor_solo [OF held] by (simp add: i dec)
  have H: "holders ?s' = holders s - {p}" by (auto simp: s' holders_def)
  have card: "card (holders s - {p}) = c - 1" using p by (simp add: c_def)
  show ?thesis
  proof (cases "c = 1")
    case True
    then have none: "holders s - {p} = {}" using card fin(1) by simp
    show ?thesis unfolding serial_ok_def H none using True by (simp add: s')
  next
    case False
    then have "card (holders s - {p}) \<noteq> 0" using card c(1) by simp
    then have "holders s - {p} \<noteq> {}" by (metis card.empty)
    then show ?thesis unfolding serial_ok_def H card using False lim all d
      by (auto simp: s' q_def)
  qed
qed


lemma serial_run_ok: "serial_step\<^sup>*\<^sup>* shm_sys_new s \<Longrightarrow> serial_ok s"
proof (induction rule: rtranclp_induct)
  case base
  show ?case by (simp add: serial_ok_def shm_sys_new_def holders_def)
next
  case (step s s')
  from step(2) show ?case
  proof cases
    case (opens p n i)
    then show ?thesis using opens_unique serial_open_ok step.IH by metis
  next
    case (closes p i)
    then show ?thesis using serial_close_ok step.IH by metis
  qed
qed



section \<open>Overlapping constructors\<close>

lemma ctor_runs: "sys_step\<^sup>*\<^sup>* s ((ShmUPtr_step fail p ^^ n) s)"
  by (induction n) (auto intro: rtranclp.rtrancl_into_rtrancl sys_step.ctor)

lemma dtor_runs: "sys_step\<^sup>*\<^sup>* s ((ShmUPtr_close_step p ^^ n) s)"
  by (induction n) (auto intro: rtranclp.rtrancl_into_rtrancl sys_step.dtor)

lemma ctor_run: "(ShmUPtr_step fail p ^^ n) s = s' \<Longrightarrow> sys_step\<^sup>*\<^sup>* s s'"
  using ctor_runs by blast

lemma open_run: "sy_pc s p = P_stat \<Longrightarrow> sys_step\<^sup>*\<^sup>* s (sys_open_result p s)"
  using ctor_solo ctor_run by blast

lemma warm_run: "sy_pc s p = P_warm existed i 0 \<Longrightarrow> sys_step\<^sup>*\<^sup>* s (goto p (P_warm existed i WARM_CELLS) s)"
  by (rule ctor_run [OF warm_pass [OF _ le0]])

text \<open>The first process has created and mapped the file.\<close>

definition sys_created :: ShmSys where
  "sys_created = \<lparr>sy_dir = Some 0, sy_next = 1, sy_inode = (\<lambda>_. shm_zero), sy_pc = (\<lambda>_. P_stat)(0 := P_warm False 0 0)\<rparr>"

lemma created_run: "sys_step\<^sup>*\<^sup>* shm_sys_new sys_created"
proof (rule ctor_run)
  show "(ShmUPtr_step False 0 ^^ 4) shm_sys_new = sys_created"
    by (subst map_steps) (auto simp: shm_sys_new_def sys_created_def goto_def)
qed

text \<open>Opening concurrently breaks the sharing: a process that opens the file while its creator is still in the constructor
  counts itself, and the creator then clears the count. Both hold the object with a count of one; when
  the creator goes, the path is unlinked under the other process, and the next one to open it gets a
  different object.
\<close>

theorem shm_open_race:
  "\<exists>s s' s''. sys_step\<^sup>*\<^sup>* shm_sys_new s \<and> sy_pc s 0 = P_held 0 \<and> sy_pc s 1 = P_held 0 \<and> sh_refCount (sy_inode s 0) = 1 \<and>
     sys_step\<^sup>*\<^sup>* s s' \<and> sy_pc s' 0 = P_done \<and> sy_pc s' 1 = P_held 0 \<and> sy_dir s' = None \<and>
     sys_step\<^sup>*\<^sup>* s' s'' \<and> sy_pc s'' 1 = P_held 0 \<and> sy_pc s'' 2 = P_held 1"
proof -
  define s1 where "s1 = sys_open_result 1 sys_created"
  define s2 where "s2 = goto 0 (P_warm False 0 WARM_CELLS) s1"
  define s where "s = goto 0 (P_held 0) (upd_inode 0 (\<lambda>_. shm_increment shm_new) s2)"
  define s' where "s' = (ShmUPtr_close_step 0 ^^ 2) s"
  define s'' where "s'' = sys_open_result 2 s'"
  have 1: "sys_step\<^sup>*\<^sup>* sys_created s1" unfolding s1_def by (rule open_run) (simp add: sys_created_def)
  have 2: "sys_step\<^sup>*\<^sup>* s1 s2"
    unfolding s2_def by (rule warm_run) (simp add: s1_def sys_open_result_def sys_created_def)
  have 3: "sys_step\<^sup>*\<^sup>* s2 s"
    unfolding s_def by (rule ctor_run [OF final_steps(2)]) (simp add: s2_def)
  have run: "sys_step\<^sup>*\<^sup>* shm_sys_new s" using created_run 1 2 3 by (meson rtranclp_trans)
  have pcs: "sy_pc s 0 = P_held 0" "sy_pc s 1 = P_held 0" "sy_pc s 2 = P_stat" "sy_next s = 1" "sy_dir s = Some 0"
    by (simp_all add: s_def s2_def s1_def sys_open_result_def sys_created_def)
  have cnt: "sy_inode s 0 = shm_increment shm_new" by (simp add: s_def)
  obtain q where dec: "shm_decrement (sy_inode s 0) = (True, q)"
    by (simp add: cnt shm_decrement_def shm_increment_def shm_new_def)
  have close: "sy_pc s' = (sy_pc s)(0 := P_done)" "sy_dir s' = None" "sy_next s' = 1"
    using pcs by (simp_all add: s'_def dtor_solo [OF pcs(1)] dec)
  have "sys_step\<^sup>*\<^sup>* s' s''" unfolding s''_def by (rule open_run) (simp add: close pcs)
  moreover have "sys_step\<^sup>*\<^sup>* s s'" unfolding s'_def by (rule dtor_runs)
  moreover have "sy_pc s'' = (sy_pc s')(2 := P_held 1)" by (simp add: s''_def sys_open_result_def close)
  moreover have "sh_refCount (sy_inode s 0) = 1" by (simp add: cnt shm_increment_def shm_new_def)
  ultimately show ?thesis using run pcs close
    by (intro exI [of _ s] exI [of _ s'] exI [of _ s'']) simp
qed


text \<open>
  A creation that fails at \<^verbatim>\<open>mlock\<close> (the limit on locked memory is a usual cause) leaves the file behind, with the queue not
  constructed. The next process finds the file, does not construct it either, and can send one
  message: after that every write is refused, the ring being almost empty.
\<close>

theorem failed_creation_poisons_ring:
  assumes "length m \<le> MAX_DATA_SIZE"
  shows "\<exists>s s'. sys_step\<^sup>*\<^sup>* shm_sys_new s \<and> sy_pc s 0 = P_failed \<and> sy_pc s 1 = P_held 0 \<and> sys_write 1 m s = (True, s') \<and>
    (\<forall>m'. \<not> fst (sys_write 1 m' s'))"
proof -
  define s1 where "s1 = goto 0 (P_warm False 0 WARM_CELLS) sys_created"
  define s2 where "s2 = goto 0 (P_lock False 0) (upd_inode 0 (\<lambda>_. shm_zero) s1)"
  define s3 where "s3 = goto 0 P_failed s2"
  define s where "s = sys_open_result 1 s3"
  have 1: "sys_step\<^sup>*\<^sup>* sys_created s1" unfolding s1_def by (rule warm_run) (simp add: sys_created_def)
  have 2: "sys_step\<^sup>*\<^sup>* s1 s2"
    by (rule ctor_run [where fail = False and p = 0 and n = 2])
      (simp add: numeral_eq_Suc s2_def s1_def ctor_defs upd_inode_goto)
  have 3: "sys_step\<^sup>*\<^sup>* s2 s3"
    by (rule ctor_run [where fail = True and p = 0 and n = 1]) (simp add: s3_def s2_def ctor_defs)
  have 4: "sys_step\<^sup>*\<^sup>* s3 s"
    unfolding s_def by (rule open_run) (simp add: s3_def s2_def s1_def sys_created_def)
  have run: "sys_step\<^sup>*\<^sup>* shm_sys_new s" using created_run 1 2 3 4 by (meson rtranclp_trans)
  have pcs: "sy_pc s 0 = P_failed" "sy_pc s 1 = P_held 0" and q: "sy_inode s 0 = shm_increment shm_zero"
    by (simp_all add: s_def s3_def s2_def s1_def sys_open_result_def sys_created_def)
  obtain sq where w: "spsc_write SHM_K m (sh_queue shm_zero) = (True, sq)" "sq_writeIdx sq = 1" "sq_seq sq 1 = 0"
    using assms by (simp add: spsc_write_def shm_zero_def slot_of_def)
  have "spsc_write SHM_K m' sq = (False, sq)" for m'
    using w by (simp add: spsc_write_def slot_of_def SHM_K_def)
  then have "\<not> fst (sys_write 1 m' (snd (sys_write 1 m s)))" for m'
    using pcs q w by (simp add: sys_write_def shm_increment_def)
  moreover have "fst (sys_write 1 m s)" using pcs q w by (simp add: sys_write_def shm_increment_def)
  ultimately show ?thesis using run pcs by (intro exI [of _ s] exI [of _ "snd (sys_write 1 m s)"]) (simp add: prod_eq_iff)
qed

text \<open>
  Warming is not safe on an object in use: the word that a joining process writes back can be older than
  what the other side stored meanwhile. The write reported success, and the message is gone for the
  reader.
\<close>

theorem warming_loses_message:
  assumes "length m \<le> MAX_DATA_SIZE"
  shows "\<exists>s s1 s2. sys_step\<^sup>*\<^sup>* shm_sys_new s \<and> sy_pc s 0 = P_held 0 \<and>
    sys_write 0 m s = (True, s1) \<and> sys_step\<^sup>*\<^sup>* s1 s2 \<and> sy_pc s2 1 = P_held 0 \<and> sh_refCount (sy_inode s2 0) = 2 \<and>
    sq_writeIdx (sh_queue (sy_inode s2 0)) = 1 \<and> fst (spsc_read SHM_K n (sh_queue (sy_inode s2 0))) = 0"
proof -
  define s0 where "s0 = sys_open_result 0 shm_sys_new"
  define s where "s = goto 1 (P_back True 0 0 0) s0"
  define q1 where "q1 = (shm_increment shm_new)\<lparr>sh_queue := snd (spsc_write SHM_K m spsc_new)\<rparr>"
  define s1 where "s1 = upd_inode 0 (\<lambda>_. q1) s"
  define s1' where "s1' = goto 1 (P_warm True 0 1) (upd_inode 0 (cell_set 0 0) s1)"
  define s2 where "s2 = goto 1 (P_held 0) (upd_inode 0 shm_increment s1')"
  have s0: "sy_pc s0 1 = P_stat" "sy_pc s0 0 = P_held 0" "sy_dir s0 = Some 0" "sy_inode s0 0 = shm_increment shm_new"
    by (simp_all add: s0_def sys_open_result_def shm_sys_new_def)
  have seq0: "cell_get 0 (shm_increment shm_new) = 0"
    by (simp add: cell_get_def SHM_SLOTS_def shm_increment_def shm_new_def spsc_new_def)
  have "sys_step\<^sup>*\<^sup>* shm_sys_new s0" unfolding s0_def by (rule open_run) (simp add: shm_sys_new_def)
  moreover have "sys_step\<^sup>*\<^sup>* s0 (goto 1 (P_warm True 0 0) s0)"
    by (rule ctor_run [OF map_steps [OF s0(1), unfolded s0(3) option.case]])
  moreover have "sys_step\<^sup>*\<^sup>* (goto 1 (P_warm True 0 0) s0) s"
    by (rule ctor_run [where fail = False and p = 1 and n = 1]) (simp add: ctor_defs s_def WARM_CELLS_def s0 seq0)
  ultimately have run: "sys_step\<^sup>*\<^sup>* shm_sys_new s" by (meson rtranclp_trans)
  have ok: "fst (spsc_write SHM_K m spsc_new)" using assms by (simp add: spsc_write_def spsc_new_def slot_of_def)
  have q: "sh_queue (shm_increment shm_new) = spsc_new" by (simp add: shm_increment_def shm_new_def)
  have w: "sys_write 0 m s = (True, s1)"
    using ok by (cases "spsc_write SHM_K m spsc_new") (simp add: sys_write_def s_def s0 q s1_def q1_def upd_inode_def)
  have "sys_step\<^sup>*\<^sup>* s1 s1'"
    by (rule ctor_run [where fail = False and p = 1 and n = 1]) (simp add: ctor_defs s1'_def s1_def s_def)
  moreover have "sys_step\<^sup>*\<^sup>* s1' (goto 1 (P_warm True 0 WARM_CELLS) s1')"
    by (rule ctor_run [OF warm_pass [of _ _ _ _ 1]]) (simp_all add: s1'_def WARM_CELLS_def)
  moreover have "sys_step\<^sup>*\<^sup>* (goto 1 (P_warm True 0 WARM_CELLS) s1') s2"
    using ctor_run [OF final_steps(1) [of "goto 1 (P_warm True 0 WARM_CELLS) s1'" 1 0]]
    by (simp add: s2_def upd_inode_goto)
  ultimately have run2: "sys_step\<^sup>*\<^sup>* s1 s2" by (meson rtranclp_trans)
  have in2: "sy_inode s2 0 = shm_increment (cell_set 0 0 q1)" by (simp add: s2_def s1'_def s1_def)
  have end2: "sh_refCount (sy_inode s2 0) = 2" "sq_writeIdx (sh_queue (sy_inode s2 0)) = 1"
    "fst (spsc_read SHM_K n (sh_queue (sy_inode s2 0))) = 0"
    using assms by (simp_all add: in2 cell_set_def SHM_SLOTS_def q1_def shm_increment_def shm_new_def spsc_write_def
        spsc_read_def spsc_new_def slot_of_def)
  show ?thesis using run w run2 end2 s0(2)
    by (intro exI [of _ s] exI [of _ s1] exI [of _ s2]) (simp add: s_def s2_def)
qed

end
