(* ===== verification/Shm_Reactor_Stop.thy ===== *)
theory Shm_Reactor_Stop
  imports Shm_Wakeup
begin

text \<open>
  Stopping the shared-memory reactor (\<^verbatim>\<open>common/src/transport/shm/shm_reactor.cpp\<close>): the whole of \<^verbatim>\<open>ShmReactor::loop\<close> on its thread
  against \<^verbatim>\<open>ShmReactor::stop\<close> on the thread of the control center, which has requested the stop before.
  One shared access is one step. What a poll finds is an argument of the step (\<^const>\<open>poll_pass\<close> has the
  polls themselves). An access to \<^verbatim>\<open>readers_\<close> past its end is the state \<open>X_undefined\<close>.
\<close>

datatype rx_pc =
    X_top
  | X_for nat bool
  | X_poll nat bool
  | X_end bool
  | X_load
  | X_flag nat u32
  | X_wait nat u32
  | X_blocked nat
  | X_clear nat
  | X_exit
  | X_undefined

datatype stopper_pc = T_idle | T_enter | T_notify nat | T_store nat nat | T_wake nat nat | T_clear | T_join | T_done

record ReactorRun =
  x_readers :: "nat list"
  x_started :: bool
  x_stopRequested :: bool
  x_futex :: "(nat, u32) array"
  x_futexCounter :: "(nat, u32) array"
  x_waitFlag :: "(nat, bool) array"
  x_waiter :: SpinWait
  x_loop :: rx_pc
  x_stopper :: stopper_pc

definition reactor_started :: "nat list \<Rightarrow> ReactorRun" where
  "reactor_started readers = \<lparr>x_readers = readers, x_started = True, x_stopRequested = False, x_futex = (\<lambda>_. 0),
     x_futexCounter = (\<lambda>_. 0), x_waitFlag = (\<lambda>_. False), x_waiter = sw_new SPIN_RETRIES_WARM,
     x_loop = if readers = [] then X_exit else X_top, x_stopper = T_idle\<rparr>"

definition loop_step :: "PollResult \<Rightarrow> ReactorRun \<Rightarrow> ReactorRun option" where
  "loop_step res s = (case x_loop s of
     X_top \<Rightarrow> Some (s\<lparr>x_loop := if x_stopRequested s then X_exit else X_for 0 False\<rparr>)
   | X_for i busy \<Rightarrow>
       Some (s\<lparr>x_loop := if i < length (x_readers s) then (if x_stopRequested s then X_end busy else X_poll i busy)
                          else X_end busy\<rparr>)
   | X_poll i busy \<Rightarrow>
       (if i < length (x_readers s)
        then case res of
               Vanished \<Rightarrow>
                 let readers = butlast ((x_readers s)[i := last (x_readers s)])
                 in Some (s\<lparr>x_readers := readers, x_loop := if readers = [] then X_exit else X_for i busy\<rparr>)
             | Busy \<Rightarrow> Some (s\<lparr>x_loop := X_for (i + 1) True\<rparr>)
             | Idle \<Rightarrow> Some (s\<lparr>x_loop := X_for (i + 1) busy\<rparr>)
        else Some (s\<lparr>x_loop := X_undefined\<rparr>))
   | X_end busy \<Rightarrow>
       (if busy then Some (s\<lparr>x_waiter := sw_reset (x_waiter s), x_loop := X_top\<rparr>)
        else case sw_inc (x_waiter s) of (b, w) \<Rightarrow> Some (s\<lparr>x_waiter := w, x_loop := if b then X_top else X_load\<rparr>))
   | X_load \<Rightarrow>
       (case x_readers s of
          [] \<Rightarrow> Some (s\<lparr>x_loop := X_undefined\<rparr>)
        | r # _ \<Rightarrow> Some (s\<lparr>x_loop := X_flag r (x_futex s r)\<rparr>))
   | X_flag r v \<Rightarrow> Some (s\<lparr>x_waitFlag := (x_waitFlag s)(r := True), x_loop := X_wait r v\<rparr>)
   | X_wait r v \<Rightarrow> Some (s\<lparr>x_loop := if x_futex s r = v then X_blocked r else X_clear r\<rparr>)
   | X_clear r \<Rightarrow>
       Some (s\<lparr>x_waitFlag := (x_waitFlag s)(r := False), x_waiter := sw_reset (x_waiter s), x_loop := X_top\<rparr>)
   | _ \<Rightarrow> None)"

text \<open>\<^verbatim>\<open>stop\<close>: each reader's queue is notified (\<^verbatim>\<open>ShmQueue::notify\<close>: flag, store, wake), the vector is cleared, and the
  thread is joined.\<close>

definition stop_step :: "ReactorRun \<Rightarrow> ReactorRun option" where
  "stop_step s = (case x_stopper s of
     T_idle \<Rightarrow> Some (s\<lparr>x_stopRequested := True, x_stopper := T_enter\<rparr>)
   | T_enter \<Rightarrow> Some (s\<lparr>x_stopper := if x_started s then T_notify 0 else T_done\<rparr>)
   | T_notify i \<Rightarrow>
       (if i < length (x_readers s)
        then let r = x_readers s ! i in Some (s\<lparr>x_stopper := if x_waitFlag s r then T_store i r else T_notify (i + 1)\<rparr>)
        else Some (s\<lparr>x_stopper := T_clear\<rparr>))
   | T_store i r \<Rightarrow>
       (let c = x_futexCounter s r + 1
        in Some (s\<lparr>x_futexCounter := (x_futexCounter s)(r := c), x_futex := (x_futex s)(r := c), x_stopper := T_wake i r\<rparr>))
   | T_wake i r \<Rightarrow>
       Some (s\<lparr>x_loop := if x_loop s = X_blocked r then X_clear r else x_loop s, x_stopper := T_notify (i + 1)\<rparr>)
   | T_clear \<Rightarrow> Some (s\<lparr>x_readers := [], x_stopper := T_join\<rparr>)
   | T_join \<Rightarrow> (if x_loop s = X_exit then Some (s\<lparr>x_stopper := T_done\<rparr>) else None)
   | T_done \<Rightarrow> None)"

inductive reactor_step :: "ReactorRun \<Rightarrow> ReactorRun \<Rightarrow> bool" where
  reactor: "loop_step res s = Some s' \<Longrightarrow> reactor_step s s'"
| stopper: "stop_step s = Some s' \<Longrightarrow> reactor_step s s'"

inductive_cases reactor_stepE: "reactor_step s s'"

text \<open>The service locator: the constructor claims \<^verbatim>\<open>ShmReactor::instance\<close>, readers look it up, \<^verbatim>\<open>stop\<close> of a started reactor
  gives it back. A reactor that never ran keeps it.\<close>

definition reactor_ctor :: "nat \<Rightarrow> nat option \<Rightarrow> string + nat option" where
  "reactor_ctor this inst = (if inst = None then Inr (Some this) else Inl ''ShmReactor is already initialized'')"

definition reader_init :: "nat option \<Rightarrow> string + nat" where
  "reader_init inst = (case inst of None \<Rightarrow> Inl ''ShmReactor is not initialized'' | Some r \<Rightarrow> Inr r)"

definition reactor_stop_instance :: "bool \<Rightarrow> nat option \<Rightarrow> nat option" where
  "reactor_stop_instance started inst = (if started then None else inst)"

lemma reactor_instance:
  assumes "reactor_ctor a None = Inr inst"
  shows "reader_init inst = Inr a"
    and "reactor_ctor b (reactor_stop_instance started inst) =
      (if started then Inr (Some b) else Inl ''ShmReactor is already initialized'')"
  using assms by (auto simp: reactor_ctor_def reader_init_def reactor_stop_instance_def)

text \<open>An idle pass of the loop over one reader, and as many of them as the waiter allows.\<close>

fun idle_steps :: "nat \<Rightarrow> ReactorRun \<Rightarrow> ReactorRun" where
  "idle_steps 0 s = s"
| "idle_steps (Suc n) s = (case loop_step Idle s of None \<Rightarrow> s | Some s' \<Rightarrow> idle_steps n s')"

lemma idle_steps_run: "reactor_step\<^sup>*\<^sup>* s (idle_steps n s)"
proof (induction n arbitrary: s)
  case (Suc n)
  show ?case
  proof (cases "loop_step Idle s")
    case (Some s')
    then show ?thesis using Suc [of s'] by (auto intro: converse_rtranclp_into_rtranclp reactor_step.reactor)
  qed simp
qed simp

lemma idle_pass:
  assumes "x_loop s = X_top" "x_readers s = [r]" "\<not> x_stopRequested s"
  shows "idle_steps 5 s = s\<lparr>x_waiter := snd (sw_inc (x_waiter s)), x_loop := if fst (sw_inc (x_waiter s)) then X_top else X_load\<rparr>"
  using assms by (cases "sw_inc (x_waiter s)") (simp add: numeral_eq_Suc loop_step_def)

lemma idle_spin_down:
  assumes "x_loop s = X_top" "x_readers s = [r]" "\<not> x_stopRequested s"
  shows "\<exists>w. reactor_step\<^sup>*\<^sup>* s (s\<lparr>x_waiter := w, x_loop := X_load\<rparr>)"
  using assms
proof (induction "spin_budget (x_waiter s)" arbitrary: s)
  case 0
  then have "\<not> fst (sw_inc (x_waiter s))" using sw_inc_True by simp
  then have "idle_steps 5 s = s\<lparr>x_waiter := snd (sw_inc (x_waiter s)), x_loop := X_load\<rparr>"
    using idle_pass [OF 0(2-4)] by simp
  then show ?case using idle_steps_run [of s 5] by metis
next
  case (Suc n)
  let ?s = "s\<lparr>x_waiter := snd (sw_inc (x_waiter s)), x_loop := X_top\<rparr>"
  have b: "fst (sw_inc (x_waiter s))" using Suc(2) sw_inc_True by (metis zero_less_Suc)
  have "reactor_step\<^sup>*\<^sup>* s ?s" using idle_pass [OF Suc(3-5)] b idle_steps_run [of s 5] by simp
  moreover have "\<exists>w. reactor_step\<^sup>*\<^sup>* ?s (?s\<lparr>x_waiter := w, x_loop := X_load\<rparr>)"
    using Suc(1) [of ?s] Suc(2-) sw_inc_budget [OF b] by simp
  ultimately show ?case by (auto intro: rtranclp_trans)
qed


section \<open>Stops that do not end\<close>

fun stopper_steps :: "nat \<Rightarrow> ReactorRun \<Rightarrow> ReactorRun" where
  "stopper_steps 0 s = s"
| "stopper_steps (Suc n) s = (case stop_step s of None \<Rightarrow> s | Some s' \<Rightarrow> stopper_steps n s')"

lemma stopper_steps_run: "reactor_step\<^sup>*\<^sup>* s (stopper_steps n s)"
proof (induction n arbitrary: s)
  case (Suc n)
  show ?case
  proof (cases "stop_step s")
    case (Some s')
    then show ?thesis using Suc [of s'] by (auto intro: converse_rtranclp_into_rtranclp reactor_step.stopper)
  qed simp
qed simp

text \<open>The state in which the loop is about to load the futex word, after as many empty polls as it spins.\<close>

lemma reactor_about_to_wait:
  "\<exists>w. reactor_step\<^sup>*\<^sup>* (reactor_started [r]) ((reactor_started [r])\<lparr>x_waiter := w, x_loop := X_load\<rparr>)"
  by (rule idle_spin_down) (simp_all add: reactor_started_def)

text \<open>
  Stopping the shared-memory reactor can hang: when \<^verbatim>\<open>stop\<close> runs between the loop's last look at the stop token and
  the raising of the wait flag, its notification is dropped, the loop goes to sleep, and the join never
  returns; no thread can take a step. When it runs a moment earlier, the loop waits on the first
  element of a vector that \<^verbatim>\<open>stop\<close> has cleared.
\<close>

theorem reactor_stop_hangs:
  "(\<exists>s. reactor_step\<^sup>*\<^sup>* (reactor_started [r]) s \<and> x_stopRequested s \<and> x_loop s = X_blocked r \<and> x_stopper s = T_join \<and>
      (\<forall>s'. \<not> reactor_step s s')) \<and>
   (\<exists>s. reactor_step\<^sup>*\<^sup>* (reactor_started [r]) s \<and> x_loop s = X_undefined)"
proof
  obtain w where w: "reactor_step\<^sup>*\<^sup>* (reactor_started [r]) ((reactor_started [r])\<lparr>x_waiter := w, x_loop := X_load\<rparr>)"
    (is "reactor_step\<^sup>*\<^sup>* _ ?s") using reactor_about_to_wait by blast
  define s1 where "s1 = idle_steps 1 ?s"
  define s2 where "s2 = stopper_steps 5 s1"
  define s3 where "s3 = idle_steps 2 s2"
  have "reactor_step\<^sup>*\<^sup>* (reactor_started [r]) s3"
    using w idle_steps_run [of ?s 1] stopper_steps_run [of s1 5] idle_steps_run [of s2 2]
    unfolding s1_def [symmetric] s2_def [symmetric] s3_def [symmetric] by (meson rtranclp_trans)
  moreover have s2: "s2 = ?s\<lparr>x_loop := X_flag r 0, x_readers := [], x_stopRequested := True, x_stopper := T_join\<rparr>"
    by (simp add: s2_def s1_def numeral_eq_Suc loop_step_def stop_step_def reactor_started_def Let_def)
  moreover have "x_loop s3 = X_blocked r" "x_stopper s3 = T_join" "x_stopRequested s3"
    unfolding s3_def s2 by (simp_all add: numeral_eq_Suc loop_step_def reactor_started_def)
  moreover from this have "\<not> reactor_step s3 s'" for s'
    by (auto elim!: reactor_stepE simp: loop_step_def stop_step_def)
  ultimately show "\<exists>s. reactor_step\<^sup>*\<^sup>* (reactor_started [r]) s \<and> x_stopRequested s \<and> x_loop s = X_blocked r \<and>
      x_stopper s = T_join \<and> (\<forall>s'. \<not> reactor_step s s')" by blast
  have "reactor_step\<^sup>*\<^sup>* (reactor_started [r]) (idle_steps 1 (stopper_steps 5 ?s))"
    using w stopper_steps_run [of ?s 5] idle_steps_run [of "stopper_steps 5 ?s" 1] by (meson rtranclp_trans)
  moreover have "x_loop (idle_steps 1 (stopper_steps 5 ?s)) = X_undefined"
    by (simp add: numeral_eq_Suc loop_step_def stop_step_def reactor_started_def Let_def)
  ultimately show "\<exists>s. reactor_step\<^sup>*\<^sup>* (reactor_started [r]) s \<and> x_loop s = X_undefined" by blast
qed

section \<open>Stopping a sleeping reactor\<close>

text \<open>The positions a stop can be in while the loop sleeps, and after it was woken.\<close>

definition asleep :: "nat \<Rightarrow> nat list \<Rightarrow> ReactorRun \<Rightarrow> bool" where
  "asleep r rs s \<longleftrightarrow> x_loop s = X_blocked r \<and> x_readers s = r # rs \<and> x_waitFlag s r \<and> x_started s \<and>
     (x_stopper s = T_idle \<or>
      x_stopRequested s \<and> x_stopper s \<in> {T_enter, T_notify 0, T_store 0 r, T_wake 0 r})"

definition woken :: "nat \<Rightarrow> nat list \<Rightarrow> ReactorRun \<Rightarrow> bool" where
  "woken r rs s \<longleftrightarrow> x_stopRequested s \<and> x_loop s \<in> {X_clear r, X_top, X_exit} \<and>
     (case x_stopper s of
        T_notify i \<Rightarrow> 0 < i \<and> i \<le> length (r # rs) \<and> x_readers s = r # rs
      | T_store i r' \<Rightarrow> i < length (r # rs) \<and> x_readers s = r # rs
      | T_wake i r' \<Rightarrow> i < length (r # rs) \<and> x_readers s = r # rs
      | T_clear \<Rightarrow> True
      | T_join \<Rightarrow> True
      | T_done \<Rightarrow> x_loop s = X_exit
      | _ \<Rightarrow> False)"

fun loop_work :: "rx_pc \<Rightarrow> nat" where
  "loop_work (X_blocked r) = 3"
| "loop_work (X_clear r) = 2"
| "loop_work X_top = 1"
| "loop_work _ = 0"

fun stop_work :: "nat \<Rightarrow> stopper_pc \<Rightarrow> nat" where
  "stop_work n T_idle = 3 * n + 6"
| "stop_work n T_enter = 3 * n + 5"
| "stop_work n (T_notify i) = 3 * (n - i) + 4"
| "stop_work n (T_store i r) = 3 * (n - i) + 3"
| "stop_work n (T_wake i r) = 3 * (n - i) + 2"
| "stop_work n T_clear = 3"
| "stop_work n T_join = 2"
| "stop_work n T_done = 0"

definition rx_work :: "nat \<Rightarrow> ReactorRun \<Rightarrow> nat" where
  "rx_work n s = loop_work (x_loop s) + stop_work n (x_stopper s)"

lemma asleep_step:
  assumes "asleep r rs s" and "reactor_step s s'"
  shows "(asleep r rs s' \<or> woken r rs s') \<and> rx_work (Suc (length rs)) s' < rx_work (Suc (length rs)) s"
  using assms(2)
proof cases
  case (reactor res)
  then show ?thesis using assms(1) by (simp add: asleep_def loop_step_def)
next
  case stopper
  then show ?thesis using assms(1)
    by (auto simp: asleep_def woken_def stop_step_def rx_work_def Let_def)
qed

lemma woken_step:
  assumes "woken r rs s" and "reactor_step s s'"
  shows "woken r rs s' \<and> rx_work (Suc (length rs)) s' < rx_work (Suc (length rs)) s"
  using assms(2)
proof cases
  case (reactor res)
  then show ?thesis using assms(1)
    by (auto simp: woken_def loop_step_def rx_work_def split: stopper_pc.splits)
next
  case stopper
  then show ?thesis using assms(1)
    by (cases "x_stopper s") (auto simp: woken_def stop_step_def rx_work_def Let_def split: if_splits)
qed


lemma stop_run:
  assumes "asleep r rs s" and "(reactor_step ^^ n) s s'"
  shows "(asleep r rs s' \<or> woken r rs s') \<and> n + rx_work (Suc (length rs)) s' \<le> rx_work (Suc (length rs)) s"
  using assms(2)
proof (induction n arbitrary: s')
  case 0
  then show ?case using assms(1) by simp
next
  case (Suc n)
  then obtain t where "(reactor_step ^^ n) s t" and t: "reactor_step t s'" by auto
  then have "asleep r rs t \<or> woken r rs t" "n + rx_work (Suc (length rs)) t \<le> rx_work (Suc (length rs)) s"
    using Suc.IH by blast+
  moreover have "(asleep r rs s' \<or> woken r rs s') \<and> rx_work (Suc (length rs)) s' < rx_work (Suc (length rs)) t"
    using calculation(1) asleep_step [OF _ t] woken_step [OF _ t] by blast
  ultimately show ?case by linarith
qed

lemma stop_progress:
  assumes "asleep r rs s \<or> woken r rs s" and "\<And>s'. \<not> reactor_step s s'"
  shows "x_stopper s = T_done \<and> x_loop s = X_exit"
proof -
  have l: "loop_step Idle s = None" and t: "stop_step s = None"
    using assms(2) reactor_step.intros by (metis not_None_eq)+
  from assms(1) show ?thesis
  proof
    assume "asleep r rs s"
    then show ?thesis using t by (auto simp: asleep_def stop_step_def Let_def)
  next
    assume w: "woken r rs s"
    then have "x_loop s = X_exit" using l by (auto simp: woken_def loop_step_def)
    then show ?thesis using w t by (cases "x_stopper s") (auto simp: woken_def stop_step_def Let_def split: if_splits)
  qed
qed

text \<open>C38. Stopping a reactor that sleeps on its first reader succeeds in every interleaving: a run has a bounded number of
  steps, the loop never touches the cleared vector, and a run that cannot go on has left the loop and
  finished \<^verbatim>\<open>stop\<close>.
\<close>

theorem stop_ends_sleeping_reactor:
  assumes "x_loop s = X_blocked r" and "x_readers s = r # rs" and "x_waitFlag s r" and "x_started s"
    and "x_stopper s = T_idle" and "(reactor_step ^^ n) s s'"
  shows "n \<le> 3 * length (r # rs) + 9 \<and> x_loop s' \<noteq> X_undefined \<and>
    ((\<forall>t. \<not> reactor_step s' t) \<longrightarrow> x_stopper s' = T_done \<and> x_loop s' = X_exit)"
proof -
  have "asleep r rs s" using assms by (simp add: asleep_def)
  then have run: "asleep r rs s' \<or> woken r rs s'" "n + rx_work (Suc (length rs)) s' \<le> rx_work (Suc (length rs)) s"
    using stop_run assms(6) by blast+
  have "n \<le> 3 * length (r # rs) + 9" using run(2) assms(1,5) by (simp add: rx_work_def)
  moreover have "x_loop s' \<noteq> X_undefined" using run(1) by (auto simp: asleep_def woken_def)
  ultimately show ?thesis using stop_progress [OF run(1)] by blast
qed

definition sleeping_reactor :: ReactorRun where
  "sleeping_reactor = (reactor_started [4])\<lparr>x_loop := X_blocked 4, x_waitFlag := (\<lambda>_. False)(4 := True)\<rparr>"

theorem stop_ends_sleeping_reactor_witness:
  "(reactor_step ^^ 1) sleeping_reactor (stopper_steps 1 sleeping_reactor) \<and>
   x_loop (stopper_steps 1 sleeping_reactor) \<noteq> X_undefined"
proof -
  have "reactor_step sleeping_reactor (stopper_steps 1 sleeping_reactor)"
    by (rule reactor_step.stopper) (simp add: sleeping_reactor_def reactor_started_def stop_step_def)
  then have step: "(reactor_step ^^ 1) sleeping_reactor (stopper_steps 1 sleeping_reactor)" by auto
  have "x_loop (stopper_steps 1 sleeping_reactor) \<noteq> X_undefined"
    using stop_ends_sleeping_reactor [OF _ _ _ _ _ step, of 4 "[]"]
    by (simp add: sleeping_reactor_def reactor_started_def)
  then show ?thesis using step by blast
qed

end
