(* ===== verification/Spsc_Threads.thy ===== *)
theory Spsc_Threads
  imports Sequenced_SPSC "HOL-Library.Sublist"
begin

text \<open>
  \<^verbatim>\<open>SequencedSPSC\<close> under concurrency: \<^verbatim>\<open>write\<close> and \<^verbatim>\<open>read\<close> of \<^verbatim>\<open>common/src/containers/sequenced_spsc.hpp\<close> as sequences of accesses to the
  shared slots, run by threads in any order (sequential consistency). With one producer and one
  consumer the ring is a FIFO queue whose operations take effect at the two stores of a sequence
  number; this is what allows \<open>Lfq_Runner\<close> and \<open>Shm_Wakeup\<close> to take a write or a read as one step. With two
  producers, which is how the matching workers share the queue of the gateway, it is not.
\<close>

section \<open>Threads\<close>

text \<open>The place of a producer in \<^verbatim>\<open>write\<close>: the message and the slot the reference is bound to.\<close>

datatype prod_pc =
    Pr_idle
  | Pr_check "u8 list" nat
  | Pr_copy "u8 list" nat
  | Pr_size "u8 list" nat
  | Pr_publish "u8 list" nat
  | Pr_inc

datatype cons_pc =
    Co_idle
  | Co_check nat
  | Co_size nat
  | Co_copy nat
  | Co_release nat "u8 list"
  | Co_inc nat "u8 list"
  | Co_return nat "u8 list"

record SpscRun =
  c_queue :: SequencedSPSC
  c_prod :: "(nat, prod_pc) array"
  c_todo :: "(nat, u8 list list) array"
  c_cons :: cons_pc
  c_accepted :: "u8 list list"
  c_delivered :: "u8 list list"
  c_returned :: "(u32 \<times> u8 list) list"

definition spsc_run_new :: "(nat, u8 list list) array \<Rightarrow> SpscRun" where
  "spsc_run_new todo = \<lparr>c_queue = spsc_new, c_prod = (\<lambda>_. Pr_idle), c_todo = todo, c_cons = Co_idle, c_accepted = [],
     c_delivered = [], c_returned = []\<rparr>"

definition prod_goto :: "nat \<Rightarrow> prod_pc \<Rightarrow> SpscRun \<Rightarrow> SpscRun" where
  "prod_goto p c s = s\<lparr>c_prod := (c_prod s)(p := c)\<rparr>"

definition write_step :: "nat \<Rightarrow> nat \<Rightarrow> SpscRun \<Rightarrow> SpscRun option" where
  "write_step k p s = (let q = c_queue s in case c_prod s p of
     Pr_idle \<Rightarrow>
       (case c_todo s p of
          [] \<Rightarrow> None
        | m # ms \<Rightarrow>
            Some (prod_goto p (if length m > MAX_DATA_SIZE then Pr_idle else Pr_check m (slot_of k (sq_writeIdx q)))
                    (s\<lparr>c_todo := (c_todo s)(p := ms)\<rparr>)))
   | Pr_check m i \<Rightarrow> Some (prod_goto p (if sq_seq q i \<noteq> sq_writeIdx q then Pr_idle else Pr_copy m i) s)
   | Pr_copy m i \<Rightarrow>
       Some (prod_goto p (Pr_size m i)
               (s\<lparr>c_queue := q\<lparr>sq_bytes := (sq_bytes q)(i := m @ drop (length m) (sq_bytes q i))\<rparr>\<rparr>))
   | Pr_size m i \<Rightarrow>
       Some (prod_goto p (Pr_publish m i) (s\<lparr>c_queue := q\<lparr>sq_size := (sq_size q)(i := of_nat (length m))\<rparr>\<rparr>))
   | Pr_publish m i \<Rightarrow>
       Some (prod_goto p Pr_inc
               (s\<lparr>c_queue := q\<lparr>sq_seq := (sq_seq q)(i := sq_writeIdx q + 1)\<rparr>, c_accepted := c_accepted s @ [m]\<rparr>))
   | Pr_inc \<Rightarrow> Some (prod_goto p Pr_idle (s\<lparr>c_queue := q\<lparr>sq_writeIdx := sq_writeIdx q + 1\<rparr>\<rparr>)))"

definition read_step :: "nat \<Rightarrow> u32 \<Rightarrow> SpscRun \<Rightarrow> SpscRun" where
  "read_step k maxSize s = (let q = c_queue s in case c_cons s of
     Co_idle \<Rightarrow> s\<lparr>c_cons := Co_check (slot_of k (sq_readIdx q))\<rparr>
   | Co_check i \<Rightarrow> s\<lparr>c_cons := if sq_seq q i \<noteq> sq_readIdx q + 1 then Co_idle else Co_size i\<rparr>
   | Co_size i \<Rightarrow> s\<lparr>c_cons := if sq_size q i > maxSize then Co_idle else Co_copy i\<rparr>
   | Co_copy i \<Rightarrow> s\<lparr>c_cons := Co_release i (take (unat (sq_size q i)) (sq_bytes q i))\<rparr>
   | Co_release i bs \<Rightarrow>
       s\<lparr>c_queue := q\<lparr>sq_seq := (sq_seq q)(i := sq_readIdx q + push_bit k 1)\<rparr>, c_delivered := c_delivered s @ [bs],
         c_cons := Co_inc i bs\<rparr>
   | Co_inc i bs \<Rightarrow> s\<lparr>c_queue := q\<lparr>sq_readIdx := sq_readIdx q + 1\<rparr>, c_cons := Co_return i bs\<rparr>
   | Co_return i bs \<Rightarrow> s\<lparr>c_returned := c_returned s @ [(sq_size q i, bs)], c_cons := Co_idle\<rparr>)"

text \<open>Runs with a set of producers.\<close>

inductive spsc_step :: "nat \<Rightarrow> u32 \<Rightarrow> nat set \<Rightarrow> SpscRun \<Rightarrow> SpscRun \<Rightarrow> bool" for k mx P where
  produce: "p \<in> P \<Longrightarrow> write_step k p s = Some s' \<Longrightarrow> spsc_step k mx P s s'"
| consume: "s' = read_step k mx s \<Longrightarrow> spsc_step k mx P s s'"

section \<open>One producer\<close>

text \<open>The queue as if an operation past its effect had moved its index already.\<close>

fun read_pos :: "cons_pc \<Rightarrow> u64 \<Rightarrow> u64" where
  "read_pos (Co_inc i bs) r = r + 1"
| "read_pos _ r = r"

definition view :: "SpscRun \<Rightarrow> SequencedSPSC" where
  "view s = (let q = c_queue s in
     q\<lparr>sq_writeIdx := (if c_prod s 0 = Pr_inc then sq_writeIdx q + 1 else sq_writeIdx q),
       sq_readIdx := read_pos (c_cons s) (sq_readIdx q)\<rparr>)"

text \<open>What each thread knows at each point.\<close>

fun prod_ok :: "nat \<Rightarrow> u32 \<Rightarrow> SequencedSPSC \<Rightarrow> prod_pc \<Rightarrow> bool" where
  "prod_ok k mx q (Pr_check m i) \<longleftrightarrow> spsc_msg_ok mx m \<and> i = slot_of k (sq_writeIdx q)"
| "prod_ok k mx q (Pr_copy m i) \<longleftrightarrow> spsc_msg_ok mx m \<and> i = slot_of k (sq_writeIdx q) \<and> sq_seq q i = sq_writeIdx q"
| "prod_ok k mx q (Pr_size m i) \<longleftrightarrow> spsc_msg_ok mx m \<and> i = slot_of k (sq_writeIdx q) \<and> sq_seq q i = sq_writeIdx q \<and>
     take (length m) (sq_bytes q i) = m"
| "prod_ok k mx q (Pr_publish m i) \<longleftrightarrow> spsc_msg_ok mx m \<and> i = slot_of k (sq_writeIdx q) \<and> sq_seq q i = sq_writeIdx q \<and>
     take (length m) (sq_bytes q i) = m \<and> sq_size q i = of_nat (length m)"
| "prod_ok k mx q _ \<longleftrightarrow> True"

fun cons_ok :: "nat \<Rightarrow> SequencedSPSC \<Rightarrow> cons_pc \<Rightarrow> bool" where
  "cons_ok k q (Co_check i) \<longleftrightarrow> i = slot_of k (sq_readIdx q)"
| "cons_ok k q (Co_size i) \<longleftrightarrow> i = slot_of k (sq_readIdx q) \<and> sq_seq q i = sq_readIdx q + 1"
| "cons_ok k q (Co_copy i) \<longleftrightarrow> i = slot_of k (sq_readIdx q) \<and> sq_seq q i = sq_readIdx q + 1"
| "cons_ok k q (Co_release i bs) \<longleftrightarrow> i = slot_of k (sq_readIdx q) \<and> sq_seq q i = sq_readIdx q + 1 \<and> bs = slot_msg q i"
| "cons_ok k q _ \<longleftrightarrow> True"

definition threads_ok :: "nat \<Rightarrow> u32 \<Rightarrow> SpscRun \<Rightarrow> bool" where
  "threads_ok k mx s \<longleftrightarrow> spsc_inv k mx (view s) \<and> prod_ok k mx (c_queue s) (c_prod s 0) \<and> cons_ok k (c_queue s) (c_cons s) \<and>
     c_accepted s = c_delivered s @ spsc_items k (view s) \<and> (\<forall>m \<in> set (c_todo s 0). 0 < length m \<and> length m \<le> unat mx)"

lemma threads_ok_new: "k < 64 \<Longrightarrow> \<forall>m \<in> set (todo 0). 0 < length m \<and> length m \<le> unat mx \<Longrightarrow> threads_ok k mx (spsc_run_new todo)"
  using spsc_new_inv [of k mx] by (simp add: threads_ok_def spsc_run_new_def view_def spsc_new_def)

text \<open>The slot of the writer and the slot of the reader differ whenever both are at work.\<close>

lemma slot_of_Suc_neq:
  assumes "0 < k" "k < 64"
  shows "slot_of k (r + 1) \<noteq> slot_of k r"
proof -
  have "(2 :: nat) \<le> 2 ^ k" using assms(1) by (cases k) simp_all
  then show ?thesis
    using mod_add_neq [of 0 1 "2 ^ k" "unat r"] unat_add_mod [OF assms(2), of r 1] assms(2) by (simp add: slot_of_mod)
qed

lemma slots_apart:
  assumes "0 < k" "k < 64" "sq (slot_of k w) = w" "sq (slot_of k r) = r + (1 :: u64)"
  shows "slot_of k w \<noteq> slot_of k r"
  using assms slot_of_Suc_neq by metis

lemma free_slot_items:
  assumes inv: "spsc_inv k mx v" and k: "0 < k" "k < 64" and free: "sq_seq v (slot_of k (sq_writeIdx v)) = sq_writeIdx v"
    and eq: "\<And>i. i \<noteq> slot_of k (sq_writeIdx v) \<Longrightarrow> slot_msg v' i = slot_msg v i"
    and idx: "sq_writeIdx v' = sq_writeIdx v" "sq_readIdx v' = sq_readIdx v"
  shows "spsc_items k v' = spsc_items k v"
proof -
  define c where "c = spsc_count v"
  have w: "sq_writeIdx v = sq_readIdx v + of_nat c" using spsc_writeIdx c_def by simp
  have c: "c < 2 ^ k"
    using seq_write_free [of k "sq_seq v" "sq_readIdx v" c] inv free k w by (simp add: spsc_inv_def c_def)
  have slot: "slot_of k (sq_writeIdx v) = (unat (sq_readIdx v) + c) mod 2 ^ k"
    using slot_of_add [OF k(2), of c "sq_readIdx v"] c w by simp
  have "ring (2 ^ k) (slot_msg v') (unat (sq_readIdx v)) c = ring (2 ^ k) (slot_msg v) (unat (sq_readIdx v)) c"
    using mod_add_neq [OF _ c] slot by (intro ring_cong eq) auto
  then show ?thesis using idx by (simp add: spsc_items_def spsc_count_def c_def)
qed


lemma free_slot_inv:
  assumes inv: "spsc_inv k mx v" and k: "0 < k" "k < 64" and free: "sq_seq v (slot_of k (sq_writeIdx v)) = sq_writeIdx v"
    and eq: "\<And>i. i \<noteq> slot_of k (sq_writeIdx v) \<Longrightarrow> slot_msg v' i = slot_msg v i"
    and idx: "sq_writeIdx v' = sq_writeIdx v" "sq_readIdx v' = sq_readIdx v" "sq_seq v' = sq_seq v"
    and bytes: "\<And>i. length (sq_bytes v' i) = MAX_DATA_SIZE" and sizes: "\<And>i. sq_size v' i = of_nat (length (slot_msg v' i))"
  shows "spsc_inv k mx v'" and "spsc_items k v' = spsc_items k v"
proof -
  show "spsc_items k v' = spsc_items k v" by (rule free_slot_items [OF inv k free eq idx(1,2)])
  then show "spsc_inv k mx v'" using inv idx bytes sizes by (simp add: spsc_inv_def spsc_count_def)
qed

lemma unat_msg_length: "length m \<le> MAX_DATA_SIZE \<Longrightarrow> unat (of_nat (length m) :: u32) = length m"
  by (simp add: MAX_DATA_SIZE_def unat_of_nat)

lemma view_simps [simp]:
  "sq_bytes (view s) = sq_bytes (c_queue s)" "sq_size (view s) = sq_size (c_queue s)" "sq_seq (view s) = sq_seq (c_queue s)"
  "slot_msg (view s) = slot_msg (c_queue s)"
  by (simp_all add: view_def Let_def slot_msg_def fun_eq_iff)

lemma view_slots:
  assumes "spsc_inv k mx (view s)"
  shows "length (sq_bytes (c_queue s) j) = MAX_DATA_SIZE" and "unat (sq_size (c_queue s) j) \<le> MAX_DATA_SIZE"
proof -
  show b: "length (sq_bytes (c_queue s) j) = MAX_DATA_SIZE" using assms by (simp add: spsc_inv_def)
  have "sq_size (c_queue s) j = of_nat (length (slot_msg (c_queue s) j))" using assms unfolding spsc_inv_def by simp
  moreover have "length (slot_msg (c_queue s) j) \<le> MAX_DATA_SIZE" using b by (simp add: slot_msg_def)
  ultimately show "unat (sq_size (c_queue s) j) \<le> MAX_DATA_SIZE"
    using unat_msg_length [of "slot_msg (c_queue s) j"] by metis
qed

lemmas pcs_simps = write_step_def prod_goto_def Let_def

lemma take_length_append_drop: "take (length m) b = m \<Longrightarrow> m @ drop (length m) b = b"
  by (metis append_take_drop_id)

text \<open>Copying the message and storing its size touch a slot nobody reads.\<close>

lemma write_copy_ok:
  assumes ok: "threads_ok k mx s" and k: "0 < k" "k < 64" and pc: "c_prod s 0 = Pr_copy m i" and st: "write_step k 0 s = Some s'"
  shows "threads_ok k mx s'"
proof -
  let ?q = "c_queue s"
  have s': "s' = s\<lparr>c_queue := ?q\<lparr>sq_bytes := (sq_bytes ?q)(i := m @ drop (length m) (sq_bytes ?q i))\<rparr>,
      c_prod := (c_prod s)(0 := Pr_size m i)\<rparr>" using st pc by (simp add: pcs_simps)
  have p: "spsc_msg_ok mx m" "i = slot_of k (sq_writeIdx ?q)" "sq_seq ?q i = sq_writeIdx ?q"
    and c: "cons_ok k ?q (c_cons s)" and inv: "spsc_inv k mx (view s)" using ok pc by (auto simp: threads_ok_def)
  have len: "length m \<le> MAX_DATA_SIZE" using p(1) by (simp add: spsc_msg_ok_def)
  note slots = view_slots [OF inv]
  have free: "sq_seq (view s) (slot_of k (sq_writeIdx (view s))) = sq_writeIdx (view s)"
    using p pc by (simp add: view_def Let_def)
  have new: "spsc_inv k mx (view s')" "spsc_items k (view s') = spsc_items k (view s)"
    using p pc slots len
    by (intro free_slot_inv [OF inv k free]; auto simp: s' view_def Let_def slot_msg_def)+
  have "cons_ok k (c_queue s') (c_cons s)"
    using c slots_apart [OF k, of "sq_seq ?q" "sq_writeIdx ?q" "sq_readIdx ?q"] p(2,3) by (cases "c_cons s") (auto simp: s' slot_msg_def)
  then show ?thesis using ok new p by (simp add: threads_ok_def s')
qed

lemma write_size_ok:
  assumes ok: "threads_ok k mx s" and k: "0 < k" "k < 64" and pc: "c_prod s 0 = Pr_size m i" and st: "write_step k 0 s = Some s'"
  shows "threads_ok k mx s'"
proof -
  let ?q = "c_queue s"
  have s': "s' = s\<lparr>c_queue := ?q\<lparr>sq_size := (sq_size ?q)(i := of_nat (length m))\<rparr>,
      c_prod := (c_prod s)(0 := Pr_publish m i)\<rparr>" using st pc by (simp add: pcs_simps)
  have p: "spsc_msg_ok mx m" "i = slot_of k (sq_writeIdx ?q)" "sq_seq ?q i = sq_writeIdx ?q" "take (length m) (sq_bytes ?q i) = m"
    and c: "cons_ok k ?q (c_cons s)" and inv: "spsc_inv k mx (view s)" using ok pc by (auto simp: threads_ok_def)
  have len: "length m \<le> MAX_DATA_SIZE" using p(1) by (simp add: spsc_msg_ok_def)
  note slots = view_slots [OF inv]
  have free: "sq_seq (view s) (slot_of k (sq_writeIdx (view s))) = sq_writeIdx (view s)"
    using p pc by (simp add: view_def Let_def)
  have new: "spsc_inv k mx (view s')" "spsc_items k (view s') = spsc_items k (view s)"
    using p pc slots len unat_msg_length [OF len]
    by (intro free_slot_inv [OF inv k free]; auto simp: s' view_def Let_def slot_msg_def)+
  have "cons_ok k (c_queue s') (c_cons s)"
    using c slots_apart [OF k, of "sq_seq ?q" "sq_writeIdx ?q" "sq_readIdx ?q"] p(2,3) by (cases "c_cons s") (auto simp: s' slot_msg_def)
  then show ?thesis using ok new p by (simp add: threads_ok_def s')
qed


text \<open>The store of the sequence number is the write.\<close>

lemma write_publish_ok:
  assumes ok: "threads_ok k mx s" and k: "0 < k" "k < 64" and pc: "c_prod s 0 = Pr_publish m i" and st: "write_step k 0 s = Some s'"
  shows "threads_ok k mx s'"
proof -
  let ?q = "c_queue s"
  have s': "s' = s\<lparr>c_queue := ?q\<lparr>sq_seq := (sq_seq ?q)(i := sq_writeIdx ?q + 1)\<rparr>, c_accepted := c_accepted s @ [m],
      c_prod := (c_prod s)(0 := Pr_inc)\<rparr>" using st pc by (simp add: pcs_simps)
  have p: "spsc_msg_ok mx m" "i = slot_of k (sq_writeIdx ?q)" "sq_seq ?q i = sq_writeIdx ?q" "take (length m) (sq_bytes ?q i) = m"
    "sq_size ?q i = of_nat (length m)"
    and c: "cons_ok k ?q (c_cons s)" and inv: "spsc_inv k mx (view s)" using ok pc by (auto simp: threads_ok_def)
  have len: "\<not> length m > MAX_DATA_SIZE" using p(1) by (simp add: spsc_msg_ok_def)
  have w: "sq_writeIdx (view s) = sq_writeIdx ?q" using pc by (simp add: view_def Let_def)
  have same: "(sq_bytes ?q)(i := m @ drop (length m) (sq_bytes ?q i)) = sq_bytes ?q" "(sq_size ?q)(i := of_nat (length m)) = sq_size ?q"
    using take_length_append_drop [OF p(4)] p(5) by (simp_all add: fun_upd_idem)
  have "view s' = (view s)\<lparr>sq_seq := (sq_seq ?q)(i := sq_writeIdx ?q + 1), sq_writeIdx := sq_writeIdx ?q + 1\<rparr>"
    by (simp add: s' view_def Let_def)
  then have wr: "spsc_write k m (view s) = (True, view s')"
    using len p(2,3) same by (simp add: spsc_write_def Let_def w)
  note law = spsc_write_law [OF inv k p(1) wr]
  have "cons_ok k (c_queue s') (c_cons s)"
    using c slots_apart [OF k, of "sq_seq ?q" "sq_writeIdx ?q" "sq_readIdx ?q"] p(2,3) by (cases "c_cons s") (auto simp: s' slot_msg_def)
  then show ?thesis using ok law by (simp add: threads_ok_def s')
qed

lemma write_step_ok:
  assumes ok: "threads_ok k mx s" and k: "0 < k" "k < 64" and st: "write_step k 0 s = Some s'"
  shows "threads_ok k mx s'"
proof (cases "c_prod s 0")
  case Pr_idle
  then obtain m ms where todo: "c_todo s 0 = m # ms" and
    s': "s' = prod_goto 0 (if length m > MAX_DATA_SIZE then Pr_idle else Pr_check m (slot_of k (sq_writeIdx (c_queue s))))
      (s\<lparr>c_todo := (c_todo s)(0 := ms)\<rparr>)"
    using st by (auto simp: write_step_def Let_def split: list.splits)
  have "view s' = view s" using Pr_idle by (simp add: s' prod_goto_def view_def Let_def)
  then show ?thesis using ok todo by (auto simp: threads_ok_def s' prod_goto_def spsc_msg_ok_def)
next
  case (Pr_check m i)
  then have s': "s' = prod_goto 0 (if sq_seq (c_queue s) i \<noteq> sq_writeIdx (c_queue s) then Pr_idle else Pr_copy m i) s"
    using st by (simp add: write_step_def Let_def)
  have "view s' = view s" using Pr_check by (simp add: s' prod_goto_def view_def Let_def)
  then show ?thesis using ok Pr_check by (auto simp: threads_ok_def s' prod_goto_def)
next
  case Pr_inc
  then have s': "s' = prod_goto 0 Pr_idle (s\<lparr>c_queue := (c_queue s)\<lparr>sq_writeIdx := sq_writeIdx (c_queue s) + 1\<rparr>\<rparr>)"
    using st by (simp add: write_step_def Let_def)
  have "view s' = view s" using Pr_inc by (simp add: s' prod_goto_def view_def Let_def)
  moreover have "cons_ok k (c_queue s') (c_cons s)" using ok
    by (cases "c_cons s") (auto simp: threads_ok_def s' prod_goto_def slot_msg_def)
  ultimately show ?thesis using ok by (simp add: threads_ok_def s' prod_goto_def)
qed (use write_copy_ok [OF ok k _ st] write_size_ok [OF ok k _ st] write_publish_ok [OF ok k _ st] in blast)+

text \<open>The other store of a sequence number is the read.\<close>

lemma read_release_ok:
  assumes ok: "threads_ok k mx s" and k: "0 < k" "k < 64" and pc: "c_cons s = Co_release i bs"
  shows "threads_ok k mx (read_step k mx s)"
proof -
  let ?q = "c_queue s" and ?s = "read_step k mx s"
  have s': "?s = s\<lparr>c_queue := ?q\<lparr>sq_seq := (sq_seq ?q)(i := sq_readIdx ?q + push_bit k 1)\<rparr>,
      c_delivered := c_delivered s @ [bs], c_cons := Co_inc i bs\<rparr>"
    using pc by (simp add: read_step_def Let_def)
  have c: "i = slot_of k (sq_readIdx ?q)" "sq_seq ?q i = sq_readIdx ?q + 1" "bs = slot_msg ?q i"
    and p: "prod_ok k mx ?q (c_prod s 0)" and inv: "spsc_inv k mx (view s)" using ok pc by (auto simp: threads_ok_def)
  have r: "sq_readIdx (view s) = sq_readIdx ?q" using pc by (simp add: view_def Let_def)
  obtain x v where rd: "spsc_read_msg k mx (view s) = (x, v)" by fastforce
  note law = spsc_read_law [OF inv k(2) rd]
  have items: "spsc_items k (view s) \<noteq> []"
  proof -
    have "0 < spsc_count (view s)"
      using seq_read_ready [of k "sq_seq (view s)" "sq_readIdx (view s)"] inv k(2) c(1,2) r by (simp add: spsc_inv_def)
    then show ?thesis using length_spsc_items [of k "view s"] by auto
  qed
  then have x: "x = Some (hd (spsc_items k (view s)))" using law by (auto split: list.splits)
  then have "fst (spsc_read k mx (view s)) \<noteq> 0" "x = Some (fst (snd (spsc_read k mx (view s))))" "v = snd (snd (spsc_read k mx (view s)))"
    using rd by (auto simp: spsc_read_msg_def split: prod.splits if_splits)
  then have "hd (spsc_items k (view s)) = bs" and "v = view ?s"
    using x c r by (auto simp: spsc_read_def Let_def s' view_def slot_msg_def split: if_splits)
  then have "spsc_items k (view s) = bs # spsc_items k (view ?s)" "spsc_inv k mx (view ?s)"
    using law items by (metis list.collapse)+
  moreover have "prod_ok k mx (c_queue ?s) (c_prod s 0)"
  proof (cases "c_prod s 0")
    case (Pr_copy m j)
    then show ?thesis using p slots_apart [OF k, of "sq_seq ?q" "sq_writeIdx ?q" "sq_readIdx ?q"] c(1,2) by (auto simp: s')
  next
    case (Pr_size m j)
    then show ?thesis using p slots_apart [OF k, of "sq_seq ?q" "sq_writeIdx ?q" "sq_readIdx ?q"] c(1,2) by (auto simp: s')
  next
    case (Pr_publish m j)
    then show ?thesis using p slots_apart [OF k, of "sq_seq ?q" "sq_writeIdx ?q" "sq_readIdx ?q"] c(1,2) by (auto simp: s')
  qed (use p in \<open>simp_all add: s'\<close>)
  ultimately show ?thesis using ok by (simp add: threads_ok_def s')
qed


lemma read_step_ok:
  assumes ok: "threads_ok k mx s" and k: "0 < k" "k < 64"
  shows "threads_ok k mx (read_step k mx s)"
proof (cases "c_cons s")
  case (Co_release i bs)
  then show ?thesis by (rule read_release_ok [OF ok k])
next
  case (Co_inc i bs)
  have s': "read_step k mx s =
      s\<lparr>c_queue := (c_queue s)\<lparr>sq_readIdx := sq_readIdx (c_queue s) + 1\<rparr>, c_cons := Co_return i bs\<rparr>"
    using Co_inc by (simp add: read_step_def Let_def)
  have "view (read_step k mx s) = view s" using Co_inc by (simp add: s' view_def Let_def)
  moreover have "prod_ok k mx (c_queue (read_step k mx s)) (c_prod s 0)" using ok
    by (cases "c_prod s 0") (auto simp: threads_ok_def s')
  ultimately show ?thesis using ok by (simp add: threads_ok_def s')
qed (use ok in \<open>auto simp: threads_ok_def read_step_def view_def Let_def slot_msg_def\<close>)

lemma spsc_run_ok:
  assumes "(spsc_step k mx {0})\<^sup>*\<^sup>* (spsc_run_new todo) s" and "0 < k" "k < 64"
    and "\<forall>m \<in> set (todo 0). 0 < length m \<and> length m \<le> unat mx"
  shows "threads_ok k mx s"
  using assms(1)
proof (induction rule: rtranclp_induct)
  case base
  show ?case using assms(3,4) by (rule threads_ok_new)
next
  case (step s s')
  from step(2) show ?case
    by cases (use write_step_ok [OF step.IH assms(2,3)] read_step_ok [OF step.IH assms(2,3)] in auto)
qed

text \<open>The messages in the hands of the two threads.\<close>

fun prod_hand :: "prod_pc \<Rightarrow> u8 list list" where
  "prod_hand (Pr_check m i) = [m]"
| "prod_hand (Pr_copy m i) = [m]"
| "prod_hand (Pr_size m i) = [m]"
| "prod_hand (Pr_publish m i) = [m]"
| "prod_hand _ = []"

fun cons_hand :: "cons_pc \<Rightarrow> u8 list list" where
  "cons_hand (Co_inc i bs) = [bs]"
| "cons_hand (Co_return i bs) = [bs]"
| "cons_hand _ = []"

definition hands_ok :: "u8 list list \<Rightarrow> SpscRun \<Rightarrow> bool" where
  "hands_ok ms s \<longleftrightarrow> subseq (c_accepted s @ prod_hand (c_prod s 0) @ c_todo s 0) ms \<and>
     c_delivered s = map snd (c_returned s) @ cons_hand (c_cons s)"

lemma subseq_skip: "subseq (xs @ m # ys) zs \<Longrightarrow> subseq (xs @ ys) zs"
  by (erule subseq_order.order_trans [rotated]) (simp add: subseq_append' list_emb_Cons)

lemma hands_write: "hands_ok ms s \<Longrightarrow> write_step k 0 s = Some s' \<Longrightarrow> hands_ok ms s'"
  by (cases "c_prod s 0")
    (auto simp: hands_ok_def pcs_simps dest: subseq_skip split: list.splits if_splits)

lemma hands_read: "hands_ok ms s \<Longrightarrow> hands_ok ms (read_step k mx s)"
  by (cases "c_cons s") (auto simp: hands_ok_def read_step_def Let_def)

lemma hands_run:
  assumes "(spsc_step k mx {0})\<^sup>*\<^sup>* (spsc_run_new todo) s"
  shows "hands_ok (todo 0) s"
  using assms
proof (induction rule: rtranclp_induct)
  case base
  show ?case by (simp add: hands_ok_def spsc_run_new_def)
next
  case (step s s')
  from step(2) show ?case by cases (use hands_write [OF step.IH] hands_read [OF step.IH] in auto)
qed

text \<open>C16. One producer and one consumer, interleaved at every access: for messages that are not empty and fit the reader's
  buffer, what \<^verbatim>\<open>write\<close> has accepted is a subsequence of what was posted, and at every moment it is what
  the reader was handed followed by at most \<open>2 ^ k\<close> stored messages, in order and byte for byte; what \<^verbatim>\<open>read\<close>
  has returned is a prefix of it. Nothing is lost, duplicated or torn.\<close>

theorem spsc_threads_fifo:
  assumes "(spsc_step k mx {0})\<^sup>*\<^sup>* (spsc_run_new todo) s" and "0 < k" "k < 64"
    and "\<forall>m \<in> set (todo 0). 0 < length m \<and> length m \<le> unat mx"
  shows "subseq (c_accepted s) (todo 0) \<and> length (c_accepted s) \<le> length (c_delivered s) + 2 ^ k \<and>
    c_accepted s = c_delivered s @ spsc_items k (view s) \<and> prefix (map snd (c_returned s)) (c_accepted s)"
proof -
  have ok: "threads_ok k mx s" using assms by (rule spsc_run_ok)
  have hands: "hands_ok (todo 0) s" by (rule hands_run [OF assms(1)])
  have "length (spsc_items k (view s)) \<le> 2 ^ k"
    using ok unfolding threads_ok_def by (simp add: spsc_inv_def seq_ok_def length_spsc_items)
  moreover have acc: "c_accepted s = c_delivered s @ spsc_items k (view s)" using ok by (simp add: threads_ok_def)
  moreover have "subseq (c_accepted s) (todo 0)"
  proof -
    have "prefix (c_accepted s) (c_accepted s @ prod_hand (c_prod s 0) @ c_todo s 0)" by simp
    then show ?thesis using hands subseq_order.order_trans [OF prefix_imp_subseq] unfolding hands_ok_def by blast
  qed
  moreover have "prefix (map snd (c_returned s)) (c_accepted s)" using hands acc by (simp add: hands_ok_def)
  ultimately show ?thesis by simp
qed


theorem spsc_threads_fifo_witness:
  "\<exists>s. (spsc_step 16 8 {0})\<^sup>*\<^sup>* (spsc_run_new (\<lambda>_. [[1, 2, 3]])) s \<and> c_prod s 0 = Pr_check [1, 2, 3] 0 \<and>
     c_accepted s = c_delivered s @ spsc_items 16 (view s)"
proof -
  let ?s = "the (write_step 16 0 (spsc_run_new (\<lambda>_. [[1, 2, 3]])))"
  have "spsc_step 16 8 {0} (spsc_run_new (\<lambda>_. [[1, 2, 3]])) ?s"
    by (rule spsc_step.produce [of 0]) (simp_all add: pcs_simps spsc_run_new_def)
  then have run: "(spsc_step 16 8 {0})\<^sup>*\<^sup>* (spsc_run_new (\<lambda>_. [[1, 2, 3]])) ?s" by blast
  have "c_accepted ?s = c_delivered ?s @ spsc_items 16 (view ?s)" using spsc_threads_fifo [OF run] by simp
  moreover have "c_prod ?s 0 = Pr_check [1, 2, 3] 0"
    by (simp add: pcs_simps spsc_run_new_def spsc_new_def MAX_DATA_SIZE_def slot_of_def)
  ultimately show ?thesis using run by blast
qed

section \<open>Two producers\<close>

fun prod_steps :: "nat \<Rightarrow> nat \<Rightarrow> nat \<Rightarrow> SpscRun \<Rightarrow> SpscRun" where
  "prod_steps k p 0 s = s"
| "prod_steps k p (Suc n) s = (case write_step k p s of None \<Rightarrow> s | Some s' \<Rightarrow> prod_steps k p n s')"

lemma prod_steps_run: "p \<in> P \<Longrightarrow> (spsc_step k mx P)\<^sup>*\<^sup>* s (prod_steps k p n s)"
proof (induction n arbitrary: s)
  case (Suc n)
  show ?case
  proof (cases "write_step k p s")
    case (Some s')
    then show ?thesis using Suc.IH [OF Suc.prems, of s'] Suc.prems
      by (auto intro: converse_rtranclp_into_rtranclp spsc_step.produce)
  qed simp
qed simp

text \<open>The reader waits for a sequence number that no write stores any more.\<close>

definition stuck :: "nat \<Rightarrow> SpscRun \<Rightarrow> bool" where
  "stuck k s \<longleftrightarrow> sq_seq (c_queue s) 0 = 2 \<and> sq_readIdx (c_queue s) = 0 \<and> c_cons s \<in> {Co_idle, Co_check 0} \<and> c_delivered s = [] \<and>
     (case c_prod s 0 of
        Pr_check m i \<Rightarrow> i = slot_of k (sq_writeIdx (c_queue s))
      | Pr_copy m i \<Rightarrow> i \<noteq> 0 | Pr_size m i \<Rightarrow> i \<noteq> 0 | Pr_publish m i \<Rightarrow> i \<noteq> 0 | _ \<Rightarrow> True)"

lemma stuck_step:
  assumes "stuck 16 s" and "spsc_step 16 mx {0} s s'"
  shows "stuck 16 s'"
  using assms(2)
proof cases
  case (produce p)
  have "slot_of 16 2 \<noteq> 0" by (simp add: slot_of_def)
  then have "0 < slot_of 16 (sq_writeIdx (c_queue s))"
    if "sq_seq (c_queue s) (slot_of 16 (sq_writeIdx (c_queue s))) = sq_writeIdx (c_queue s)"
    using that assms(1) by (metis gr0I stuck_def)
  with produce show ?thesis using assms(1)
    by (cases "c_prod s 0") (auto simp: stuck_def pcs_simps split: list.splits if_splits)
next
  case consume
  have "slot_of 16 0 = 0" by (simp add: slot_of_def)
  then have "s' = s\<lparr>c_cons := Co_check 0\<rparr> \<or> s' = s\<lparr>c_cons := Co_idle\<rparr>"
    using assms(1) consume by (auto simp: stuck_def read_step_def Let_def)
  then show ?thesis using assms(1) by (auto simp: stuck_def split: prod_pc.splits)
qed

lemma stuck_run: "(spsc_step 16 mx {0})\<^sup>*\<^sup>* s s' \<Longrightarrow> stuck 16 s \<Longrightarrow> stuck 16 s'"
  by (induction rule: rtranclp_induct) (auto intro: stuck_step)

text \<open>C17. Two producers break the ring of the runners, the way the matching workers share the queue of the gateway when more than
  one application core is configured: both statuses are accepted into the same slot, the slot ends with
  the sequence number of neither, and the gateway never receives another status, whatever a worker
  posts from then on.\<close>

theorem two_producers_block_ring:
  assumes "todo 0 = a # rest" and "todo 1 = [b]" and "length a \<le> MAX_DATA_SIZE" and "length b \<le> MAX_DATA_SIZE"
  shows "\<exists>s. (spsc_step 16 mx {0, 1})\<^sup>*\<^sup>* (spsc_run_new todo) s \<and> c_accepted s = [a, b] \<and> c_prod s 0 = Pr_idle \<and> c_prod s 1 = Pr_idle \<and>
    c_todo s 0 = rest \<and> (\<forall>s'. (spsc_step 16 mx {0})\<^sup>*\<^sup>* s s' \<longrightarrow> c_delivered s' = [])"
proof -
  let ?s0 = "spsc_run_new todo"
  define s1 where "s1 = prod_steps 16 0 2 ?s0"
  define s2 where "s2 = prod_steps 16 1 2 s1"
  define s3 where "s3 = prod_steps 16 0 4 s2"
  define s4 where "s4 = prod_steps 16 1 4 s3"
  have run: "(spsc_step 16 mx {0, 1})\<^sup>*\<^sup>* ?s0 s4"
    unfolding s4_def s3_def s2_def s1_def by (intro rtranclp_trans [OF _ prod_steps_run]) auto
  have s2: "s2 = ?s0\<lparr>c_todo := todo(0 := rest, 1 := []), c_prod := (\<lambda>_. Pr_idle)(0 := Pr_copy a 0, 1 := Pr_copy b 0)\<rparr>"
    unfolding s2_def s1_def using assms
    by (simp add: numeral_eq_Suc pcs_simps spsc_run_new_def spsc_new_def slot_of_def)
  have s4: "sq_seq (c_queue s4) 0 = 2" "sq_readIdx (c_queue s4) = 0" "c_cons s4 = Co_idle" "c_delivered s4 = []"
    "c_accepted s4 = [a, b]" "c_prod s4 0 = Pr_idle" "c_prod s4 1 = Pr_idle" "c_todo s4 0 = rest"
    unfolding s4_def s3_def s2
    by (simp_all add: numeral_eq_Suc pcs_simps spsc_run_new_def spsc_new_def)
  then have "stuck 16 s4" by (simp add: stuck_def)
  then have "\<forall>s'. (spsc_step 16 mx {0})\<^sup>*\<^sup>* s4 s' \<longrightarrow> c_delivered s' = []" using stuck_run by (fastforce simp: stuck_def)
  then show ?thesis using run s4 by blast
qed


theorem two_producers_block_ring_witness:
  "\<exists>s. (spsc_step 16 20 {0, 1})\<^sup>*\<^sup>* (spsc_run_new (\<lambda>p. if p = 0 then [[1], [3]] else [[2]])) s \<and> c_accepted s = [[1], [2]] \<and>
     c_delivered s = [] \<and> c_todo s 0 = [[3]]"
proof -
  obtain s where s: "(spsc_step 16 20 {0, 1})\<^sup>*\<^sup>* (spsc_run_new (\<lambda>p. if p = 0 then [[1], [3]] else [[2]])) s"
    "c_accepted s = [[1], [2]]" "c_todo s 0 = [[3]]"
    "\<forall>s'. (spsc_step 16 20 {0})\<^sup>*\<^sup>* s s' \<longrightarrow> c_delivered s' = []"
    using two_producers_block_ring [of "\<lambda>p. if p = 0 then [[1], [3]] else [[2]]" "[1]" "[[3]]" "[2]" 20]
    by (auto simp: MAX_DATA_SIZE_def)
  then show ?thesis by blast
qed

end
