(* ===== verification/Server_Shutdown.thy ===== *)
theory Server_Shutdown
  imports Lfq_Runner
begin

text \<open>
  The end of the server: \<^verbatim>\<open>ControlCenter::stop\<close> (\<^verbatim>\<open>server/src/control_center.hpp\<close>) requests the stop of every thread at once, then
  stops the transport, the workers of the coordinator one after the other (\<^verbatim>\<open>coordinator.hpp\<close>), the gateway
  (\<^verbatim>\<open>order_gateway.hpp\<close>), the sessions and the bus. The worker threads and the gateway thread are the runners of
  \<open>Lfq_Runner\<close>, each with whatever its producer still posts, and go on while the control center stops them.
\<close>

section \<open>Stopping one runner\<close>

text \<open>After the request a runner has a bounded amount of work.\<close>

fun loop_left :: "'m loop_pc \<Rightarrow> nat" where
  "loop_left L_exit = 0"
| "loop_left L_top = 1"
| "loop_left L_awake = 2"
| "loop_left (L_blocked v) = 3"
| "loop_left (L_wait v) = 4"
| "loop_left (L_post m) = 2"
| "loop_left (L_clear m) = 3"
| "loop_left (L_stop v) = 5"
| "loop_left (L_recheck v) = 6"
| "loop_left (L_sleep v) = 7"
| "loop_left L_load = 8"
| "loop_left L_spin = 9"
| "loop_left L_next = 2"
| "loop_left (L_consume m) = 3"
| "loop_left L_read = 10"

fun post_left :: "'m post_pc \<Rightarrow> SpinWait \<Rightarrow> nat" where
  "post_left P_idle w = 0"
| "post_left (P_enter m) w = 1"
| "post_left (P_write m) w = 4 + spin_budget w"
| "post_left P_check w = 3"
| "post_left P_bump w = 2"
| "post_left P_wake w = 1"

fun stop_left :: "stop_pc \<Rightarrow> nat" where
  "stop_left S_idle = 5"
| "stop_left S_enter = 4"
| "stop_left S_bump = 3"
| "stop_left S_wake = 2"
| "stop_left S_join = 1"
| "stop_left S_done = 0"

definition runner_left :: "'m LfqRunner \<Rightarrow> nat" where
  "runner_left r = loop_left (r_loop r) + 2 * length (r_todo r) + post_left (r_poster r) (r_postWaiter r) + stop_left (r_stopper r)"

text \<open>The steps of a runner's own threads and of its producer.\<close>

definition runner_step :: "'m LfqRunner \<Rightarrow> 'm LfqRunner \<Rightarrow> bool" where
  "runner_step r r' \<longleftrightarrow> lfqLoop_step r = Some r' \<or> lfq_post_step r = Some r' \<or> (\<exists>v. r_loop r = L_blocked v \<and> r' = r\<lparr>r_loop := L_awake\<rparr>)"

definition runner_inv :: "'m LfqRunner \<Rightarrow> bool" where
  "runner_inv r \<longleftrightarrow> wake_inv r \<and> (r_stopper r = S_done \<longrightarrow> r_loop r = L_exit)"

lemma futex_wake_left: "loop_left (r_loop (futex_wake r)) \<le> loop_left (r_loop r)"
  by (simp add: futex_wake_def split: loop_pc.splits)

lemma worker_left:
  assumes "lfqLoop_step r = Some r'" and "r_stopRequested r"
  shows "runner_left r' < runner_left r"
  using assms
  by (cases "r_loop r")
    (auto simp: runner_left_def lfqLoop_step_def queue_read_def consumer_post_def split: list.splits prod.splits if_splits)

lemma poster_left:
  assumes "lfq_post_step r = Some r'" and "r_stopRequested r"
  shows "runner_left r' < runner_left r"
proof (cases "r_poster r")
  case (P_write m)
  show ?thesis
  proof (cases "length (r_queue r) < LFQ_CAPACITY")
    case False
    obtain b w where i: "sw_inc (r_postWaiter r) = (b, w)" by (cases "sw_inc (r_postWaiter r)")
    have "b \<Longrightarrow> spin_budget (r_postWaiter r) = Suc (spin_budget w)" using sw_inc_budget [of "r_postWaiter r"] i by simp
    then show ?thesis using assms P_write False i
      by (auto simp: runner_left_def lfq_post_step_def queue_write_def split: if_splits)
  qed (use assms P_write in \<open>auto simp: runner_left_def lfq_post_step_def queue_write_def\<close>)
next
  case P_wake
  then show ?thesis using assms futex_wake_left [of r] futex_wake_cases [of r]
    by (auto simp: runner_left_def lfq_post_step_def)
qed (use assms in \<open>auto simp: runner_left_def lfq_post_step_def split: list.splits if_splits\<close>)

lemma stopper_left:
  assumes "lfq_stop_step r = Some r'"
  shows "runner_left r' < runner_left r"
  using assms futex_wake_left [of r] futex_wake_cases [of r]
  by (cases "r_stopper r") (auto simp: runner_left_def lfq_stop_step_def split: if_splits)

lemma runner_step_left: "runner_step r r' \<Longrightarrow> r_stopRequested r \<Longrightarrow> runner_left r' < runner_left r"
  by (auto simp: runner_step_def worker_left poster_left) (simp add: runner_left_def)

lemma runner_step_inv:
  assumes "runner_step r r'" and "runner_inv r"
  shows "runner_inv r' \<and> r_stopRequested r' = r_stopRequested r \<and> r_stopper r' = r_stopper r"
proof -
  from assms(1) consider "lfqLoop_step r = Some r'" | "lfq_post_step r = Some r'"
    | v where "r_loop r = L_blocked v" "r' = r\<lparr>r_loop := L_awake\<rparr>"
    unfolding runner_step_def by blast
  then show ?thesis
  proof cases
    case 1
    have "r_loop r = L_exit \<Longrightarrow> False" using 1 by (simp add: lfqLoop_step_def)
    then show ?thesis using assms(2) wake_inv_worker [OF _ 1] worker_frame [OF 1] by (auto simp: runner_inv_def)
  next
    case 2
    have "r_stopRequested r' = r_stopRequested r" "r_stopper r' = r_stopper r" "r_loop r = L_exit \<Longrightarrow> r_loop r' = L_exit"
      using 2 by (auto simp: lfq_post_step_def queue_write_def futex_wake_def
          split: post_pc.splits list.splits if_splits prod.splits loop_pc.splits)
    then show ?thesis using assms(2) wake_inv_poster [OF _ 2] by (auto simp: runner_inv_def)
  next
    case 3
    then show ?thesis using assms(2) by (auto simp: runner_inv_def wake_inv_def bumps_left_def)
  qed
qed

lemma stopper_inv:
  assumes "lfq_stop_step r = Some r'" and "runner_inv r"
  shows "runner_inv r'" and "r_stopRequested r'"
proof -
  have "r_stopper r' = S_done \<Longrightarrow> r_loop r' = L_exit"
    using assms by (cases "r_stopper r") (auto simp: lfq_stop_step_def runner_inv_def wake_inv_def split: if_splits)
  then show "runner_inv r'" using wake_inv_stopper [OF _ assms(1)] assms(2) by (simp add: runner_inv_def)
  show "r_stopRequested r'" using assms futex_wake_cases [of r]
    by (cases "r_stopper r") (auto simp: lfq_stop_step_def runner_inv_def wake_inv_def split: if_splits)
qed

text \<open>A stop that has to wait for the thread finds it able to move.\<close>

lemma stop_not_stuck:
  assumes "runner_inv r" and "r_stopper r \<noteq> S_done" and "lfq_stop_step r = None"
  shows "\<exists>r'. lfqLoop_step r = Some r'"
proof -
  have j: "r_stopper r = S_join" "r_loop r \<noteq> L_exit"
    using assms(2,3) by (cases "r_stopper r"; auto simp: lfq_stop_step_def split: if_splits)+
  then have "\<And>v. r_loop r \<noteq> L_blocked v" using assms(1) by (auto simp: runner_inv_def wake_inv_def)
  then show ?thesis using j(2)
    by (cases "r_loop r") (auto simp: lfqLoop_step_def queue_read_def split: list.splits prod.splits)
qed


section \<open>Stopping the server\<close>

text \<open>The runners are the workers in the order of the coordinator, then the gateway. The calls to the transport, the
  sessions and the bus are recorded.\<close>

datatype shutdown_pc = SD_request | SD_ipc | SD_worker nat | SD_close | SD_gateway | SD_sessions | SD_bus | SD_done

datatype shutdown_call = IpcStop | SessionClose | BusStop

record 'm Shutdown =
  sd_workers :: "'m LfqRunner list"
  sd_gateway :: "'m LfqRunner"
  sd_closed :: bool
  sd_calls :: "shutdown_call list"
  sd_pc :: shutdown_pc

text \<open>\<^verbatim>\<open>request_stop\<close> is seen by every runner: they share the token.\<close>

definition request_stop :: "'m LfqRunner \<Rightarrow> 'm LfqRunner" where
  "request_stop r = r\<lparr>r_stopRequested := True, r_stopper := S_enter\<rparr>"

text \<open>\<^verbatim>\<open>Coordinator::stop\<close> at its worker \<open>i\<close>, and \<^verbatim>\<open>OrderGateway::stop\<close> after it has set \<^verbatim>\<open>closed_\<close>.\<close>

definition coordinator_stop :: "nat \<Rightarrow> 'm Shutdown \<Rightarrow> 'm Shutdown option" where
  "coordinator_stop i s =
     (if i < length (sd_workers s)
      then if r_stopper (sd_workers s ! i) = S_done then Some (s\<lparr>sd_pc := SD_worker (i + 1)\<rparr>)
           else map_option (\<lambda>r. s\<lparr>sd_workers := (sd_workers s)[i := r]\<rparr>) (lfq_stop_step (sd_workers s ! i))
      else Some (s\<lparr>sd_pc := SD_close\<rparr>))"

definition gateway_close :: "'m Shutdown \<Rightarrow> 'm Shutdown" where
  "gateway_close s = s\<lparr>sd_closed := True, sd_pc := SD_gateway\<rparr>"

definition gateway_stop :: "'m Shutdown \<Rightarrow> 'm Shutdown option" where
  "gateway_stop s =
     (if r_stopper (sd_gateway s) = S_done then Some (s\<lparr>sd_pc := SD_sessions\<rparr>)
      else map_option (\<lambda>r. s\<lparr>sd_gateway := r\<rparr>) (lfq_stop_step (sd_gateway s)))"

definition control_step :: "'m Shutdown \<Rightarrow> 'm Shutdown option" where
  "control_step s = (case sd_pc s of
     SD_request \<Rightarrow>
       Some (s\<lparr>sd_workers := map request_stop (sd_workers s), sd_gateway := request_stop (sd_gateway s), sd_pc := SD_ipc\<rparr>)
   | SD_ipc \<Rightarrow> Some (s\<lparr>sd_calls := sd_calls s @ [IpcStop], sd_pc := SD_worker 0\<rparr>)
   | SD_worker i \<Rightarrow> coordinator_stop i s
   | SD_close \<Rightarrow> Some (gateway_close s)
   | SD_gateway \<Rightarrow> gateway_stop s
   | SD_sessions \<Rightarrow> Some (s\<lparr>sd_calls := sd_calls s @ [SessionClose], sd_pc := SD_bus\<rparr>)
   | SD_bus \<Rightarrow> Some (s\<lparr>sd_calls := sd_calls s @ [BusStop], sd_pc := SD_done\<rparr>)
   | SD_done \<Rightarrow> None)"

lemmas control_defs = control_step_def coordinator_stop_def gateway_close_def gateway_stop_def

inductive shutdown_step :: "'m Shutdown \<Rightarrow> 'm Shutdown \<Rightarrow> bool" where
  control: "control_step s = Some s' \<Longrightarrow> shutdown_step s s'"
| worker: "i < length (sd_workers s) \<Longrightarrow> runner_step (sd_workers s ! i) r \<Longrightarrow>
    shutdown_step s (s\<lparr>sd_workers := (sd_workers s)[i := r]\<rparr>)"
| gateway: "runner_step (sd_gateway s) r \<Longrightarrow> shutdown_step s (s\<lparr>sd_gateway := r\<rparr>)"

fun pc_left :: "nat \<Rightarrow> shutdown_pc \<Rightarrow> nat" where
  "pc_left n SD_request = n + 7"
| "pc_left n SD_ipc = n + 6"
| "pc_left n (SD_worker i) = (n - i) + 5"
| "pc_left n SD_close = 4"
| "pc_left n SD_gateway = 3"
| "pc_left n SD_sessions = 2"
| "pc_left n SD_bus = 1"
| "pc_left n SD_done = 0"

definition shutdown_left :: "'m Shutdown \<Rightarrow> nat" where
  "shutdown_left s = (\<Sum>r\<leftarrow>sd_workers s. runner_left r) + runner_left (sd_gateway s) + pc_left (length (sd_workers s)) (sd_pc s)"

text \<open>Workers are stopped in order, each having left its loop, and the gateway after them.\<close>

definition shutdown_inv :: "'m Shutdown \<Rightarrow> bool" where
  "shutdown_inv s \<longleftrightarrow> (\<forall>r \<in> set (sd_workers s). runner_inv r \<and> r_stopRequested r) \<and>
     runner_inv (sd_gateway s) \<and> r_stopRequested (sd_gateway s) \<and>
     (case sd_pc s of
        SD_request \<Rightarrow> False
      | SD_ipc \<Rightarrow> sd_calls s = []
      | SD_worker i \<Rightarrow> (\<forall>j < i. j < length (sd_workers s) \<longrightarrow> r_stopper (sd_workers s ! j) = S_done) \<and> sd_calls s = [IpcStop]
      | pc \<Rightarrow> (\<forall>r \<in> set (sd_workers s). r_stopper r = S_done) \<and>
          (pc \<in> {SD_sessions, SD_bus, SD_done} \<longrightarrow> r_stopper (sd_gateway s) = S_done) \<and>
          (pc \<noteq> SD_close \<longrightarrow> sd_closed s) \<and>
          sd_calls s = IpcStop # (if pc \<in> {SD_bus, SD_done} then [SessionClose] else []) @ (if pc = SD_done then [BusStop] else []))"

lemma sum_list_update_less:
  "i < length rs \<Longrightarrow> f r < f (rs ! i) \<Longrightarrow> (\<Sum>r\<leftarrow>rs[i := r]. f r) < (\<Sum>r\<leftarrow>rs. f r :: nat)"
  by (induction rs arbitrary: i) (auto split: nat.splits)

lemma shutdown_runner:
  assumes inv: "shutdown_inv s" and i: "i < length (sd_workers s)" and st: "runner_step (sd_workers s ! i) r"
  shows "shutdown_inv (s\<lparr>sd_workers := (sd_workers s)[i := r]\<rparr>) \<and>
    shutdown_left (s\<lparr>sd_workers := (sd_workers s)[i := r]\<rparr>) < shutdown_left s"
proof -
  have r0: "runner_inv (sd_workers s ! i)" "r_stopRequested (sd_workers s ! i)"
    using inv i by (auto simp: shutdown_inv_def)
  note r = runner_step_inv [OF st r0(1)]
  have "shutdown_inv (s\<lparr>sd_workers := (sd_workers s)[i := r]\<rparr>)"
    using inv r i r0 unfolding shutdown_inv_def
    by (auto simp: set_update_subset_insert nth_list_update split: shutdown_pc.splits dest!: set_update_subset_insert [THEN subsetD])
  then show ?thesis
    using sum_list_update_less [OF i, of runner_left r] runner_step_left [OF st r0(2)] by (simp add: shutdown_left_def)
qed

lemma shutdown_gateway:
  assumes inv: "shutdown_inv s" and st: "runner_step (sd_gateway s) r"
  shows "shutdown_inv (s\<lparr>sd_gateway := r\<rparr>) \<and> shutdown_left (s\<lparr>sd_gateway := r\<rparr>) < shutdown_left s"
proof -
  have r0: "runner_inv (sd_gateway s)" "r_stopRequested (sd_gateway s)" using inv by (auto simp: shutdown_inv_def)
  note r = runner_step_inv [OF st r0(1)]
  have "shutdown_inv (s\<lparr>sd_gateway := r\<rparr>)"
    using inv r r0 unfolding shutdown_inv_def by (auto split: shutdown_pc.splits)
  then show ?thesis using runner_step_left [OF st r0(2)] by (simp add: shutdown_left_def)
qed


lemma shutdown_worker_stop:
  assumes inv: "shutdown_inv s" and pc: "sd_pc s = SD_worker i" and i: "i < length (sd_workers s)"
    and st: "lfq_stop_step (sd_workers s ! i) = Some r"
  shows "shutdown_inv (s\<lparr>sd_workers := (sd_workers s)[i := r]\<rparr>) \<and>
    shutdown_left (s\<lparr>sd_workers := (sd_workers s)[i := r]\<rparr>) < shutdown_left s"
proof -
  have r0: "runner_inv (sd_workers s ! i)" using inv i by (auto simp: shutdown_inv_def)
  note r = stopper_inv [OF st r0]
  have "shutdown_inv (s\<lparr>sd_workers := (sd_workers s)[i := r]\<rparr>)"
    using inv r i pc unfolding shutdown_inv_def
    by (auto simp: nth_list_update dest!: set_update_subset_insert [THEN subsetD])
  then show ?thesis
    using sum_list_update_less [OF i, of runner_left r] stopper_left [OF st] by (simp add: shutdown_left_def)
qed

lemma shutdown_control:
  assumes inv: "shutdown_inv s" and st: "control_step s = Some s'"
  shows "shutdown_inv s' \<and> shutdown_left s' < shutdown_left s"
proof (cases "sd_pc s")
  case (SD_worker i)
  show ?thesis
  proof (cases "i < length (sd_workers s) \<and> r_stopper (sd_workers s ! i) \<noteq> S_done")
    case True
    then obtain r where "lfq_stop_step (sd_workers s ! i) = Some r" "s' = s\<lparr>sd_workers := (sd_workers s)[i := r]\<rparr>"
      using st SD_worker by (auto simp: control_defs)
    then show ?thesis using shutdown_worker_stop [OF inv SD_worker] True by blast
  next
    case False
    then show ?thesis using inv st SD_worker
      by (auto simp: control_defs shutdown_inv_def shutdown_left_def less_Suc_eq in_set_conv_nth split: if_splits)
  qed
next
  case SD_gateway
  show ?thesis
  proof (cases "r_stopper (sd_gateway s) = S_done")
    case False
    then obtain r where r: "lfq_stop_step (sd_gateway s) = Some r" "s' = s\<lparr>sd_gateway := r\<rparr>"
      using st SD_gateway by (auto simp: control_defs)
    have "runner_inv (sd_gateway s)" using inv by (simp add: shutdown_inv_def)
    then show ?thesis using inv SD_gateway stopper_inv [OF r(1)] stopper_left [OF r(1)]
      by (auto simp: shutdown_inv_def shutdown_left_def r(2))
  qed (use inv st SD_gateway in \<open>auto simp: control_defs shutdown_inv_def shutdown_left_def\<close>)
qed (use inv st in \<open>auto simp: control_defs shutdown_inv_def shutdown_left_def\<close>)

lemma shutdown_step_inv:
  assumes "shutdown_inv s" and "shutdown_step s s'"
  shows "shutdown_inv s' \<and> shutdown_left s' < shutdown_left s"
  using assms(2)
  by cases (use shutdown_control [OF assms(1)] shutdown_runner [OF assms(1)] shutdown_gateway [OF assms(1)] in auto)

lemma shutdown_run:
  assumes "shutdown_inv s" and "(shutdown_step ^^ n) s s'"
  shows "shutdown_inv s' \<and> n + shutdown_left s' \<le> shutdown_left s"
  using assms(2)
proof (induction n arbitrary: s')
  case (Suc n)
  then obtain t where "(shutdown_step ^^ n) s t" and t: "shutdown_step t s'" by auto
  then have "shutdown_inv t" "n + shutdown_left t \<le> shutdown_left s" using Suc.IH by blast+
  then show ?case using shutdown_step_inv [OF _ t] by fastforce
qed (use assms(1) in simp)

lemma shutdown_progress:
  assumes inv: "shutdown_inv s" and stuck: "\<And>s'. \<not> shutdown_step s s'"
  shows "sd_pc s = SD_done"
proof (rule ccontr)
  assume nd: "sd_pc s \<noteq> SD_done"
  have none: "control_step s = None" using stuck shutdown_step.control by (metis not_None_eq)
  then consider i where "sd_pc s = SD_worker i" "i < length (sd_workers s)" "r_stopper (sd_workers s ! i) \<noteq> S_done"
      "lfq_stop_step (sd_workers s ! i) = None"
    | "sd_pc s = SD_gateway" "r_stopper (sd_gateway s) \<noteq> S_done" "lfq_stop_step (sd_gateway s) = None"
    using nd inv by (cases "sd_pc s") (auto simp: control_defs shutdown_inv_def split: if_splits)
  then show False
  proof cases
    case 1
    moreover have "runner_inv (sd_workers s ! i)" using inv 1(2) by (auto simp: shutdown_inv_def)
    ultimately obtain r where "runner_step (sd_workers s ! i) r" using stop_not_stuck unfolding runner_step_def by blast
    then show False using stuck shutdown_step.worker [OF 1(2)] by blast
  next
    case 2
    moreover have "runner_inv (sd_gateway s)" using inv by (simp add: shutdown_inv_def)
    ultimately obtain r where "runner_step (sd_gateway s) r" using stop_not_stuck unfolding runner_step_def by blast
    then show False using stuck shutdown_step.gateway by blast
  qed
qed

text \<open>The state in which \<^verbatim>\<open>stop\<close> is called: each runner anywhere in a run of its own.\<close>

definition shutdown_start :: "'m LfqRunner list \<Rightarrow> 'm LfqRunner \<Rightarrow> 'm Shutdown" where
  "shutdown_start workers gateway =
     \<lparr>sd_workers = workers, sd_gateway = gateway, sd_closed = False, sd_calls = [], sd_pc = SD_request\<rparr>"

definition running :: "'m LfqRunner \<Rightarrow> bool" where
  "running r \<longleftrightarrow> (\<exists>ms. lfq_reachable ms r \<and> length ms + 1 < 2 ^ 32) \<and> r_stopper r = S_idle"

lemma running_request: "running r \<Longrightarrow> runner_inv (request_stop r) \<and> r_stopRequested (request_stop r)"
proof -
  assume "running r"
  then have "runner_inv r" "lfq_stop_step r = Some (request_stop r)"
    using wake_inv_reachable by (auto simp: running_def runner_inv_def lfq_stop_step_def request_stop_def)
  then show ?thesis using stopper_inv by blast
qed

lemma shutdown_start_inv:
  assumes "\<forall>r \<in> set (gateway # workers). running r" and "control_step (shutdown_start workers gateway) = Some s"
  shows "shutdown_inv s"
proof -
  have "s = (shutdown_start (map request_stop workers) (request_stop gateway))\<lparr>sd_pc := SD_ipc\<rparr>"
    using assms(2) by (simp add: control_defs shutdown_start_def)
  then show ?thesis using assms(1) running_request by (auto simp: shutdown_inv_def shutdown_start_def)
qed



lemma shutdown_reaches_end: "shutdown_inv s \<Longrightarrow> \<exists>n s'. (shutdown_step ^^ n) s s' \<and> sd_pc s' = SD_done"
proof (induction "shutdown_left s" arbitrary: s rule: less_induct)
  case less
  show ?case
  proof (cases "sd_pc s = SD_done")
    case True
    then show ?thesis by (intro exI [of _ 0] exI [of _ s]) simp
  next
    case False
    then obtain t where t: "shutdown_step s t" using shutdown_progress [OF less.prems] by blast
    then obtain n s' where "(shutdown_step ^^ n) t s'" "sd_pc s' = SD_done"
      using less shutdown_step_inv [OF less.prems t] by blast
    then show ?thesis using relpowp_Suc_I2 [of shutdown_step s t n s'] t by blast
  qed
qed


end
