(* ===== verification/Vyukov_Threads.thy ===== *)
theory Vyukov_Threads
  imports Vyukov_MPMC
begin

text \<open>
  \<^verbatim>\<open>VyukovMPMC\<close> under concurrency: any number of threads run \<^verbatim>\<open>push\<close> and \<^verbatim>\<open>pop\<close> of \<^verbatim>\<open>common/src/containers/vyukov_mpmc.hpp\<close>, one shared
  access per step, in any order (sequential consistency). A compare-exchange may fail spuriously. The
  record adds what the proof talks about: the pushed values in the order of the claimed positions, the
  value taken at each position, the number of claims, and the round each slot is in.
\<close>

section \<open>Threads\<close>

datatype 'v vy_pc =
    Y_idle
  | Y_push_load 'v
  | Y_push_seq 'v u64
  | Y_push_cas 'v u64
  | Y_push_value 'v u64
  | Y_push_publish 'v u64
  | Y_pop_load
  | Y_pop_seq u64
  | Y_pop_cas u64
  | Y_pop_value u64
  | Y_pop_release 'v u64

record 'v VyRun =
  y_q :: "'v VyukovMPMC"
  y_pc :: "(nat, 'v vy_pc) array"
  y_in :: "'v list"
  y_out :: "nat \<Rightarrow> 'v option"
  y_deq :: nat
  y_turn :: "(nat, nat) array"
  y_full :: "(nat, bool) array"

definition vy_run_new :: "'v \<Rightarrow> 'v VyRun" where
  "vy_run_new v = \<lparr>y_q = vy_new v, y_pc = (\<lambda>_. Y_idle), y_in = [], y_out = (\<lambda>_. None), y_deq = 0, y_turn = id, y_full = (\<lambda>_. False)\<rparr>"

definition vy_goto :: "nat \<Rightarrow> 'v vy_pc \<Rightarrow> 'v VyRun \<Rightarrow> 'v VyRun" where
  "vy_goto t c s = s\<lparr>y_pc := (y_pc s)(t := c)\<rparr>"

definition push_step :: "nat \<Rightarrow> bool \<Rightarrow> nat \<Rightarrow> 'v VyRun \<Rightarrow> 'v VyRun option" where
  "push_step k weak t s = (let q = y_q s in case y_pc s t of
     Y_push_load item \<Rightarrow> Some (vy_goto t (Y_push_seq item (vy_tail q)) s)
   | Y_push_seq item tail \<Rightarrow>
       (let diff = vy_diff (vy_sequence q (slot_of k tail)) tail
        in Some (vy_goto t (if diff = 0 then Y_push_cas item tail else if diff < 0 then Y_idle else Y_push_load item) s))
   | Y_push_cas item tail \<Rightarrow>
       (if vy_tail q = tail \<and> \<not> weak
        then Some (vy_goto t (Y_push_value item tail) (s\<lparr>y_q := q\<lparr>vy_tail := tail + 1\<rparr>, y_in := y_in s @ [item]\<rparr>))
        else Some (vy_goto t (Y_push_seq item (vy_tail q)) s))
   | Y_push_value item tail \<Rightarrow>
       Some (vy_goto t (Y_push_publish item tail) (s\<lparr>y_q := q\<lparr>vy_value := (vy_value q)(slot_of k tail := item)\<rparr>\<rparr>))
   | Y_push_publish item tail \<Rightarrow>
       Some (vy_goto t Y_idle (s\<lparr>y_q := q\<lparr>vy_sequence := (vy_sequence q)(slot_of k tail := tail + 1)\<rparr>,
                                 y_full := (y_full s)(slot_of k tail := True)\<rparr>))
   | _ \<Rightarrow> None)"

definition pop_step :: "nat \<Rightarrow> bool \<Rightarrow> nat \<Rightarrow> 'v VyRun \<Rightarrow> 'v VyRun option" where
  "pop_step k weak t s = (let q = y_q s in case y_pc s t of
     Y_pop_load \<Rightarrow> Some (vy_goto t (Y_pop_seq (vy_head q)) s)
   | Y_pop_seq head \<Rightarrow>
       (let diff = vy_diff (vy_sequence q (slot_of k head)) (head + 1)
        in Some (vy_goto t (if diff = 0 then Y_pop_cas head else if diff < 0 then Y_idle else Y_pop_load) s))
   | Y_pop_cas head \<Rightarrow>
       (if vy_head q = head \<and> \<not> weak
        then Some (vy_goto t (Y_pop_value head) (s\<lparr>y_q := q\<lparr>vy_head := head + 1\<rparr>, y_deq := y_deq s + 1\<rparr>))
        else Some (vy_goto t (Y_pop_seq (vy_head q)) s))
   | Y_pop_value head \<Rightarrow>
       Some (vy_goto t (Y_pop_release (vy_value q (slot_of k head)) head)
               (s\<lparr>y_out := (y_out s)(unat head := Some (vy_value q (slot_of k head)))\<rparr>))
   | Y_pop_release out head \<Rightarrow>
       Some (vy_goto t Y_idle (s\<lparr>y_q := q\<lparr>vy_sequence := (vy_sequence q)(slot_of k head := head + push_bit k 1)\<rparr>,
                                 y_full := (y_full s)(slot_of k head := False),
                                 y_turn := (y_turn s)(slot_of k head := y_turn s (slot_of k head) + 2 ^ k)\<rparr>))
   | _ \<Rightarrow> None)"

inductive vy_step :: "nat \<Rightarrow> 'v VyRun \<Rightarrow> 'v VyRun \<Rightarrow> bool" for k where
  call_push: "y_pc s t = Y_idle \<Longrightarrow> vy_step k s (vy_goto t (Y_push_load item) s)"
| call_pop: "y_pc s t = Y_idle \<Longrightarrow> vy_step k s (vy_goto t Y_pop_load s)"
| push: "push_step k weak t s = Some s' \<Longrightarrow> vy_step k s s'"
| pop: "pop_step k weak t s = Some s' \<Longrightarrow> vy_step k s s'"

section \<open>Invariant\<close>

definition y_enq :: "'v VyRun \<Rightarrow> nat" where
  "y_enq s = length (y_in s)"

text \<open>What a thread knows at each point; positions are below the number of claims.\<close>

fun pc_ok :: "nat \<Rightarrow> 'v VyRun \<Rightarrow> 'v vy_pc \<Rightarrow> bool" where
  "pc_ok k s (Y_push_seq item tail) \<longleftrightarrow> unat tail \<le> y_enq s"
| "pc_ok k s (Y_push_cas item tail) \<longleftrightarrow> unat tail \<le> y_enq s \<and>
     (unat tail = y_enq s \<longrightarrow> y_turn s (slot_of k tail) = unat tail \<and> \<not> y_full s (slot_of k tail))"
| "pc_ok k s (Y_push_value item tail) \<longleftrightarrow> unat tail < y_enq s \<and> y_turn s (slot_of k tail) = unat tail \<and>
     \<not> y_full s (slot_of k tail) \<and> y_in s ! unat tail = item"
| "pc_ok k s (Y_push_publish item tail) \<longleftrightarrow> unat tail < y_enq s \<and> y_turn s (slot_of k tail) = unat tail \<and>
     \<not> y_full s (slot_of k tail) \<and> y_in s ! unat tail = item \<and> vy_value (y_q s) (slot_of k tail) = item"
| "pc_ok k s (Y_pop_seq head) \<longleftrightarrow> unat head \<le> y_deq s"
| "pc_ok k s (Y_pop_cas head) \<longleftrightarrow> unat head \<le> y_deq s \<and>
     (unat head = y_deq s \<longrightarrow> y_turn s (slot_of k head) = unat head \<and> y_full s (slot_of k head))"
| "pc_ok k s (Y_pop_value head) \<longleftrightarrow> unat head < y_deq s \<and> y_turn s (slot_of k head) = unat head \<and> y_full s (slot_of k head)"
| "pc_ok k s (Y_pop_release out head) \<longleftrightarrow> unat head < y_deq s \<and> y_turn s (slot_of k head) = unat head \<and>
     y_full s (slot_of k head) \<and> y_out s (unat head) = Some out"
| "pc_ok k s _ \<longleftrightarrow> True"

text \<open>The slot a thread has claimed, for writing or for reading.\<close>

fun claim :: "'v vy_pc \<Rightarrow> (bool \<times> nat) option" where
  "claim (Y_push_value item tail) = Some (True, unat tail)"
| "claim (Y_push_publish item tail) = Some (True, unat tail)"
| "claim (Y_pop_value head) = Some (False, unat head)"
| "claim (Y_pop_release out head) = Some (False, unat head)"
| "claim _ = None"

definition slots_ok :: "nat \<Rightarrow> 'v VyRun \<Rightarrow> bool" where
  "slots_ok k s \<longleftrightarrow>
     (\<forall>i < 2 ^ k. y_turn s i mod 2 ^ k = i \<and> y_turn s i < y_enq s + 2 ^ k \<and>
        vy_sequence (y_q s) i = of_nat (y_turn s i) + (if y_full s i then 1 else 0) \<and>
        (y_full s i \<longrightarrow> y_turn s i < y_enq s \<and> vy_value (y_q s) i = y_in s ! y_turn s i)) \<and>
     (\<forall>p. y_deq s \<le> p \<longrightarrow> p < y_enq s \<longrightarrow> y_turn s (p mod 2 ^ k) = p)"

definition out_ok :: "'v VyRun \<Rightarrow> bool" where
  "out_ok s \<longleftrightarrow> (\<forall>p v. y_out s p = Some v \<longrightarrow> p < y_deq s \<and> y_in s ! p = v) \<and>
     (\<forall>p < y_deq s. y_out s p = None \<longrightarrow> (\<exists>t. y_pc s t = Y_pop_value (of_nat p)))"

definition vy_run_inv :: "nat \<Rightarrow> 'v VyRun \<Rightarrow> bool" where
  "vy_run_inv k s \<longleftrightarrow> vy_tail (y_q s) = of_nat (y_enq s) \<and> vy_head (y_q s) = of_nat (y_deq s) \<and> y_deq s \<le> y_enq s \<and>
     slots_ok k s \<and> out_ok s \<and> (\<forall>t. pc_ok k s (y_pc s t)) \<and>
     (\<forall>t u c. claim (y_pc s t) = Some c \<longrightarrow> claim (y_pc s u) = Some c \<longrightarrow> t = u)"


lemma vy_goto_simps [simp]:
  "y_q (vy_goto t c s) = y_q s" "y_in (vy_goto t c s) = y_in s" "y_out (vy_goto t c s) = y_out s" "y_deq (vy_goto t c s) = y_deq s"
  "y_turn (vy_goto t c s) = y_turn s" "y_full (vy_goto t c s) = y_full s" "y_pc (vy_goto t c s) = (y_pc s)(t := c)"
  "y_enq (vy_goto t c s) = y_enq s" "slots_ok k (vy_goto t c s) = slots_ok k s"
  by (simp_all add: vy_goto_def y_enq_def slots_ok_def)

lemma pc_ok_goto [simp]: "pc_ok k (vy_goto t c s) d = pc_ok k s d"
  by (cases d) simp_all

lemma vy_run_invD:
  assumes "vy_run_inv k s"
  shows "vy_tail (y_q s) = of_nat (y_enq s)" "vy_head (y_q s) = of_nat (y_deq s)" "y_deq s \<le> y_enq s" "slots_ok k s" "out_ok s"
    "pc_ok k s (y_pc s t)" "claim (y_pc s t) = Some c \<Longrightarrow> claim (y_pc s u) = Some c \<Longrightarrow> t = u"
  using assms unfolding vy_run_inv_def by blast+

lemma slots_okD:
  assumes "slots_ok k s" and "i < 2 ^ k"
  shows "y_turn s i mod 2 ^ k = i" "y_turn s i < y_enq s + 2 ^ k"
    "vy_sequence (y_q s) i = of_nat (y_turn s i) + (if y_full s i then 1 else 0)"
    "y_full s i \<Longrightarrow> y_turn s i < y_enq s" "y_full s i \<Longrightarrow> vy_value (y_q s) i = y_in s ! y_turn s i"
  using assms unfolding slots_ok_def by blast+

lemma unat_small: "n < 2 ^ 64 \<Longrightarrow> unat (of_nat n :: u64) = n"
  by (simp add: unat_of_nat)

lemma vy_run_inv_new: "0 < k \<Longrightarrow> vy_run_inv k (vy_run_new v)"
  by (simp add: vy_run_inv_def vy_run_new_def vy_new_def y_enq_def slots_ok_def out_ok_def)

text \<open>A step that moves the thread only.\<close>

lemma vy_run_invI:
  assumes "vy_tail (y_q s) = of_nat (y_enq s)" "vy_head (y_q s) = of_nat (y_deq s)" "y_deq s \<le> y_enq s" "slots_ok k s" "out_ok s"
    and "\<And>t. pc_ok k s (y_pc s t)"
    and "\<And>t u c. claim (y_pc s t) = Some c \<Longrightarrow> claim (y_pc s u) = Some c \<Longrightarrow> t = u"
  shows "vy_run_inv k s"
  unfolding vy_run_inv_def by (intro conjI allI impI; rule assms; assumption?)

lemma vy_goto_inv:
  assumes inv: "vy_run_inv k s" and c: "pc_ok k s c" "claim c = None" and old: "\<And>h. y_pc s t \<noteq> Y_pop_value h"
  shows "vy_run_inv k (vy_goto t c s)"
proof (rule vy_run_invI)
  note D = vy_run_invD [OF inv]
  show "out_ok (vy_goto t c s)"
    unfolding out_ok_def
  proof (intro conjI allI impI)
    fix p assume "p < y_deq (vy_goto t c s)" "y_out (vy_goto t c s) p = None"
    then obtain u where "y_pc s u = Y_pop_value (of_nat p)" using inv by (auto simp: vy_run_inv_def out_ok_def)
    then show "\<exists>u. y_pc (vy_goto t c s) u = Y_pop_value (of_nat p)" using old by (metis fun_upd_apply vy_goto_simps(7))
  qed (use inv in \<open>auto simp: vy_run_inv_def out_ok_def\<close>)
  fix a u cl assume "claim (y_pc (vy_goto t c s) a) = Some cl" "claim (y_pc (vy_goto t c s) u) = Some cl"
  then have "claim (y_pc s a) = Some cl" "claim (y_pc s u) = Some cl" using c(2) by (simp_all split: if_splits)
  then show "a = u" by (rule D(7))
qed (use vy_run_invD(1-4,6) [OF inv] c(1) in simp_all)

text \<open>What the comparison of a sequence number with a position means.\<close>

lemma seq_meaning:
  assumes sl: "slots_ok k s" and k: "0 < k" "k \<le> 20" and b: "y_enq s < 2 ^ 62" and p: "unat pos \<le> y_enq s"
    and e: "vy_sequence (y_q s) (slot_of k pos) = pos + (if full then 1 else 0)"
  shows "y_turn s (slot_of k pos) = unat pos \<and> y_full s (slot_of k pos) = full"
proof -
  let ?i = "slot_of k pos"
  have i: "?i < 2 ^ k" "?i = unat pos mod 2 ^ k" using k by (simp_all add: slot_of_mod slot_of_less)
  note D = slots_okD [OF sl i(1)]
  have N: "(2 :: nat) ^ k \<le> 2 ^ 20" "(2 :: nat) \<le> 2 ^ k"
    using k power_increasing [of k 20 "2 :: nat"] power_increasing [of 1 k "2 :: nat"] by simp_all
  have "of_nat (y_turn s ?i + (if y_full s ?i then 1 else 0)) = (of_nat (unat pos + (if full then 1 else 0)) :: u64)"
    using D(3) e by (simp split: if_splits)
  moreover have "y_turn s ?i + (if y_full s ?i then 1 else 0) < 2 ^ 64" "unat pos + (if full then 1 else 0) < 2 ^ 64"
    using D(2) b p N by auto
  ultimately have eq: "y_turn s ?i + (if y_full s ?i then 1 else 0) = unat pos + (if full then 1 else 0)"
    using unat_small by metis
  have neq: "Suc n mod 2 ^ k \<noteq> n mod 2 ^ k" for n using mod_add_neq [of 0 1 "2 ^ k" n] N(2) by simp
  have "y_full s ?i = full"
  proof (rule ccontr)
    assume "y_full s ?i \<noteq> full"
    then have "Suc (y_turn s ?i) = unat pos \<or> y_turn s ?i = Suc (unat pos)" using eq by (auto split: if_splits)
    then show False using D(1) i(2) neq by metis
  qed
  then show ?thesis using eq by (auto split: if_splits)
qed


lemma claims_update:
  assumes uniq: "\<And>t u cl. claim (f t) = Some cl \<Longrightarrow> claim (f u) = Some cl \<Longrightarrow> t = u"
    and new: "\<And>u. u \<noteq> t \<Longrightarrow> claim c \<noteq> None \<Longrightarrow> claim (f u) \<noteq> claim c"
    and "claim ((f(t := c)) a) = Some cl" "claim ((f(t := c)) u) = Some cl"
  shows "a = u"
  using assms by (metis fun_upd_apply option.discI)

text \<open>The positions of claims in other threads.\<close>

lemma claim_below:
  assumes "pc_ok k s c"
  shows "claim c = Some (True, p) \<Longrightarrow> p < y_enq s" and "claim c = Some (False, p) \<Longrightarrow> p < y_deq s"
  using assms by (cases c; simp)+

lemma push_cas_inv:
  assumes inv: "vy_run_inv k s" and k: "0 < k" "k \<le> 20" and b: "y_enq s < 2 ^ 62"
    and pc: "y_pc s t = Y_push_cas item tail" and tail: "vy_tail (y_q s) = tail"
  shows "vy_run_inv k (vy_goto t (Y_push_value item tail) (s\<lparr>y_q := (y_q s)\<lparr>vy_tail := tail + 1\<rparr>, y_in := y_in s @ [item]\<rparr>))"
    (is "vy_run_inv k ?s")
proof (rule vy_run_invI)
  note D = vy_run_invD [OF inv]
  have p: "unat tail = y_enq s" using D(1) tail b unat_small [of "y_enq s"] by auto
  have free: "y_turn s (slot_of k tail) = y_enq s" "\<not> y_full s (slot_of k tail)" using D(6) [of t] pc p by simp_all
  have slot: "slot_of k tail = y_enq s mod 2 ^ k" using k p by (simp add: slot_of_mod)
  have E: "y_enq ?s = Suc (y_enq s)" by (simp add: y_enq_def)
  show "vy_tail (y_q ?s) = of_nat (y_enq ?s)" unfolding E using D(1) tail by simp
  show "vy_head (y_q ?s) = of_nat (y_deq ?s)" "y_deq ?s \<le> y_enq ?s" unfolding E using D(2,3) by simp_all
  show "slots_ok k ?s"
    unfolding slots_ok_def E
  proof (intro conjI allI impI)
    fix i :: nat assume "i < 2 ^ k"
    note S = slots_okD [OF D(4) this]
    show "y_turn ?s i mod 2 ^ k = i" "y_turn ?s i < Suc (y_enq s) + 2 ^ k"
      "vy_sequence (y_q ?s) i = of_nat (y_turn ?s i) + (if y_full ?s i then 1 else 0)" using S(1-3) by simp_all
    assume "y_full ?s i"
    then show "y_turn ?s i < Suc (y_enq s)" "vy_value (y_q ?s) i = y_in ?s ! y_turn ?s i"
      using S(4,5) by (simp_all add: nth_append y_enq_def)
  next
    fix p assume "y_deq ?s \<le> p" "p < Suc (y_enq s)"
    then show "y_turn ?s (p mod 2 ^ k) = p"
      using D(4) free(1) slot by (cases "p = y_enq s") (simp_all add: slots_ok_def)
  qed
  show "out_ok ?s"
    unfolding out_ok_def
  proof (intro conjI allI impI)
    fix p v assume "y_out ?s p = Some v"
    then have "p < y_deq s" "y_in s ! p = v" using D(5) by (simp_all add: out_ok_def)
    then show "p < y_deq ?s" "y_in ?s ! p = v" using D(3) by (simp_all add: nth_append y_enq_def)
  next
    fix p assume "p < y_deq ?s" "y_out ?s p = None"
    then obtain u where "y_pc s u = Y_pop_value (of_nat p)" using D(5) by (auto simp: out_ok_def)
    then show "\<exists>u. y_pc ?s u = Y_pop_value (of_nat p)" using pc by (intro exI [of _ u]) auto
  qed
  have frame: "pc_ok k ?s c" if "pc_ok k s c" for c using that by (cases c) (simp_all add: y_enq_def nth_append)
  show "pc_ok k ?s (y_pc ?s u)" for u
  proof (cases "u = t")
    case True
    then show ?thesis using p free by (simp add: y_enq_def nth_append)
  qed (use frame [OF D(6)] in simp)
  show "a = u" if "claim (y_pc ?s a) = Some cl" "claim (y_pc ?s u) = Some cl" for a u cl
  proof (rule claims_update [where f = "y_pc s" and t = t and c = "Y_push_value item tail"])
    show "claim (y_pc s u) \<noteq> claim (Y_push_value item tail)" for u
      using claim_below(1) [OF D(6), of u "y_enq s"] p by auto
  qed (use D(7) that in auto)
qed


lemma y_enq_upd [simp]:
  "y_enq (s\<lparr>y_q := q\<rparr>) = y_enq s" "y_enq (s\<lparr>y_out := f\<rparr>) = y_enq s" "y_enq (s\<lparr>y_deq := n\<rparr>) = y_enq s"
  "y_enq (s\<lparr>y_turn := g\<rparr>) = y_enq s" "y_enq (s\<lparr>y_full := h\<rparr>) = y_enq s"
  by (simp_all add: y_enq_def)

lemma claim_turn:
  assumes "pc_ok k s c" and "k \<le> 20" and "claim c = Some (b, p)"
  shows "y_turn s (p mod 2 ^ k) = p" and "y_full s (p mod 2 ^ k) \<longleftrightarrow> \<not> b"
  using assms by (cases c; auto simp: slot_of_mod)+

text \<open>Two threads never work on one slot.\<close>

lemma claims_apart:
  assumes inv: "vy_run_inv k s" and k: "k \<le> 20" and "claim (y_pc s t) = Some (b, p)" "claim (y_pc s u) = Some (b', p')" "t \<noteq> u"
  shows "p mod 2 ^ k \<noteq> p' mod 2 ^ k"
proof
  assume eq: "p mod 2 ^ k = p' mod 2 ^ k"
  note D = vy_run_invD [OF inv]
  note c = claim_turn [OF D(6) k assms(3)] and c' = claim_turn [OF D(6) k assms(4)]
  have "p = p'" using c(1) c'(1) eq by metis
  moreover have "b = b'" using c(2) c'(2) eq by metis
  ultimately show False using D(7) [OF assms(3)] assms(4,5) by simp
qed

lemma other_slot:
  assumes "vy_run_inv k s" and "k \<le> 20" and "claim (y_pc s t) = Some (b, unat x)" and "u \<noteq> t"
  shows "case claim (y_pc s u) of None \<Rightarrow> True | Some (b', p') \<Rightarrow> p' mod 2 ^ k \<noteq> slot_of k x"
  using claims_apart [OF assms(1-3), of u] assms(2,4) by (auto simp: slot_of_mod split: option.splits)

lemma push_value_inv:
  assumes inv: "vy_run_inv k s" and k: "0 < k" "k \<le> 20" and pc: "y_pc s t = Y_push_value item tail"
  shows "vy_run_inv k (vy_goto t (Y_push_publish item tail) (s\<lparr>y_q := (y_q s)\<lparr>vy_value := (vy_value (y_q s))(slot_of k tail := item)\<rparr>\<rparr>))"
    (is "vy_run_inv k ?s")
proof (rule vy_run_invI)
  note D = vy_run_invD [OF inv]
  have me: "unat tail < y_enq s" "y_turn s (slot_of k tail) = unat tail" "\<not> y_full s (slot_of k tail)" "y_in s ! unat tail = item"
    using D(6) [of t] pc by simp_all
  have slot: "slot_of k x = unat x mod 2 ^ k" for x using k by (simp add: slot_of_mod)
  show "vy_tail (y_q ?s) = of_nat (y_enq ?s)" "vy_head (y_q ?s) = of_nat (y_deq ?s)" "y_deq ?s \<le> y_enq ?s"
    using D(1-3) by simp_all
  show "slots_ok k ?s" using D(4) me(3) by (auto simp: slots_ok_def)
  show "out_ok ?s"
    unfolding out_ok_def
  proof (intro conjI allI impI)
    fix p assume "p < y_deq ?s" "y_out ?s p = None"
    then obtain u where "y_pc s u = Y_pop_value (of_nat p)" using D(5) by (auto simp: out_ok_def)
    then show "\<exists>u. y_pc ?s u = Y_pop_value (of_nat p)" using pc by (intro exI [of _ u]) auto
  qed (use D(5) in \<open>auto simp: out_ok_def\<close>)
  show "pc_ok k ?s (y_pc ?s u)" for u
  proof (cases "u = t")
    case True
    then show ?thesis using me by simp
  next
    case False
    note other = other_slot [OF inv k(2) _ False, of True tail]
    show ?thesis using D(6) [of u] False other pc by (cases "y_pc s u") (simp_all add: slot)
  qed
  have same: "claim (y_pc ?s x) = claim (y_pc s x)" for x by (simp add: pc)
  show "a = u" if "claim (y_pc ?s a) = Some cl" "claim (y_pc ?s u) = Some cl" for a u cl
    using that unfolding same by (rule D(7))
qed


lemma push_publish_inv:
  assumes inv: "vy_run_inv k s" and k: "0 < k" "k \<le> 20" and pc: "y_pc s t = Y_push_publish item tail"
  shows "vy_run_inv k (vy_goto t Y_idle (s\<lparr>y_q := (y_q s)\<lparr>vy_sequence := (vy_sequence (y_q s))(slot_of k tail := tail + 1)\<rparr>,
    y_full := (y_full s)(slot_of k tail := True)\<rparr>))" (is "vy_run_inv k ?s")
proof (rule vy_run_invI)
  note D = vy_run_invD [OF inv]
  have me: "unat tail < y_enq s" "y_turn s (slot_of k tail) = unat tail" "\<not> y_full s (slot_of k tail)" "y_in s ! unat tail = item"
    "vy_value (y_q s) (slot_of k tail) = item"
    using D(6) [of t] pc by simp_all
  have slot: "slot_of k x = unat x mod 2 ^ k" for x using k by (simp add: slot_of_mod)
  show "vy_tail (y_q ?s) = of_nat (y_enq ?s)" "vy_head (y_q ?s) = of_nat (y_deq ?s)" "y_deq ?s \<le> y_enq ?s"
    using D(1-3) by simp_all
  show "slots_ok k ?s" using D(4) me by (simp add: slots_ok_def)
  show "out_ok ?s"
    unfolding out_ok_def
  proof (intro conjI allI impI)
    fix p assume "p < y_deq ?s" "y_out ?s p = None"
    then obtain u where "y_pc s u = Y_pop_value (of_nat p)" using D(5) by (auto simp: out_ok_def)
    then show "\<exists>u. y_pc ?s u = Y_pop_value (of_nat p)" using pc by (intro exI [of _ u]) auto
  qed (use D(5) in \<open>auto simp: out_ok_def\<close>)
  show "pc_ok k ?s (y_pc ?s u)" for u
  proof (cases "u = t")
    case False
    note other = other_slot [OF inv k(2) _ False, of True tail]
    show ?thesis using D(6) [of u] False other pc me(1,2) by (cases "y_pc s u") (auto simp: slot)
  qed simp
  show "a = u" if "claim (y_pc ?s a) = Some cl" "claim (y_pc ?s u) = Some cl" for a u cl
  proof (rule D(7))
    show "claim (y_pc s a) = Some cl" "claim (y_pc s u) = Some cl" using that by (simp_all split: if_splits)
  qed
qed


lemma pop_cas_inv:
  assumes inv: "vy_run_inv k s" and k: "0 < k" "k \<le> 20" and b: "y_enq s < 2 ^ 62"
    and pc: "y_pc s t = Y_pop_cas head" and head: "vy_head (y_q s) = head"
  shows "vy_run_inv k (vy_goto t (Y_pop_value head) (s\<lparr>y_q := (y_q s)\<lparr>vy_head := head + 1\<rparr>, y_deq := y_deq s + 1\<rparr>))"
    (is "vy_run_inv k ?s")
proof (rule vy_run_invI)
  note D = vy_run_invD [OF inv]
  have p: "unat head = y_deq s" using D(2,3) head b unat_small [of "y_deq s"] by auto
  then have hd: "head = of_nat (y_deq s)" using D(2) head by simp
  have here: "y_turn s (slot_of k head) = y_deq s" "y_full s (slot_of k head)" using D(6) [of t] pc p by simp_all
  have i: "slot_of k head < 2 ^ k" using k by (simp add: slot_of_less)
  have less: "y_deq s < y_enq s" using slots_okD(4) [OF D(4) i here(2)] here(1) by simp
  show "vy_tail (y_q ?s) = of_nat (y_enq ?s)" using D(1) by simp
  show "vy_head (y_q ?s) = of_nat (y_deq ?s)" using hd by simp
  show "y_deq ?s \<le> y_enq ?s" using less by simp
  show "slots_ok k ?s" using D(4) by (simp add: slots_ok_def)
  show "out_ok ?s"
    unfolding out_ok_def
  proof (intro conjI allI impI)
    fix q assume q: "q < y_deq ?s" "y_out ?s q = None"
    show "\<exists>u. y_pc ?s u = Y_pop_value (of_nat q)"
    proof (cases "q = y_deq s")
      case True
      then show ?thesis using hd by (intro exI [of _ t]) simp
    next
      case False
      then have "q < y_deq s" "y_out s q = None" using q by simp_all
      then obtain u where "y_pc s u = Y_pop_value (of_nat q)" using D(5) by (auto simp: out_ok_def)
      then show ?thesis using pc by (intro exI [of _ u]) auto
    qed
  qed (use D(5) in \<open>auto simp: out_ok_def less_Suc_eq\<close>)
  have frame: "pc_ok k ?s c" if "pc_ok k s c" for c using that by (cases c) simp_all
  show "pc_ok k ?s (y_pc ?s u)" for u
  proof (cases "u = t")
    case True
    then show ?thesis using p here by simp
  qed (use frame [OF D(6)] in simp)
  show "a = u" if "claim (y_pc ?s a) = Some cl" "claim (y_pc ?s u) = Some cl" for a u cl
  proof (rule claims_update [where f = "y_pc s" and t = t and c = "Y_pop_value head"])
    show "claim (y_pc s u) \<noteq> claim (Y_pop_value head)" for u
      using claim_below(2) [OF D(6), of u "y_deq s"] p by auto
  qed (use D(7) that in auto)
qed

lemma pop_value_inv:
  assumes inv: "vy_run_inv k s" and k: "0 < k" "k \<le> 20" and b: "y_enq s < 2 ^ 62" and pc: "y_pc s t = Y_pop_value head"
  shows "vy_run_inv k (vy_goto t (Y_pop_release (vy_value (y_q s) (slot_of k head)) head)
    (s\<lparr>y_out := (y_out s)(unat head := Some (vy_value (y_q s) (slot_of k head)))\<rparr>))" (is "vy_run_inv k ?s")
proof (rule vy_run_invI)
  note D = vy_run_invD [OF inv]
  have me: "unat head < y_deq s" "y_turn s (slot_of k head) = unat head" "y_full s (slot_of k head)"
    using D(6) [of t] pc by simp_all
  have i: "slot_of k head < 2 ^ k" using k by (simp add: slot_of_less)
  have val: "vy_value (y_q s) (slot_of k head) = y_in s ! unat head" using slots_okD(5) [OF D(4) i me(3)] me(2) by simp
  show "vy_tail (y_q ?s) = of_nat (y_enq ?s)" "vy_head (y_q ?s) = of_nat (y_deq ?s)" "y_deq ?s \<le> y_enq ?s"
    using D(1-3) by simp_all
  show "slots_ok k ?s" using D(4) by (simp add: slots_ok_def)
  show "out_ok ?s"
    unfolding out_ok_def
  proof (intro conjI allI impI)
    fix q assume q: "q < y_deq ?s" "y_out ?s q = None"
    then have ne: "q \<noteq> unat head" by auto
    obtain u where u: "y_pc s u = Y_pop_value (of_nat q)" using D(5) q by (auto simp: out_ok_def split: if_splits)
    have "unat (of_nat q :: u64) = q" using q(1) D(3) b by (intro unat_small) simp
    then have "u \<noteq> t" using u pc ne by auto
    then show "\<exists>u. y_pc ?s u = Y_pop_value (of_nat q)" using u by (intro exI [of _ u]) simp
  next
    fix q v assume "y_out ?s q = Some v"
    then show "q < y_deq ?s" "y_in ?s ! q = v" using D(5) me(1) val by (auto simp: out_ok_def split: if_splits)
  qed
  show "pc_ok k ?s (y_pc ?s u)" for u
  proof (cases "u = t")
    case True
    then show ?thesis using me by simp
  next
    case False
    have "claim (y_pc s u) \<noteq> claim (y_pc s t)" using D(7) [of t _ u] pc False by force
    then show ?thesis using D(6) [of u] False pc by (cases "y_pc s u") simp_all
  qed
  have same: "claim (y_pc ?s x) = claim (y_pc s x)" for x by (simp add: pc)
  show "a = u" if "claim (y_pc ?s a) = Some cl" "claim (y_pc ?s u) = Some cl" for a u cl
    using that unfolding same by (rule D(7))
qed

lemma pop_release_inv:
  assumes inv: "vy_run_inv k s" and k: "0 < k" "k \<le> 20" and pc: "y_pc s t = Y_pop_release out head"
  shows "vy_run_inv k (vy_goto t Y_idle (s\<lparr>y_q := (y_q s)\<lparr>vy_sequence := (vy_sequence (y_q s))(slot_of k head := head + push_bit k 1)\<rparr>,
    y_full := (y_full s)(slot_of k head := False),
    y_turn := (y_turn s)(slot_of k head := y_turn s (slot_of k head) + 2 ^ k)\<rparr>))" (is "vy_run_inv k ?s")
proof (rule vy_run_invI)
  note D = vy_run_invD [OF inv]
  have me: "unat head < y_deq s" "y_turn s (slot_of k head) = unat head" "y_full s (slot_of k head)"
    using D(6) [of t] pc by simp_all
  have slot: "slot_of k x = unat x mod 2 ^ k" for x using k by (simp add: slot_of_mod)
  show "vy_tail (y_q ?s) = of_nat (y_enq ?s)" "vy_head (y_q ?s) = of_nat (y_deq ?s)" "y_deq ?s \<le> y_enq ?s"
    using D(1-3) by simp_all
  show "slots_ok k ?s"
    unfolding slots_ok_def
  proof (intro conjI allI impI)
    fix i :: nat assume i: "i < 2 ^ k"
    note S = slots_okD [OF D(4) i]
    show "y_turn ?s i mod 2 ^ k = i" "y_turn ?s i < y_enq ?s + 2 ^ k" using S(1,2) me D(3) by auto
    show "vy_sequence (y_q ?s) i = of_nat (y_turn ?s i) + (if y_full ?s i then 1 else 0)"
      using S(3) me(2) by (auto simp: push_bit_1)
    assume "y_full ?s i"
    then show "y_turn ?s i < y_enq ?s" "vy_value (y_q ?s) i = y_in ?s ! y_turn ?s i"
      using S(4,5) by (auto split: if_splits)
  next
    fix p assume "y_deq ?s \<le> p" "p < y_enq ?s"
    then have "y_turn s (p mod 2 ^ k) = p" "p \<noteq> unat head" using D(4) me(1) by (auto simp: slots_ok_def)
    then show "y_turn ?s (p mod 2 ^ k) = p" using me(2) by auto
  qed
  show "out_ok ?s"
    unfolding out_ok_def
  proof (intro conjI allI impI)
    fix p assume "p < y_deq ?s" "y_out ?s p = None"
    then obtain u where "y_pc s u = Y_pop_value (of_nat p)" using D(5) by (auto simp: out_ok_def)
    then show "\<exists>u. y_pc ?s u = Y_pop_value (of_nat p)" using pc by (intro exI [of _ u]) auto
  qed (use D(5) in \<open>auto simp: out_ok_def\<close>)
  show "pc_ok k ?s (y_pc ?s u)" for u
  proof (cases "u = t")
    case False
    note other = other_slot [OF inv k(2) _ False, of False head]
    show ?thesis using D(6) [of u] D(3) False other pc me by (cases "y_pc s u") (auto simp: slot)
  qed simp
  show "a = u" if "claim (y_pc ?s a) = Some cl" "claim (y_pc ?s u) = Some cl" for a u cl
  proof (rule D(7))
    show "claim (y_pc s a) = Some cl" "claim (y_pc s u) = Some cl" using that by (simp_all split: if_splits)
  qed
qed


section \<open>Every step\<close>

lemma vy_diff_zero: "vy_diff a b = 0 \<longleftrightarrow> a = b"
  using signed_word_eqI [of "a - b" 0] by (auto simp: vy_diff_def)

lemma push_step_inv:
  assumes inv: "vy_run_inv k s" and k: "0 < k" "k \<le> 20" and b: "y_enq s < 2 ^ 62" and st: "push_step k weak t s = Some s'"
  shows "vy_run_inv k s'"
proof (cases "y_pc s t")
  case (Y_push_load item)
  have "unat (vy_tail (y_q s)) = y_enq s" using vy_run_invD(1) [OF inv] b by (simp add: unat_small)
  then show ?thesis using st Y_push_load vy_goto_inv [OF inv] by (auto simp: push_step_def Let_def)
next
  case (Y_push_seq item tail)
  have tail: "unat tail \<le> y_enq s" using vy_run_invD(6) [OF inv, of t] Y_push_seq by simp
  have "pc_ok k s (Y_push_cas item tail)" if "vy_sequence (y_q s) (slot_of k tail) = tail"
    using seq_meaning [OF vy_run_invD(4) [OF inv] k b tail, of False] that tail by simp
  then show ?thesis using st Y_push_seq vy_goto_inv [OF inv] by (auto simp: push_step_def Let_def vy_diff_zero)
next
  case (Y_push_cas item tail)
  have "unat (vy_tail (y_q s)) = y_enq s" using vy_run_invD(1) [OF inv] b by (simp add: unat_small)
  then show ?thesis using st Y_push_cas vy_goto_inv [OF inv] push_cas_inv [OF inv k b Y_push_cas]
    by (auto simp: push_step_def Let_def split: if_splits)
next
  case (Y_push_value item tail)
  then show ?thesis using st push_value_inv [OF inv k Y_push_value] by (simp add: push_step_def Let_def)
next
  case (Y_push_publish item tail)
  then show ?thesis using st push_publish_inv [OF inv k Y_push_publish] by (simp add: push_step_def Let_def)
qed (use st in \<open>simp_all add: push_step_def Let_def\<close>)

lemma pop_step_inv:
  assumes inv: "vy_run_inv k s" and k: "0 < k" "k \<le> 20" and b: "y_enq s < 2 ^ 62" and st: "pop_step k weak t s = Some s'"
  shows "vy_run_inv k s'"
proof -
  note D = vy_run_invD [OF inv]
  have head: "unat (vy_head (y_q s)) = y_deq s" using D(2,3) b by (simp add: unat_small)
  show ?thesis
  proof (cases "y_pc s t")
    case Y_pop_load
    then show ?thesis using st head vy_goto_inv [OF inv] by (auto simp: pop_step_def Let_def)
  next
    case (Y_pop_seq h)
    have h: "unat h \<le> y_deq s" using D(6) [of t] Y_pop_seq by simp
    have "pc_ok k s (Y_pop_cas h)" if "vy_sequence (y_q s) (slot_of k h) = h + 1"
      using seq_meaning [OF D(4) k b, of h True] that h D(3) by simp
    then show ?thesis using st Y_pop_seq vy_goto_inv [OF inv] by (auto simp: pop_step_def Let_def vy_diff_zero)
  next
    case (Y_pop_cas h)
    then show ?thesis using st head vy_goto_inv [OF inv] pop_cas_inv [OF inv k b Y_pop_cas]
      by (auto simp: pop_step_def Let_def split: if_splits)
  next
    case (Y_pop_value h)
    then show ?thesis using st pop_value_inv [OF inv k b Y_pop_value] by (simp add: pop_step_def Let_def)
  next
    case (Y_pop_release out h)
    then show ?thesis using st pop_release_inv [OF inv k Y_pop_release] by (simp add: pop_step_def Let_def)
  qed (use st in \<open>simp_all add: pop_step_def Let_def\<close>)
qed

lemma vy_step_enq: "vy_step k s s' \<Longrightarrow> y_enq s \<le> y_enq s'"
  by (induction rule: vy_step.induct)
    (auto simp: push_step_def pop_step_def Let_def y_enq_def split: vy_pc.splits if_splits)

lemma vy_run_inv_run:
  assumes "(vy_step k)\<^sup>*\<^sup>* (vy_run_new v) s" and k: "0 < k" "k \<le> 20" and "y_enq s < 2 ^ 62"
  shows "vy_run_inv k s"
  using assms(1,4)
proof (induction rule: rtranclp_induct)
  case base
  show ?case by (rule vy_run_inv_new [OF k(1)])
next
  case (step s s')
  have b: "y_enq s < 2 ^ 62" using vy_step_enq [OF step(2)] step.prems by simp
  have inv: "vy_run_inv k s" by (rule step.IH [OF b])
  from step(2) show ?case
    by cases (use vy_goto_inv [OF inv] push_step_inv [OF inv k b] pop_step_inv [OF inv k b] in auto)
qed

text \<open>C19. Any number of threads on one \<^verbatim>\<open>VyukovMPMC\<close>, interleaved at every access, with fewer than \<open>2 ^ 62\<close> pushes: a value taken by a pop is
  the value pushed at the same position, so nothing is invented, duplicated or torn; no two threads
  ever work on the same slot; at most \<open>2 ^ k\<close> values are stored; and when no call is under way the values
  taken, in the order of the positions, are exactly the first ones pushed.\<close>

theorem vyukov_threads_fifo:
  assumes "(vy_step k)\<^sup>*\<^sup>* (vy_run_new v) s" and "0 < k" "k \<le> 20" and "y_enq s < 2 ^ 62"
  shows "(\<forall>p x. y_out s p = Some x \<longrightarrow> p < y_deq s \<and> y_in s ! p = x) \<and>
    y_deq s \<le> y_enq s \<and> y_enq s \<le> y_deq s + 2 ^ k \<and>
    (\<forall>t u b p b' p'. t \<noteq> u \<longrightarrow> claim (y_pc s t) = Some (b, p) \<longrightarrow> claim (y_pc s u) = Some (b', p') \<longrightarrow> p mod 2 ^ k \<noteq> p' mod 2 ^ k) \<and>
    ((\<forall>t. y_pc s t = Y_idle) \<longrightarrow> map (y_out s) [0..<y_deq s] = map Some (take (y_deq s) (y_in s)))"
proof (intro conjI)
  have inv: "vy_run_inv k s" by (rule vy_run_inv_run [OF assms])
  note D = vy_run_invD [OF inv]
  show "\<forall>p x. y_out s p = Some x \<longrightarrow> p < y_deq s \<and> y_in s ! p = x" using D(5) by (simp add: out_ok_def)
  show "y_deq s \<le> y_enq s" by (rule D(3))
  show "y_enq s \<le> y_deq s + 2 ^ k"
  proof (rule ccontr)
    assume "\<not> y_enq s \<le> y_deq s + 2 ^ k"
    moreover have turn: "y_turn s (p mod 2 ^ k) = p" if "y_deq s \<le> p" "p < y_enq s" for p
      using D(4) that unfolding slots_ok_def by blast
    ultimately show False using turn [of "y_deq s"] turn [of "y_deq s + 2 ^ k"] by simp
  qed
  show "\<forall>t u b p b' p'. t \<noteq> u \<longrightarrow> claim (y_pc s t) = Some (b, p) \<longrightarrow> claim (y_pc s u) = Some (b', p') \<longrightarrow>
      p mod 2 ^ k \<noteq> p' mod 2 ^ k" using claims_apart [OF inv assms(3)] by blast
  show "(\<forall>t. y_pc s t = Y_idle) \<longrightarrow> map (y_out s) [0..<y_deq s] = map Some (take (y_deq s) (y_in s))"
  proof
    assume idle: "\<forall>t. y_pc s t = Y_idle"
    have "y_out s p = Some (y_in s ! p)" if "p < y_deq s" for p
      using D(5) idle that by (cases "y_out s p") (auto simp: out_ok_def)
    then show "map (y_out s) [0..<y_deq s] = map Some (take (y_deq s) (y_in s))"
      using D(3) by (intro nth_equalityI) (simp_all add: y_enq_def)
  qed
qed


fun push_steps :: "nat \<Rightarrow> nat \<Rightarrow> nat \<Rightarrow> 'v VyRun \<Rightarrow> 'v VyRun" where
  "push_steps k t 0 s = s"
| "push_steps k t (Suc n) s = (case push_step k False t s of None \<Rightarrow> s | Some s' \<Rightarrow> push_steps k t n s')"

lemma push_steps_run: "(vy_step k)\<^sup>*\<^sup>* s (push_steps k t n s)"
proof (induction n arbitrary: s)
  case (Suc n)
  show ?case
  proof (cases "push_step k False t s")
    case (Some s')
    then show ?thesis using Suc [of s'] by (auto intro: converse_rtranclp_into_rtranclp vy_step.push)
  qed simp
qed simp

text \<open>A producer that has claimed the first position.\<close>

theorem vyukov_threads_fifo_witness:
  "\<exists>s. (vy_step 10)\<^sup>*\<^sup>* (vy_run_new (0 :: u32)) s \<and> y_in s = [7] \<and> y_pc s 3 = Y_push_value 7 0 \<and> y_enq s \<le> y_deq s + 1024"
proof -
  let ?a = "vy_goto 3 (Y_push_load 7) (vy_run_new (0 :: u32))"
  let ?s = "push_steps 10 3 3 ?a"
  have "vy_step 10 (vy_run_new 0) ?a" by (rule vy_step.call_push) (simp add: vy_run_new_def)
  moreover have "(vy_step 10)\<^sup>*\<^sup>* ?a ?s" by (rule push_steps_run)
  ultimately have run: "(vy_step 10)\<^sup>*\<^sup>* (vy_run_new 0) ?s" by (rule converse_rtranclp_into_rtranclp)
  have s: "y_in ?s = [7]" "y_pc ?s 3 = Y_push_value 7 0"
    by (simp_all add: numeral_eq_Suc push_step_def Let_def vy_run_new_def vy_new_def slot_of_def)
  then have "y_enq ?s < 2 ^ 62" by (simp add: y_enq_def)
  from vyukov_threads_fifo [OF run _ _ this] show ?thesis using run s by auto
qed

end
