(* ===== verification/Buffer_Threads.thy ===== *)
theory Buffer_Threads
  imports Vyukov_Threads Buffer_Pool
begin

text \<open>
  The buffer pool under concurrency: \<^verbatim>\<open>BufferPool::acquire\<close> and \<^verbatim>\<open>release\<close> (\<^verbatim>\<open>common/src/containers/buffer_pool.hpp\<close>) called by any number of
  threads, over the interleaved queue of \<open>Vyukov_Threads\<close>. The state adds where each index is; an index is
  released only by one who holds it, which is how \<^verbatim>\<open>Channel::write\<close> uses the pool.
\<close>

datatype place = In_counter | Held | Pushing nat | At_position nat | Lost

datatype pool_pc = B_idle | B_pop | B_fetch | B_push

record PoolRun =
  pr_run :: "u32 VyRun"
  pr_nextFreeIdx :: u32
  pr_pc :: "(nat, pool_pc) array"
  pr_place :: "u32 \<Rightarrow> place"
  pr_fetches :: nat

definition pool_run_new :: PoolRun where
  "pool_run_new = \<lparr>pr_run = vy_run_new 0, pr_nextFreeIdx = 0, pr_pc = (\<lambda>_. B_idle), pr_place = (\<lambda>_. In_counter), pr_fetches = 0\<rparr>"

text \<open>Where an index is after a step of \<^verbatim>\<open>pop\<close> or \<^verbatim>\<open>push\<close> by thread \<open>t\<close> in state \<open>s\<close>.\<close>

definition acquire_step :: "bool \<Rightarrow> nat \<Rightarrow> PoolRun \<Rightarrow> PoolRun option" where
  "acquire_step weak t s = (case pr_pc s t of
     B_pop \<Rightarrow>
       map_option (\<lambda>r. s\<lparr>pr_run := r,
           pr_pc := (pr_pc s)(t := (case y_pc (pr_run s) t of
                                      Y_pop_release out head \<Rightarrow> B_idle
                                    | Y_pop_seq head \<Rightarrow> if y_pc r t = Y_idle then B_fetch else B_pop
                                    | _ \<Rightarrow> B_pop)),
           pr_place := (case y_pc (pr_run s) t of
                          Y_pop_release out head \<Rightarrow> (pr_place s)(out := Held)
                        | _ \<Rightarrow> pr_place s)\<rparr>)
         (pop_step 10 weak t (pr_run s))
   | B_fetch \<Rightarrow>
       (let index = pr_nextFreeIdx s
        in Some (s\<lparr>pr_nextFreeIdx := index + 1, pr_pc := (pr_pc s)(t := B_idle), pr_fetches := pr_fetches s + 1,
                   pr_place := if index \<ge> POOL_SIZE then pr_place s else (pr_place s)(index := Held)\<rparr>))
   | _ \<Rightarrow> None)"

definition release_step :: "bool \<Rightarrow> nat \<Rightarrow> PoolRun \<Rightarrow> PoolRun option" where
  "release_step weak t s = (case pr_pc s t of
     B_push \<Rightarrow>
       map_option (\<lambda>r. s\<lparr>pr_run := r,
           pr_pc := (pr_pc s)(t := if y_pc r t = Y_idle then B_idle else B_push),
           pr_place := (case y_pc (pr_run s) t of
                          Y_push_cas item tail \<Rightarrow>
                            if y_enq r = y_enq (pr_run s) then pr_place s
                            else (pr_place s)(item := At_position (y_enq (pr_run s)))
                        | Y_push_seq item tail \<Rightarrow> if y_pc r t = Y_idle then (pr_place s)(item := Lost) else pr_place s
                        | _ \<Rightarrow> pr_place s)\<rparr>)
         (push_step 10 weak t (pr_run s))
   | _ \<Rightarrow> None)"

inductive pool_step :: "PoolRun \<Rightarrow> PoolRun \<Rightarrow> bool" where
  call_acquire: "pr_pc s t = B_idle \<Longrightarrow>
    pool_step s (s\<lparr>pr_run := vy_goto t Y_pop_load (pr_run s), pr_pc := (pr_pc s)(t := B_pop)\<rparr>)"
| call_release: "pr_pc s t = B_idle \<Longrightarrow> pr_place s index = Held \<Longrightarrow>
    pool_step s (s\<lparr>pr_run := vy_goto t (Y_push_load index) (pr_run s), pr_pc := (pr_pc s)(t := B_push),
                   pr_place := (pr_place s)(index := Pushing t)\<rparr>)"
| acquire: "acquire_step weak t s = Some s' \<Longrightarrow> pool_step s s'"
| release: "release_step weak t s = Some s' \<Longrightarrow> pool_step s s'"

section \<open>Invariant\<close>

text \<open>The pushed value a thread carries before it has a position, and the position a thread reads.\<close>

fun carried :: "'v vy_pc \<Rightarrow> 'v option" where
  "carried (Y_push_load item) = Some item"
| "carried (Y_push_seq item tail) = Some item"
| "carried (Y_push_cas item tail) = Some item"
| "carried _ = None"

fun reading :: "'v vy_pc \<Rightarrow> nat option" where
  "reading (Y_pop_value head) = Some (unat head)"
| "reading (Y_pop_release out head) = Some (unat head)"
| "reading _ = None"

definition place_ok :: "PoolRun \<Rightarrow> bool" where
  "place_ok s \<longleftrightarrow>
     (\<forall>t item. carried (y_pc (pr_run s) t) = Some item \<longrightarrow> pr_place s item = Pushing t) \<and>
     (\<forall>p. y_deq (pr_run s) \<le> p \<longrightarrow> p < y_enq (pr_run s) \<longrightarrow> pr_place s (y_in (pr_run s) ! p) = At_position p) \<and>
     (\<forall>t p. reading (y_pc (pr_run s) t) = Some p \<longrightarrow> pr_place s (y_in (pr_run s) ! p) = At_position p) \<and>
     (\<forall>i. pr_place s i \<noteq> In_counter \<longrightarrow> i < POOL_SIZE \<and> unat i < pr_fetches s) \<and>
     pr_nextFreeIdx s = of_nat (pr_fetches s)"

fun pcs_match :: "pool_pc \<Rightarrow> 'v vy_pc \<Rightarrow> bool" where
  "pcs_match B_idle c \<longleftrightarrow> c = Y_idle"
| "pcs_match B_fetch c \<longleftrightarrow> c = Y_idle"
| "pcs_match B_pop c \<longleftrightarrow> (case c of Y_pop_load \<Rightarrow> True | Y_pop_seq h \<Rightarrow> True | Y_pop_cas h \<Rightarrow> True | Y_pop_value h \<Rightarrow> True
     | Y_pop_release out h \<Rightarrow> True | _ \<Rightarrow> False)"
| "pcs_match B_push c \<longleftrightarrow> (case c of Y_push_load i \<Rightarrow> True | Y_push_seq i h \<Rightarrow> True | Y_push_cas i h \<Rightarrow> True | Y_push_value i h \<Rightarrow> True
     | Y_push_publish i h \<Rightarrow> True | _ \<Rightarrow> False)"

definition pool_run_inv :: "PoolRun \<Rightarrow> bool" where
  "pool_run_inv s \<longleftrightarrow> vy_run_inv 10 (pr_run s) \<and> place_ok s \<and> (\<forall>t. pcs_match (pr_pc s t) (y_pc (pr_run s) t))"

lemma pool_run_inv_new: "pool_run_inv pool_run_new"
  using vy_run_inv_new [of 10 "0 :: u32"]
  by (simp add: pool_run_inv_def pool_run_new_def place_ok_def vy_run_new_def y_enq_def)


lemma place_okD:
  assumes "place_ok s"
  shows "carried (y_pc (pr_run s) t) = Some item \<Longrightarrow> pr_place s item = Pushing t"
    "y_deq (pr_run s) \<le> p \<Longrightarrow> p < y_enq (pr_run s) \<Longrightarrow> pr_place s (y_in (pr_run s) ! p) = At_position p"
    "reading (y_pc (pr_run s) t) = Some p \<Longrightarrow> pr_place s (y_in (pr_run s) ! p) = At_position p"
    "pr_place s i \<noteq> In_counter \<Longrightarrow> i < POOL_SIZE" "pr_place s i \<noteq> In_counter \<Longrightarrow> unat i < pr_fetches s"
    "pr_nextFreeIdx s = of_nat (pr_fetches s)"
  using assms unfolding place_ok_def by blast+

lemma place_okI:
  assumes "\<And>t item. carried (y_pc (pr_run s) t) = Some item \<Longrightarrow> pr_place s item = Pushing t"
    "\<And>p. y_deq (pr_run s) \<le> p \<Longrightarrow> p < y_enq (pr_run s) \<Longrightarrow> pr_place s (y_in (pr_run s) ! p) = At_position p"
    "\<And>t p. reading (y_pc (pr_run s) t) = Some p \<Longrightarrow> pr_place s (y_in (pr_run s) ! p) = At_position p"
    "\<And>i. pr_place s i \<noteq> In_counter \<Longrightarrow> i < POOL_SIZE \<and> unat i < pr_fetches s"
    "pr_nextFreeIdx s = of_nat (pr_fetches s)"
  shows "place_ok s"
  unfolding place_ok_def by (intro conjI allI impI; (rule assms; assumption)?) (use assms(4) in blast)+

text \<open>Changing the place of an index that no thread and no position refers to.\<close>

definition unreferenced :: "PoolRun \<Rightarrow> u32 \<Rightarrow> bool" where
  "unreferenced s i \<longleftrightarrow> (\<forall>t. carried (y_pc (pr_run s) t) \<noteq> Some i) \<and>
     (\<forall>p. y_deq (pr_run s) \<le> p \<longrightarrow> p < y_enq (pr_run s) \<longrightarrow> y_in (pr_run s) ! p \<noteq> i) \<and>
     (\<forall>t p. reading (y_pc (pr_run s) t) = Some p \<longrightarrow> y_in (pr_run s) ! p \<noteq> i)"

lemma place_unreferenced: "place_ok s \<Longrightarrow> pr_place s i \<in> {Held, In_counter, Lost} \<Longrightarrow> unreferenced s i"
  unfolding unreferenced_def by (metis place_okD(1-3) insertE place.distinct place.simps singletonD)

lemma place_ok_upd:
  assumes ok: "place_ok s" and run: "pr_run s' = pr_run s" and free: "unreferenced s i"
    and place: "pr_place s' = (pr_place s)(i := v)" and i: "i < POOL_SIZE" "unat i < pr_fetches s'"
    and n: "pr_nextFreeIdx s' = of_nat (pr_fetches s')" "pr_fetches s \<le> pr_fetches s'"
  shows "place_ok s'"
proof (rule place_okI)
  note D = place_okD [OF ok]
  show "pr_place s' item = Pushing t" if "carried (y_pc (pr_run s') t) = Some item" for t item
    using D(1) [of t item] that free by (auto simp: run place unreferenced_def)
  show "pr_place s' (y_in (pr_run s') ! p) = At_position p" if "y_deq (pr_run s') \<le> p" "p < y_enq (pr_run s')" for p
    using D(2) [of p] that free by (simp add: run place unreferenced_def)
  show "pr_place s' (y_in (pr_run s') ! p) = At_position p" if "reading (y_pc (pr_run s') t) = Some p" for t p
    using D(3) [of t p] that free by (auto simp: run place unreferenced_def)
  show "j < POOL_SIZE \<and> unat j < pr_fetches s'" if "pr_place s' j \<noteq> In_counter" for j
    using D(4,5) [of j] that i n(2) by (auto simp: place split: if_splits)
  show "pr_nextFreeIdx s' = of_nat (pr_fetches s')" by (rule n(1))
qed

text \<open>A step of one thread on the queue that keeps the places.\<close>

lemma place_ok_run:
  assumes ok: "place_ok s" and pcs: "y_pc r = (y_pc (pr_run s))(t := c)"
    and c: "carried c = None \<or> carried c = carried (y_pc (pr_run s) t)"
    and rd: "reading c = None \<or> reading c = reading (y_pc (pr_run s) t) \<or> reading c = Some (y_deq (pr_run s)) \<and> y_deq (pr_run s) < y_enq r"
    and q: "y_in r = y_in (pr_run s)" "y_deq (pr_run s) \<le> y_deq r"
    and s': "pr_run s' = r" "pr_place s' = pr_place s" "pr_fetches s' = pr_fetches s" "pr_nextFreeIdx s' = pr_nextFreeIdx s"
  shows "place_ok s'"
proof (rule place_okI)
  note D = place_okD [OF ok]
  have E: "y_enq r = y_enq (pr_run s)" by (simp add: y_enq_def q)
  show "pr_place s' item = Pushing u" if "carried (y_pc (pr_run s') u) = Some item" for u item
    using D(1) [of u item] that c by (cases "u = t") (auto simp: s' pcs)
  show "pr_place s' (y_in (pr_run s') ! p) = At_position p" if "y_deq (pr_run s') \<le> p" "p < y_enq (pr_run s')" for p
    using D(2) [of p] that q E by (simp add: s')
  show "pr_place s' (y_in (pr_run s') ! p) = At_position p" if "reading (y_pc (pr_run s') u) = Some p" for u p
    using D(3) [of u p] D(2) [of p] that rd E by (cases "u = t") (auto simp: s' pcs q)
  show "j < POOL_SIZE \<and> unat j < pr_fetches s'" if "pr_place s' j \<noteq> In_counter" for j
    using D(4,5) [of j] that by (simp add: s')
  show "pr_nextFreeIdx s' = of_nat (pr_fetches s')" using D(6) by (simp add: s')
qed


section \<open>Steps\<close>

text \<open>An index that a pop has taken from a position before the head, which no other thread reads.\<close>

lemma taken_unreferenced:
  assumes ok: "place_ok s" and at: "pr_place s i = At_position p" and p: "p < y_deq (pr_run s)"
    and free: "\<And>u. reading (y_pc (pr_run s) u) \<noteq> Some p"
  shows "unreferenced s i"
  unfolding unreferenced_def
proof (intro conjI allI impI)
  show "carried (y_pc (pr_run s) u) \<noteq> Some i" for u using place_okD(1) [OF ok, of u i] at by auto
  show "y_in (pr_run s) ! p' \<noteq> i" if "y_deq (pr_run s) \<le> p'" "p' < y_enq (pr_run s)" for p'
    using place_okD(2) [OF ok that] at p that by auto
  show "y_in (pr_run s) ! p' \<noteq> i" if "reading (y_pc (pr_run s) u) = Some p'" for u p'
    using place_okD(3) [OF ok that] at free [of u] that by auto
qed

lemma acquire_pop_inv:
  assumes inv: "pool_run_inv s" and b: "y_enq (pr_run s) < 2 ^ 62" and pc: "pr_pc s t = B_pop" and st: "acquire_step weak t s = Some s'"
  shows "place_ok s'"
proof -
  let ?r = "pr_run s"
  have v: "vy_run_inv 10 ?r" and ok: "place_ok s" and m: "pcs_match B_pop (y_pc ?r t)"
    using inv pc by (auto simp: pool_run_inv_def elim: allE [of _ t])
  note V = vy_run_invD [OF v]
  obtain r where r: "pop_step 10 weak t ?r = Some r" and s': "s' = s\<lparr>pr_run := r, pr_pc := pr_pc s', pr_place := pr_place s'\<rparr>"
    and place: "pr_place s' = (case y_pc ?r t of Y_pop_release out head \<Rightarrow> (pr_place s)(out := Held) | _ \<Rightarrow> pr_place s)"
    using st pc by (auto simp: acquire_step_def)
  have keep: "pr_run s' = r" "pr_fetches s' = pr_fetches s" "pr_nextFreeIdx s' = pr_nextFreeIdx s" by (subst s', simp)+
  show ?thesis
  proof (cases "y_pc ?r t")
    case (Y_pop_release out h)
    then have rr: "y_pc r = (y_pc ?r)(t := Y_idle)" "y_in r = y_in ?r" "y_deq r = y_deq ?r"
      using r by (auto simp: pop_step_def Let_def)
    define s1 where "s1 = s\<lparr>pr_run := r\<rparr>"
    have ok1: "place_ok s1" by (rule place_ok_run [OF ok rr(1)]) (simp_all add: s1_def rr)
    have h: "unat h < y_deq ?r" "y_out ?r (unat h) = Some out" using V(6) [of t] Y_pop_release by simp_all
    then have out: "y_in ?r ! unat h = out" using V(5) by (simp add: out_ok_def)
    have at: "pr_place s out = At_position (unat h)" using place_okD(3) [OF ok, of t "unat h"] Y_pop_release out by simp
    have "unreferenced s1 out"
    proof (rule taken_unreferenced [OF ok1])
      show "reading (y_pc (pr_run s1) u) \<noteq> Some (unat h)" for u
        using V(7) [of t _ u] Y_pop_release by (cases "u = t"; cases "y_pc ?r u") (auto simp: s1_def rr)
    qed (use at h(1) in \<open>simp_all add: s1_def rr\<close>)
    then show ?thesis
      using place_okD(4-6) [OF ok] at
      by (intro place_ok_upd [OF ok1, of _ out Held]) (simp_all add: s1_def keep place Y_pop_release)
  next
    case (Y_pop_cas h)
    have hd: "h = vy_head (y_q ?r) \<Longrightarrow> unat h = y_deq ?r" using V(2,3) b by (simp add: unat_small)
    have i: "slot_of 10 h < 2 ^ 10" by (rule slot_of_less) simp
    have less: "y_deq ?r < y_enq ?r" if "h = vy_head (y_q ?r)"
      using V(6) [of t] Y_pop_cas hd [OF that] slots_okD(4) [OF V(4) i] by simp
    obtain c where c: "y_pc r = (y_pc ?r)(t := c)" "carried c = None" "reading c = None \<or> (reading c = Some (y_deq ?r) \<and> y_deq ?r < y_enq r)"
      and q: "y_in r = y_in ?r" "y_deq ?r \<le> y_deq r"
      using r Y_pop_cas hd less by (auto simp: pop_step_def Let_def y_enq_def split: if_splits)
    show ?thesis using c q by (intro place_ok_run [OF ok c(1)]) (auto simp: keep place Y_pop_cas)
  qed (use m r in \<open>auto intro!: place_ok_run [OF ok, of r t "y_pc r t"] simp: pop_step_def Let_def keep place split: if_splits\<close>)
qed


lemma acquire_fetch_inv:
  assumes inv: "pool_run_inv s" and b: "pr_fetches s < 2 ^ 32" and pc: "pr_pc s t = B_fetch" and st: "acquire_step weak t s = Some s'"
  shows "place_ok s'" and "pr_nextFreeIdx s < POOL_SIZE \<Longrightarrow> pr_place s (pr_nextFreeIdx s) = In_counter"
proof -
  let ?i = "pr_nextFreeIdx s"
  have ok: "place_ok s" using inv by (simp add: pool_run_inv_def)
  note D = place_okD [OF ok]
  have u: "unat ?i = pr_fetches s" using D(6) b by (simp add: unat_of_nat)
  show new: "?i < POOL_SIZE \<Longrightarrow> pr_place s ?i = In_counter" using D(5) [of ?i] u by auto
  have s': "s' = s\<lparr>pr_nextFreeIdx := ?i + 1, pr_pc := (pr_pc s)(t := B_idle), pr_fetches := pr_fetches s + 1,
      pr_place := if ?i \<ge> POOL_SIZE then pr_place s else (pr_place s)(?i := Held)\<rparr>"
    using st pc by (simp add: acquire_step_def Let_def)
  show "place_ok s'"
  proof (cases "?i < POOL_SIZE")
    case True
    have "unreferenced s ?i" using place_unreferenced [OF ok] new [OF True] by simp
    moreover have "pr_place s' = (pr_place s)(?i := Held)" using True [unfolded not_le [symmetric]] by (simp add: s')
    moreover have "pr_nextFreeIdx s' = of_nat (pr_fetches s')" "unat ?i < pr_fetches s'" "pr_run s' = pr_run s"
      "pr_fetches s \<le> pr_fetches s'" using D(6) u by (simp_all add: s')
    ultimately show ?thesis using True by (intro place_ok_upd [OF ok, of _ ?i Held])
  next
    case False
    then show ?thesis using ok by (auto simp: place_ok_def s' not_less less_Suc_eq)
  qed
qed

text \<open>A release that finds the queue full lets go of its index; nobody else refers to it.\<close>

lemma dropped_unreferenced:
  assumes ok: "place_ok s" and at: "pr_place s i = Pushing t" and free: "carried (y_pc (pr_run s) t) \<noteq> Some i"
  shows "unreferenced s i"
  unfolding unreferenced_def
proof (intro conjI allI impI)
  show "carried (y_pc (pr_run s) u) \<noteq> Some i" for u using place_okD(1) [OF ok, of u i] at free by auto
  show "y_in (pr_run s) ! p \<noteq> i" if "y_deq (pr_run s) \<le> p" "p < y_enq (pr_run s)" for p using place_okD(2) [OF ok that] at by auto
  show "y_in (pr_run s) ! p \<noteq> i" if "reading (y_pc (pr_run s) u) = Some p" for u p using place_okD(3) [OF ok that] at by auto
qed

text \<open>A push that claims a position moves its index there.\<close>

lemma place_ok_claim:
  assumes inv: "vy_run_inv 10 (pr_run s)" and ok: "place_ok s" and at: "pr_place s item = Pushing t"
    and r: "y_pc r = (y_pc (pr_run s))(t := Y_push_value item tail)" "y_in r = y_in (pr_run s) @ [item]" "y_deq r = y_deq (pr_run s)"
    and s': "pr_run s' = r" "pr_fetches s' = pr_fetches s" "pr_nextFreeIdx s' = pr_nextFreeIdx s"
      "pr_place s' = (pr_place s)(item := At_position (y_enq (pr_run s)))"
  shows "place_ok s'"
proof (rule place_okI)
  let ?r = "pr_run s"
  note V = vy_run_invD [OF inv] and D = place_okD [OF ok]
  have E: "y_enq r = Suc (y_enq ?r)" by (simp add: y_enq_def r)
  show "pr_place s' it = Pushing u" if "carried (y_pc (pr_run s') u) = Some it" for u it
    using D(1) [of u it] that at by (cases "u = t") (auto simp: s' r)
  show "pr_place s' (y_in (pr_run s') ! p) = At_position p" if "y_deq (pr_run s') \<le> p" "p < y_enq (pr_run s')" for p
  proof (cases "p = y_enq ?r")
    case True
    then show ?thesis by (simp add: s' r nth_append y_enq_def)
  next
    case False
    then show ?thesis using D(2) [of p] that at E by (auto simp: s' r nth_append y_enq_def)
  qed
  show "pr_place s' (y_in (pr_run s') ! p) = At_position p" if rd: "reading (y_pc (pr_run s') u) = Some p" for u p
  proof -
    have u: "reading (y_pc ?r u) = Some p" using rd by (cases "u = t") (auto simp: s' r)
    have "p < y_deq ?r" using V(6) [of u] u by (cases "y_pc ?r u") auto
    then show ?thesis using D(3) [OF u] at V(3) by (auto simp: s' r nth_append y_enq_def)
  qed
  show "j < POOL_SIZE \<and> unat j < pr_fetches s'" if "pr_place s' j \<noteq> In_counter" for j
    using D(4,5) [of j] that at by (auto simp: s' split: if_splits)
  show "pr_nextFreeIdx s' = of_nat (pr_fetches s')" using D(6) by (simp add: s')
qed

lemma release_push_inv:
  assumes inv: "pool_run_inv s" and b: "y_enq (pr_run s) < 2 ^ 62" and pc: "pr_pc s t = B_push" and st: "release_step weak t s = Some s'"
  shows "place_ok s'"
proof -
  let ?r = "pr_run s"
  have v: "vy_run_inv 10 ?r" and ok: "place_ok s" and m: "pcs_match B_push (y_pc ?r t)"
    using inv pc by (auto simp: pool_run_inv_def elim: allE [of _ t])
  have at: "pr_place s item = Pushing t" if "carried (y_pc ?r t) = Some item" for item using place_okD(1) [OF ok that] .
  obtain r where r: "push_step 10 weak t ?r = Some r" and s': "s' = s\<lparr>pr_run := r, pr_pc := pr_pc s', pr_place := pr_place s'\<rparr>"
    and place: "pr_place s' = (case y_pc ?r t of
        Y_push_cas item tail \<Rightarrow> if y_enq r = y_enq ?r then pr_place s else (pr_place s)(item := At_position (y_enq ?r))
      | Y_push_seq item tail \<Rightarrow> if y_pc r t = Y_idle then (pr_place s)(item := Lost) else pr_place s
      | _ \<Rightarrow> pr_place s)"
    using st pc by (auto simp: release_step_def)
  have keep: "pr_run s' = r" "pr_fetches s' = pr_fetches s" "pr_nextFreeIdx s' = pr_nextFreeIdx s" by (subst s', simp)+
  show ?thesis
  proof (cases "y_pc ?r t")
    case (Y_push_seq item tail)
    obtain c where c: "y_pc r = (y_pc ?r)(t := c)" "carried c = None \<or> carried c = Some item" "reading c = None"
        "c = Y_idle \<longleftrightarrow> carried c = None" and q: "y_in r = y_in ?r" "y_deq r = y_deq ?r"
      using r Y_push_seq by (auto simp: push_step_def Let_def split: if_splits)
    define s1 where "s1 = s\<lparr>pr_run := r\<rparr>"
    have ok1: "place_ok s1" using c q Y_push_seq by (intro place_ok_run [OF ok c(1)]) (auto simp: s1_def)
    show ?thesis
    proof (cases "c = Y_idle")
      case False
      then show ?thesis using ok1 c(1) keep by (simp add: place_ok_def s1_def place Y_push_seq)
    next
      case True
      then have "unreferenced s1 item" using at [of item] Y_push_seq c(1) by (intro dropped_unreferenced [OF ok1, of item t]) (simp_all add: s1_def)
      then show ?thesis using place_okD(4-6) [OF ok] at [of item] True
        by (intro place_ok_upd [OF ok1, of _ item Lost]) (simp_all add: s1_def keep place Y_push_seq c(1))
    qed
  next
    case (Y_push_cas item tail)
    show ?thesis
    proof (cases "y_enq r = y_enq ?r")
      case True
      then obtain c where c: "y_pc r = (y_pc ?r)(t := c)" "carried c = Some item" "reading c = None"
        and q: "y_in r = y_in ?r" "y_deq r = y_deq ?r"
        using r Y_push_cas by (auto simp: push_step_def Let_def y_enq_def split: if_splits)
      then show ?thesis using Y_push_cas True by (intro place_ok_run [OF ok c(1)]) (auto simp: keep place)
    next
      case False
      then have c: "y_pc r = (y_pc ?r)(t := Y_push_value item tail)" and q: "y_in r = y_in ?r @ [item]" "y_deq r = y_deq ?r"
        using r Y_push_cas by (auto simp: push_step_def Let_def y_enq_def split: if_splits)
      then show ?thesis using False at [of item] Y_push_cas by (intro place_ok_claim [OF v ok _ c q]) (simp_all add: keep place)
    qed
  qed (use m r in \<open>auto intro!: place_ok_run [OF ok, of r t "y_pc r t"] simp: push_step_def Let_def keep place split: if_splits\<close>)
qed

lemma pop_step_pcs: "pop_step k weak t r = Some r' \<Longrightarrow> u \<noteq> t \<Longrightarrow> y_pc r' u = y_pc r u"
  by (auto simp: pop_step_def Let_def split: vy_pc.splits if_splits)

lemma push_step_pcs: "push_step k weak t r = Some r' \<Longrightarrow> u \<noteq> t \<Longrightarrow> y_pc r' u = y_pc r u"
  by (auto simp: push_step_def Let_def split: vy_pc.splits if_splits)

lemma acquire_step_inv:
  assumes inv: "pool_run_inv s" and b: "y_enq (pr_run s) < 2 ^ 62" "pr_fetches s < 2 ^ 32" and st: "acquire_step weak t s = Some s'"
  shows "pool_run_inv s'"
proof (cases "pr_pc s t")
  case B_fetch
  then have "pr_run s' = pr_run s" "pr_pc s' = (pr_pc s)(t := B_idle)" "pcs_match B_fetch (y_pc (pr_run s) t)"
    using st inv by (auto simp: acquire_step_def Let_def pool_run_inv_def elim: allE [of _ t])
  then show ?thesis using inv acquire_fetch_inv(1) [OF inv b(2) B_fetch st] by (auto simp: pool_run_inv_def)
next
  case B_pop
  obtain r where r: "pop_step 10 weak t (pr_run s) = Some r" "pr_run s' = r"
    and pcs: "pr_pc s' = (pr_pc s)(t := (case y_pc (pr_run s) t of Y_pop_release out head \<Rightarrow> B_idle
      | Y_pop_seq head \<Rightarrow> if y_pc r t = Y_idle then B_fetch else B_pop | _ \<Rightarrow> B_pop))"
    using st B_pop by (auto simp: acquire_step_def)
  have m: "pcs_match (pr_pc s u) (y_pc (pr_run s) u)" for u using inv by (simp add: pool_run_inv_def)
  have v: "vy_run_inv 10 r" using inv pop_step_inv [OF _ _ _ b(1) r(1)] by (simp add: pool_run_inv_def)
  have "pcs_match (pr_pc s' t) (y_pc r t)"
    using r(1) m [of t] B_pop pcs by (cases "y_pc (pr_run s) t") (auto simp: pop_step_def Let_def split: if_splits)
  then have "pcs_match (pr_pc s' u) (y_pc (pr_run s') u)" for u
    using m [of u] pop_step_pcs [OF r(1), of u] r(2) pcs by (cases "u = t") simp_all
  then show ?thesis using acquire_pop_inv [OF inv b(1) B_pop st] v r(2) by (simp add: pool_run_inv_def)
qed (use st in \<open>simp_all add: acquire_step_def\<close>)

lemma release_step_inv:
  assumes inv: "pool_run_inv s" and b: "y_enq (pr_run s) < 2 ^ 62" and st: "release_step weak t s = Some s'"
  shows "pool_run_inv s'"
proof (cases "pr_pc s t")
  case B_push
  obtain r where r: "push_step 10 weak t (pr_run s) = Some r" "pr_run s' = r"
    and pcs: "pr_pc s' = (pr_pc s)(t := if y_pc r t = Y_idle then B_idle else B_push)"
    using st B_push by (auto simp: release_step_def)
  have m: "pcs_match (pr_pc s u) (y_pc (pr_run s) u)" for u using inv by (simp add: pool_run_inv_def)
  have v: "vy_run_inv 10 r" using inv push_step_inv [OF _ _ _ b r(1)] by (simp add: pool_run_inv_def)
  have "pcs_match (pr_pc s' t) (y_pc r t)"
    using r(1) m [of t] B_push pcs by (cases "y_pc (pr_run s) t") (auto simp: push_step_def Let_def split: if_splits)
  then have "pcs_match (pr_pc s' u) (y_pc (pr_run s') u)" for u
    using m [of u] push_step_pcs [OF r(1), of u] r(2) pcs by (cases "u = t") simp_all
  then show ?thesis using release_push_inv [OF inv b B_push st] v r(2) by (simp add: pool_run_inv_def)
qed (use st in \<open>simp_all add: release_step_def\<close>)


lemma call_acquire_inv:
  assumes inv: "pool_run_inv s" and idle: "pr_pc s t = B_idle"
  shows "pool_run_inv (s\<lparr>pr_run := vy_goto t Y_pop_load (pr_run s), pr_pc := (pr_pc s)(t := B_pop)\<rparr>)" (is "pool_run_inv ?s")
proof -
  have m: "pcs_match (pr_pc s u) (y_pc (pr_run s) u)" for u using inv by (simp add: pool_run_inv_def)
  have y: "y_pc (pr_run s) t = Y_idle" using m [of t] idle by simp
  have "vy_run_inv 10 (vy_goto t Y_pop_load (pr_run s))"
    using inv y by (intro vy_goto_inv) (simp_all add: pool_run_inv_def)
  moreover have "place_ok ?s"
  proof (rule place_ok_run)
    show "place_ok s" using inv by (simp add: pool_run_inv_def)
    show "y_pc (vy_goto t Y_pop_load (pr_run s)) = (y_pc (pr_run s))(t := Y_pop_load)" by simp
  qed simp_all
  ultimately show ?thesis using m by (simp add: pool_run_inv_def)
qed

lemma call_release_inv:
  assumes inv: "pool_run_inv s" and idle: "pr_pc s t = B_idle" and held: "pr_place s index = Held"
  shows "pool_run_inv (s\<lparr>pr_run := vy_goto t (Y_push_load index) (pr_run s), pr_pc := (pr_pc s)(t := B_push),
    pr_place := (pr_place s)(index := Pushing t)\<rparr>)" (is "pool_run_inv ?s")
proof -
  have m: "pcs_match (pr_pc s u) (y_pc (pr_run s) u)" for u using inv by (simp add: pool_run_inv_def)
  have y: "y_pc (pr_run s) t = Y_idle" using m [of t] idle by simp
  have ok: "place_ok s" using inv by (simp add: pool_run_inv_def)
  note D = place_okD [OF ok]
  have free: "unreferenced s index" by (rule place_unreferenced [OF ok]) (simp add: held)
  have "vy_run_inv 10 (vy_goto t (Y_push_load index) (pr_run s))"
    using inv y by (intro vy_goto_inv) (simp_all add: pool_run_inv_def)
  moreover have "place_ok ?s"
  proof (rule place_okI)
    show "pr_place ?s item = Pushing u" if "carried (y_pc (pr_run ?s) u) = Some item" for u item
      using D(1) [of u item] that free by (cases "u = t") (auto simp: unreferenced_def)
    show "pr_place ?s (y_in (pr_run ?s) ! p) = At_position p" if "y_deq (pr_run ?s) \<le> p" "p < y_enq (pr_run ?s)" for p
      using D(2) [of p] that free by (simp add: unreferenced_def)
    show "pr_place ?s (y_in (pr_run ?s) ! p) = At_position p" if "reading (y_pc (pr_run ?s) u) = Some p" for u p
      using D(3) [of u p] that free by (cases "u = t") (auto simp: unreferenced_def)
    show "j < POOL_SIZE \<and> unat j < pr_fetches ?s" if "pr_place ?s j \<noteq> In_counter" for j
      using D(4,5) [of j] D(4,5) [of index] that held by (auto split: if_splits)
    show "pr_nextFreeIdx ?s = of_nat (pr_fetches ?s)" using D(6) by simp
  qed
  ultimately show ?thesis using m by (simp add: pool_run_inv_def)
qed

lemma pool_step_mono:
  assumes "pool_step s s'"
  shows "y_enq (pr_run s) \<le> y_enq (pr_run s') \<and> pr_fetches s \<le> pr_fetches s'"
  using assms
proof cases
  case (acquire weak t)
  then show ?thesis
    by (auto simp: acquire_step_def Let_def split: pool_pc.splits intro: vy_step_enq [OF vy_step.pop])
next
  case (release weak t)
  then show ?thesis
    by (auto simp: release_step_def split: pool_pc.splits intro: vy_step_enq [OF vy_step.push])
qed simp_all

lemma pool_run_inv_run:
  assumes "pool_step\<^sup>*\<^sup>* pool_run_new s" and "y_enq (pr_run s) < 2 ^ 62" "pr_fetches s < 2 ^ 32"
  shows "pool_run_inv s"
  using assms
proof (induction rule: rtranclp_induct)
  case base
  show ?case by (rule pool_run_inv_new)
next
  case (step s s')
  have b: "y_enq (pr_run s) < 2 ^ 62" "pr_fetches s < 2 ^ 32" using pool_step_mono [OF step(2)] step.prems by simp_all
  have inv: "pool_run_inv s" by (rule step.IH [OF b])
  from step(2) show ?case
    by cases (use call_acquire_inv [OF inv] call_release_inv [OF inv] acquire_step_inv [OF inv b] release_step_inv [OF inv b(1)] in auto)
qed

text \<open>The index that the next step of a thread hands to the caller of \<^verbatim>\<open>acquire\<close>.\<close>

definition acquired :: "nat \<Rightarrow> PoolRun \<Rightarrow> u32 option" where
  "acquired t s = (case pr_pc s t of
     B_pop \<Rightarrow> (case y_pc (pr_run s) t of Y_pop_release out head \<Rightarrow> Some out | _ \<Rightarrow> None)
   | B_fetch \<Rightarrow> if pr_nextFreeIdx s \<ge> POOL_SIZE then None else Some (pr_nextFreeIdx s)
   | _ \<Rightarrow> None)"

text \<open>C18. Write buffers are exclusive: with any number of threads acquiring and releasing buffers, interleaved at every access to
  the queue and the counter (fewer than \<open>2 ^ 62\<close> releases and \<open>2 ^ 32\<close> draws from the counter), a buffer that is
  handed out lies in the pool and is held by nobody; two threads never hold one buffer.\<close>

theorem buffer_pool_exclusive:
  assumes "pool_step\<^sup>*\<^sup>* pool_run_new s" and "y_enq (pr_run s) < 2 ^ 62" "pr_fetches s < 2 ^ 32" and "acquired t s = Some i"
  shows "i < POOL_SIZE \<and> pr_place s i \<noteq> Held \<and> (\<exists>s'. acquire_step False t s = Some s' \<and> pr_place s' = (pr_place s)(i := Held))"
proof (cases "pr_pc s t")
  case B_pop
  have inv: "pool_run_inv s" by (rule pool_run_inv_run [OF assms(1-3)])
  obtain h where h: "y_pc (pr_run s) t = Y_pop_release i h"
    using assms(4) B_pop by (auto simp: acquired_def split: vy_pc.splits)
  have v: "vy_run_inv 10 (pr_run s)" and ok: "place_ok s" using inv by (simp_all add: pool_run_inv_def)
  have "y_in (pr_run s) ! unat h = i" using vy_run_invD(5) [OF v] vy_run_invD(6) [OF v, of t] h by (simp add: out_ok_def)
  then have at: "pr_place s i = At_position (unat h)" using place_okD(3) [OF ok, of t "unat h"] h by simp
  then show ?thesis using place_okD(4) [OF ok, of i] h B_pop by (simp add: acquire_step_def pop_step_def Let_def)
next
  case B_fetch
  have inv: "pool_run_inv s" by (rule pool_run_inv_run [OF assms(1-3)])
  have i: "i = pr_nextFreeIdx s" "\<not> POOL_SIZE \<le> i" using assms(4) B_fetch by (auto simp: acquired_def split: if_splits)
  obtain s' where st: "acquire_step False t s = Some s'" "pr_place s' = (pr_place s)(i := Held)"
    using B_fetch i by (simp add: acquire_step_def Let_def)
  show ?thesis using acquire_fetch_inv(2) [OF inv assms(3) B_fetch st(1)] st i by (simp add: not_le)
qed (use assms(4) in \<open>simp_all add: acquired_def\<close>)


text \<open>The first acquisition: the queue is empty, so the thread goes to the counter.\<close>

theorem buffer_pool_exclusive_witness:
  "\<exists>s. pool_step\<^sup>*\<^sup>* pool_run_new s \<and> acquired 2 s = Some 0 \<and> pr_place s 0 \<noteq> Held"
proof -
  define a where "a = pool_run_new\<lparr>pr_run := vy_goto 2 Y_pop_load (pr_run pool_run_new), pr_pc := (pr_pc pool_run_new)(2 := B_pop)\<rparr>"
  define b where "b = the (acquire_step False 2 a)"
  define c where "c = the (acquire_step False 2 b)"
  note defs = acquire_step_def pop_step_def Let_def pool_run_new_def vy_run_new_def vy_new_def
  have "pool_step pool_run_new a" unfolding a_def by (rule pool_step.call_acquire) (simp add: pool_run_new_def)
  moreover have ab: "acquire_step False 2 a = Some b" by (simp add: b_def a_def defs)
  moreover have bpc: "y_pc (pr_run b) 2 = Y_pop_seq 0" "pr_pc b 2 = B_pop" "y_q (pr_run b) = vy_new 0"
    by (simp_all add: b_def a_def defs)
  moreover have diff: "vy_diff (vy_sequence (vy_new 0) (slot_of 10 0)) 1 < 0"
    using vy_diff_empty [of 0] by (simp add: vy_new_def slot_of_def)
  moreover have bc: "acquire_step False 2 b = Some c" using bpc by (simp add: c_def acquire_step_def pop_step_def Let_def)
  ultimately have run: "pool_step\<^sup>*\<^sup>* pool_run_new c"
    by (meson converse_rtranclp_into_rtranclp pool_step.acquire rtranclp.rtrancl_refl)
  have "pr_pc c 2 = B_fetch" using bc bpc diff by (auto simp: acquire_step_def pop_step_def Let_def)
  moreover have "pr_nextFreeIdx c = 0" "y_enq (pr_run c) = 0" "pr_fetches c = 0"
    using bc bpc by (auto simp: acquire_step_def pop_step_def Let_def b_def a_def pool_run_new_def vy_run_new_def y_enq_def)
  ultimately have "acquired 2 c = Some 0" "y_enq (pr_run c) < 2 ^ 62" "pr_fetches c < 2 ^ 32"
    by (simp_all add: acquired_def POOL_SIZE_def)
  from buffer_pool_exclusive [OF run this(2,3,1)] show ?thesis using run \<open>acquired 2 c = Some 0\<close> by blast
qed

end
