(* ===== verification/Logging.thy ===== *)
theory Logging
  imports App_Config
begin

text \<open>
  The loggers of \<^verbatim>\<open>common/src/logging/spdlog\<close>: parsing of the level, \<^verbatim>\<open>SpdLogger::initialize\<close>, and where the logging macros send a message.
  The spdlog library is reduced to its loggers: a logger has a sink and a level, and writes the messages at or
  above its level.
\<close>

datatype spd_level = Lv_trace | Lv_debug | Lv_info | Lv_warn | Lv_err | Lv_critical | Lv_off

fun level_rank :: "spd_level \<Rightarrow> nat" where
  "level_rank Lv_trace = 0"
| "level_rank Lv_debug = 1"
| "level_rank Lv_info = 2"
| "level_rank Lv_warn = 3"
| "level_rank Lv_err = 4"
| "level_rank Lv_critical = 5"
| "level_rank Lv_off = 6"

definition level_fromString :: "string \<Rightarrow> spd_level" where
  "level_fromString levelStr =
     (let levelStr = toLower levelStr
      in if levelStr = ''trace'' then Lv_trace
         else if levelStr = ''debug'' then Lv_debug
         else if levelStr = ''info'' then Lv_info
         else if levelStr = ''warn'' then Lv_warn
         else if levelStr = ''error'' then Lv_err
         else if levelStr = ''crit'' then Lv_critical
         else if levelStr = ''off'' then Lv_off
         else Lv_info)"

text \<open>\<^verbatim>\<open>simpleFileName\<close>: the loop remembers the position after the last slash it passed.\<close>

fun simpleFileName_from :: "string \<Rightarrow> string \<Rightarrow> string" where
  "simpleFileName_from fname [] = fname"
| "simpleFileName_from fname (c # path) = simpleFileName_from (if c = CHR ''/'' then path else fname) path"

definition simpleFileName :: "string \<Rightarrow> string" where
  "simpleFileName path = simpleFileName_from path path"

section \<open>Loggers\<close>

datatype log_sink = Console | File string

record logger =
  lo_sink :: log_sink
  lo_level :: spd_level

text \<open>\<open>sl_default\<close> is the default logger of the library, which writes to the console until it is replaced.\<close>

record SpdLogger =
  sl_consoleLogger :: "logger option"
  sl_fileLogger :: "logger option"
  sl_default :: logger

definition logger_start :: SpdLogger where
  "logger_start = \<lparr>sl_consoleLogger = None, sl_fileLogger = None, sl_default = \<lparr>lo_sink = Console, lo_level = Lv_info\<rparr>\<rparr>"

section \<open>Macros\<close>

text \<open>\<open>active\<close> is \<^verbatim>\<open>SPDLOG_ACTIVE_LEVEL\<close>: the macros of lower levels are compiled to nothing. The console half of a system
  message is not compiled out.\<close>

type_synonym log_line = "log_sink \<times> spd_level \<times> string"

definition logger_log :: "logger \<Rightarrow> spd_level \<Rightarrow> string \<Rightarrow> log_line list" where
  "logger_log lo lvl msg = (if level_rank (lo_level lo) \<le> level_rank lvl then [(lo_sink lo, lvl, msg)] else [])"

definition LOG_BASE :: "SpdLogger \<Rightarrow> spd_level \<Rightarrow> string \<Rightarrow> log_line list" where
  "LOG_BASE l lvl msg = logger_log (sl_default l) lvl msg"

definition LOG_AT :: "spd_level \<Rightarrow> SpdLogger \<Rightarrow> spd_level \<Rightarrow> string \<Rightarrow> log_line list" where
  "LOG_AT active l lvl msg = (if level_rank active \<le> level_rank lvl then LOG_BASE l lvl msg else [])"

definition LOG_SYSTEM :: "spd_level \<Rightarrow> SpdLogger \<Rightarrow> spd_level \<Rightarrow> string \<Rightarrow> log_line list" where
  "LOG_SYSTEM active l lvl msg =
     LOG_AT active l lvl msg @ (case sl_consoleLogger l of None \<Rightarrow> [] | Some c \<Rightarrow> logger_log c lvl msg)"

section \<open>Initialization\<close>

text \<open>Result, loggers and what was written. A missing key throws, and so does a file that cannot be opened
  (\<open>canOpen\<close> is the file system); the loggers set before stay.\<close>

datatype log_error = LogKey string | LogFile string

definition SpdLogger_initialize ::
  "spd_level \<Rightarrow> (string \<Rightarrow> bool) \<Rightarrow> (string \<Rightarrow> string option) \<Rightarrow> SpdLogger \<Rightarrow> (log_error + unit) \<times> SpdLogger \<times> log_line list" where
  "SpdLogger_initialize active canOpen getS l =
     (if sl_fileLogger l \<noteq> None then (Inr (), l, LOG_SYSTEM active l Lv_err ''SpdLogger is already initialized'')
      else
        let l = l\<lparr>sl_consoleLogger := Some \<lparr>lo_sink = Console, lo_level = Lv_info\<rparr>\<rparr>
        in case getS ''log.level'' of
             None \<Rightarrow> (Inl (LogKey ''log.level''), l, [])
           | Some levelStr \<Rightarrow>
               let console = \<lparr>lo_sink = Console, lo_level = level_fromString levelStr\<rparr>;
                   l = l\<lparr>sl_consoleLogger := Some console\<rparr>
               in case getS ''log.output'' of
                    None \<Rightarrow> (Inl (LogKey ''log.output''), l, [])
                  | Some fileName \<Rightarrow>
                      if fileName = [] then (Inr (), l\<lparr>sl_default := console, sl_fileLogger := Some console\<rparr>, [])
                      else if \<not> canOpen fileName then (Inl (LogFile fileName), l, [])
                      else let fileLog = \<lparr>lo_sink = File fileName, lo_level = active\<rparr>
                           in (Inr (), l\<lparr>sl_fileLogger := Some fileLog, sl_default := fileLog\<rparr>, []))"

section \<open>What is written where\<close>

text \<open>The file name is what follows the last slash.\<close>

lemma takeWhile_no_slash:
  "CHR ''/'' \<notin> set path \<Longrightarrow>
    takeWhile (\<lambda>c. c \<noteq> CHR ''/'') (rev path @ ys) = rev path @ takeWhile (\<lambda>c. c \<noteq> CHR ''/'') ys"
  by (rule takeWhile_append2) auto

lemma simpleFileName_from_spec:
  "simpleFileName_from fname path =
     (if CHR ''/'' \<in> set path then rev (takeWhile (\<lambda>c. c \<noteq> CHR ''/'') (rev path)) else fname)"
  by (induction path arbitrary: fname) (auto simp: takeWhile_append1 takeWhile_no_slash)

lemma simpleFileName_spec: "simpleFileName path = rev (takeWhile (\<lambda>c. c \<noteq> CHR ''/'') (rev path))"
proof (cases "CHR ''/'' \<in> set path")
  case False
  have "rev (takeWhile (\<lambda>c. c \<noteq> CHR ''/'') (rev path)) = path"
    by (subst takeWhile_no_slash[OF False, of "[]", simplified append_Nil2 takeWhile.simps(1)]) (rule rev_rev_ident)
  then show ?thesis using False unfolding simpleFileName_def simpleFileName_from_spec by argo
qed (simp add: simpleFileName_def simpleFileName_from_spec)

text \<open>With both keys there and a file that opens, the loggers are those of the configuration.\<close>

lemma initialize_ok:
  assumes "getS ''log.level'' = Some lvl" and "getS ''log.output'' = Some out" and "sl_fileLogger l = None" and "out \<noteq> [] \<longrightarrow> canOpen out"
  shows "SpdLogger_initialize active canOpen getS l =
    (let console = \<lparr>lo_sink = Console, lo_level = level_fromString lvl\<rparr>;
         main = if out = [] then console else \<lparr>lo_sink = File out, lo_level = active\<rparr>
     in (Inr (), l\<lparr>sl_consoleLogger := Some console, sl_fileLogger := Some main, sl_default := main\<rparr>, []))"
  using assms by (simp add: SpdLogger_initialize_def Let_def)

text \<open>A second call only complains.\<close>

lemma initialize_again:
  assumes "SpdLogger_initialize active canOpen getS l = (Inr (), l', w)"
  shows "\<exists>w. SpdLogger_initialize active canOpen getS' l' = (Inr (), l', w)"
  using assms by (auto simp: SpdLogger_initialize_def Let_def split: if_splits option.splits)

text \<open>A system message at an enabled level is written to the file and once to the console; a configuration with no
  log file has it on the console twice.\<close>

lemma system_message_sinks:
  assumes "getS ''log.level'' = Some lvl" and "getS ''log.output'' = Some out" and "out \<noteq> [] \<longrightarrow> canOpen out"
    and "SpdLogger_initialize active canOpen getS logger_start = (Inr (), l, w)"
    and "level_rank (level_fromString lvl) \<le> level_rank m" and "level_rank active \<le> level_rank m"
  shows "LOG_SYSTEM active l m msg = [(if out = [] then Console else File out, m, msg), (Console, m, msg)]"
proof -
  have "sl_fileLogger logger_start = None" by (simp add: logger_start_def)
  from initialize_ok[of getS lvl out logger_start canOpen active, OF assms(1,2) this assms(3)] assms(4)
  have "sl_consoleLogger l = Some \<lparr>lo_sink = Console, lo_level = level_fromString lvl\<rparr>"
    "sl_default l = (if out = [] then \<lparr>lo_sink = Console, lo_level = level_fromString lvl\<rparr> else \<lparr>lo_sink = File out, lo_level = active\<rparr>)"
    by (auto simp: Let_def)
  then show ?thesis using assms(5,6) by (simp add: LOG_SYSTEM_def LOG_AT_def LOG_BASE_def logger_log_def)
qed

end
