(* ===== verification/Wiring.thy ===== *)
theory Wiring
  imports Bus Commands
begin

text \<open>
  How the three programs wire their components to their bus: the message types of the market buses (\<^verbatim>\<open>traits.hpp\<close>), what every
  constructor subscribes, and the order in which the control centers construct their members. A handler is named by the component
  it belongs to; \<open>shm\<close> and \<open>cicd\<close> are the build options \<^verbatim>\<open>COMM_SHM\<close> and \<^verbatim>\<open>CICD\<close>.
\<close>

section \<open>Messages and handlers\<close>

datatype msg_tag =
    T_ServerOrder | T_ServerOrderStatus | T_TickerPrice | T_InternalOrderEvent | T_InternalOrderStatus
  | T_Order | T_OrderStatus | T_TelemetryMsg
  | T_ServerLoginRequest | T_ServerLoginResponse | T_ServerTokenBindRequest | T_LoginResponse
  | T_ChannelStatusEvent | T_ConnectionStatusEvent | T_ServerConnectionState
  | T_ComponentReady | T_InternalError | T_ServerCommand | T_ClientCommand | T_MonitorCommand

datatype msg_val = V_server ServerCommand | V_client ClientCommand | V_monitor MonitorCommand | V_other nat

datatype owner =
    O_SessionManager | O_Authenticator | O_Coordinator | O_Gateway | O_GatewayRunner | O_PriceFeedStart | O_PriceFeedStop
  | O_ControlCenter | O_Stop | O_Calibrate | O_TradeStart | O_TradeStop | O_ConnectionManager | O_Engine | O_Telemetry | O_Tracker

type_synonym hub = "(msg_tag, msg_val, owner) BusHub"

definition hub_new :: hub where
  "hub_new = \<lparr>hub_system = sys_new, hub_market = mb_new\<rparr>"

definition hub_postTask :: "owner \<Rightarrow> hub \<Rightarrow> hub" where
  "hub_postTask f hub = hub\<lparr>hub_system := sys_enqueue (PostFn f) (hub_system hub)\<rparr>"

text \<open>Value subscriptions exist for types that can be a key of a map: the commands.\<close>

definition map_key :: "msg_tag \<Rightarrow> bool" where
  "map_key k \<longleftrightarrow> k \<in> {T_ServerCommand, T_ClientCommand, T_MonitorCommand, T_ServerConnectionState}"

section \<open>The server\<close>

definition SERVER_ROUTED :: "msg_tag list" where
  "SERVER_ROUTED = [T_ServerOrder, T_ServerOrderStatus, T_TickerPrice, T_InternalOrderEvent, T_InternalOrderStatus]"

definition network_sessions_subscribe :: "hub \<Rightarrow> hub" where
  "network_sessions_subscribe =
     hub_subscribe SERVER_ROUTED T_ServerTokenBindRequest O_SessionManager \<circ> hub_subscribe SERVER_ROUTED T_ChannelStatusEvent O_SessionManager \<circ>
     hub_subscribe SERVER_ROUTED T_ServerLoginResponse O_SessionManager \<circ> hub_subscribe SERVER_ROUTED T_ServerOrderStatus O_SessionManager"

definition trusted_sessions_subscribe :: "hub \<Rightarrow> hub" where
  "trusted_sessions_subscribe =
     hub_subscribe SERVER_ROUTED T_ChannelStatusEvent O_SessionManager \<circ> hub_subscribe SERVER_ROUTED T_ServerOrderStatus O_SessionManager"

definition authenticator_subscribe :: "hub \<Rightarrow> hub" where
  "authenticator_subscribe = hub_subscribe SERVER_ROUTED T_ServerLoginRequest O_Authenticator"

definition coordinator_subscribe :: "hub \<Rightarrow> hub" where
  "coordinator_subscribe = hub_subscribe SERVER_ROUTED T_InternalOrderEvent O_Coordinator"

text \<open>The gateway's runner is fed from the bus: its member is constructed before the gateway subscribes itself.\<close>

definition gateway_subscribe :: "hub \<Rightarrow> hub" where
  "gateway_subscribe = hub_subscribe SERVER_ROUTED T_ServerOrder O_Gateway \<circ> hub_subscribe SERVER_ROUTED T_InternalOrderStatus O_GatewayRunner"

definition price_feed_subscribe :: "hub \<Rightarrow> hub" where
  "price_feed_subscribe =
     hub_subscribeValue (T_ServerCommand, V_server PriceFeed_Stop) O_PriceFeedStop \<circ>
     hub_subscribeValue (T_ServerCommand, V_server PriceFeed_Start) O_PriceFeedStart"

definition server_cc_subscribe :: "hub \<Rightarrow> hub" where
  "server_cc_subscribe =
     hub_postTask O_Calibrate \<circ> hub_subscribeValue (T_ServerCommand, V_server SrvShutdown) O_Stop \<circ>
     hub_subscribe SERVER_ROUTED T_InternalError O_ControlCenter \<circ> hub_subscribe SERVER_ROUTED T_TickerPrice O_ControlCenter \<circ>
     hub_subscribe SERVER_ROUTED T_ComponentReady O_ControlCenter"

definition server_wiring :: "bool \<Rightarrow> hub" where
  "server_wiring shm =
     (server_cc_subscribe \<circ> price_feed_subscribe \<circ> gateway_subscribe \<circ> coordinator_subscribe \<circ> authenticator_subscribe \<circ>
      (if shm then trusted_sessions_subscribe else network_sessions_subscribe)) hub_new"

section \<open>The client\<close>

definition CLIENT_ROUTED :: "msg_tag list" where
  "CLIENT_ROUTED = [T_Order, T_OrderStatus, T_TickerPrice, T_TelemetryMsg]"

definition network_connection_subscribe :: "hub \<Rightarrow> hub" where
  "network_connection_subscribe =
     hub_subscribe CLIENT_ROUTED T_ConnectionStatusEvent O_ConnectionManager \<circ>
     hub_subscribe CLIENT_ROUTED T_LoginResponse O_ConnectionManager \<circ> hub_subscribe CLIENT_ROUTED T_Order O_ConnectionManager"

definition trusted_connection_subscribe :: "hub \<Rightarrow> hub" where
  "trusted_connection_subscribe =
     hub_subscribe CLIENT_ROUTED T_ConnectionStatusEvent O_ConnectionManager \<circ> hub_subscribe CLIENT_ROUTED T_Order O_ConnectionManager"

definition engine_subscribe :: "hub \<Rightarrow> hub" where
  "engine_subscribe = hub_subscribe CLIENT_ROUTED T_TickerPrice O_Engine \<circ> hub_subscribe CLIENT_ROUTED T_OrderStatus O_Engine"

definition client_cc_subscribe :: "hub \<Rightarrow> hub" where
  "client_cc_subscribe =
     hub_postTask O_Calibrate \<circ> hub_subscribeValue (T_ClientCommand, V_client ClShutdown) O_Stop \<circ>
     hub_subscribeValue (T_ClientCommand, V_client CmdStop) O_TradeStop \<circ> hub_subscribeValue (T_ClientCommand, V_client CmdStart) O_TradeStart \<circ>
     hub_subscribe CLIENT_ROUTED T_InternalError O_ControlCenter \<circ> hub_subscribe CLIENT_ROUTED T_ServerConnectionState O_ControlCenter \<circ>
     hub_subscribe CLIENT_ROUTED T_ComponentReady O_ControlCenter"

text \<open>The telemetry adapter subscribes when it is started; the adapter of the \<^verbatim>\<open>CICD\<close> build does nothing. A program that consumes telemetry
  starts to read instead.\<close>

definition telemetry_start :: "bool \<Rightarrow> msg_tag list \<Rightarrow> bool \<Rightarrow> hub \<Rightarrow> hub" where
  "telemetry_start cicd routed producer hub = (if cicd then hub else if producer then hub_subscribe routed T_TelemetryMsg O_Telemetry hub else hub)"

definition client_wiring :: "bool \<Rightarrow> bool \<Rightarrow> hub" where
  "client_wiring shm cicd =
     (telemetry_start cicd CLIENT_ROUTED True \<circ> client_cc_subscribe \<circ> engine_subscribe \<circ>
      (if shm then trusted_connection_subscribe else network_connection_subscribe)) hub_new"

section \<open>The monitor\<close>

definition MONITOR_ROUTED :: "msg_tag list" where
  "MONITOR_ROUTED = [T_TelemetryMsg]"

definition tracker_subscribe :: "hub \<Rightarrow> hub" where
  "tracker_subscribe = hub_subscribe MONITOR_ROUTED T_TelemetryMsg O_Tracker"

definition monitor_cc_subscribe :: "hub \<Rightarrow> hub" where
  "monitor_cc_subscribe =
     hub_postTask O_Calibrate \<circ> hub_subscribeValue (T_MonitorCommand, V_monitor MonShutdown) O_Stop \<circ>
     hub_subscribe MONITOR_ROUTED T_ComponentReady O_ControlCenter"

definition monitor_wiring :: "bool \<Rightarrow> hub" where
  "monitor_wiring cicd = (telemetry_start cicd MONITOR_ROUTED False \<circ> monitor_cc_subscribe \<circ> tracker_subscribe) hub_new"

section \<open>Who gets which message\<close>

text \<open>The consumer of every market message and the subscribers of every system event, as the comments of the control centers
  describe the flow.\<close>

fun server_handler :: "msg_tag \<Rightarrow> owner option" where
  "server_handler T_ServerOrder = Some O_Gateway"
| "server_handler T_InternalOrderEvent = Some O_Coordinator"
| "server_handler T_InternalOrderStatus = Some O_GatewayRunner"
| "server_handler T_ServerOrderStatus = Some O_SessionManager"
| "server_handler T_TickerPrice = Some O_ControlCenter"
| "server_handler _ = None"

fun server_calls :: "bool \<Rightarrow> msg_tag \<times> msg_val \<Rightarrow> owner list" where
  "server_calls shm (T_ServerLoginRequest, v) = [O_Authenticator]"
| "server_calls shm (T_ServerLoginResponse, v) = (if shm then [] else [O_SessionManager])"
| "server_calls shm (T_ServerTokenBindRequest, v) = (if shm then [] else [O_SessionManager])"
| "server_calls shm (T_ChannelStatusEvent, v) = [O_SessionManager]"
| "server_calls shm (T_ComponentReady, v) = [O_ControlCenter]"
| "server_calls shm (T_InternalError, v) = [O_ControlCenter]"
| "server_calls shm (T_ServerCommand, V_server PriceFeed_Start) = [O_PriceFeedStart]"
| "server_calls shm (T_ServerCommand, V_server PriceFeed_Stop) = [O_PriceFeedStop]"
| "server_calls shm (T_ServerCommand, V_server SrvShutdown) = [O_Stop]"
| "server_calls shm _ = []"

fun client_handler :: "bool \<Rightarrow> msg_tag \<Rightarrow> owner option" where
  "client_handler cicd T_Order = Some O_ConnectionManager"
| "client_handler cicd T_OrderStatus = Some O_Engine"
| "client_handler cicd T_TickerPrice = Some O_Engine"
| "client_handler cicd T_TelemetryMsg = (if cicd then None else Some O_Telemetry)"
| "client_handler cicd _ = None"

fun client_calls :: "bool \<Rightarrow> msg_tag \<times> msg_val \<Rightarrow> owner list" where
  "client_calls shm (T_LoginResponse, v) = (if shm then [] else [O_ConnectionManager])"
| "client_calls shm (T_ConnectionStatusEvent, v) = [O_ConnectionManager]"
| "client_calls shm (T_ServerConnectionState, v) = [O_ControlCenter]"
| "client_calls shm (T_ComponentReady, v) = [O_ControlCenter]"
| "client_calls shm (T_InternalError, v) = [O_ControlCenter]"
| "client_calls shm (T_ClientCommand, V_client CmdStart) = [O_TradeStart]"
| "client_calls shm (T_ClientCommand, V_client CmdStop) = [O_TradeStop]"
| "client_calls shm (T_ClientCommand, V_client ClShutdown) = [O_Stop]"
| "client_calls shm _ = []"

fun monitor_calls :: "msg_tag \<times> msg_val \<Rightarrow> owner list" where
  "monitor_calls (T_ComponentReady, v) = [O_ControlCenter]"
| "monitor_calls (T_MonitorCommand, V_monitor MonShutdown) = [O_Stop]"
| "monitor_calls _ = []"

fun called :: "(msg_tag, msg_val, owner) bus_call \<Rightarrow> owner" where
  "called (CallEvent h e) = h"
| "called (CallBack h) = h"

text \<open>What the system thread calls for the event \<open>e\<close>, when the events \<open>es\<close> were posted between the construction and \<open>e\<close>.\<close>

definition delivered :: "hub \<Rightarrow> (msg_tag \<times> msg_val) list \<Rightarrow> msg_tag \<times> msg_val \<Rightarrow> owner list" where
  "delivered hub es e =
     map called (fst (sys_run map_key (sb_tasks (hub_system hub) @ map PostEvent es @ [PostEvent e]) sys_new) ! (length (sb_tasks (hub_system hub)) + length es))"

lemmas wiring_defs =
  hub_subscribe_def hub_subscribeValue_def hub_postTask_def hub_new_def sys_enqueue_def mb_subscribe_def mb_new_def sys_new_def
  SERVER_ROUTED_def CLIENT_ROUTED_def MONITOR_ROUTED_def
  network_sessions_subscribe_def trusted_sessions_subscribe_def authenticator_subscribe_def coordinator_subscribe_def
  gateway_subscribe_def price_feed_subscribe_def server_cc_subscribe_def server_wiring_def
  network_connection_subscribe_def trusted_connection_subscribe_def engine_subscribe_def client_cc_subscribe_def
  telemetry_start_def client_wiring_def tracker_subscribe_def monitor_cc_subscribe_def monitor_wiring_def

lemma subs_before_events [simp]:
  "subs_before (ts @ map PostEvent es) k = subs_before ts k" "value_subs_before (ts @ map PostEvent es) e = value_subs_before ts e"
  by (simp_all add: subs_before_def value_subs_before_def comp_def)

lemma delivered_eq:
  "delivered hub es e = subs_before (sb_tasks (hub_system hub)) (fst e) @
     (if map_key (fst e) then value_subs_before (sb_tasks (hub_system hub)) e else [])"
proof -
  have "map called (map (\<lambda>h. CallEvent h e) hs @ (if b then map CallBack vs else [])) = hs @ (if b then vs else [])" for hs vs b
    by (simp add: comp_def)
  then show ?thesis
    using system_bus_delivery[of map_key "sb_tasks (hub_system hub) @ map PostEvent es" e "[]"] by (simp add: delivered_def)
qed

lemma server_market: "hub_market (server_wiring shm) k = server_handler k"
  by (cases k) (simp_all add: wiring_defs)

lemma client_market: "hub_market (client_wiring shm cicd) k = client_handler cicd k"
  by (cases k) (simp_all add: wiring_defs)

lemma monitor_market: "hub_market (monitor_wiring cicd) k = (if k = T_TelemetryMsg then Some O_Tracker else None)"
  by (cases k) (simp_all add: wiring_defs)

lemma server_delivered: "delivered (server_wiring shm) es e = server_calls shm e"
  by (cases "(shm, e)" rule: server_calls.cases) (simp_all add: delivered_eq wiring_defs subs_before_def value_subs_before_def map_key_def)

lemma client_delivered: "delivered (client_wiring shm cicd) es e = client_calls shm e"
  by (cases "(shm, e)" rule: client_calls.cases) (simp_all add: delivered_eq wiring_defs subs_before_def value_subs_before_def map_key_def)

lemma monitor_delivered: "delivered (monitor_wiring cicd) es e = monitor_calls e"
  by (cases e rule: monitor_calls.cases) (simp_all add: delivered_eq wiring_defs subs_before_def value_subs_before_def map_key_def)

lemma server_validated: "mb_validate typeName SERVER_ROUTED (hub_market (server_wiring shm)) = Inr ()"
  by (simp add: mb_validate_def mb_missing_def server_market SERVER_ROUTED_def)


text \<open>The client's market bus passes its validation exactly in the builds with telemetry: the adapter of the \<^verbatim>\<open>CICD\<close> build never
  subscribes to the telemetry messages.\<close>

lemma client_bus_wiring:
  "(mb_validate typeName CLIENT_ROUTED (hub_market (client_wiring shm cicd)) = Inr ()) = (\<not> cicd) \<and>
   delivered (client_wiring shm cicd) es e = client_calls shm e"
  by (simp add: client_delivered mb_validate_def mb_missing_def client_market CLIENT_ROUTED_def Let_def)

lemma monitor_bus_wiring:
  "mb_validate typeName MONITOR_ROUTED (hub_market (monitor_wiring cicd)) = Inr () \<and> delivered (monitor_wiring cicd) es e = monitor_calls e"
  by (simp add: monitor_delivered mb_validate_def mb_missing_def monitor_market MONITOR_ROUTED_def)

text \<open>Commands that the consoles accept and nobody handles: the telemetry commands of the server and of the client, and every server or
  client command given to the monitor.\<close>

lemma commands_unhandled:
  "delivered (server_wiring shm) es (T_ServerCommand, V_server SrvTelemetry_Start) = []"
  "delivered (client_wiring shm cicd) es (T_ClientCommand, V_client ClTelemetry_Start) = []"
  "delivered (monitor_wiring cicd) es (T_ServerCommand, v) = []" "delivered (monitor_wiring cicd) es (T_ClientCommand, v) = []"
  by (simp_all add: server_delivered client_delivered monitor_delivered)

section \<open>Consoles\<close>

text \<open>The timer of the console reader: an error ends it, else the input is checked and the timer set again. What was parsed is posted on the
  system bus; \<open>ev\<close> is the event of a command.\<close>

definition console_tick :: "bool \<Rightarrow> (string \<Rightarrow> bool \<times> 'c list) \<Rightarrow> string option \<Rightarrow> 'c list \<times> bool" where
  "console_tick ec parse input = (if ec then ([], False) else (inputCheck parse input, True))"

definition console_calls ::
  "hub \<Rightarrow> ('c \<Rightarrow> msg_tag \<times> msg_val) \<Rightarrow> (string \<Rightarrow> bool \<times> 'c list) \<Rightarrow> (msg_tag \<times> msg_val) list \<Rightarrow> string option \<Rightarrow> owner list" where
  "console_calls hub ev parse es input = concat (map (\<lambda>c. delivered hub es (ev c)) (fst (console_tick False parse input)))"

fun monitor_event :: "mon_post \<Rightarrow> msg_tag \<times> msg_val" where
  "monitor_event (MP_Client c) = (T_ClientCommand, V_client c)"
| "monitor_event (MP_Server c) = (T_ServerCommand, V_server c)"
| "monitor_event (MP_Monitor c) = (T_MonitorCommand, V_monitor c)"

text \<open>What a line typed at each console does, however many events were posted before.\<close>

lemma server_console:
  "console_calls (server_wiring shm) (\<lambda>c. (T_ServerCommand, V_server c)) server_parse es (Some line) =
     (if line = ''p+'' then [O_PriceFeedStart] else if line = ''p-'' then [O_PriceFeedStop] else if line = ''q'' then [O_Stop] else [])"
  by (simp add: console_calls_def console_tick_def inputCheck_def server_delivered server_parse_def server_commands_def)

lemma client_console:
  "console_calls (client_wiring shm cicd) (\<lambda>c. (T_ClientCommand, V_client c)) client_parse es (Some line) =
     (if line = ''s+'' then [O_TradeStart] else if line = ''s-'' then [O_TradeStop] else if line = ''q'' then [O_Stop] else [])"
  by (simp add: console_calls_def console_tick_def inputCheck_def client_delivered client_parse_def client_commands_def)

lemma monitor_console:
  "console_calls (monitor_wiring cicd) monitor_event monitor_parse es (Some line) = (if line = ''q'' then [O_Stop] else [])"
  by (simp add: console_calls_def console_tick_def inputCheck_def monitor_delivered monitor_parse_def monitor_commands_def
      client_parse_def client_commands_def server_parse_def server_commands_def)

end
