(* ===== verification/Programs.thy ===== *)
theory Programs
  imports Logging Control_Center Market_Data Trade_Engine Wiring
begin

text \<open>
  The three \<^verbatim>\<open>main\<close> functions (\<^verbatim>\<open>server/src/main.cpp\<close>, \<^verbatim>\<open>client/src/main.cpp\<close>, \<^verbatim>\<open>monitor/src/main.cpp\<close>): the command line, the
  configuration file, the loggers, the control center and its start. What the command line, the file system and the database answer are
  arguments; \<open>shm\<close> is the build option \<^verbatim>\<open>COMM_SHM\<close>. What follows \<^verbatim>\<open>bus_.run()\<close> is the subject of the other theories.
\<close>

section \<open>Arguments and results\<close>

datatype cmd_line = BadOptions | HelpOption | ConfigPath string

datatype cfg_file = NoFile | BadFile | IniFile "string \<Rightarrow> string option" "string \<Rightarrow> u64 option"

datatype main_error =
    ConfigNotFound string | ConfigMalformed string | ConfigInvalid cfg_error
  | LogFailed log_error | MultiWorker | DbClosed | DbStatus StatusCode | LoadFailed string | StartFailed string

datatype main_out = Out_Help | Out_Cerr main_error | Out_Log log_line | Out_Act cc_action

text \<open>\<^verbatim>\<open>main\<close> returns zero, or an exception leaves it, or it waits forever, or its behaviour is undefined.\<close>

datatype main_end = Returned | Uncaught | Blocked | Undefined

datatype body_end = Body_Done | Body_Throw main_error | Body_Blocked | Body_Undefined

definition Config_new :: "(string \<Rightarrow> cfg_file) \<Rightarrow> string \<Rightarrow> main_error + (string \<Rightarrow> string option) \<times> (string \<Rightarrow> u64 option)" where
  "Config_new files fileName =
     (case files fileName of
        NoFile \<Rightarrow> Inl (ConfigNotFound fileName)
      | BadFile \<Rightarrow> Inl (ConfigMalformed fileName)
      | IniFile getS getN \<Rightarrow> Inr (getS, getN))"

text \<open>The options are parsed outside of the \<^verbatim>\<open>try\<close> block; what the block throws is printed.\<close>

definition main_frame :: "cmd_line \<Rightarrow> (string \<Rightarrow> main_out list \<times> body_end) \<Rightarrow> main_out list \<times> main_end" where
  "main_frame cmd body =
     (case cmd of
        BadOptions \<Rightarrow> ([], Uncaught)
      | HelpOption \<Rightarrow> ([Out_Help], Returned)
      | ConfigPath configPath \<Rightarrow>
          (case body configPath of
             (out, Body_Done) \<Rightarrow> (out, Returned)
           | (out, Body_Throw e) \<Rightarrow> (out @ [Out_Cerr e], Returned)
           | (out, Body_Blocked) \<Rightarrow> (out, Blocked)
           | (out, Body_Undefined) \<Rightarrow> (out, Undefined)))"

text \<open>\<open>then_init\<close>: \<^verbatim>\<open>LOG_INIT\<close>, then the rest of the block.\<close>

definition then_init ::
  "spd_level \<Rightarrow> (string \<Rightarrow> bool) \<Rightarrow> (string \<Rightarrow> string option) \<Rightarrow> (SpdLogger \<Rightarrow> main_out list \<times> body_end) \<Rightarrow> main_out list \<times> body_end" where
  "then_init active canOpen getS rest =
     (case SpdLogger_initialize active canOpen getS logger_start of
        (Inl e, l, w) \<Rightarrow> (map Out_Log w, Body_Throw (LogFailed e))
      | (Inr _, l, w) \<Rightarrow> (case rest l of (out, res) \<Rightarrow> (map Out_Log w @ out, res)))"

text \<open>What a start did: an action that throws leaves \<^verbatim>\<open>start\<close> by the exception.\<close>

fun run_actions :: "cc_action list \<Rightarrow> main_out list \<times> body_end" where
  "run_actions [] = ([], Body_Done)"
| "run_actions (ThrowError what # acts) = ([], Body_Throw (StartFailed what))"
| "run_actions (a # acts) = (case run_actions acts of (out, res) \<Rightarrow> (Out_Act a # out, res))"

section \<open>The server\<close>

text \<open>The constructor of the control center: the connection, the market data and the price feed throw. \<open>db\<close> is \<^verbatim>\<open>None\<close> when the
  database cannot be opened, else what the two reads of the tickers return.\<close>

definition ServerCC_new ::
  "ServerConfig \<Rightarrow> ((StatusCode + TickerPrice list) \<times> (StatusCode + TickerPrice list)) option \<Rightarrow> main_error + MarketData" where
  "ServerCC_new cfg db =
     (case db of
        None \<Rightarrow> Inl DbClosed
      | Some (tickers, feed) \<Rightarrow>
          (case loadMarketData (sv_coresApp cfg) tickers of
             Inl code \<Rightarrow> Inl (DbStatus code)
           | Inr data \<Rightarrow> (case feed of Inl _ \<Rightarrow> Inl (LoadFailed ''Failed to load tickers'') | Inr _ \<Rightarrow> Inr data)))"

definition server_body where
  "server_body shm active canOpen files db typeName configPath =
     (case Config_new files configPath of
        Inl e \<Rightarrow> ([], Body_Throw e)
      | Inr (getS, getN) \<Rightarrow>
          (case load_ServerConfig getS getN of
             Inl e \<Rightarrow> ([], Body_Throw (ConfigInvalid e))
           | Inr cfg \<Rightarrow>
               then_init active canOpen getS (\<lambda>l.
                 if shm \<and> 1 < length (sv_coresApp cfg) then ([], Body_Throw MultiWorker)
                 else case ServerCC_new cfg db of
                        Inl e \<Rightarrow> ([], Body_Throw e)
                      | Inr data \<Rightarrow> 
                          run_actions (fst (scc_start (data = Map.empty)
                            (mb_validate typeName SERVER_ROUTED (hub_market (server_wiring shm)) = Inr ()) scc_new)))))"

definition server_main where
  "server_main shm active canOpen files db typeName cmd =
     main_frame cmd (server_body shm active canOpen files db typeName)"

section \<open>The client\<close>

definition ClientCC_new :: "(StatusCode + TickerPrice list) option \<Rightarrow> (main_error option) + (Ticker \<times> u32) list" where
  "ClientCC_new db =
     (case db of
        None \<Rightarrow> Inl (Some DbClosed)
      | Some tickers \<Rightarrow>
          (case te_loadMarketData tickers of
             Inl (LoadThrow what) \<Rightarrow> Inl (Some (LoadFailed what))
           | Inl LoadUndefined \<Rightarrow> Inl None
           | Inr market \<Rightarrow> Inr market))"

text \<open>When \<^verbatim>\<open>start\<close> comes back without having run the bus, nobody has requested a stop: the destructor of the engine joins its thread, which
  ends only on a stop request or when the key it reads first is missing.\<close>

definition client_run :: "bool \<Rightarrow> (string \<Rightarrow> u64 option) \<Rightarrow> main_out list \<times> body_end" where
  "client_run validated getN =
     (case ccc_start validated ccc_new of
        (acts, s) \<Rightarrow>
          (case run_actions acts of
             (out, res) \<Rightarrow>
               (out, if StartEngine \<in> set acts \<and> RunBus \<notin> set acts \<and> \<not> ccc_stopRequested s \<and> getN ''rates.warmup'' \<noteq> None
                     then Body_Blocked else res)))"

definition client_body where
  "client_body shm cicd active canOpen files db typeName configPath =
     (case Config_new files configPath of
        Inl e \<Rightarrow> ([], Body_Throw e)
      | Inr (getS, getN) \<Rightarrow>
          (case load_ClientConfig getS getN of
             Inl e \<Rightarrow> ([], Body_Throw (ConfigInvalid e))
           | Inr cfg \<Rightarrow>
               then_init active canOpen getS (\<lambda>l.
                 if shm \<and> 1 < length (cl_coresApp cfg) then ([], Body_Throw MultiWorker)
                 else case ClientCC_new db of
                        Inl (Some e) \<Rightarrow> ([], Body_Throw e)
                      | Inl None \<Rightarrow> ([], Body_Undefined)
                      | Inr market \<Rightarrow>
                          client_run (mb_validate typeName CLIENT_ROUTED (hub_market (client_wiring shm cicd)) = Inr ()) getN)))"

definition client_main where
  "client_main shm cicd active canOpen files db typeName cmd =
     main_frame cmd (client_body shm cicd active canOpen files db typeName)"

section \<open>The monitor\<close>

definition monitor_body where
  "monitor_body cicd active canOpen files typeName configPath =
     (case Config_new files configPath of
        Inl e \<Rightarrow> ([], Body_Throw e)
      | Inr (getS, getN) \<Rightarrow>
          (case load_MonitorConfig getS getN of
             Inl e \<Rightarrow> ([], Body_Throw (ConfigInvalid e))
           | Inr cfg \<Rightarrow>
               then_init active canOpen getS (\<lambda>l.
                 run_actions (fst (mcc_start (mb_validate typeName MONITOR_ROUTED (hub_market (monitor_wiring cicd)) = Inr ()) mcc_new)))))"

definition monitor_main where
  "monitor_main cicd active canOpen files typeName cmd = main_frame cmd (monitor_body cicd active canOpen files typeName)"

section \<open>What the programs do\<close>

lemma first_init:
  "then_init active canOpen getS rest =
     (case SpdLogger_initialize active canOpen getS logger_start of
        (Inl e, _) \<Rightarrow> ([], Body_Throw (LogFailed e))
      | (Inr _, l, _) \<Rightarrow> rest l)"
  by (auto simp: then_init_def SpdLogger_initialize_def logger_start_def Let_def split: option.splits if_splits prod.splits)

definition server_started :: "main_out list" where
  "server_started = map Out_Act [StartGateway, StartCoordinator, RunBus]"

lemma server_actions:
  "run_actions (fst (scc_start noTickers (mb_validate typeName SERVER_ROUTED (hub_market (server_wiring shm)) = Inr ()) scc_new)) =
     (if noTickers then ([], Body_Throw (StartFailed ''No ticker data loaded from db'')) else (server_started, Body_Done))"
  by (simp add: scc_start_def server_validated server_started_def)

lemma server_body_cases:
  obtains e where "server_body shm active canOpen files db typeName path = ([], Body_Throw e)"
  | getS getN cfg tickers feed data where
    "server_body shm active canOpen files db typeName path = (server_started, Body_Done)"
    "files path = IniFile getS getN" "load_ServerConfig getS getN = Inr cfg" "db = Some (tickers, Inr feed)"
    "loadMarketData (sv_coresApp cfg) tickers = Inr data" "data \<noteq> Map.empty" "shm \<longrightarrow> length (sv_coresApp cfg) \<le> 1"
proof (cases "Config_new files path")
  case (Inl e)
  then show ?thesis by (intro that(1)) (simp add: server_body_def)
next
  note throwing = that(1)
  case c: (Inr gets)
  then obtain getS getN where f: "files path = IniFile getS getN" "gets = (getS, getN)" by (auto simp: Config_new_def split: cfg_file.splits)
  show ?thesis
  proof (cases "load_ServerConfig getS getN")
    case (Inl e)
    then show ?thesis using c f by (intro that(1)) (simp add: server_body_def)
  next
    case l: (Inr cfg)
    obtain r lg w where init: "SpdLogger_initialize active canOpen getS logger_start = (r, lg, w)" by (metis prod_cases3)
    note body = server_body_def c f l first_init init server_actions
    have throw: thesis if "\<exists>e. server_body shm active canOpen files db typeName path = ([], Body_Throw e)"
      using that throwing by blast
    consider e where "r = Inl e" | "shm \<and> 1 < length (sv_coresApp cfg)" | e where "ServerCC_new cfg db = Inl e" | "ServerCC_new cfg db = Inr Map.empty"
      | u data where "r = Inr u" "\<not> (shm \<and> 1 < length (sv_coresApp cfg))" "ServerCC_new cfg db = Inr data" "data \<noteq> Map.empty"
      by (metis sumE)
    then show ?thesis
    proof cases
      case 5
      have "server_body shm active canOpen files db typeName path = (server_started, Body_Done)" using 5 by (simp add: body)
      moreover obtain tickers feed where "db = Some (tickers, Inr feed)" "loadMarketData (sv_coresApp cfg) tickers = Inr data"
        using 5(3) by (auto simp: ServerCC_new_def split: option.splits prod.splits sum.splits)
      ultimately show ?thesis using that(2) f(1) l 5(2,4) by (simp add: not_less)
    qed (rule throw, cases r, simp_all add: body)+
  qed
qed

lemma server_main_cases:
  "server_main shm active canOpen files db typeName cmd \<in>
     {([], Uncaught), ([Out_Help], Returned), (server_started, Returned)} \<union> range (\<lambda>e. ([Out_Cerr e], Returned))"
proof (cases cmd)
  case (ConfigPath path)
  show ?thesis
    by (rule server_body_cases[of shm active canOpen files db typeName path]) (auto simp: ConfigPath server_main_def main_frame_def)
qed (simp_all add: server_main_def main_frame_def)

lemma server_started_cases:
  assumes "server_main shm active canOpen files db typeName cmd = (server_started, res)"
  obtains path getS getN cfg tickers feed data where
    "cmd = ConfigPath path" "files path = IniFile getS getN" "load_ServerConfig getS getN = Inr cfg" "db = Some (tickers, Inr feed)"
    "loadMarketData (sv_coresApp cfg) tickers = Inr data" "data \<noteq> Map.empty" "shm \<longrightarrow> length (sv_coresApp cfg) \<le> 1"
proof -
  obtain path where path: "cmd = ConfigPath path"
    using assms by (cases cmd) (auto simp: server_main_def main_frame_def server_started_def)
  show ?thesis
  proof (rule server_body_cases[of shm active canOpen files db typeName path])
    show ?thesis if "server_body shm active canOpen files db typeName path = ([], Body_Throw e)" for e
      using that assms path by (simp add: server_main_def main_frame_def server_started_def)
  qed (rule that[OF path])
qed


lemma sample_market:
  "\<exists>data. loadMarketData [5] (Inr [\<lparr>tp_ticker = makeTicker ''AAPL'', tp_price = 100\<rparr>]) = Inr data \<and> data \<noteq> Map.empty"
  using load_balanced[of "[\<lparr>tp_ticker = makeTicker ''AAPL'', tp_price = 100\<rparr>]" "[5]"] by fastforce

abbreviation sample_keys :: "string \<Rightarrow> string option" where
  "sample_keys \<equiv> (sample_text ''5'')(''log.level'' := Some ''info'')"

abbreviation sample_tickers :: "TickerPrice list" where
  "sample_tickers \<equiv> [\<lparr>tp_ticker = makeTicker ''AAPL'', tp_price = 100\<rparr>]"

lemma sample_config: "\<exists>cfg. load_ServerConfig sample_keys (sample_num 4) = Inr cfg \<and> sv_coresApp cfg = [5]"
proof -
  have "load_ServerConfig sample_keys (sample_num 4) = load_ServerConfig (sample_text ''5'') (sample_num 4)"
    by (simp add: load_ServerConfig_def cfg_app_def cfg_get_def)
  then show ?thesis using sample_load[of 4] by auto
qed

lemma sample_main:
  "server_main True Lv_err (\<lambda>_. True) (\<lambda>_. IniFile sample_keys (sample_num 4)) (Some (Inr sample_tickers, Inr sample_tickers)) (\<lambda>_. ''T'') (ConfigPath ''s'')
     = (server_started, Returned)"
proof -
  obtain cfg where cfg: "load_ServerConfig sample_keys (sample_num 4) = Inr cfg" "sv_coresApp cfg = [5]" using sample_config by blast
  obtain data where data: "loadMarketData [5] (Inr sample_tickers) = Inr data" "data \<noteq> Map.empty" using sample_market by blast
  obtain l where "SpdLogger_initialize Lv_err (\<lambda>_. True) sample_keys logger_start = (Inr (), l, [])"
    using initialize_ok[of sample_keys "''info''" _ logger_start "\<lambda>_. True" Lv_err] by (auto simp: logger_start_def Let_def)
  then show ?thesis
    using cfg data
    by (simp add: server_main_def main_frame_def server_body_def Config_new_def first_init server_actions ServerCC_new_def)
qed


text \<open>With a good configuration and a ticker table, the client starts and runs its bus. Built with \<^verbatim>\<open>CICD\<close> the bus does not pass its validation:
  \<^verbatim>\<open>start\<close> logs that and returns, and \<^verbatim>\<open>main\<close> never ends, because the destructor waits for the trading thread, which nobody told to stop.\<close>

lemma client_main_ends:
  assumes "files path = IniFile getS getN" and "load_ClientConfig getS getN = Inr cfg" and "\<not> (shm \<and> 1 < length (cl_coresApp cfg))"
    and "SpdLogger_initialize active canOpen getS logger_start = (Inr (), l)" and "ClientCC_new db = Inr market" and "getN ''rates.warmup'' = Some n"
  shows "client_main shm cicd active canOpen files db typeName (ConfigPath path) =
    (if cicd then (map Out_Act [StartEngine, StartTelemetry], Blocked) else (map Out_Act [StartEngine, StartTelemetry, RunBus], Returned))"
  using assms client_bus_wiring[of typeName shm cicd, THEN conjunct1]
  by (cases cicd) (simp_all add: client_main_def main_frame_def client_body_def Config_new_def first_init client_run_def ccc_start_def ccc_new_def split: prod.splits)

lemma monitor_main_runs:
  assumes "files path = IniFile getS getN" and "load_MonitorConfig getS getN = Inr cfg"
    and "SpdLogger_initialize active canOpen getS logger_start = (Inr (), l)"
  shows "monitor_main cicd active canOpen files typeName (ConfigPath path) = (map Out_Act [StartTelemetry, RunBus], Returned)"
  using assms monitor_bus_wiring[of typeName cicd]
  by (simp add: monitor_main_def main_frame_def monitor_body_def Config_new_def first_init mcc_start_def split: prod.splits)

end
