(* ===== verification/Engine_Threads.thy ===== *)
theory Engine_Threads
  imports Trade_Engine Text_Utils
begin

text \<open>
  The threads around the trade engine (\<^verbatim>\<open>client/src/execution/trade_engine.hpp\<close>): the worker thread that runs \<^verbatim>\<open>tradeLoop\<close>, the thread that
  receives statuses and prices, and the system thread that starts and stops the engine, in any interleaving of their atomic steps.
  \<^verbatim>\<open>TradeEngine::stop\<close> is \<^verbatim>\<open>utils::join\<close> of the worker (\<^verbatim>\<open>common/src/utils/thread_utils.hpp\<close>): a thread that joins waits until the worker has
  ended, and the worker itself does not wait. \<open>warmup\<close> says whether the key \<^verbatim>\<open>rates.warmup\<close> is there.
\<close>

section \<open>Steps\<close>

datatype worker_phase = W_none | W_spawned | W_loop | W_ended | W_joined

datatype recv_phase = R_idle | R_join

datatype sys_phase = S_run | S_join | S_done

datatype engine_post = EP_Ready | EP_Error | EP_Out te_out

record EngineSys =
  es_engine :: TradeEngine
  es_worker :: worker_phase
  es_receiver :: recv_phase
  es_system :: sys_phase
  es_log :: "engine_post list"

definition engine_sys_new :: "(Ticker \<times> u32) list \<Rightarrow> EngineSys" where
  "engine_sys_new market = \<lparr>es_engine = te_new market, es_worker = W_none, es_receiver = R_idle, es_system = S_run, es_log = []\<rparr>"

definition worker_alive :: "EngineSys \<Rightarrow> bool" where
  "worker_alive s \<longleftrightarrow> es_worker s = W_spawned \<or> es_worker s = W_loop"

text \<open>\<^verbatim>\<open>joinable\<close>: the thread was created and not joined.\<close>

definition worker_joinable :: "EngineSys \<Rightarrow> bool" where
  "worker_joinable s \<longleftrightarrow> es_worker s \<noteq> W_none \<and> es_worker s \<noteq> W_joined"

definition system_start :: "EngineSys \<Rightarrow> EngineSys option" where
  "system_start s =
     (if es_system s \<noteq> S_run then None
      else if te_started (es_engine s) then Some s
      else Some (s\<lparr>es_engine := snd (te_start (es_engine s)), es_worker := W_spawned\<rparr>))"

text \<open>The thread function: report, read the key, loop. What is thrown is posted as an error.\<close>

definition worker_begin :: "bool \<Rightarrow> EngineSys \<Rightarrow> EngineSys option" where
  "worker_begin warmup s =
     (if es_worker s \<noteq> W_spawned then None
      else if warmup then Some (s\<lparr>es_worker := W_loop, es_log := es_log s @ [EP_Ready]\<rparr>)
      else Some (s\<lparr>es_worker := W_ended, es_log := es_log s @ [EP_Ready, EP_Error]\<rparr>))"

definition worker_turn :: "nat \<Rightarrow> nat \<Rightarrow> nat \<Rightarrow> u64 \<Rightarrow> EngineSys \<Rightarrow> EngineSys option" where
  "worker_turn rp ra rq now s =
     (if es_worker s \<noteq> W_loop then None
      else case te_loop_step rp ra rq now (es_engine s) of
             (go, out, e) \<Rightarrow>
               Some (s\<lparr>es_engine := e, es_worker := if go then W_loop else W_ended, es_log := es_log s @ map EP_Out out\<rparr>))"

text \<open>A status with an invalid id, or for a record that is not valid, makes the receiver call \<^verbatim>\<open>stop\<close>.\<close>

definition bad_status :: "OrderStatus \<Rightarrow> TradeEngine \<Rightarrow> bool" where
  "bad_status st e \<longleftrightarrow> \<not> te_stopRequested e \<and>
     (\<not> slot_isValid SystemOrderId_cap (os_orderId st) \<or> \<not> co_isValid (te_orders e (slot_index SystemOrderId_cap (os_orderId st))))"

definition receive_status :: "u8 list \<Rightarrow> nat \<Rightarrow> u64 \<Rightarrow> OrderStatus \<Rightarrow> EngineSys \<Rightarrow> EngineSys option" where
  "receive_status junk rc cycl st s =
     (if es_receiver s \<noteq> R_idle then None
      else case te_postStatus junk rc cycl st (es_engine s) of
             (out, e) \<Rightarrow>
               Some (s\<lparr>es_engine := e, es_receiver := if bad_status st (es_engine s) \<and> worker_joinable s then R_join else R_idle,
                 es_log := es_log s @ map EP_Out out\<rparr>))"

definition receive_price :: "TickerPrice \<Rightarrow> EngineSys \<Rightarrow> EngineSys option" where
  "receive_price p s = (if es_receiver s \<noteq> R_idle then None else Some (s\<lparr>es_engine := te_postPrice p (es_engine s)\<rparr>))"

definition receiver_joined :: "EngineSys \<Rightarrow> EngineSys option" where
  "receiver_joined s =
     (if es_receiver s = R_join \<and> \<not> worker_alive s then Some (s\<lparr>es_receiver := R_idle, es_worker := W_joined\<rparr>) else None)"

definition system_trade :: "bool \<Rightarrow> EngineSys \<Rightarrow> EngineSys option" where
  "system_trade on s =
     (if es_system s \<noteq> S_run then None
      else Some (s\<lparr>es_engine := (if on then te_tradeStart else te_tradeStop) (es_engine s)\<rparr>))"

text \<open>\<^verbatim>\<open>ControlCenter::stop\<close> as far as it concerns the engine: the stop request, then \<^verbatim>\<open>engine_.stop()\<close>.\<close>

definition system_stop :: "EngineSys \<Rightarrow> EngineSys option" where
  "system_stop s =
     (if es_system s \<noteq> S_run then None
      else Some (s\<lparr>es_engine := (es_engine s)\<lparr>te_stopRequested := True\<rparr>, es_system := if worker_joinable s then S_join else S_done\<rparr>))"

definition system_joined :: "EngineSys \<Rightarrow> EngineSys option" where
  "system_joined s = (if es_system s = S_join \<and> \<not> worker_alive s then Some (s\<lparr>es_system := S_done, es_worker := W_joined\<rparr>) else None)"

text \<open>The steps that end threads and joins, and the others.\<close>

inductive ending_step :: "bool \<Rightarrow> EngineSys \<Rightarrow> EngineSys \<Rightarrow> bool" for warmup where
  begin_: "worker_begin warmup s = Some s' \<Longrightarrow> ending_step warmup s s'"
| turn: "worker_turn rp ra rq now s = Some s' \<Longrightarrow> ending_step warmup s s'"
| receiver: "receiver_joined s = Some s' \<Longrightarrow> ending_step warmup s s'"
| system: "system_joined s = Some s' \<Longrightarrow> ending_step warmup s s'"

inductive engine_step :: "bool \<Rightarrow> EngineSys \<Rightarrow> EngineSys \<Rightarrow> bool" for warmup where
  ending: "ending_step warmup s s' \<Longrightarrow> engine_step warmup s s'"
| start: "system_start s = Some s' \<Longrightarrow> engine_step warmup s s'"
| trade: "system_trade on s = Some s' \<Longrightarrow> engine_step warmup s s'"
| stop: "system_stop s = Some s' \<Longrightarrow> engine_step warmup s s'"
| status: "receive_status junk rc cycl st s = Some s' \<Longrightarrow> engine_step warmup s s'"
| price: "receive_price p s = Some s' \<Longrightarrow> engine_step warmup s s'"

inductive engine_reach :: "bool \<Rightarrow> (Ticker \<times> u32) list \<Rightarrow> EngineSys \<Rightarrow> bool" for warmup market where
  init: "engine_reach warmup market (engine_sys_new market)"
| step: "engine_reach warmup market s \<Longrightarrow> engine_step warmup s s' \<Longrightarrow> engine_reach warmup market s'"

text \<open>The statistics timer: an error or a stop request ends it, else it prints when the sum of the counters changed and is set again.\<close>

definition stats_tick :: "bool \<Rightarrow> u64 \<Rightarrow> TradeEngine \<Rightarrow> (string option \<times> u64) option" where
  "stats_tick code lastCounter e =
     (if code \<or> te_stopRequested e then None
      else let counter = te_placed e + te_fulfilled e + te_cancelled e
           in Some (if lastCounter \<noteq> counter
                    then Some (''Placed:'' @ formatCompact (te_placed e) @ '' Closed:'' @ formatCompact (te_fulfilled e) @
                      '' Cancelled:'' @ formatCompact (te_cancelled e))
                    else None, counter))"

section \<open>The stop request\<close>

lemma te_stop_kept [simp]:
  "te_stopRequested (te_tradeStart e) = te_stopRequested e" "te_stopRequested (te_tradeStop e) = te_stopRequested e"
  "te_stopRequested (te_postPrice p e) = te_stopRequested e" "te_stopRequested (snd (te_start e)) = te_stopRequested e"
  by (simp_all add: te_tradeStart_def te_tradeStop_def te_postPrice_def te_start_def)

lemma te_status_stop [simp]: "te_stopRequested (snd (te_postStatus junk rc cycl st e)) = te_stopRequested e"
  by (simp add: te_postStatus_def Let_def split: OrderState.splits)

lemma te_send_stop:
  "te_sendNew rp ra rq now e = (b, out, e') \<Longrightarrow> te_stopRequested e' = te_stopRequested e"
  "te_sendCancel now e = (b, out, e') \<Longrightarrow> te_stopRequested e' = te_stopRequested e"
  by (auto simp: te_sendNew_def te_sendCancel_def Let_def split: prod.splits option.splits if_splits)

lemma te_loop_stop:
  assumes "te_loop_step rp ra rq now e = (go, out, e')"
  shows "te_stopRequested e' = te_stopRequested e" and "te_stopRequested e \<Longrightarrow> \<not> go \<and> out = [] \<and> e' = e"
  using assms by (auto simp: te_loop_step_def te_send_stop split: if_splits prod.splits bool.splits)

definition stop_inv :: "EngineSys \<Rightarrow> bool" where
  "stop_inv s \<longleftrightarrow> (es_system s = S_run \<longleftrightarrow> \<not> te_stopRequested (es_engine s))"

text \<open>Steps by the fields they touch.\<close>

lemma ending_step_fields:
  assumes "ending_step warmup s s'"
  shows "te_stopRequested (es_engine s') = te_stopRequested (es_engine s)" "es_system s' = S_run \<longleftrightarrow> es_system s = S_run"
  using assms
  by (cases; auto simp: worker_begin_def worker_turn_def receiver_joined_def system_joined_def te_loop_stop(1) split: if_splits prod.splits)+

lemma stop_inv_step:
  assumes "engine_step warmup s s'" and "stop_inv s"
  shows "stop_inv s'"
  using assms(1)
proof cases
  case ending
  then show ?thesis using ending_step_fields assms(2) by (simp add: stop_inv_def)
next
  case (status junk rc cycl st)
  obtain out e where p: "te_postStatus junk rc cycl st (es_engine s) = (out, e)" by fastforce
  then have "te_stopRequested e = te_stopRequested (es_engine s)" using te_status_stop[of junk rc cycl st "es_engine s"] by simp
  then have "te_stopRequested (es_engine s') = te_stopRequested (es_engine s)" "es_system s' = es_system s"
    using status p by (auto simp: receive_status_def split: if_splits)
  then show ?thesis using assms(2) by (simp add: stop_inv_def)
qed (use assms(2) in \<open>auto simp: stop_inv_def system_start_def system_trade_def system_stop_def receive_price_def split: if_splits\<close>)

lemma stop_inv_reach: "engine_reach warmup market s \<Longrightarrow> stop_inv s"
proof (induction rule: engine_reach.induct)
  case init
  then show ?case by (simp add: stop_inv_def engine_sys_new_def te_new_def)
next
  case (step s s')
  then show ?case by (blast intro: stop_inv_step)
qed

fun worker_left :: "worker_phase \<Rightarrow> nat" where
  "worker_left W_spawned = 2"
| "worker_left W_loop = 1"
| "worker_left _ = 0"

definition steps_left :: "EngineSys \<Rightarrow> nat" where
  "steps_left s = worker_left (es_worker s) + (if es_receiver s = R_join then 1 else 0) + (if es_system s = S_done then 0 else 1)"

text \<open>Once the stop is requested, every such step brings the engine nearer to its end, and the others change nothing.\<close>

lemma ending_step_left:
  assumes "ending_step warmup s s'" and "te_stopRequested (es_engine s)"
  shows "steps_left s' < steps_left s"
  using assms(1)
proof cases
  case (turn rp ra rq now)
  obtain go out e where l: "te_loop_step rp ra rq now (es_engine s) = (go, out, e)" by (metis prod_cases3)
  then show ?thesis using turn te_loop_stop(2)[OF l assms(2)] by (auto simp: worker_turn_def steps_left_def split: if_splits)
next
  case receiver
  then show ?thesis by (cases "es_worker s") (auto simp: receiver_joined_def worker_alive_def steps_left_def split: if_splits)
next
  case system
  then show ?thesis by (cases "es_worker s") (auto simp: system_joined_def worker_alive_def steps_left_def split: if_splits)
qed (auto simp: worker_begin_def steps_left_def split: if_splits)

lemma other_step_left:
  assumes "engine_step warmup s s'" and "\<not> ending_step warmup s s'" and "te_stopRequested (es_engine s)" and "stop_inv s"
  shows "steps_left s' = steps_left s"
  using assms(1)
proof cases
  case (status junk rc cycl st)
  have "te_postStatus junk rc cycl st (es_engine s) = ([], es_engine s)" "\<not> bad_status st (es_engine s)"
    using assms(3) by (simp_all add: te_postStatus_def bad_status_def Let_def)
  then show ?thesis using status by (auto simp: receive_status_def steps_left_def split: if_splits)
qed (use assms in \<open>auto simp: stop_inv_def system_start_def system_trade_def system_stop_def receive_price_def steps_left_def split: if_splits\<close>)

lemma ending_enabled:
  assumes "te_stopRequested (es_engine s)" and "stop_inv s" and "worker_alive s \<or> es_receiver s = R_join \<or> es_system s \<noteq> S_done"
  shows "\<exists>s'. ending_step warmup s s'"
proof (cases "worker_alive s")
  case True
  then consider "es_worker s = W_spawned" | "es_worker s = W_loop" by (auto simp: worker_alive_def)
  then show ?thesis
  proof cases
    case 1
    then have "\<exists>s'. worker_begin warmup s = Some s'" by (simp add: worker_begin_def)
    then show ?thesis by (blast intro: ending_step.begin_)
  next
    case 2
    then have "\<exists>s'. worker_turn 0 0 0 0 s = Some s'" by (simp add: worker_turn_def split: prod.splits)
    then show ?thesis by (blast intro: ending_step.turn)
  qed
next
  case False
  then consider "es_receiver s = R_join" | "es_system s = S_join" using assms by (cases "es_system s") (auto simp: stop_inv_def)
  then show ?thesis
  proof cases
    case 1
    then have "\<exists>s'. receiver_joined s = Some s'" using False by (simp add: receiver_joined_def)
    then show ?thesis by (blast intro: ending_step.receiver)
  next
    case 2
    then have "\<exists>s'. system_joined s = Some s'" using False by (simp add: system_joined_def)
    then show ?thesis by (blast intro: ending_step.system)
  qed
qed


section \<open>Scenarios\<close>

abbreviation demo_market :: "(Ticker \<times> u32) list" where
  "demo_market \<equiv> [(makeTicker ''AAPL'', 100)]"

definition demo_running :: EngineSys where
  "demo_running = (engine_sys_new demo_market)\<lparr>es_engine := (te_new demo_market)\<lparr>te_started := True\<rparr>, es_worker := W_loop, es_log := [EP_Ready]\<rparr>"

lemma demo_running_reach: "engine_reach True demo_market demo_running"
proof -
  let ?s0 = "engine_sys_new demo_market"
  let ?t = "?s0\<lparr>es_engine := (te_new demo_market)\<lparr>te_started := True\<rparr>, es_worker := W_spawned\<rparr>"
  have "system_start ?s0 = Some ?t" by (simp add: system_start_def engine_sys_new_def te_new_def te_start_def)
  then have t: "engine_reach True demo_market ?t" by (blast intro: engine_reach.intros engine_step.start)
  have "worker_begin True ?t = Some demo_running" by (simp add: worker_begin_def demo_running_def engine_sys_new_def)
  then show ?thesis by (rule engine_reach.step[OF t engine_step.ending, OF ending_step.begin_])
qed


text \<open>A status that names no valid order makes the receiving thread wait for a worker that was not told to stop: while the
  worker trades, the receiver handles no other status or price.\<close>

lemma blocked_receiver_waits:
  assumes "es_receiver s = R_join" and "worker_alive s" and "engine_step warmup s s'"
  shows "es_receiver s' = R_join" "receive_status junk rc cycl st s = None" "receive_price p s = None"
proof -
  show "es_receiver s' = R_join"
    using assms(3,1,2)
    by (cases; auto elim!: ending_step.cases simp: worker_begin_def worker_turn_def receiver_joined_def system_joined_def system_start_def
        system_trade_def system_stop_def receive_status_def receive_price_def split: if_splits prod.splits)
qed (use assms(1) in \<open>simp_all add: receive_status_def receive_price_def\<close>)

definition stray_status :: OrderStatus where
  "stray_status = \<lparr>os_orderId = 0, os_systemOrderId = 0, os_quantity = 0, os_fillPrice = 0, os_state = Rejected\<rparr>"

lemma stray_status_bad: "bad_status stray_status (es_engine demo_running)"
  by (simp add: bad_status_def stray_status_def slot_isValid_def slot_gen_def demo_running_def te_new_def)

lemma bad_status_dropped: "bad_status st e \<Longrightarrow> te_postStatus junk rc cycl st e = ([], e)"
  by (auto simp: bad_status_def te_postStatus_def Let_def)

lemma bad_status_blocks_receiver:
  "\<exists>s. engine_reach True demo_market s \<and> es_receiver s = R_join \<and> es_worker s = W_loop \<and> \<not> te_stopRequested (es_engine s)"
proof -
  obtain s where s: "receive_status [] 0 1 stray_status demo_running = Some s" "es_receiver s = R_join" "es_worker s = W_loop"
    "\<not> te_stopRequested (es_engine s)"
    using stray_status_bad bad_status_dropped[OF stray_status_bad]
    by (auto simp: receive_status_def demo_running_def engine_sys_new_def worker_joinable_def te_new_def)
  then show ?thesis using demo_running_reach by (blast intro: engine_reach.step engine_step.status)
qed

text \<open>A shutdown then has two threads in \<^verbatim>\<open>join\<close> of the same thread object, which is undefined.\<close>

lemma joins_collide:
  "\<exists>s. engine_reach True demo_market s \<and> es_receiver s = R_join \<and> es_system s = S_join \<and> worker_alive s"
proof -
  obtain s where s: "engine_reach True demo_market s" "es_receiver s = R_join" "es_worker s = W_loop" "\<not> te_stopRequested (es_engine s)"
    using bad_status_blocks_receiver by blast
  then have "es_system s = S_run" using stop_inv_reach by (auto simp: stop_inv_def)
  then have "\<exists>s'. system_stop s = Some s' \<and> es_receiver s' = R_join \<and> es_system s' = S_join \<and> worker_alive s'"
    using s by (simp add: system_stop_def worker_joinable_def worker_alive_def)
  then show ?thesis using s(1) by (blast intro: engine_reach.step engine_step.stop)
qed

text \<open>When the ids run out the worker ends, but nothing is reported: no stop request, no error, and trading stays on.\<close>

lemma exhausted_worker_ends_silently:
  assumes "es_worker s = W_loop" and "te_trading (es_engine s)" and "\<not> te_stopRequested (es_engine s)"
    and "te_sendCancel now (es_engine s) = (False, out1, e1)" and "te_sendNew rp ra rq now e1 = (False, out2, e2)"
  shows "\<exists>s'. worker_turn rp ra rq now s = Some s' \<and> es_worker s' = W_ended \<and> es_log s' = es_log s \<and>
    \<not> te_stopRequested (es_engine s') \<and> te_trading (es_engine s')"
proof -
  have "te_trading e1 = te_trading (es_engine s)" "te_stopRequested e1 = te_stopRequested (es_engine s)"
    using assms(4) by (auto simp: te_sendCancel_def Let_def split: prod.splits option.splits)
  moreover have "out2 = []" "te_trading e2 = te_trading e1" "te_stopRequested e2 = te_stopRequested e1"
    using assms(5) by (auto simp: te_sendNew_def Let_def split: prod.splits if_splits)
  ultimately show ?thesis using assms by (simp add: worker_turn_def te_loop_step_def)
qed

text \<open>The statistics are printed once for a change: a second tick in an unchanged engine is silent.\<close>

lemma stats_tick_quiet:
  assumes "stats_tick False lastCounter e = Some (line, counter)"
  shows "stats_tick False counter e = Some (None, counter)"
  using assms by (auto simp: stats_tick_def Let_def split: if_splits)

end
