(* ===== verification/Turbo_SPSC.thy ===== *)
theory Turbo_SPSC
  imports Seq_Ring
begin

text \<open>
  The byte queue of \<^verbatim>\<open>common/src/containers/turbo_spsc.hpp\<close>: \<^verbatim>\<open>write\<close> and \<^verbatim>\<open>read\<close> of one producer and one consumer, interleaved at every access
  to the two shared counters. Each side keeps a cached copy of the other side's counter. The buffer has \<open>2 ^ k\<close> bytes; a copy beyond its end is
  undefined, the value \<^verbatim>\<open>None\<close>. \<open>tq_in\<close> and \<open>tq_out\<close> record the messages published and read.
\<close>

section \<open>Steps\<close>

record TurboSPSC =
  tu_head :: u64
  tu_tailCache :: u64
  tu_readCursor :: u64
  tu_tail :: u64
  tu_headCache :: u64
  tu_buffer :: "nat \<Rightarrow> u8"

definition turbo_new :: TurboSPSC where
  "turbo_new = \<lparr>tu_head = 0, tu_tailCache = 0, tu_readCursor = 0, tu_tail = 0, tu_headCache = 0, tu_buffer = (\<lambda>_. 0)\<rparr>"

definition buf_put :: "nat \<Rightarrow> u8 list \<Rightarrow> (nat \<Rightarrow> u8) \<Rightarrow> nat \<Rightarrow> u8" where
  "buf_put pos m buf j = (if pos \<le> j \<and> j < pos + length m then m ! (j - pos) else buf j)"

definition buf_get :: "nat \<Rightarrow> nat \<Rightarrow> (nat \<Rightarrow> u8) \<Rightarrow> u8 list" where
  "buf_get pos n buf = map buf [pos..<pos + n]"

datatype turbo_wpc = TW_idle | TW_reload "u8 list" | TW_copy "u8 list" | TW_publish "u8 list"

datatype turbo_rpc = TR_idle | TR_load | TR_copy

record TurboRun =
  tq_q :: TurboSPSC
  tq_w :: turbo_wpc
  tq_r :: turbo_rpc
  tq_in :: "u8 list list"
  tq_out :: "u8 list list"

definition turbo_run_new :: TurboRun where
  "turbo_run_new = \<lparr>tq_q = turbo_new, tq_w = TW_idle, tq_r = TR_idle, tq_in = [], tq_out = []\<rparr>"

definition turbo_full :: "nat \<Rightarrow> u8 list \<Rightarrow> u64 \<Rightarrow> TurboSPSC \<Rightarrow> bool" where
  "turbo_full k m head q \<longleftrightarrow> tu_tail q + of_nat (length m) > head + push_bit k 1"

text \<open>\<^verbatim>\<open>write\<close>: the check against the cached head, its reload, the copy, the publication.\<close>

definition turbo_write_step :: "nat \<Rightarrow> u8 list \<Rightarrow> TurboRun \<Rightarrow> TurboRun option" where
  "turbo_write_step k msg s =
     (let q = tq_q s; writePos = slot_of k (tu_tail q)
      in case tq_w s of
           TW_idle \<Rightarrow> Some (s\<lparr>tq_w := if turbo_full k msg (tu_headCache q) q then TW_reload msg else TW_copy msg\<rparr>)
         | TW_reload m \<Rightarrow>
             Some (s\<lparr>tq_q := q\<lparr>tu_headCache := tu_head q\<rparr>, tq_w := if turbo_full k m (tu_head q) q then TW_idle else TW_copy m\<rparr>)
         | TW_copy m \<Rightarrow>
             if writePos + length m > 2 ^ k then None
             else Some (s\<lparr>tq_q := q\<lparr>tu_buffer := buf_put writePos m (tu_buffer q)\<rparr>, tq_w := TW_publish m\<rparr>)
         | TW_publish m \<Rightarrow>
             Some (s\<lparr>tq_q := q\<lparr>tu_tail := tu_tail q + of_nat (length m)\<rparr>, tq_w := TW_idle, tq_in := tq_in s @ [m]\<rparr>))"

text \<open>\<^verbatim>\<open>read\<close> of a message of \<open>n\<close> bytes: when the known messages are used up, publish the head and load the tail; then the copy.\<close>

definition turbo_read_step :: "nat \<Rightarrow> nat \<Rightarrow> TurboRun \<Rightarrow> TurboRun option" where
  "turbo_read_step k n s =
     (let q = tq_q s; readPos = slot_of k (tu_readCursor q)
      in case tq_r s of
           TR_idle \<Rightarrow>
             if tu_readCursor q = tu_tailCache q then Some (s\<lparr>tq_q := q\<lparr>tu_head := tu_readCursor q\<rparr>, tq_r := TR_load\<rparr>)
             else Some (s\<lparr>tq_r := TR_copy\<rparr>)
         | TR_load \<Rightarrow>
             Some (s\<lparr>tq_q := q\<lparr>tu_tailCache := tu_tail q\<rparr>, tq_r := if tu_readCursor q = tu_tail q then TR_idle else TR_copy\<rparr>)
         | TR_copy \<Rightarrow>
             if readPos + n > 2 ^ k then None
             else Some (s\<lparr>tq_q := q\<lparr>tu_readCursor := tu_readCursor q + of_nat n\<rparr>, tq_r := TR_idle,
                          tq_out := tq_out s @ [buf_get readPos n (tu_buffer q)]\<rparr>))"

text \<open>One producer writes and one consumer reads messages of \<open>n\<close> bytes.\<close>

inductive turbo_reach :: "nat \<Rightarrow> nat \<Rightarrow> TurboRun \<Rightarrow> bool" for k n where
  init: "turbo_reach k n turbo_run_new"
| produce: "turbo_reach k n s \<Longrightarrow> length msg = n \<Longrightarrow> turbo_write_step k msg s = Some s' \<Longrightarrow> turbo_reach k n s'"
| consume: "turbo_reach k n s \<Longrightarrow> turbo_read_step k n s = Some s' \<Longrightarrow> turbo_reach k n s'"

section \<open>Bytes\<close>

lemma buf_get_put: "buf_get pos (length m) (buf_put pos m buf) = m"
  by (rule nth_equalityI) (simp_all add: buf_get_def buf_put_def)

lemma buf_get_other: "pos' + n \<le> pos \<or> pos + length m \<le> pos' \<Longrightarrow> buf_get pos' n (buf_put pos m buf) = buf_get pos' n buf"
  by (auto simp: buf_get_def buf_put_def)

text \<open>Slots of \<open>n\<close> bytes, \<open>n\<close> dividing the size of the buffer.\<close>

lemma block_fits:
  fixes n N j :: nat
  assumes "n dvd N" "0 < N"
  shows "(n * j) mod N + n \<le> N"
proof -
  obtain c where c: "N = n * c" using assms(1) by blast
  then have "(n * j) mod N = n * (j mod c)" by (simp only: mult_mod_right)
  moreover have "j mod c < c" using c assms(2) by (cases c) auto
  then have "n * Suc (j mod c) \<le> n * c" by (intro mult_le_mono2) simp
  ultimately show ?thesis using c by simp
qed

lemma blocks_apart:
  fixes n N i j :: nat
  assumes "n dvd N" "0 < N" "i < j" "n * j < n * i + N"
  shows "(n * i) mod N + n \<le> (n * j) mod N \<or> (n * j) mod N + n \<le> (n * i) mod N"
proof -
  obtain c where c: "N = n * c" using assms(1) by blast
  have m: "(n * x) mod N = n * (x mod c)" for x unfolding c by (rule mult_mod_right[symmetric])
  have "n * i \<le> n * j" using assms(3) by (intro mult_le_mono2) simp
  then have "n * (j - i) < n * c" using assms(4) c by (simp only: diff_mult_distrib2)
  then have "j - i < c" by simp
  then have "i mod c \<noteq> j mod c" using assms(3) mod_eq_dvd_iff_nat[of i j c] nat_dvd_not_less[of "j - i" c] by (auto simp: eq_commute)
  then consider "Suc (i mod c) \<le> j mod c" | "Suc (j mod c) \<le> i mod c" by linarith
  then have "n * Suc (i mod c) \<le> n * (j mod c) \<or> n * Suc (j mod c) \<le> n * (i mod c)" by (meson mult_le_mono2)
  then show ?thesis by (simp add: m add.commute)
qed

section \<open>Invariant\<close>

text \<open>The counters as numbers of bytes: the cached head, the head, the read cursor, the cached tail and the tail, in this order; the
  tail is at most one buffer ahead of the cached head. Message \<open>j\<close> lies at \<open>n * j\<close> modulo the size until the producer may overwrite it.\<close>

definition turbo_small :: "nat \<Rightarrow> nat \<Rightarrow> TurboRun \<Rightarrow> bool" where
  "turbo_small k n s \<longleftrightarrow> n * length (tq_in s) + n + 2 ^ k < 2 ^ 64"

definition turbo_counters :: "nat \<Rightarrow> nat \<Rightarrow> TurboRun \<Rightarrow> bool" where
  "turbo_counters k n s \<longleftrightarrow>
     (let q = tq_q s
      in unat (tu_headCache q) \<le> unat (tu_head q) \<and> unat (tu_head q) \<le> unat (tu_readCursor q) \<and>
         unat (tu_readCursor q) \<le> unat (tu_tailCache q) \<and> unat (tu_tailCache q) \<le> unat (tu_tail q) \<and>
         unat (tu_readCursor q) = n * length (tq_out s) \<and> unat (tu_tail q) = n * length (tq_in s) \<and>
         unat (tu_tail q) \<le> unat (tu_headCache q) + 2 ^ k \<and> n dvd unat (tu_tailCache q))"

definition turbo_data :: "nat \<Rightarrow> nat \<Rightarrow> TurboRun \<Rightarrow> bool" where
  "turbo_data k n s \<longleftrightarrow> tq_out s = take (length (tq_out s)) (tq_in s) \<and> (\<forall>m \<in> set (tq_in s). length m = n) \<and>
     (\<forall>j. length (tq_out s) \<le> j \<longrightarrow> j < length (tq_in s) \<longrightarrow> buf_get ((n * j) mod 2 ^ k) n (tu_buffer (tq_q s)) = tq_in s ! j)"

fun turbo_writer :: "nat \<Rightarrow> nat \<Rightarrow> TurboSPSC \<Rightarrow> turbo_wpc \<Rightarrow> bool" where
  "turbo_writer k n q TW_idle \<longleftrightarrow> True"
| "turbo_writer k n q (TW_reload m) \<longleftrightarrow> length m = n"
| "turbo_writer k n q (TW_copy m) \<longleftrightarrow> length m = n \<and> unat (tu_tail q) + n \<le> unat (tu_headCache q) + 2 ^ k"
| "turbo_writer k n q (TW_publish m) \<longleftrightarrow> length m = n \<and> unat (tu_tail q) + n \<le> unat (tu_headCache q) + 2 ^ k \<and>
     buf_get (unat (tu_tail q) mod 2 ^ k) n (tu_buffer q) = m"

fun turbo_reader :: "TurboSPSC \<Rightarrow> turbo_rpc \<Rightarrow> bool" where
  "turbo_reader q TR_idle \<longleftrightarrow> True"
| "turbo_reader q TR_load \<longleftrightarrow> tu_readCursor q = tu_tailCache q"
| "turbo_reader q TR_copy \<longleftrightarrow> tu_readCursor q \<noteq> tu_tailCache q"

definition turbo_inv :: "nat \<Rightarrow> nat \<Rightarrow> TurboRun \<Rightarrow> bool" where
  "turbo_inv k n s \<longleftrightarrow> turbo_counters k n s \<and> turbo_data k n s \<and> turbo_writer k n (tq_q s) (tq_w s) \<and> turbo_reader (tq_q s) (tq_r s)"

lemma turbo_inv_new: "turbo_inv k n turbo_run_new"
  by (simp add: turbo_inv_def turbo_counters_def turbo_data_def turbo_run_new_def turbo_new_def)

lemma turbo_not_full:
  assumes "unat (tu_tail q) + length m + 2 ^ k < 2 ^ 64" and "unat head \<le> unat (tu_tail q)" and "k < 64"
  shows "\<not> turbo_full k m head q \<longleftrightarrow> unat (tu_tail q) + length m \<le> unat head + 2 ^ k"
proof -
  have "(push_bit k 1 :: u64) = of_nat (2 ^ k)" by (simp add: push_bit_1)
  then have "unat (push_bit k 1 :: u64) = 2 ^ k" using assms(1) by (simp only: unat_of_nat) simp
  then have "unat (head + push_bit k 1) = unat head + 2 ^ k" using assms(1,2) by (simp add: unat_word_ariths)
  moreover have "unat (tu_tail q + of_nat (length m)) = unat (tu_tail q) + length m"
    using assms(1) by (simp add: unat_word_ariths unat_of_nat)
  ultimately show ?thesis by (auto simp: turbo_full_def word_less_nat_alt not_less)
qed

text \<open>The counters and messages that a step relies on.\<close>

lemma turbo_countersD:
  assumes "turbo_counters k n s"
  shows "unat (tu_headCache (tq_q s)) \<le> unat (tu_head (tq_q s))" "unat (tu_head (tq_q s)) \<le> unat (tu_readCursor (tq_q s))"
    "unat (tu_readCursor (tq_q s)) \<le> unat (tu_tailCache (tq_q s))" "unat (tu_tailCache (tq_q s)) \<le> unat (tu_tail (tq_q s))"
    "unat (tu_readCursor (tq_q s)) = n * length (tq_out s)" "unat (tu_tail (tq_q s)) = n * length (tq_in s)"
    "unat (tu_tail (tq_q s)) \<le> unat (tu_headCache (tq_q s)) + 2 ^ k" "n dvd unat (tu_tailCache (tq_q s))"
  using assms by (auto simp: turbo_counters_def Let_def)

lemma turbo_check:
  assumes "turbo_counters k n s" and "turbo_small k n s" and "length m = n" and "k < 64" and "unat head \<le> unat (tu_readCursor (tq_q s))"
  shows "\<not> turbo_full k m head (tq_q s) \<longleftrightarrow> unat (tu_tail (tq_q s)) + n \<le> unat head + 2 ^ k"
  using turbo_not_full[of "tq_q s" m k head] turbo_countersD(3,4,6)[OF assms(1)] assms(2-5) by (simp add: turbo_small_def)

text \<open>The copy of the producer leaves the unread messages alone.\<close>

lemma turbo_data_copy:
  assumes "turbo_counters k n s" and data: "turbo_data k n s" and "0 < n" and "n dvd 2 ^ k" and m: "length m = n"
    and room: "unat (tu_tail (tq_q s)) + n \<le> unat (tu_headCache (tq_q s)) + 2 ^ k"
  shows "turbo_data k n (s\<lparr>tq_q := (tq_q s)\<lparr>tu_buffer := buf_put (unat (tu_tail (tq_q s)) mod 2 ^ k) m (tu_buffer (tq_q s))\<rparr>, tq_w := w\<rparr>)"
proof -
  note D = turbo_countersD[OF assms(1)]
  have "buf_get ((n * j) mod 2 ^ k) n (buf_put ((n * length (tq_in s)) mod 2 ^ k) m b) = buf_get ((n * j) mod 2 ^ k) n b"
    if j: "length (tq_out s) \<le> j" "j < length (tq_in s)" for j b
  proof (rule buf_get_other)
    have "n * length (tq_out s) \<le> n * j" using j(1) by (rule mult_le_mono2)
    then have "n * length (tq_in s) < n * j + 2 ^ k" using room D(1,2,5,6) assms(3) by linarith
    from blocks_apart[OF assms(4) _ j(2) this]
    show "(n * j) mod 2 ^ k + n \<le> (n * length (tq_in s)) mod 2 ^ k \<or> (n * length (tq_in s)) mod 2 ^ k + length m \<le> (n * j) mod 2 ^ k"
      using m by simp
  qed
  then show ?thesis using data D(6) by (simp add: turbo_data_def)
qed

lemma turbo_reader_cong:
  "tu_readCursor q' = tu_readCursor q \<Longrightarrow> tu_tailCache q' = tu_tailCache q \<Longrightarrow> turbo_reader q' r \<longleftrightarrow> turbo_reader q r"
  by (cases r) simp_all

lemma turbo_writer_cong:
  "tu_tail q' = tu_tail q \<Longrightarrow> tu_headCache q' = tu_headCache q \<Longrightarrow> tu_buffer q' = tu_buffer q \<Longrightarrow>
    turbo_writer k n q' w \<longleftrightarrow> turbo_writer k n q w"
  by (cases w) simp_all

lemma turbo_write_inv:
  assumes inv: "turbo_inv k n s" and small: "turbo_small k n s'" and n: "0 < n" "n dvd 2 ^ k" and k: "k < 64"
    and msg: "length msg = n" and st: "turbo_write_step k msg s = Some s'"
  shows "turbo_inv k n s'"
proof -
  have C: "turbo_counters k n s" and data: "turbo_data k n s" and w: "turbo_writer k n (tq_q s) (tq_w s)" and r: "turbo_reader (tq_q s) (tq_r s)"
    using inv by (simp_all add: turbo_inv_def)
  note D = turbo_countersD[OF C]
  have "length (tq_in s) \<le> length (tq_in s')" using st by (auto simp: turbo_write_step_def Let_def split: turbo_wpc.splits if_splits)
  then have sm: "turbo_small k n s"
    using small mult_le_mono2[of "length (tq_in s)" "length (tq_in s')" n] unfolding turbo_small_def by linarith
  show ?thesis
  proof (cases "tq_w s")
    case TW_idle
    let ?w = "if turbo_full k msg (tu_headCache (tq_q s)) (tq_q s) then TW_reload msg else TW_copy msg"
    have s': "s' = s\<lparr>tq_w := ?w\<rparr>" using st TW_idle by (simp add: turbo_write_step_def Let_def)
    have "turbo_writer k n (tq_q s) ?w" using turbo_check[OF C sm msg k, of "tu_headCache (tq_q s)"] D(1,2) msg by auto
    then show ?thesis using C data r by (simp add: s' turbo_inv_def turbo_counters_def turbo_data_def)
  next
    case (TW_reload m)
    let ?q = "(tq_q s)\<lparr>tu_headCache := tu_head (tq_q s)\<rparr>" and ?w = "if turbo_full k m (tu_head (tq_q s)) (tq_q s) then TW_idle else TW_copy m"
    have s': "s' = s\<lparr>tq_q := ?q, tq_w := ?w\<rparr>" using st TW_reload by (simp add: turbo_write_step_def Let_def)
    have "turbo_writer k n ?q ?w" using turbo_check[OF C sm _ k, of m "tu_head (tq_q s)"] D(2) w TW_reload by auto
    moreover have "turbo_counters k n s'" using D by (simp add: s' turbo_counters_def)
    ultimately show ?thesis using data r turbo_reader_cong[of ?q "tq_q s"] by (simp add: s' turbo_inv_def turbo_data_def)
  next
    case (TW_copy m)
    let ?b = "buf_put (unat (tu_tail (tq_q s)) mod 2 ^ k) m (tu_buffer (tq_q s))"
    have s': "s' = s\<lparr>tq_q := (tq_q s)\<lparr>tu_buffer := ?b\<rparr>, tq_w := TW_publish m\<rparr>"
      using st TW_copy k by (simp add: turbo_write_step_def slot_of_mod Let_def split: if_splits)
    have m: "length m = n" "unat (tu_tail (tq_q s)) + n \<le> unat (tu_headCache (tq_q s)) + 2 ^ k" using w TW_copy by simp_all
    have "turbo_counters k n s'" using D by (simp add: s' turbo_counters_def)
    moreover have "turbo_reader (tq_q s') (tq_r s')" using r turbo_reader_cong[of "tq_q s'" "tq_q s"] by (simp add: s')
    moreover have "turbo_data k n s'" unfolding s' by (rule turbo_data_copy[OF C data n m])
    moreover have "turbo_writer k n (tq_q s') (tq_w s')" using m buf_get_put[of _ m] by (simp add: s')
    ultimately show ?thesis by (simp add: turbo_inv_def)
  next
    case (TW_publish m)
    let ?t = "tu_tail (tq_q s)"
    have s': "s' = s\<lparr>tq_q := (tq_q s)\<lparr>tu_tail := ?t + of_nat n\<rparr>, tq_w := TW_idle, tq_in := tq_in s @ [m]\<rparr>"
      using st TW_publish w by (simp add: turbo_write_step_def Let_def)
    have u: "unat (?t + of_nat n) = unat ?t + n" using sm D(6) by (simp add: turbo_small_def unat_word_ariths unat_of_nat)
    have "turbo_counters k n s'" using C w TW_publish u D(6) by (auto simp: s' turbo_counters_def Let_def)
    moreover have "turbo_reader (tq_q s') (tq_r s')" using r turbo_reader_cong[of "tq_q s'" "tq_q s"] by (simp add: s')
    moreover have "n * length (tq_out s) \<le> n * length (tq_in s)" using D(3-6) by linarith
    then have "length (tq_out s) \<le> length (tq_in s)" using n(1) by simp
    then have "turbo_data k n s'" using data w TW_publish D(6) by (auto simp: s' turbo_data_def nth_append less_Suc_eq)
    ultimately show ?thesis by (simp add: turbo_inv_def s')
  qed
qed

text \<open>Cursors are multiples of the message size, so a cursor behind the cached tail has a whole message before it.\<close>

lemma turbo_unread:
  assumes "turbo_counters k n s" and "tu_readCursor (tq_q s) \<noteq> tu_tailCache (tq_q s)" and "0 < n"
  shows "n * length (tq_out s) + n \<le> unat (tu_tailCache (tq_q s))" "length (tq_out s) < length (tq_in s)"
proof -
  note D = turbo_countersD[OF assms(1)]
  obtain c where c: "unat (tu_tailCache (tq_q s)) = n * c" using D(8) by blast
  have "unat (tu_readCursor (tq_q s)) \<noteq> unat (tu_tailCache (tq_q s))" using assms(2) by (simp add: word_unat_eq_iff)
  then have "n * length (tq_out s) < n * c" using D(3,5) c by simp
  then have lt: "length (tq_out s) < c" by simp
  then have "n * Suc (length (tq_out s)) \<le> n * c" by (intro mult_le_mono2) simp
  then show "n * length (tq_out s) + n \<le> unat (tu_tailCache (tq_q s))" using c by simp
  have "n * c \<le> n * length (tq_in s)" using D(4,6) c by simp
  then show "length (tq_out s) < length (tq_in s)" using lt assms(3) by simp
qed

lemma turbo_read_inv:
  assumes inv: "turbo_inv k n s" and small: "turbo_small k n s'" and n: "0 < n" and k: "k < 64" and st: "turbo_read_step k n s = Some s'"
  shows "turbo_inv k n s'"
proof -
  have C: "turbo_counters k n s" and data: "turbo_data k n s" and w: "turbo_writer k n (tq_q s) (tq_w s)" and r: "turbo_reader (tq_q s) (tq_r s)"
    using inv by (simp_all add: turbo_inv_def)
  note D = turbo_countersD[OF C]
  have keep: "turbo_writer k n (tq_q s') (tq_w s')"
    using st w turbo_writer_cong[of "tq_q s'" "tq_q s" k n "tq_w s"]
    by (auto simp: turbo_read_step_def Let_def split: turbo_rpc.splits if_splits)
  show ?thesis
  proof (cases "tq_r s")
    case TR_idle
    then have "turbo_counters k n s' \<and> turbo_reader (tq_q s') (tq_r s') \<and> turbo_data k n s'"
      using st D data by (auto simp: turbo_read_step_def turbo_counters_def turbo_data_def Let_def split: if_splits)
    then show ?thesis using keep by (simp add: turbo_inv_def)
  next
    case TR_load
    let ?q = "(tq_q s)\<lparr>tu_tailCache := tu_tail (tq_q s)\<rparr>" and ?r = "if tu_readCursor (tq_q s) = tu_tail (tq_q s) then TR_idle else TR_copy"
    have s': "s' = s\<lparr>tq_q := ?q, tq_r := ?r\<rparr>" using st TR_load by (simp add: turbo_read_step_def Let_def)
    have "n dvd unat (tu_tail (tq_q s))" unfolding D(6) by simp
    then have "turbo_counters k n s'" using D order_trans[OF D(3,4)] by (simp add: s' turbo_counters_def)
    moreover have "turbo_reader ?q ?r" by simp
    ultimately show ?thesis using keep data by (simp add: s' turbo_inv_def turbo_data_def)
  next
    case TR_copy
    let ?c = "tu_readCursor (tq_q s)" and ?o = "length (tq_out s)"
    have ne: "?c \<noteq> tu_tailCache (tq_q s)" using r TR_copy by simp
    note un = turbo_unread[OF C ne n]
    have s': "s' = s\<lparr>tq_q := (tq_q s)\<lparr>tu_readCursor := ?c + of_nat n\<rparr>, tq_r := TR_idle, tq_out := tq_out s @ [tq_in s ! ?o]\<rparr>"
      using st TR_copy data D(5) un(2) k by (auto simp: turbo_read_step_def turbo_data_def slot_of_mod Let_def split: if_splits)
    have "unat (?c + of_nat n) = n * ?o + n"
      using small un D(4-6) by (simp add: s' turbo_small_def unat_word_ariths unat_of_nat)
    then have "turbo_counters k n s'" using D un(1) by (simp add: s' turbo_counters_def)
    moreover have "turbo_data k n s'" using data un(2) by (auto simp: s' turbo_data_def take_Suc_conv_app_nth)
    ultimately show ?thesis using keep by (simp add: turbo_inv_def s')
  qed
qed

lemma turbo_small_mono:
  "length (tq_in s) \<le> length (tq_in s') \<Longrightarrow> turbo_small k n s' \<Longrightarrow> turbo_small k n s"
  using mult_le_mono2[of "length (tq_in s)" "length (tq_in s')" n] unfolding turbo_small_def by linarith

lemma turbo_steps_in:
  "turbo_write_step k msg s = Some s' \<Longrightarrow> length (tq_in s) \<le> length (tq_in s')"
  "turbo_read_step k n s = Some s' \<Longrightarrow> tq_in s' = tq_in s"
  by (auto simp: turbo_write_step_def turbo_read_step_def Let_def split: turbo_wpc.splits turbo_rpc.splits if_splits)

lemma turbo_inv_reach:
  assumes "turbo_reach k n s" and "turbo_small k n s" and "0 < n" and "n dvd 2 ^ k" and "k < 64"
  shows "turbo_inv k n s"
  using assms(1,2)
proof (induction rule: turbo_reach.induct)
  case init
  show ?case by (rule turbo_inv_new)
next
  case (produce s msg s')
  then show ?case using turbo_write_inv[OF _ _ assms(3-5)] turbo_small_mono[OF turbo_steps_in(1)] by blast
next
  case (consume s s')
  have "turbo_small k n s" using consume turbo_steps_in(2)[OF consume.hyps(2)] by (simp add: turbo_small_def)
  then show ?case using consume turbo_read_inv[OF _ _ assms(3,5)] by blast
qed

section \<open>FIFO\<close>

text \<open>One producer and one consumer of messages whose size divides the buffer, interleaved at every access: what was read is what was written, in
  order and whole; neither side copies beyond the buffer; and while both copy, they copy disjoint bytes. The counters do not wrap.\<close>

theorem turbo_threads_fifo:
  assumes "turbo_reach k n s" and "turbo_small k n s" and "0 < n" and "n dvd 2 ^ k" and "k < 64"
  shows "tq_out s = take (length (tq_out s)) (tq_in s) \<and>
    (\<forall>msg. length msg = n \<longrightarrow> turbo_write_step k msg s \<noteq> None) \<and> turbo_read_step k n s \<noteq> None \<and>
    (\<forall>m. tq_w s = TW_copy m \<longrightarrow> tq_r s = TR_copy \<longrightarrow>
       {slot_of k (tu_tail (tq_q s))..<slot_of k (tu_tail (tq_q s)) + n} \<inter>
       {slot_of k (tu_readCursor (tq_q s))..<slot_of k (tu_readCursor (tq_q s)) + n} = {})"
proof -
  have inv: "turbo_inv k n s" by (rule turbo_inv_reach[OF assms])
  then have C: "turbo_counters k n s" and w: "turbo_writer k n (tq_q s) (tq_w s)" and r: "turbo_reader (tq_q s) (tq_r s)"
    by (simp_all add: turbo_inv_def)
  note D = turbo_countersD[OF C] and pos = slot_of_mod[OF assms(5)]
  have fit: "(n * j) mod 2 ^ k + n \<le> 2 ^ k" for j by (rule block_fits[OF assms(4)]) simp
  have "turbo_write_step k msg s \<noteq> None" if "length msg = n" for msg
    using w fit[of "length (tq_in s)"] D(6) by (cases "tq_w s") (simp_all add: turbo_write_step_def Let_def pos)
  moreover have "turbo_read_step k n s \<noteq> None"
    using fit[of "length (tq_out s)"] D(5) by (cases "tq_r s") (simp_all add: turbo_read_step_def Let_def pos)
  moreover have "{slot_of k (tu_tail (tq_q s))..<slot_of k (tu_tail (tq_q s)) + n} \<inter>
       {slot_of k (tu_readCursor (tq_q s))..<slot_of k (tu_readCursor (tq_q s)) + n} = {}" if "tq_w s = TW_copy m" "tq_r s = TR_copy" for m
  proof -
    have lt: "length (tq_out s) < length (tq_in s)" using turbo_unread(2)[OF C _ assms(3)] r that(2) by simp
    have "n * length (tq_in s) < n * length (tq_out s) + 2 ^ k" using w that(1) D(1,2,5,6) assms(3) by simp
    from blocks_apart[OF assms(4) _ lt this] show ?thesis by (auto simp: pos D)
  qed
  ultimately show ?thesis using inv by (simp add: turbo_inv_def turbo_data_def)
qed

text \<open>A first message, written and published.\<close>

definition turbo_demo :: TurboRun where
  "turbo_demo = turbo_run_new\<lparr>tq_q := turbo_new\<lparr>tu_buffer := buf_put 0 [1, 2] (\<lambda>_. 0), tu_tail := 2\<rparr>, tq_in := [[1, 2]]\<rparr>"

lemma turbo_demo_reach: "turbo_reach 22 2 turbo_demo"
proof -
  let ?m = "[1, 2] :: u8 list"
  have full: "\<not> turbo_full 22 ?m 0 turbo_new" by (simp add: turbo_full_def turbo_new_def push_bit_eq_mult)
  have pos: "slot_of 22 0 = 0" by (simp add: slot_of_mod)
  let ?s1 = "turbo_run_new\<lparr>tq_w := TW_copy ?m\<rparr>"
  let ?s2 = "turbo_run_new\<lparr>tq_q := turbo_new\<lparr>tu_buffer := buf_put 0 ?m (\<lambda>_. 0)\<rparr>, tq_w := TW_publish ?m\<rparr>"
  have "turbo_write_step 22 ?m turbo_run_new = Some ?s1"
    using full by (simp add: turbo_write_step_def turbo_run_new_def turbo_new_def)
  then have r1: "turbo_reach 22 2 ?s1" by (rule turbo_reach.produce[OF turbo_reach.init, rotated]) simp
  have "turbo_write_step 22 ?m ?s1 = Some ?s2"
    using pos by (simp add: turbo_write_step_def turbo_run_new_def turbo_new_def)
  then have r2: "turbo_reach 22 2 ?s2" by (rule turbo_reach.produce[OF r1, rotated]) simp
  have "turbo_write_step 22 ?m ?s2 = Some turbo_demo"
    by (simp add: turbo_write_step_def turbo_run_new_def turbo_new_def turbo_demo_def)
  then show ?thesis by (rule turbo_reach.produce[OF r2, rotated]) simp
qed

theorem turbo_threads_fifo_witness: "turbo_read_step 22 2 turbo_demo \<noteq> None \<and> tq_in turbo_demo = [[1, 2]]"
  using turbo_threads_fifo[OF turbo_demo_reach] by (simp add: turbo_small_def turbo_demo_def)

text \<open>A message size that does not divide the buffer makes some copy cross its end: the message that starts in the last, short block.\<close>

lemma turbo_unaligned_overflow:
  assumes "\<not> n dvd 2 ^ k" and "0 < n" and "k < 64" and "length m = n"
    and "tq_w s = TW_copy m" and "unat (tu_tail (tq_q s)) = n * (2 ^ k div n)"
  shows "turbo_write_step k msg s = None"
proof -
  have "n * (2 ^ k div n) < 2 ^ k" using assms(1) by (metis dvd_triv_left le_neq_implies_less times_div_less_eq_dividend)
  moreover have "2 ^ k < n * (2 ^ k div n) + n"
    using dividend_less_times_div[OF assms(2), of "2 ^ k"] by (simp add: add.commute)
  ultimately show ?thesis using assms(3-6) by (simp add: turbo_write_step_def Let_def slot_of_mod)
qed

end
