(* ===== verification/Rtt_Report.thy ===== *)
theory Rtt_Report
  imports Telemetry Text_Utils
begin

text \<open>
  The report of the latency histogram (\<^verbatim>\<open>common/src/utils/rtt_tracker.hpp\<close>, \<^verbatim>\<open>monitor/src/latency_tracker.hpp\<close>): the text of a snapshot and the timer
  that prints it. The operations on doubles and their formatting are a parameter.
\<close>

section \<open>Text of a snapshot\<close>

text \<open>\<open>fp_pct size total\<close> is the text of the percentage with two digits, \<open>fp_avg sum size\<close> the quotient as a double cut to an integer,
  \<open>fp_short count unit\<close> the text of the quotient with one digit.\<close>

record rtt_fp =
  fp_pct :: "u64 \<Rightarrow> u64 \<Rightarrow> string"
  fp_avg :: "u64 \<Rightarrow> u64 \<Rightarrow> u64"
  fp_short :: "u64 \<Rightarrow> u64 \<Rightarrow> string"

definition toShortCount :: "rtt_fp \<Rightarrow> u64 \<Rightarrow> string" where
  "toShortCount fp cnt =
     (if cnt < 1000 then show_word cnt
      else if cnt < 1000000 then fp_short fp cnt 1000 @ ''K''
      else fp_short fp cnt 1000000 @ ''M'')"

definition rtt_header :: "u64 list \<Rightarrow> string" where
  "rtt_header ranges =
     ''['' @ concat (map (\<lambda>i. if i + 1 < length ranges + 1 then ''<'' @ toScale (ranges ! i) @ ''|'' else ''>'' @ toScale (ranges ! (i - 1)) @ '']'')
       [0..<length ranges + 1])"

definition rtt_sample :: "rtt_fp \<Rightarrow> u64 \<Rightarrow> u64 \<times> u64 \<Rightarrow> string" where
  "rtt_sample fp totalCount s =
     (if snd s = 0 then ''0%'' else fp_pct fp (snd s) totalCount @ ''%'' @ '' avg:'' @ toScale (fp_avg fp (fst s) (snd s))) @ '' | ''"

definition rtt_toString :: "rtt_fp \<Rightarrow> u64 list \<Rightarrow> RttStats \<Rightarrow> string" where
  "rtt_toString fp ranges stats =
     (let totalCount = rtt_volume stats
      in if totalCount = 0 then []
         else rtt_header ranges @ '' '' @ concat (map (rtt_sample fp totalCount) (rt_samples stats)) @ ''Max:'' @ toScale (rt_globalMax stats))"

text \<open>The timer of the tracker: an error ends it; else it prints and clears what was measured, and is set again.\<close>

datatype lt_tick = Tick_End | Tick_Fault | Tick "string option" RttStats

definition lt_timer :: "rtt_fp \<Rightarrow> u64 list \<Rightarrow> u64 \<Rightarrow> bool \<Rightarrow> RttStats \<Rightarrow> lt_tick" where
  "lt_timer fp ranges monitorRate code s =
     (if code then Tick_End
      else case lt_onTimer monitorRate s of
             None \<Rightarrow> Tick_Fault
           | Some (None, s') \<Rightarrow> Tick None s'
           | Some (Some rps, s') \<Rightarrow> Tick (Some (''Rps: '' @ thousandify (uint rps) @ '' Rtt: '' @ rtt_toString fp ranges (getStats s))) s')"

section \<open>Averages\<close>

text \<open>Documented behaviour of the doubles: quotients of integers below \<open>2 ^ 53\<close>, cut to an integer, are exact.\<close>

definition fp_exact :: "rtt_fp \<Rightarrow> bool" where
  "fp_exact fp \<longleftrightarrow> (\<forall>a b. b \<noteq> 0 \<longrightarrow> unat a < 2 ^ 53 \<longrightarrow> fp_avg fp a b = a div b)"

lemma sum_list_unat:
  fixes xs :: "u64 list"
  assumes "(\<Sum>x\<leftarrow>xs. unat x) < 2 ^ 64"
  shows "unat (sum_list xs) = (\<Sum>x\<leftarrow>xs. unat x)"
  using assms
proof (induction xs)
  case (Cons x xs)
  then show ?case by (simp add: unat_word_ariths)
qed simp

lemma sum_list_between:
  fixes xs :: "nat list"
  shows "\<forall>x\<in>set xs. lo \<le> x \<Longrightarrow> lo * length xs \<le> sum_list xs" "\<forall>x\<in>set xs. x \<le> hi \<Longrightarrow> sum_list xs \<le> hi * length xs"
  by (induction xs) auto

lemma mean_bounds:
  fixes xs :: "nat list"
  assumes "xs \<noteq> []"
  shows "\<exists>x\<in>set xs. x \<le> sum_list xs div length xs" "\<exists>x\<in>set xs. sum_list xs div length xs \<le> x"
proof -
  have len: "0 < length xs" using assms by simp
  have "Min (set xs) * length xs \<le> sum_list xs" by (rule sum_list_between(1)) simp
  then have "Min (set xs) \<le> sum_list xs div length xs" using len by (simp add: less_eq_div_iff_mult_less_eq)
  then show "\<exists>x\<in>set xs. x \<le> sum_list xs div length xs" using assms by (intro bexI[of _ "Min (set xs)"]) simp_all
  have "sum_list xs \<le> Max (set xs) * length xs" by (rule sum_list_between(2)) simp
  then have "sum_list xs div length xs \<le> Max (set xs) * length xs div length xs" by (rule div_le_mono)
  then show "\<exists>x\<in>set xs. sum_list xs div length xs \<le> x" using len assms by (intro bexI[of _ "Max (set xs)"]) simp_all
qed

text \<open>The limits at or below a value grow with the value.\<close>

lemma limits_mono: "(x :: u64) \<le> y \<Longrightarrow> length (filter (\<lambda>r. r \<le> x) ranges) \<le> length (filter (\<lambda>r. r \<le> y) ranges)"
  by (induction ranges) auto

lemma sum_filter_le: "(\<Sum>x\<leftarrow>filter P xs. unat x) \<le> (\<Sum>x\<leftarrow>xs. unat x)"
  by (induction xs) auto

text \<open>The average printed for a range is the rounded down mean of the measurements in it, and lies in that range.\<close>

theorem rtt_average_in_range:
  assumes fp: "fp_exact fp" and ranges: "length ranges < 256" "i \<le> length ranges"
    and total: "(\<Sum>x\<leftarrow>ns. unat x) < 2 ^ 53" "length ns < 2 ^ 53" and some: "in_bucket ranges i ns \<noteq> []"
  defines "s \<equiv> rt_samples (fold (logRtt ranges) ns (rtt_new ranges)) ! i"
  shows "unat (fp_avg fp (fst s) (snd s)) = (\<Sum>x\<leftarrow>in_bucket ranges i ns. unat x) div length (in_bucket ranges i ns) \<and>
    unat (getRange ranges (fp_avg fp (fst s) (snd s))) = i"
proof -
  let ?xs = "in_bucket ranges i ns" and ?avg = "fp_avg fp (fst s) (snd s)"
  have s: "fst s = sum_list ?xs" "snd s = of_nat (length ?xs)" using rtt_histogram[OF ranges, of ns] by (simp_all add: s_def)
  have sum: "(\<Sum>x\<leftarrow>?xs. unat x) < 2 ^ 53" unfolding in_bucket_def by (rule order.strict_trans1[OF sum_filter_le total(1)])
  then have u: "unat (fst s) = (\<Sum>x\<leftarrow>?xs. unat x)" using sum_list_unat[of ?xs] s(1) by simp
  have "length ?xs \<le> length ns" by (simp add: in_bucket_def)
  then have n: "unat (snd s) = length ?xs" using total(2) s(2) by (simp add: unat_of_nat)
  then have "snd s \<noteq> 0" using some by (auto simp: word_unat_eq_iff)
  then have "?avg = fst s div snd s" using fp u sum by (simp add: fp_exact_def)
  then have avg: "unat ?avg = (\<Sum>x\<leftarrow>?xs. unat x) div length ?xs" by (simp add: unat_div u n)
  have ne: "map unat ?xs \<noteq> []" using some by simp
  obtain lo hi where lo: "lo \<in> set ?xs" "lo \<le> ?avg" and hi: "hi \<in> set ?xs" "?avg \<le> hi"
    using mean_bounds[OF ne] avg by (auto simp: word_le_nat_alt)
  have "length (filter (\<lambda>r. r \<le> lo) ranges) = i" "length (filter (\<lambda>r. r \<le> hi) ranges) = i"
    using lo(1) hi(1) by (simp_all add: in_bucket_def)
  then have "length (filter (\<lambda>r. r \<le> ?avg) ranges) = i"
    using limits_mono[OF lo(2), of ranges] limits_mono[OF hi(2), of ranges] by simp
  then show ?thesis using avg getRange_count[OF ranges(1), of ?avg] by simp
qed

text \<open>A tick prints exactly when something was measured, and clears the histogram then. A configured rate of zero makes the first tick after
  a measurement divide by zero.\<close>

lemma lt_timer_prints:
  "monitorRate \<noteq> 0 \<Longrightarrow> lt_timer fp ranges monitorRate False s =
     (if rtt_volume (getStats s) = 0 then Tick None s
      else Tick (Some (''Rps: '' @ thousandify (uint (rtt_volume (getStats s) * 1000 div monitorRate)) @ '' Rtt: '' @
        rtt_toString fp ranges (getStats s))) (rtt_reset s))"
  "lt_timer fp ranges 0 False s = (if rtt_volume (getStats s) = 0 then Tick None s else Tick_Fault)"
  by (simp_all add: lt_timer_def lt_onTimer_def Let_def)

end
