(* ===== verification/Time_Profiling.thy ===== *)
theory Time_Profiling
  imports Prelude
begin

text \<open>
  Time stamps and profiling counters (\<^verbatim>\<open>common/src/utils/time_utils.hpp\<close>, \<^verbatim>\<open>profiling_utils.hpp\<close>). What the kernel and the cycle counter
  return are arguments.
\<close>

section \<open>Time stamps\<close>

text \<open>What \<^verbatim>\<open>clock_gettime\<close> fills in.\<close>

record timespec =
  tv_sec :: int
  tv_nsec :: int

definition getTimestamp :: "timespec \<Rightarrow> u64" where
  "getTimestamp ts = word_of_int (tv_sec ts) * 1000000 + word_of_int (tv_nsec ts div 1000)"

definition getTimestampNs :: "timespec \<Rightarrow> u64" where
  "getTimestampNs ts = word_of_int (tv_sec ts) * 1000000000 + word_of_int (tv_nsec ts)"

text \<open>The division of doubles is the argument \<open>div_double\<close>; the difference of the cycle counters wraps.\<close>

definition getNsPerCycle :: "(int \<Rightarrow> u64 \<Rightarrow> 'd) \<Rightarrow> int \<Rightarrow> u64 \<Rightarrow> int \<Rightarrow> u64 \<Rightarrow> 'd" where
  "getNsPerCycle div_double t1 c1 t2 c2 = div_double (t2 - t1) (c2 - c1)"

section \<open>Resource usage\<close>

record timeval =
  ru_sec :: u64
  ru_usec :: u64

record rusage =
  ru_utime :: timeval
  ru_stime :: timeval
  ru_nvcsw :: u64
  ru_nivcsw :: u64
  ru_minflt :: u64
  ru_majflt :: u64

record RUsageSnapshot =
  userTimeNs :: u64
  systemTimeNs :: u64
  volSwitches :: u64
  involSwitches :: u64
  softPageFaults :: u64
  hardPageFaults :: u64

definition timeval_ns :: "timeval \<Rightarrow> u64" where
  "timeval_ns tv = ru_sec tv * 1000000000 + ru_usec tv * 1000"

definition getRUsage :: "int + rusage \<Rightarrow> (int \<times> string) + RUsageSnapshot" where
  "getRUsage res =
     (case res of
        Inl errno \<Rightarrow> Inl (errno, ''getrusage failed'')
      | Inr usage \<Rightarrow>
          Inr \<lparr>userTimeNs = timeval_ns (ru_utime usage), systemTimeNs = timeval_ns (ru_stime usage),
            volSwitches = ru_nvcsw usage, involSwitches = ru_nivcsw usage,
            softPageFaults = ru_minflt usage, hardPageFaults = ru_majflt usage\<rparr>)"

text \<open>\<^verbatim>\<open>PROFILE_EXEC\<close>: the largest number of cycles an execution took.\<close>

definition PROFILE_EXEC :: "u64 \<Rightarrow> u64 \<Rightarrow> u64 \<Rightarrow> u64" where
  "PROFILE_EXEC start stop counter = max counter (stop - start)"

section \<open>Properties\<close>

definition time_ok :: "timespec \<Rightarrow> bool" where
  "time_ok ts \<longleftrightarrow> 0 \<le> tv_sec ts \<and> tv_sec ts < 2 ^ 33 \<and> 0 \<le> tv_nsec ts \<and> tv_nsec ts < 1000000000"

lemma uint_linear:
  assumes "0 \<le> a" "0 \<le> b" "0 \<le> c" "a * c + b < 2 ^ 64"
  shows "uint (word_of_int a * word_of_int c + word_of_int b :: u64) = a * c + b"
proof -
  have "(word_of_int a * word_of_int c + word_of_int b :: u64) = word_of_int (a * c + b)" by (simp only: wi_hom_mult wi_hom_add)
  moreover have "0 \<le> a * c + b" using assms(1-3) by simp
  ultimately show ?thesis using assms(4) by (simp only: uint_word_of_int) simp
qed

lemma uint_getTimestamp:
  assumes "time_ok ts"
  shows "uint (getTimestamp ts) = tv_sec ts * 1000000 + tv_nsec ts div 1000"
    "uint (getTimestampNs ts) = tv_sec ts * 1000000000 + tv_nsec ts"
  using assms uint_linear[of "tv_sec ts" "tv_nsec ts div 1000" 1000000] uint_linear[of "tv_sec ts" "tv_nsec ts" 1000000000]
  by (auto simp: time_ok_def getTimestamp_def getTimestampNs_def)

text \<open>For the next centuries, microseconds are the nanoseconds divided by a thousand, and a clock that does not go back gives time stamps that do
  not go back.\<close>

lemma getTimestamp_micro: "time_ok ts \<Longrightarrow> getTimestamp ts = getTimestampNs ts div 1000"
  by (intro word_uint_eqI) (simp add: uint_div uint_getTimestamp)

lemma getTimestampNs_mono:
  assumes "time_ok a" "time_ok b" "tv_sec a < tv_sec b \<or> tv_sec a = tv_sec b \<and> tv_nsec a \<le> tv_nsec b"
  shows "getTimestampNs a \<le> getTimestampNs b"
  using assms uint_getTimestamp(2)[OF assms(1)] uint_getTimestamp(2)[OF assms(2)] by (auto simp: word_le_def time_ok_def)

text \<open>A counter over a sequence of executions is their largest cost.\<close>

lemma PROFILE_EXEC_max: "fold (\<lambda>(a, b). PROFILE_EXEC a b) runs c = fold max (map (\<lambda>(a, b). b - a) runs) c"
  by (induction runs arbitrary: c) (auto simp: PROFILE_EXEC_def max.commute)

end
