(* ===== verification/Kafka_Callbacks.thy ===== *)
theory Kafka_Callbacks
  imports Logging
begin

text \<open>
  The callbacks that the Kafka library calls (\<^verbatim>\<open>common/src/adapters/kafka/kafka_callbacks.hpp\<close>): which log macro an event or a failed delivery goes to.
\<close>

datatype kafka_severity =
  Sev_EMERG | Sev_ALERT | Sev_CRITICAL | Sev_ERROR | Sev_WARNING | Sev_NOTICE | Sev_INFO | Sev_DEBUG

datatype kafka_event = Event_Error string | Event_Log kafka_severity string | Event_Stats | Event_Throttle

fun severity_level :: "kafka_severity \<Rightarrow> spd_level" where
  "severity_level Sev_EMERG = Lv_err"
| "severity_level Sev_ALERT = Lv_err"
| "severity_level Sev_CRITICAL = Lv_err"
| "severity_level Sev_ERROR = Lv_err"
| "severity_level Sev_WARNING = Lv_warn"
| "severity_level Sev_NOTICE = Lv_warn"
| "severity_level Sev_INFO = Lv_info"
| "severity_level Sev_DEBUG = Lv_debug"

fun event_cb :: "spd_level \<Rightarrow> SpdLogger \<Rightarrow> kafka_event \<Rightarrow> log_line list" where
  "event_cb active l (Event_Error err) = LOG_SYSTEM active l Lv_err err"
| "event_cb active l (Event_Log sev str) = LOG_SYSTEM active l (severity_level sev) str"
| "event_cb active l Event_Stats = []"
| "event_cb active l Event_Throttle = []"

definition dr_cb :: "spd_level \<Rightarrow> SpdLogger \<Rightarrow> string option \<Rightarrow> log_line list" where
  "dr_cb active l err = (case err of None \<Rightarrow> [] | Some errstr \<Rightarrow> LOG_AT active l Lv_err (''Kafka delivery failed: '' @ errstr))"

text \<open>The severities of the library count down from debug to emergency; a more severe event is never logged at a lower level.\<close>

fun severity_rank :: "kafka_severity \<Rightarrow> nat" where
  "severity_rank Sev_EMERG = 0"
| "severity_rank Sev_ALERT = 1"
| "severity_rank Sev_CRITICAL = 2"
| "severity_rank Sev_ERROR = 3"
| "severity_rank Sev_WARNING = 4"
| "severity_rank Sev_NOTICE = 5"
| "severity_rank Sev_INFO = 6"
| "severity_rank Sev_DEBUG = 7"

lemma severity_level_mono: "severity_rank a \<le> severity_rank b \<Longrightarrow> level_rank (severity_level b) \<le> level_rank (severity_level a)"
  by (cases a; cases b) simp_all

end
