(* ===== verification/Futex_Waiter.thy ===== *)
theory Futex_Waiter
  imports Spin_Wait
begin

text \<open>
  \<^verbatim>\<open>FutexWaiter\<close> (\<^verbatim>\<open>common/src/utils/futex_waiter.hpp\<close>) and the waits of \<^verbatim>\<open>common/src/utils/sync_utils.hpp\<close>. The operations of the waiter are
  interleaved at the granularity of shared accesses, with a consumer that looks at its items again between \<^verbatim>\<open>prepareWait\<close> and \<^verbatim>\<open>wait\<close> and a
  producer that calls \<^verbatim>\<open>notify\<close> after each item. Used so, no item stays behind a sleeping consumer and every run ends with all items taken.
\<close>

section \<open>Waits of the library\<close>

text \<open>The time-out of \<^verbatim>\<open>futexWait\<close>, in seconds and nanoseconds; zero waits for ever.\<close>

definition futexWait_timeout :: "u64 \<Rightarrow> (u64 \<times> u64) option" where
  "futexWait_timeout timeoutNs = (if timeoutNs = 0 then None else Some (timeoutNs div 1000000000, timeoutNs mod 1000000000))"

text \<open>\<^verbatim>\<open>hybridWait\<close>: \<open>obs n\<close> are the futex word and \<^verbatim>\<open>stopFlag\<close> as the round with \<open>n\<close> cycles loads them. The result is the number of cycles and whether
  the thread goes on to wait in the futex.\<close>

function hybrid_spin :: "(nat \<Rightarrow> u32 \<times> bool) \<Rightarrow> u32 \<Rightarrow> SpinWait \<Rightarrow> nat \<times> bool" where
  "hybrid_spin obs val waiter =
     (case sw_inc waiter of (go, w) \<Rightarrow>
        if \<not> go then (sw_cycles w, True)
        else if fst (obs (sw_cycles w)) \<noteq> val \<or> \<not> snd (obs (sw_cycles w)) then (sw_cycles w, False)
        else hybrid_spin obs val w)"
  by pat_completeness auto
termination
proof (relation "measure (\<lambda>(obs, val, w). spin_budget w)", simp)
  fix obs :: "nat \<Rightarrow> u32 \<times> bool" and val :: u32 and waiter w :: SpinWait and go
  assume "(go, w) = sw_inc waiter" "\<not> \<not> go"
  then show "((obs, val, w), obs, val, waiter) \<in> measure (\<lambda>(obs, val, w). spin_budget w)"
    using sw_inc_budget[of waiter] by (cases "sw_inc waiter") simp
qed

declare hybrid_spin.simps [simp del]

definition hybridWait :: "(nat \<Rightarrow> u32 \<times> bool) \<Rightarrow> u32 \<Rightarrow> nat \<times> bool" where
  "hybridWait obs val = hybrid_spin obs val (sw_new SPIN_RETRIES_YIELD)"

text \<open>\<^verbatim>\<open>waitForAny\<close>: \<open>mem\<close> is the memory the futexes are in, \<open>base\<close> the address of the elements of the vector, \<open>futexes\<close> the pointers in it and
  \<open>syscall\<close> the answer of the kernel.\<close>

record futex_waitv =
  wv_val :: u64
  wv_address :: u64
  wv_flags :: u32
  wv_pad :: u32

definition waitv_entry :: "(u64 \<Rightarrow> u32) \<Rightarrow> u64 \<Rightarrow> u64 list \<Rightarrow> nat \<Rightarrow> futex_waitv" where
  "waitv_entry mem base futexes i =
     \<lparr>wv_val = ucast (mem (futexes ! i)), wv_address = base + of_nat (8 * i), wv_flags = 2, wv_pad = 0\<rparr>"

definition waitForAny :: "(u64 \<Rightarrow> u32) \<Rightarrow> (futex_waitv list \<Rightarrow> int) \<Rightarrow> u64 \<Rightarrow> u64 list \<Rightarrow> int" where
  "waitForAny mem syscall base futexes =
     (let res = syscall (map (waitv_entry mem base futexes) [0..<length futexes]) in if res \<ge> 0 then res else - 1)"

text \<open>What \<^verbatim>\<open>futexWait\<close> passes is the time-out it was given.\<close>

lemma futexWait_timeout_exact:
  assumes "futexWait_timeout t = Some (sec, nsec)"
  shows "t = sec * 1000000000 + nsec \<and> nsec < 1000000000"
proof -
  have "t = t div 1000000000 * 1000000000 + t mod 1000000000" by (rule div_mult_mod_eq[symmetric])
  moreover have "t mod 1000000000 < 1000000000" by (simp add: word_less_def uint_mod)
  ultimately show ?thesis using assms by (auto simp: futexWait_timeout_def split: if_splits)
qed

text \<open>While \<^verbatim>\<open>stopFlag\<close> is clear, \<^verbatim>\<open>hybridWait\<close> returns after one cycle without having waited, whatever the futex word is.\<close>

lemma hybridWait_no_stop:
  assumes "\<not> snd (obs 1)"
  shows "hybridWait obs val = (1, False)"
proof -
  have "sw_inc (sw_new SPIN_RETRIES_YIELD) = (True, \<lparr>sw_cap = SPIN_RETRIES_YIELD, sw_cycles = 1\<rparr>)"
    by (simp add: sw_inc_def sw_new_def SPIN_RETRIES_HOT_def SPIN_RETRIES_WARM_def SPIN_RETRIES_YIELD_def Let_def)
  then show ?thesis using assms by (simp add: hybridWait_def hybrid_spin.simps)
qed

text \<open>It goes to the futex only when every round saw the old value and a set \<^verbatim>\<open>stopFlag\<close>.\<close>

lemma hybrid_spin_waits:
  "snd (hybrid_spin obs val w) \<Longrightarrow> sw_cycles w < n \<Longrightarrow> n \<le> sw_cycles w + spin_budget w \<Longrightarrow> obs n = (val, True)"
proof (induction obs val w rule: hybrid_spin.induct)
  case (1 obs val waiter)
  obtain go w where i: "sw_inc waiter = (go, w)" by (cases "sw_inc waiter")
  have go: go using sw_inc_True[of waiter] i "1.prems" by simp
  then have c: "sw_cycles w = sw_cycles waiter + 1" "spin_budget waiter = Suc (spin_budget w)"
    using i sw_inc_budget[of waiter] by (auto simp: sw_inc_def Let_def split: if_splits)
  have o: "obs (sw_cycles w) = (val, True)" "snd (hybrid_spin obs val w)"
    using "1.prems"(1) i go by (auto simp: hybrid_spin.simps[of _ _ waiter] prod_eq_iff split: if_splits)
  show ?case
  proof (cases "n = sw_cycles w")
    case False
    then show ?thesis using "1.IH"[OF i[symmetric]] go o c "1.prems" by auto
  qed (use o in simp)
qed

text \<open>\<^verbatim>\<open>waitForAny\<close> passes the same to the kernel whichever futexes it was given, as long as they hold the same values: it waits at the
  elements of the vector, not at the futexes they point to.\<close>

lemma waitForAny_ignores_futexes:
  assumes "map mem fs = map mem gs"
  shows "waitForAny mem syscall base fs = waitForAny mem syscall base gs"
proof -
  have "length fs = length gs" using assms by (rule map_eq_imp_length_eq)
  moreover have "mem (fs ! i) = mem (gs ! i)" if "i < length fs" for i using assms that calculation by (metis nth_map)
  ultimately have "map (waitv_entry mem base fs) [0..<length fs] = map (waitv_entry mem base gs) [0..<length gs]"
    by (intro map_cong) (simp_all add: waitv_entry_def)
  then show ?thesis by (simp only: waitForAny_def)
qed

section \<open>The waiter and its two threads\<close>

record FutexWaiter =
  fw_futex :: u32
  fw_waitFlag :: bool

datatype fw_pc = V_check | V_load | V_flag u32 | V_recheck u32 | V_cancel | V_wait u32 | V_blocked u32 | V_clear

datatype fn_pc = N_idle | N_load | N_add | N_wake

text \<open>\<open>fs_ready\<close> items wait to be taken, \<open>fs_todo\<close> are still to be produced, \<open>fs_taken\<close> were taken.\<close>

record fw_sys =
  fs_w :: FutexWaiter
  fs_waiter :: fw_pc
  fs_notifier :: fn_pc
  fs_todo :: nat
  fs_ready :: nat
  fs_taken :: nat

definition fw_new :: "nat \<Rightarrow> fw_sys" where
  "fw_new n = \<lparr>fs_w = \<lparr>fw_futex = 0, fw_waitFlag = False\<rparr>, fs_waiter = V_check, fs_notifier = N_idle, fs_todo = n, fs_ready = 0, fs_taken = 0\<rparr>"

text \<open>\<open>V_load\<close> and \<open>V_flag\<close> are \<^verbatim>\<open>prepareWait\<close>, \<open>V_cancel\<close> is \<^verbatim>\<open>cancelWait\<close>, \<open>V_wait\<close> to \<open>V_clear\<close> are \<^verbatim>\<open>wait\<close>; the other two are looks of the consumer at
  its items.\<close>

definition fw_waiter_step :: "fw_sys \<Rightarrow> fw_sys option" where
  "fw_waiter_step s =
     (case fs_waiter s of
        V_check \<Rightarrow>
          Some (if fs_ready s > 0 then s\<lparr>fs_ready := fs_ready s - 1, fs_taken := fs_taken s + 1\<rparr> else s\<lparr>fs_waiter := V_load\<rparr>)
      | V_load \<Rightarrow> Some (s\<lparr>fs_waiter := V_flag (fw_futex (fs_w s))\<rparr>)
      | V_flag v \<Rightarrow> Some (s\<lparr>fs_w := (fs_w s)\<lparr>fw_waitFlag := True\<rparr>, fs_waiter := V_recheck v\<rparr>)
      | V_recheck v \<Rightarrow> Some (s\<lparr>fs_waiter := if fs_ready s > 0 then V_cancel else V_wait v\<rparr>)
      | V_cancel \<Rightarrow> Some (s\<lparr>fs_w := (fs_w s)\<lparr>fw_waitFlag := False\<rparr>, fs_waiter := V_check\<rparr>)
      | V_wait v \<Rightarrow> Some (s\<lparr>fs_waiter := if fw_futex (fs_w s) = v then V_blocked v else V_clear\<rparr>)
      | V_blocked v \<Rightarrow> None
      | V_clear \<Rightarrow> Some (s\<lparr>fs_w := (fs_w s)\<lparr>fw_waitFlag := False\<rparr>, fs_waiter := V_check\<rparr>))"

text \<open>The producer adds an item and calls \<^verbatim>\<open>notify\<close>.\<close>

definition fw_notify_step :: "fw_sys \<Rightarrow> fw_sys option" where
  "fw_notify_step s =
     (case fs_notifier s of
        N_idle \<Rightarrow>
          (if fs_todo s = 0 then None
           else Some (s\<lparr>fs_todo := fs_todo s - 1, fs_ready := fs_ready s + 1, fs_notifier := N_load\<rparr>))
      | N_load \<Rightarrow> Some (s\<lparr>fs_notifier := if fw_waitFlag (fs_w s) then N_add else N_idle\<rparr>)
      | N_add \<Rightarrow> Some (s\<lparr>fs_w := (fs_w s)\<lparr>fw_futex := fw_futex (fs_w s) + 1\<rparr>, fs_notifier := N_wake\<rparr>)
      | N_wake \<Rightarrow>
          Some (s\<lparr>fs_waiter := case fs_waiter s of V_blocked v \<Rightarrow> V_clear | pc \<Rightarrow> pc, fs_notifier := N_idle\<rparr>))"

inductive fw_step :: "fw_sys \<Rightarrow> fw_sys \<Rightarrow> bool" where
  waiter: "fw_waiter_step s = Some s' \<Longrightarrow> fw_step s s'"
| notifier: "fw_notify_step s = Some s' \<Longrightarrow> fw_step s s'"

inductive_cases fw_stepE: "fw_step s s'"

section \<open>No item is left behind\<close>

text \<open>How many times the futex word can still be advanced.\<close>

definition fw_adds :: "fw_sys \<Rightarrow> nat" where
  "fw_adds s = fs_todo s + (if fs_notifier s \<in> {N_load, N_add} then 1 else 0)"

text \<open>What holds where the consumer is: a value it read has not come round again, its flag is up from the second look on, and an item
  that came after the second look has changed the futex word or is about to.\<close>

definition fw_at :: "fw_sys \<Rightarrow> bool" where
  "fw_at s \<longleftrightarrow>
     (case fs_waiter s of
        V_flag v \<Rightarrow> unat (fw_futex (fs_w s) - v) + fw_adds s < 2 ^ 32
      | V_recheck v \<Rightarrow> unat (fw_futex (fs_w s) - v) + fw_adds s < 2 ^ 32 \<and> fw_waitFlag (fs_w s)
      | V_wait v \<Rightarrow> unat (fw_futex (fs_w s) - v) + fw_adds s < 2 ^ 32 \<and> fw_waitFlag (fs_w s) \<and>
          (fs_ready s > 0 \<longrightarrow> fw_futex (fs_w s) \<noteq> v \<or> fs_notifier s \<in> {N_load, N_add})
      | V_blocked v \<Rightarrow> fw_waitFlag (fs_w s) \<and> (fs_ready s > 0 \<longrightarrow> fs_notifier s \<noteq> N_idle)
      | _ \<Rightarrow> True)"

definition fw_inv :: "nat \<Rightarrow> fw_sys \<Rightarrow> bool" where
  "fw_inv n s \<longleftrightarrow> fs_todo s + fs_ready s + fs_taken s = n \<and> fw_adds s < 2 ^ 32 \<and> fw_at s"

lemma fw_inv_new: "n < 2 ^ 32 \<Longrightarrow> fw_inv n (fw_new n)"
  by (simp add: fw_inv_def fw_new_def fw_adds_def fw_at_def)

lemma fw_inv_waiter: "fw_inv n s \<Longrightarrow> fw_waiter_step s = Some s' \<Longrightarrow> fw_inv n s'"
  by (cases "fs_waiter s") (auto simp: fw_waiter_step_def fw_inv_def fw_at_def fw_adds_def)

text \<open>Advancing the futex word moves it away from a value read before.\<close>

lemma futex_advance:
  fixes f v :: u32
  assumes "unat (f - v) + Suc k < 2 ^ 32"
  shows "f + 1 \<noteq> v" "unat (f + 1 - v) + k < 2 ^ 32"
proof -
  have e: "f + 1 - v = (f - v) + 1" by simp
  have "unat ((f - v) + 1) = unat (f - v) + 1" using assms by (simp add: unat_word_ariths)
  then have u: "unat (f + 1 - v) = unat (f - v) + 1" unfolding e .
  then show "unat (f + 1 - v) + k < 2 ^ 32" using assms by simp
  show "f + 1 \<noteq> v" using u by auto
qed

lemma fw_inv_notifier:
  assumes inv: "fw_inv n s" and st: "fw_notify_step s = Some s'"
  shows "fw_inv n s'"
proof (cases "fs_notifier s")
  case N_add
  have "unat (fw_futex (fs_w s) + 1 - v) + fs_todo s < 2 ^ 32 \<and> fw_futex (fs_w s) + 1 \<noteq> v"
    if "fs_waiter s \<in> {V_flag v, V_recheck v, V_wait v}" for v
    using futex_advance[of "fw_futex (fs_w s)" v "fs_todo s"] inv that N_add by (auto simp: fw_inv_def fw_at_def fw_adds_def)
  then show ?thesis using inv st N_add
    by (cases "fs_waiter s") (auto simp: fw_notify_step_def fw_inv_def fw_at_def fw_adds_def)
qed (use inv st in \<open>cases "fs_waiter s"; auto simp: fw_notify_step_def fw_inv_def fw_at_def fw_adds_def split: if_splits\<close>)+

lemma fw_inv_step: "fw_step s s' \<Longrightarrow> fw_inv n s \<Longrightarrow> fw_inv n s'"
  by (auto elim!: fw_stepE intro: fw_inv_waiter fw_inv_notifier)

lemma fw_inv_run: "fw_step\<^sup>*\<^sup>* s s' \<Longrightarrow> fw_inv n s \<Longrightarrow> fw_inv n s'"
  by (induction rule: rtranclp_induct) (auto intro: fw_inv_step)

text \<open>A state in which nobody can step: the consumer sleeps and all items were taken.\<close>

lemma fw_stuck:
  assumes "fw_inv n s" "\<nexists>s'. fw_step s s'"
  shows "fs_taken s = n" "\<exists>v. fs_waiter s = V_blocked v"
proof -
  have w: "fw_waiter_step s = None" and m: "fw_notify_step s = None" using assms(2) by (meson fw_step.intros not_None_eq)+
  show b: "\<exists>v. fs_waiter s = V_blocked v" using w by (auto simp: fw_waiter_step_def split: fw_pc.splits)
  have "fs_notifier s = N_idle" "fs_todo s = 0" using m by (auto simp: fw_notify_step_def split: fn_pc.splits if_splits)
  then show "fs_taken s = n" using assms(1) b by (auto simp: fw_inv_def fw_at_def)
qed

section \<open>Every run ends\<close>

text \<open>Each item pays for the producer's steps, for the rounds of the consumer that its wake-up causes, and for taking it.\<close>

definition fw_left :: "fw_sys \<Rightarrow> nat" where
  "fw_left s =
     (let ready = (if fs_ready s > 0 then 5 else 0); moved = (\<lambda>v. if fw_futex (fs_w s) \<noteq> v then 10 else 0)
      in 200 * fs_todo s + 20 * fs_ready s +
         (case fs_notifier s of N_idle \<Rightarrow> 0 | N_load \<Rightarrow> 90 | N_add \<Rightarrow> 60 | N_wake \<Rightarrow> 30) +
         (case fs_waiter s of
            V_check \<Rightarrow> 7 | V_load \<Rightarrow> 6 + ready | V_flag v \<Rightarrow> 5 + ready + moved v | V_recheck v \<Rightarrow> 4 + ready + moved v
          | V_cancel \<Rightarrow> 8 | V_wait v \<Rightarrow> 3 + moved v | V_blocked v \<Rightarrow> 0 | V_clear \<Rightarrow> 8))"

lemma fw_left_waiter: "fw_waiter_step s = Some s' \<Longrightarrow> fw_left s' < fw_left s"
  by (auto simp: fw_waiter_step_def fw_left_def Let_def split: fw_pc.splits if_splits)

lemma fw_left_notifier: "fw_notify_step s = Some s' \<Longrightarrow> fw_left s' < fw_left s"
  by (cases "fs_notifier s"; cases "fs_waiter s") (auto simp: fw_notify_step_def fw_left_def Let_def split: if_splits)

lemma fw_step_left: "fw_step s s' \<Longrightarrow> fw_left s' < fw_left s"
  by (auto elim!: fw_stepE intro: fw_left_waiter fw_left_notifier)

lemma fw_run_ends: "\<exists>s'. fw_step\<^sup>*\<^sup>* s s' \<and> (\<nexists>s''. fw_step s' s'')"
proof (induction "fw_left s" arbitrary: s rule: less_induct)
  case less
  show ?case
  proof (cases "\<exists>s'. fw_step s s'")
    case True
    then obtain s' where "fw_step s s'" by blast
    then show ?thesis using less[OF fw_step_left] by (meson converse_rtranclp_into_rtranclp)
  qed blast
qed

text \<open>Fewer than \<open>2 ^ 32\<close> items: wherever the threads are, the consumer never sleeps on an item unless the producer is about to wake it; no run
  goes on for ever, it can be continued to its end, and a run that has ended has taken every item.\<close>

theorem futex_waiter_no_lost_wakeup:
  assumes n: "n < 2 ^ 32" and run: "fw_step\<^sup>*\<^sup>* (fw_new n) s"
  shows "(\<forall>v. fs_waiter s = V_blocked v \<longrightarrow> fs_ready s > 0 \<longrightarrow> fs_notifier s \<noteq> N_idle) \<and>
    wfP (\<lambda>s' s. fw_step s s') \<and>
    (\<exists>s'. fw_step\<^sup>*\<^sup>* s s' \<and> (\<nexists>s''. fw_step s' s'')) \<and>
    ((\<nexists>s'. fw_step s s') \<longrightarrow> fs_taken s = n)"
proof (intro conjI fw_run_ends impI)
  note inv = fw_inv_run[OF run fw_inv_new[OF n]]
  show "\<forall>v. fs_waiter s = V_blocked v \<longrightarrow> fs_ready s > 0 \<longrightarrow> fs_notifier s \<noteq> N_idle" using inv by (auto simp: fw_inv_def fw_at_def)
  show "wfP (\<lambda>s' s. fw_step s s')"
    by (rule wfp_subset[OF wfp_if_convertible_to_nat[of "\<lambda>a b. fw_left a < fw_left b" fw_left]]) (auto intro: fw_step_left)
  show "fs_taken s = n" if "\<nexists>s'. fw_step s s'" using fw_stuck(1)[OF inv that] .
qed

end
