(* ===== verification/Stream_Threads.thy ===== *)
theory Stream_Threads
  imports Bus "HOL-Library.Multiset"
begin

text \<open>
  The thread of \<^verbatim>\<open>StreamBus::run\<close> (\<^verbatim>\<open>common/src/bus/stream_bus.hpp\<close>) against a thread that posts and stops, one shared access at a time. One event
  type with a handler; its queue is the FIFO list that \<^const>\<open>vy_push\<close> and \<^const>\<open>vy_pop\<close> refine. The state starts when \<^verbatim>\<open>run\<close> has
  returned, that is, when the thread exists.
\<close>

datatype stream_pc = Q_start | Q_loop | Q_round bool | Q_spin | Q_load | Q_flag u32 | Q_wait u32 | Q_blocked u32 | Q_clear | Q_done

datatype 'm stream_call = Post_call 'm | Stop_call

datatype 'm caller_pc = C_idle | C_push 'm SpinWait | C_check | C_add | C_wake | C_stop

record 'm StreamRun =
  sr_running :: bool
  sr_sleeping :: bool
  sr_futex :: u32
  sr_queue :: "'m list"
  sr_runner :: stream_pc
  sr_waiter :: SpinWait
  sr_caller :: "'m caller_pc"
  sr_calls :: "'m stream_call list"
  sr_pushed :: "'m list"
  sr_refused :: "'m list"
  sr_handled :: "'m list"

definition stream_run_new :: "u32 \<Rightarrow> 'm stream_call list \<Rightarrow> 'm StreamRun" where
  "stream_run_new ftx calls =
     \<lparr>sr_running = False, sr_sleeping = False, sr_futex = ftx, sr_queue = [], sr_runner = Q_start, sr_waiter = sw_new SPIN_RETRIES_YIELD,
      sr_caller = C_idle, sr_calls = calls, sr_pushed = [], sr_refused = [], sr_handled = []\<rparr>"

text \<open>The runner. \<open>Q_round\<close> is \<^verbatim>\<open>process\<close> with what it will return; \<open>Q_load\<close> to \<open>Q_clear\<close> are \<^verbatim>\<open>waitForData\<close>.\<close>

definition stream_runner_step :: "'m StreamRun \<Rightarrow> 'm StreamRun option" where
  "stream_runner_step s =
     (case sr_runner s of
        Q_start \<Rightarrow> Some (s\<lparr>sr_running := True, sr_waiter := sw_new SPIN_RETRIES_YIELD, sr_runner := Q_loop\<rparr>)
      | Q_loop \<Rightarrow> Some (s\<lparr>sr_runner := if sr_running s then Q_round False else Q_done\<rparr>)
      | Q_round got \<Rightarrow>
          (case sr_queue s of
             m # ms \<Rightarrow> Some (s\<lparr>sr_queue := ms, sr_handled := sr_handled s @ [m], sr_runner := Q_round True\<rparr>)
           | [] \<Rightarrow> Some (if got then s\<lparr>sr_waiter := sw_reset (sr_waiter s), sr_runner := Q_loop\<rparr> else s\<lparr>sr_runner := Q_spin\<rparr>))
      | Q_spin \<Rightarrow> (case sw_inc (sr_waiter s) of (b, w) \<Rightarrow> Some (s\<lparr>sr_waiter := w, sr_runner := if b then Q_loop else Q_load\<rparr>))
      | Q_load \<Rightarrow> Some (s\<lparr>sr_runner := Q_flag (sr_futex s)\<rparr>)
      | Q_flag v \<Rightarrow> Some (s\<lparr>sr_sleeping := True, sr_runner := Q_wait v\<rparr>)
      | Q_wait v \<Rightarrow> Some (s\<lparr>sr_runner := if sr_futex s = v then Q_blocked v else Q_clear\<rparr>)
      | Q_blocked v \<Rightarrow> None
      | Q_clear \<Rightarrow> Some (s\<lparr>sr_sleeping := False, sr_waiter := sw_reset (sr_waiter s), sr_runner := Q_loop\<rparr>)
      | Q_done \<Rightarrow> None)"

text \<open>The caller: \<^verbatim>\<open>post\<close> with its retries and \<^verbatim>\<open>notify\<close>, and \<^verbatim>\<open>stop\<close>.\<close>

definition stream_call_step :: "'m StreamRun \<Rightarrow> 'm StreamRun option" where
  "stream_call_step s =
     (case sr_caller s of
        C_idle \<Rightarrow>
          (case sr_calls s of
             [] \<Rightarrow> None
           | Post_call m # cs \<Rightarrow>
               Some (if sr_running s then s\<lparr>sr_calls := cs, sr_caller := C_push m (sw_new SPIN_RETRIES_YIELD)\<rparr>
                     else s\<lparr>sr_calls := cs, sr_refused := sr_refused s @ [m]\<rparr>)
           | Stop_call # cs \<Rightarrow> Some (s\<lparr>sr_calls := cs, sr_running := False, sr_caller := C_stop\<rparr>))
      | C_push m w \<Rightarrow>
          Some (if length (sr_queue s) < 2 ^ STREAM_K then s\<lparr>sr_queue := sr_queue s @ [m], sr_pushed := sr_pushed s @ [m], sr_caller := C_check\<rparr>
                else case sw_inc w of (b, w') \<Rightarrow>
                  if b then s\<lparr>sr_caller := C_push m w'\<rparr> else s\<lparr>sr_refused := sr_refused s @ [m], sr_caller := C_idle\<rparr>)
      | C_check \<Rightarrow> Some (s\<lparr>sr_caller := if sr_sleeping s then C_add else C_idle\<rparr>)
      | C_add \<Rightarrow> Some (s\<lparr>sr_futex := sr_futex s + 1, sr_caller := C_wake\<rparr>)
      | C_stop \<Rightarrow> Some (s\<lparr>sr_futex := sr_futex s + 1, sr_caller := C_wake\<rparr>)
      | C_wake \<Rightarrow> Some (s\<lparr>sr_runner := case sr_runner s of Q_blocked v \<Rightarrow> Q_clear | pc \<Rightarrow> pc, sr_caller := C_idle\<rparr>))"

inductive stream_step :: "'m StreamRun \<Rightarrow> 'm StreamRun \<Rightarrow> bool" where
  runner: "stream_runner_step s = Some s' \<Longrightarrow> stream_step s s'"
| caller: "stream_call_step s = Some s' \<Longrightarrow> stream_step s s'"

inductive_cases stream_stepE: "stream_step s s'"

section \<open>Delivery\<close>

text \<open>The events a list of calls posts, and the event a post under way has not pushed yet.\<close>

definition posts_of :: "'m stream_call list \<Rightarrow> 'm list" where
  "posts_of cs = concat (map (\<lambda>c. case c of Post_call m \<Rightarrow> [m] | Stop_call \<Rightarrow> []) cs)"

definition in_hand :: "'m caller_pc \<Rightarrow> 'm list" where
  "in_hand pc = (case pc of C_push m w \<Rightarrow> [m] | _ \<Rightarrow> [])"

lemma posts_of_simps [simp]:
  "posts_of [] = []" "posts_of (Post_call m # cs) = m # posts_of cs" "posts_of (Stop_call # cs) = posts_of cs"
  by (simp_all add: posts_of_def)

lemma in_hand_simps [simp]: "in_hand C_idle = []" "in_hand (C_push m w) = [m]" "in_hand C_check = []" "in_hand C_add = []" "in_hand C_wake = []"
  "in_hand C_stop = []"
  by (simp_all add: in_hand_def)

definition stream_inv :: "'m list \<Rightarrow> 'm StreamRun \<Rightarrow> bool" where
  "stream_inv ms s \<longleftrightarrow> sr_pushed s = sr_handled s @ sr_queue s \<and>
     mset ms = mset (sr_pushed s) + mset (sr_refused s) + mset (in_hand (sr_caller s)) + mset (posts_of (sr_calls s)) \<and>
     length (sr_queue s) \<le> 2 ^ STREAM_K"

lemma stream_inv_runner: "stream_inv ms s \<Longrightarrow> stream_runner_step s = Some s' \<Longrightarrow> stream_inv ms s'"
  by (cases "sr_runner s") (auto simp: stream_runner_step_def stream_inv_def split: list.splits prod.splits if_splits)

lemma stream_inv_caller: "stream_inv ms s \<Longrightarrow> stream_call_step s = Some s' \<Longrightarrow> stream_inv ms s'"
  by (cases "sr_caller s") (auto simp: stream_call_step_def stream_inv_def split: list.splits prod.splits if_splits stream_call.splits)

lemma stream_inv_run: "stream_step\<^sup>*\<^sup>* s s' \<Longrightarrow> stream_inv ms s \<Longrightarrow> stream_inv ms s'"
  by (induction rule: rtranclp_induct) (auto elim!: stream_stepE intro: stream_inv_runner stream_inv_caller)

text \<open>In every interleaving the handler has seen a prefix of the pushed events, in order and once each; an event posted is pushed, or its post
  returns false, or is still under way.\<close>

theorem stream_delivers_in_order:
  assumes "stream_step\<^sup>*\<^sup>* (stream_run_new ftx calls) s"
  shows "sr_pushed s = sr_handled s @ sr_queue s \<and>
    mset (posts_of calls) = mset (sr_pushed s) + mset (sr_refused s) + mset (in_hand (sr_caller s)) + mset (posts_of (sr_calls s)) \<and>
    length (sr_queue s) \<le> 2 ^ STREAM_K"
  using stream_inv_run[OF assms, of "posts_of calls"] by (simp add: stream_inv_def stream_run_new_def)

section \<open>Faults of the start, the wait and the stop\<close>

lemma stream_runner_steps:
  "stream_runner_step s = Some s' \<Longrightarrow> stream_step\<^sup>*\<^sup>* s' t \<Longrightarrow> stream_step\<^sup>*\<^sup>* s t"
  by (meson converse_rtranclp_into_rtranclp stream_step.runner)

lemma stream_call_steps:
  "stream_call_step s = Some s' \<Longrightarrow> stream_step\<^sup>*\<^sup>* s' t \<Longrightarrow> stream_step\<^sup>*\<^sup>* s t"
  by (meson converse_rtranclp_into_rtranclp stream_step.caller)

text \<open>With nothing to do the runner spins down to the wait, from the top of its loop and from the round alike.\<close>

lemma stream_spin_down:
  assumes "sr_running s" "sr_queue s = []" "sr_runner s = Q_round False"
  shows "\<exists>w. stream_step\<^sup>*\<^sup>* s (s\<lparr>sr_waiter := w, sr_runner := Q_load\<rparr>)"
  using assms
proof (induction "spin_budget (sr_waiter s)" arbitrary: s)
  case 0
  obtain w where b: "sw_inc (sr_waiter s) = (False, w)" using 0(1) sw_inc_True[of "sr_waiter s"] by (cases "sw_inc (sr_waiter s)") simp
  have "stream_runner_step s = Some (s\<lparr>sr_runner := Q_spin\<rparr>)" using 0 by (simp add: stream_runner_step_def)
  moreover have "stream_runner_step (s\<lparr>sr_runner := Q_spin\<rparr>) = Some (s\<lparr>sr_waiter := w, sr_runner := Q_load\<rparr>)"
    using b by (simp add: stream_runner_step_def)
  ultimately show ?case by (blast intro: stream_runner_steps)
next
  case (Suc n)
  obtain w where i: "sw_inc (sr_waiter s) = (True, w)" using Suc(2) sw_inc_True[of "sr_waiter s"] by (cases "sw_inc (sr_waiter s)") auto
  let ?s = "s\<lparr>sr_waiter := w, sr_runner := Q_round False\<rparr>"
  obtain w' where w': "stream_step\<^sup>*\<^sup>* ?s (s\<lparr>sr_waiter := w', sr_runner := Q_load\<rparr>)"
    using Suc(1)[of ?s] Suc(2-) sw_inc_budget[of "sr_waiter s"] i by auto
  have "stream_runner_step s = Some (s\<lparr>sr_runner := Q_spin\<rparr>)" using Suc by (simp add: stream_runner_step_def)
  moreover have "stream_runner_step (s\<lparr>sr_runner := Q_spin\<rparr>) = Some (s\<lparr>sr_waiter := w, sr_runner := Q_loop\<rparr>)"
    using i by (simp add: stream_runner_step_def)
  moreover have "stream_runner_step (s\<lparr>sr_waiter := w, sr_runner := Q_loop\<rparr>) = Some ?s" using Suc by (simp add: stream_runner_step_def)
  ultimately show ?case using w' by (blast intro: stream_runner_steps)
qed

lemma stream_reaches_wait:
  "\<exists>w. stream_step\<^sup>*\<^sup>* (stream_run_new ftx calls) ((stream_run_new ftx calls)\<lparr>sr_running := True, sr_waiter := w, sr_runner := Q_load\<rparr>)"
proof -
  let ?s = "(stream_run_new ftx calls)\<lparr>sr_running := True, sr_runner := Q_round False\<rparr>"
  obtain w where "stream_step\<^sup>*\<^sup>* ?s (?s\<lparr>sr_waiter := w, sr_runner := Q_load\<rparr>)" using stream_spin_down[of ?s] by (auto simp: stream_run_new_def)
  moreover have "stream_runner_step (?s\<lparr>sr_runner := Q_loop\<rparr>) = Some ?s"
    "stream_runner_step (stream_run_new ftx calls) = Some (?s\<lparr>sr_runner := Q_loop\<rparr>)" by (simp_all add: stream_runner_step_def stream_run_new_def)
  ultimately have "stream_step\<^sup>*\<^sup>* (stream_run_new ftx calls) (?s\<lparr>sr_waiter := w, sr_runner := Q_load\<rparr>)" by (blast intro: stream_runner_steps)
  then show ?thesis by (intro exI[of _ w]) simp
qed

text \<open>The state in which the runner sleeps on the value it found, while the caller has finished.\<close>

definition asleep :: "'m StreamRun \<Rightarrow> bool" where
  "asleep s \<longleftrightarrow> (\<exists>v. sr_runner s = Q_blocked v) \<and> sr_caller s = C_idle \<and> sr_calls s = []"

lemma asleep_stuck: "asleep s \<Longrightarrow> \<not> stream_step s s'"
  by (auto simp: asleep_def stream_runner_step_def stream_call_step_def elim!: stream_stepE)

lemma runner_falls_asleep:
  assumes "sr_runner s = Q_load" "sr_caller s = C_idle" "sr_calls s = []"
  shows "\<exists>t. stream_step\<^sup>*\<^sup>* s t \<and> asleep t \<and> sr_queue t = sr_queue s \<and> sr_handled t = sr_handled s \<and> sr_running t = sr_running s"
proof -
  let ?v = "sr_futex s"
  let ?t = "s\<lparr>sr_sleeping := True, sr_runner := Q_blocked ?v\<rparr>"
  have "stream_step\<^sup>*\<^sup>* s ?t" using assms
    by (intro stream_runner_steps[of s "s\<lparr>sr_runner := Q_flag ?v\<rparr>"]
        stream_runner_steps[of "s\<lparr>sr_runner := Q_flag ?v\<rparr>" "s\<lparr>sr_sleeping := True, sr_runner := Q_wait ?v\<rparr>"]
        stream_runner_steps[of "s\<lparr>sr_sleeping := True, sr_runner := Q_wait ?v\<rparr>" ?t])
      (simp_all add: stream_runner_step_def)
  then show ?thesis using assms by (intro exI[of _ ?t]) (simp add: asleep_def)
qed

text \<open>An event pushed after the last empty round and before \<^verbatim>\<open>waitForData\<close> raises its flag wakes nobody: the post returned true, the event
  lies in the queue, and no thread can take a step.\<close>

theorem stream_wait_loses_event:
  "\<exists>s. stream_step\<^sup>*\<^sup>* (stream_run_new ftx [Post_call m]) s \<and> asleep s \<and> sr_queue s = [m] \<and> sr_handled s = [] \<and> (\<forall>s'. \<not> stream_step s s')"
proof -
  obtain w where w: "stream_step\<^sup>*\<^sup>* (stream_run_new ftx [Post_call m])
      ((stream_run_new ftx [Post_call m])\<lparr>sr_running := True, sr_waiter := w, sr_runner := Q_load\<rparr>)" (is "stream_step\<^sup>*\<^sup>* _ ?s")
    using stream_reaches_wait by blast
  let ?p = "?s\<lparr>sr_calls := [], sr_caller := C_push m (sw_new SPIN_RETRIES_YIELD)\<rparr>"
  let ?c = "?p\<lparr>sr_queue := [m], sr_pushed := [m], sr_caller := C_check\<rparr>"
  let ?i = "?c\<lparr>sr_caller := C_idle\<rparr>"
  obtain t where t: "stream_step\<^sup>*\<^sup>* ?i t" "asleep t" "sr_queue t = [m]" "sr_handled t = []"
    using runner_falls_asleep[of ?i] by (auto simp: stream_run_new_def)
  have "stream_call_step ?s = Some ?p" "stream_call_step ?p = Some ?c" "stream_call_step ?c = Some ?i"
    by (simp_all add: stream_call_step_def stream_run_new_def)
  from this(1) stream_call_steps[OF this(2) stream_call_steps[OF this(3) t(1)]] have "stream_step\<^sup>*\<^sup>* ?s t" by (rule stream_call_steps)
  then show ?thesis using rtranclp_trans[OF w] t asleep_stuck by blast
qed

text \<open>A stop that comes after the last look at \<^verbatim>\<open>running_\<close> and before the futex word is read wakes nobody either: the runner goes to sleep for
  good and the join of its thread does not return.\<close>

theorem stream_stop_can_hang:
  "\<exists>s :: 'm StreamRun. stream_step\<^sup>*\<^sup>* (stream_run_new ftx [Stop_call]) s \<and> asleep s \<and> \<not> sr_running s \<and> (\<forall>s'. \<not> stream_step s s')"
proof -
  obtain w where w: "stream_step\<^sup>*\<^sup>* (stream_run_new ftx [Stop_call] :: 'm StreamRun)
      ((stream_run_new ftx [Stop_call])\<lparr>sr_running := True, sr_waiter := w, sr_runner := Q_load\<rparr>)" (is "stream_step\<^sup>*\<^sup>* _ ?s")
    using stream_reaches_wait by blast
  let ?p = "?s\<lparr>sr_calls := [], sr_running := False, sr_caller := C_stop\<rparr>"
  let ?c = "?p\<lparr>sr_futex := sr_futex ?p + 1, sr_caller := C_wake\<rparr>"
  let ?i = "?c\<lparr>sr_caller := C_idle\<rparr>"
  obtain t where t: "stream_step\<^sup>*\<^sup>* ?i t" "asleep t" "\<not> sr_running t" using runner_falls_asleep[of ?i] by (auto simp: stream_run_new_def)
  have "stream_call_step ?s = Some ?p" "stream_call_step ?p = Some ?c" "stream_call_step ?c = Some ?i"
    by (simp_all add: stream_call_step_def stream_run_new_def)
  from this(1) stream_call_steps[OF this(2) stream_call_steps[OF this(3) t(1)]] have "stream_step\<^sup>*\<^sup>* ?s t" by (rule stream_call_steps)
  then show ?thesis using rtranclp_trans[OF w] t asleep_stuck by blast
qed

text \<open>\<^verbatim>\<open>running_\<close> is set by the thread, not by \<^verbatim>\<open>run\<close>: an event posted before the thread has started is refused, and a stop before that is
  overwritten, after which the runner never ends.\<close>

lemma stream_no_stop_forever:
  assumes "stream_step\<^sup>*\<^sup>* s t" "sr_running s" "sr_calls s = []" "sr_caller s = C_idle" "sr_runner s \<noteq> Q_done"
  shows "sr_running t \<and> sr_calls t = [] \<and> sr_caller t = C_idle \<and> sr_runner t \<noteq> Q_done"
  using assms
proof (induction rule: rtranclp_induct)
  case (step y z)
  then have y: "sr_running y" "sr_calls y = []" "sr_caller y = C_idle" "sr_runner y \<noteq> Q_done" by simp_all
  then have "stream_runner_step y = Some z" using step(2) by (auto simp: stream_call_step_def elim!: stream_stepE)
  then show ?case using y by (cases "sr_runner y") (auto simp: stream_runner_step_def split: list.splits prod.splits if_splits)
qed simp

theorem stream_early_calls_lost:
  "\<exists>s. stream_step\<^sup>*\<^sup>* (stream_run_new ftx [Post_call m, Stop_call]) s \<and> sr_calls s = [] \<and> sr_refused s = [m] \<and>
     (\<forall>t. stream_step\<^sup>*\<^sup>* s t \<longrightarrow> sr_running t \<and> sr_runner t \<noteq> Q_done)"
proof -
  let ?n = "stream_run_new ftx [Post_call m, Stop_call]"
  let ?a = "?n\<lparr>sr_calls := [Stop_call], sr_refused := [m]\<rparr>"
  let ?b = "?a\<lparr>sr_calls := [], sr_running := False, sr_caller := C_stop\<rparr>"
  let ?c = "?b\<lparr>sr_futex := sr_futex ?b + 1, sr_caller := C_wake\<rparr>"
  let ?d = "?c\<lparr>sr_caller := C_idle\<rparr>"
  let ?s = "?d\<lparr>sr_running := True, sr_runner := Q_loop\<rparr>"
  have "stream_step\<^sup>*\<^sup>* ?n ?s"
    by (intro stream_call_steps[of ?n ?a] stream_call_steps[of ?a ?b] stream_call_steps[of ?b ?c] stream_call_steps[of ?c ?d]
        stream_runner_steps[of ?d ?s]) (simp_all add: stream_call_step_def stream_runner_step_def stream_run_new_def)
  moreover have "sr_running t \<and> sr_runner t \<noteq> Q_done" if "stream_step\<^sup>*\<^sup>* ?s t" for t
    using stream_no_stop_forever[OF that] by (simp add: stream_run_new_def)
  ultimately show ?thesis by (intro exI[of _ ?s]) (simp add: stream_run_new_def)
qed

end
